(* ===== verification/Prelude.thy ===== *)
theory Prelude
  imports Complex_Main "HOL-Library.Word" "HOL-Library.Product_Lexorder"
    "HOL-Library.List_Lexorder" "HOL-Library.Char_ord" "HOL-Library.AList"
    "HOL-Library.Signed_Division" "HOL-Library.Sublist"
begin

text \<open>
  What every component of the development shares: the names of the machine types, the
  64-bit successor with its wrap-around, decimal printing as \<^verbatim>\<open>std::to_string\<close> and
  \<^verbatim>\<open>snprintf("%08llu")\<close> do it, directories as association lists, and the generic
  lemmas on lists and options that the component proofs use.

  \<^item> \<open>uint64_t\<close> is \<open>nat\<close>; every \<open>x + 1\<close> of the code on such a value is \<open>inc64\<close>, which
    wraps at \<open>2 ^ 64\<close>. Counters that only report (statistics) use plain addition.
  \<^item> \<open>int64_t\<close> and \<open>int\<close> are \<open>int\<close>: they hold milliseconds and small configuration values.
  \<^item> \<open>double\<close> is \<open>real\<close>: rounding of the floating-point format is not modelled; the
    conversion \<open>(int64_t) x\<close> truncates towards zero (\<open>trunc\<close>).
  \<^item> A byte vector is a list of 8-bit words.
\<close>

section \<open>Machine types\<close>

type_synonym byte = "8 word"
type_synonym bytes = "8 word list"
type_synonym u64 = nat
type_synonym i64 = int
type_synonym double = real

named_theorems u64_simps \<open>facts about 64-bit sequence numbers\<close>

definition u64_max :: nat where
  "u64_max = 2 ^ 64 - 1"

definition inc64 :: "u64 \<Rightarrow> u64" where
  "inc64 s = (s + 1) mod 2 ^ 64"

definition trunc :: "double \<Rightarrow> int" where
  "trunc x = (if 0 \<le> x then \<lfloor>x\<rfloor> else \<lceil>x\<rceil>)"

lemma inc64_less [u64_simps]: "s < u64_max \<Longrightarrow> inc64 s = s + 1"
  by (simp add: inc64_def u64_max_def)

lemma inc64_max [u64_simps]: "inc64 u64_max = 0"
  by (simp add: inc64_def u64_max_def)

lemma inc64_le: "inc64 s \<le> s + 1"
  unfolding inc64_def by (rule mod_less_eq_dividend)

lemma inc64_cases: "s \<le> u64_max \<Longrightarrow> (s < u64_max \<and> inc64 s = s + 1) \<or> (s = u64_max \<and> inc64 s = 0)"
  by (cases "s = u64_max") (auto simp: u64_simps)

lemma trunc_of_int [simp]: "trunc (of_int i) = i"
  by (simp add: trunc_def)

lemma trunc_nonneg: "0 \<le> x \<Longrightarrow> 0 \<le> trunc x"
  by (simp add: trunc_def)

lemma trunc_mono: "x \<le> y \<Longrightarrow> trunc x \<le> trunc y"
proof -
  assume le: "x \<le> y"
  consider "0 \<le> x" | "x < 0" "0 \<le> y" | "x < 0" "y < 0" by linarith
  then show ?thesis
  proof cases
    case 1
    with le show ?thesis by (simp add: trunc_def floor_mono)
  next
    case 2
    then have "\<lceil>x\<rceil> \<le> 0" by simp
    moreover have "0 \<le> \<lfloor>y\<rfloor>" using 2 by simp
    ultimately have "\<lceil>x\<rceil> \<le> \<lfloor>y\<rfloor>" by (rule order_trans)
    with 2 show ?thesis by (simp add: trunc_def)
  next
    case 3
    with le show ?thesis by (simp add: trunc_def ceiling_mono)
  qed
qed


section \<open>Decimal text\<close>

text \<open>
  \<open>nat_str\<close> is \<^verbatim>\<open>std::to_string\<close> on an unsigned value and \<open>pad8\<close> the zero padding of
  \<^verbatim>\<open>%08llu\<close>; \<open>read_nat\<close> reads decimal digits back, as \<^verbatim>\<open>std::stoull\<close> does on a string of
  digits.
\<close>

definition digit_char :: "nat \<Rightarrow> char" where
  "digit_char d = char_of (48 + d)"

fun nat_str :: "nat \<Rightarrow> string" where
  "nat_str n = (if n < 10 then [digit_char n] else nat_str (n div 10) @ [digit_char (n mod 10)])"

declare nat_str.simps [simp del]

definition int_str :: "int \<Rightarrow> string" where
  "int_str i = (if i < 0 then CHR ''-'' # nat_str (nat (- i)) else nat_str (nat i))"

text \<open>The UTF-8 bytes of an em dash, which some of the texts for the operator hold.\<close>

definition em_dash :: string where
  "em_dash = map char_of [226 :: nat, 128, 148]"

definition pad8 :: "string \<Rightarrow> string" where
  "pad8 s = replicate (8 - length s) (CHR ''0'') @ s"

definition is_digit :: "char \<Rightarrow> bool" where
  "is_digit c = (CHR ''0'' \<le> c \<and> c \<le> CHR ''9'')"

definition digit_val :: "char \<Rightarrow> nat" where
  "digit_val c = of_char c - 48"

definition read_nat :: "string \<Rightarrow> nat" where
  "read_nat s = foldl (\<lambda>a c. 10 * a + digit_val c) 0 s"

lemma of_digit_char: "d < 10 \<Longrightarrow> of_char (digit_char d) = 48 + d"
  by (simp add: digit_char_def)

lemma digit_val_char [simp]: "d < 10 \<Longrightarrow> digit_val (digit_char d) = d"
  by (simp add: digit_val_def of_digit_char)

lemma is_digit_char [simp]: "d < 10 \<Longrightarrow> is_digit (digit_char d)"
  by (simp add: is_digit_def less_eq_char_def of_digit_char)

lemma digit_char_values [simp]:
  "digit_char 0 = CHR ''0''" "digit_char (Suc 0) = CHR ''1''" "digit_char 2 = CHR ''2''"
  "digit_char 3 = CHR ''3''" "digit_char 4 = CHR ''4''" "digit_char 5 = CHR ''5''"
  "digit_char 6 = CHR ''6''" "digit_char 7 = CHR ''7''" "digit_char 8 = CHR ''8''"
  "digit_char 9 = CHR ''9''"
  by (simp_all add: digit_char_def char_of_eq_iff)

lemma is_digit_code: "is_digit c = (48 \<le> (of_char c :: nat) \<and> (of_char c :: nat) \<le> 57)"
  by (simp add: is_digit_def less_eq_char_def)

lemma digit_val_less: "is_digit c \<Longrightarrow> digit_val c < 10"
  unfolding is_digit_code digit_val_def by linarith

lemma read_nat_snoc [simp]: "read_nat (s @ [c]) = 10 * read_nat s + digit_val c"
  by (simp add: read_nat_def)

lemma read_nat_Nil [simp]: "read_nat [] = 0"
  by (simp add: read_nat_def)

lemma read_nat_replicate0 [simp]: "read_nat (replicate k (CHR ''0'') @ s) = read_nat s"
proof -
  have zero: "foldl (\<lambda>a c. 10 * a + digit_val c) 0 (replicate k (CHR ''0'')) = 0"
    by (induction k) (simp_all add: digit_val_def)
  then show ?thesis by (simp add: read_nat_def)
qed

lemma read_nat_str [simp]: "read_nat (nat_str n) = n"
proof (induction n rule: nat_str.induct)
  case (1 n)
  show ?case
  proof (cases "n < 10")
    case True
    then have "nat_str n = [] @ [digit_char n]" by (simp add: nat_str.simps)
    then have "read_nat (nat_str n) = 10 * read_nat [] + digit_val (digit_char n)"
      by (simp only: read_nat_snoc)
    with True show ?thesis by simp
  next
    case False
    then have "nat_str n = nat_str (n div 10) @ [digit_char (n mod 10)]"
      by (subst nat_str.simps) simp
    with "1.IH" [OF False] show ?thesis by simp
  qed
qed

lemma nat_str_nonempty [simp]: "nat_str n \<noteq> []"
  by (subst nat_str.simps) simp

lemma nat_str_digits: "c \<in> set (nat_str n) \<Longrightarrow> is_digit c"
proof (induction n rule: nat_str.induct)
  case (1 n)
  then show ?case
    by (cases "n < 10") (auto simp: nat_str.simps [of n])
qed

lemma nat_str_inj: "nat_str m = nat_str n \<Longrightarrow> m = n"
  by (metis read_nat_str)

lemma nat_str_length: "k > 0 \<Longrightarrow> n < 10 ^ k \<Longrightarrow> length (nat_str n) \<le> k"
proof (induction n arbitrary: k rule: nat_str.induct)
  case (1 n)
  show ?case
  proof (cases "n < 10")
    case True
    with "1.prems" show ?thesis by (subst nat_str.simps) simp
  next
    case False
    with "1.prems" obtain j where k: "k = Suc j" "0 < j"
      by (cases k; cases "k - 1") auto
    with "1.prems" have "n div 10 < 10 ^ j" by (simp add: div_less_iff_less_mult mult.commute)
    with "1.IH" [OF False k(2)] have "length (nat_str (n div 10)) \<le> j" by simp
    with False k show ?thesis by (subst nat_str.simps) simp
  qed
qed

lemma pad8_read [simp]: "read_nat (pad8 (nat_str n)) = n"
  by (simp add: pad8_def)

lemma pad8_length: "n < 10 ^ 8 \<Longrightarrow> length (pad8 (nat_str n)) = 8"
  using nat_str_length [of 8 n] by (simp add: pad8_def)


section \<open>Lists and options\<close>

lemma filter_eq_self: "(\<And>x. x \<in> set xs \<Longrightarrow> P x) \<Longrightarrow> filter P xs = xs"
  by (induction xs) auto

lemma sorted_sort_filter: "sort (filter P xs) = filter P (sort xs)"
  by (simp add: filter_sort)

lemma sort_insort_snoc: "sort (xs @ [x]) = insort x (sort xs)"
  by (induction xs) (auto simp: insort_left_comm)

lemma sorted_map_fst: "sorted ps \<Longrightarrow> sorted (map fst ps)"
  by (induction ps) (auto simp: less_eq_prod_def)

lemma sort_eq_Nil: "sort xs = [] \<longleftrightarrow> xs = []"
  by (metis length_0_conv length_sort)

lemma length_filter_sort [simp]: "length (filter P (sort xs)) = length (filter P xs)"
  by (simp add: filter_sort)

lemma sorted_majority_nth:
  fixes xs :: "'a :: linorder list"
  assumes "sorted xs" "length xs < 2 * length (filter (\<lambda>x. x = d) xs)"
  shows "xs ! (length xs div 2) = d"
proof (rule ccontr)
  let ?i = "length xs div 2"
  let ?J = "{j. j < length xs \<and> xs ! j = d}"
  have card: "length (filter (\<lambda>x. x = d) xs) = card ?J" by (rule length_filter_conv_card)
  assume ne: "xs ! ?i \<noteq> d"
  have i: "?i < length xs" using assms(2) by (cases xs) auto
  consider "xs ! ?i < d" | "d < xs ! ?i" using ne by (metis neqE)
  then show False
  proof cases
    case 1
    have "?i < j" if "j \<in> ?J" for j
    proof (rule ccontr)
      assume "\<not> ?i < j"
      then have "xs ! j \<le> xs ! ?i" using assms(1) i by (simp add: sorted_nth_mono)
      with 1 that show False by auto
    qed
    then have "?J \<subseteq> {Suc ?i..<length xs}" by (auto intro!: Suc_leI)
    then have "card ?J \<le> length xs - Suc ?i" using card_mono [of "{Suc ?i..<length xs}" ?J] by simp
    with assms(2) card show False by linarith
  next
    case 2
    have "j < ?i" if "j \<in> ?J" for j
    proof (rule ccontr)
      assume "\<not> j < ?i"
      then have "xs ! ?i \<le> xs ! j" using assms(1) that by (intro sorted_nth_mono) auto
      with 2 that show False by auto
    qed
    then have "?J \<subseteq> {..<?i}" by auto
    then have "card ?J \<le> ?i" using card_mono [of "{..<?i}" ?J] by simp
    with assms(2) card show False by linarith
  qed
qed

lemma sdiv_pos: "0 \<le> a \<Longrightarrow> 0 < (b :: int) \<Longrightarrow> a sdiv b = a div b"
  by (cases "a = 0") (simp_all add: signed_divide_int_def)

lemma smod_pos: "0 \<le> a \<Longrightarrow> 0 < (b :: int) \<Longrightarrow> a smod b = a mod b"
  by (cases "a = 0") (simp_all add: signed_modulo_int_def)

lemma int_mult_le_1:
  fixes a b :: int
  assumes "a * b \<le> 1" "1 \<le> a" "1 \<le> b"
  shows "a = 1 \<and> b = 1"
proof -
  have "a \<le> a * b" "b \<le> a * b"
    using assms by (simp_all add: mult_le_cancel_left1 mult_le_cancel_right1)
  with assms show ?thesis by linarith
qed

lemma int_le_div_iff: "0 < (c :: int) \<Longrightarrow> a * c \<le> t \<longleftrightarrow> a \<le> t div c"
proof
  assume c: "0 < c" and "a * c \<le> t"
  then have "a * c div c \<le> t div c" by (intro zdiv_mono1) auto
  then show "a \<le> t div c" using c by simp
next
  assume c: "0 < c" and "a \<le> t div c"
  then have "a * c \<le> t div c * c" by (intro mult_right_mono) auto
  also have "\<dots> \<le> t" using c by (simp add: minus_mod_eq_div_mult [symmetric])
  finally show "a * c \<le> t" .
qed

lemma div_less_of_mult: "i < c * r \<Longrightarrow> 0 < (c :: int) \<Longrightarrow> i div c < r"
proof (rule ccontr)
  assume a: "i < c * r" "0 < c" "\<not> i div c < r"
  then have "c * r \<le> c * (i div c)" by (intro mult_left_mono) auto
  moreover have "c * (i div c) + i mod c = i" "0 \<le> i mod c" using a(2) by simp_all
  ultimately show False using a(1) by linarith
qed

lemma takeWhile_no: "c \<notin> set xs \<Longrightarrow> takeWhile (\<lambda>x. x \<noteq> c) (xs @ c # ys) = xs"
  by (induction xs) auto


section \<open>Directories\<close>

text \<open>
  A directory is an association list from what names its entries to their contents, with at
  most one entry per name (\<open>distinct (map fst d)\<close>). \<open>AList.update\<close> writes an entry in the
  way a rename over the old file does, \<open>AList.delete\<close> removes one, \<open>map_of\<close> opens one.
\<close>

type_synonym ('k, 'v) dir = "('k \<times> 'v) list"

named_theorems dir_simps \<open>facts about directories\<close>

abbreviation dir_ok :: "('k, 'v) dir \<Rightarrow> bool" where
  "dir_ok d \<equiv> distinct (map fst d)"

definition dir_names :: "('k :: linorder, 'v) dir \<Rightarrow> 'k list" where
  "dir_names d = sort (map fst d)"

lemma dir_ok_update [simp]: "dir_ok d \<Longrightarrow> dir_ok (AList.update k v d)"
  by (rule distinct_update)

lemma dir_ok_delete [simp]: "dir_ok d \<Longrightarrow> dir_ok (AList.delete k d)"
  by (rule distinct_delete)

lemma set_dir_names [simp]: "set (dir_names d) = fst ` set d"
  by (simp add: dir_names_def)

lemma sorted_dir_names [simp]: "sorted (dir_names d)"
  by (simp add: dir_names_def)

lemma distinct_dir_names [simp]: "distinct (dir_names d) = dir_ok d"
  by (simp add: dir_names_def)

lemma dir_names_delete: "dir_names (AList.delete k d) = filter (\<lambda>x. x \<noteq> k) (dir_names d)"
proof -
  have "map fst (AList.delete k d) = filter (\<lambda>x. x \<noteq> k) (map fst d)"
    by (induction d) (auto simp: AList.delete_eq)
  then show ?thesis by (simp add: dir_names_def filter_sort)
qed

lemma map_of_dir_update [dir_simps]: "map_of (AList.update k v d) = (map_of d)(k \<mapsto> v)"
  by (rule update_conv')

lemma map_of_dir_delete [dir_simps]: "map_of (AList.delete k d) = (map_of d)(k := None)"
  by (rule delete_conv')

lemma map_of_dir_filter [dir_simps]:
  "map_of (filter (\<lambda>(k, v). P k) d) k = (if P k then map_of d k else None)"
  by (induction d) auto

lemma fst_update [dir_simps]: "fst ` set (AList.update k v d) = insert k (fst ` set d)"
  by (simp add: dom_update)

lemma fst_delete [dir_simps]: "fst ` set (AList.delete k d) = fst ` set d - {k}"
  by (auto simp: AList.delete_eq)

lemma in_dir_names_iff: "k \<in> set (dir_names d) \<longleftrightarrow> map_of d k \<noteq> None"
  by (simp add: map_of_eq_None_iff)

lemma dir_names_update_max:
  assumes "\<forall>x\<in>set (dir_names d). x < k"
  shows "dir_names (AList.update k v d) = dir_names d @ [k]"
proof -
  have "k \<notin> fst ` set d" using assms by auto
  then have "map fst (AList.update k v d) = map fst d @ [k]" by (simp add: update_keys)
  then show ?thesis
    using assms by (simp add: dir_names_def sort_insort_snoc sorted_insort_is_snoc less_imp_le)
qed


section \<open>Filtering through a partial function\<close>

lemma map_filter_Cons: "List.map_filter f (x # xs) = (case f x of None \<Rightarrow> List.map_filter f xs | Some y \<Rightarrow> y # List.map_filter f xs)"
  by (simp add: List.map_filter_simps split: option.split)

lemma map_filter_append [simp]: "List.map_filter f (xs @ ys) = List.map_filter f xs @ List.map_filter f ys"
  by (simp add: List.map_filter_def)

lemma map_filter_cong: "xs = ys \<Longrightarrow> (\<And>x. x \<in> set ys \<Longrightarrow> f x = g x) \<Longrightarrow> List.map_filter f xs = List.map_filter g ys"
  by (auto simp: List.map_filter_def intro!: map_cong filter_cong)

lemma set_map_filter: "set (List.map_filter f xs) = {y. \<exists>x\<in>set xs. f x = Some y}"
  by (force simp: List.map_filter_def)

lemma map_filter_ConsD:
  "List.map_filter f xs = y # ys \<Longrightarrow>
   \<exists>us x vs. xs = us @ x # vs \<and> (\<forall>u\<in>set us. f u = None) \<and> f x = Some y \<and> List.map_filter f vs = ys"
proof (induction xs)
  case (Cons a xs)
  show ?case
  proof (cases "f a")
    case None
    with Cons.prems have "List.map_filter f xs = y # ys" by (simp add: map_filter_Cons)
    from Cons.IH [OF this] obtain us x vs where
      "xs = us @ x # vs" "\<forall>u\<in>set us. f u = None" "f x = Some y" "List.map_filter f vs = ys" by blast
    with None have "a # xs = (a # us) @ x # vs \<and> (\<forall>u\<in>set (a # us). f u = None) \<and> f x = Some y \<and> List.map_filter f vs = ys"
      by simp
    then show ?thesis by blast
  next
    case (Some b)
    with Cons.prems have "a # xs = [] @ a # xs \<and> (\<forall>u\<in>set []. f u = None) \<and> f a = Some y \<and> List.map_filter f xs = ys"
      by (simp add: map_filter_Cons)
    then show ?thesis by blast
  qed
qed (simp add: List.map_filter_def)

lemma sum_list_filter_out:
  fixes f :: "'a \<Rightarrow> nat"
  assumes "distinct xs" "x \<in> set xs"
  shows "sum_list (map f xs) = f x + sum_list (map f (filter (\<lambda>y. y \<noteq> x) xs))"
  using assms
proof (induction xs)
  case (Cons y ys)
  show ?case
  proof (cases "y = x")
    case True
    with Cons.prems have "filter (\<lambda>z. z \<noteq> x) ys = ys" by (auto intro: filter_eq_self)
    with True show ?thesis by simp
  next
    case False
    with Cons show ?thesis by simp
  qed
qed simp

lemma filter_after_split:
  fixes us :: "'a :: linorder list"
  assumes "sorted (us @ x # vs)" "distinct (us @ x # vs)"
  shows "filter (\<lambda>y. \<not> y \<le> x) (us @ x # vs) = vs"
proof -
  have "\<forall>u\<in>set us. u \<le> x" using assms by (auto simp: sorted_append)
  moreover have "\<forall>v\<in>set vs. \<not> v \<le> x"
    using assms by (auto simp: sorted_append dest: antisym)
  ultimately show ?thesis by (auto simp: filter_empty_conv intro: filter_eq_self)
qed

lemma subseq_complete_eq:
  assumes "subseq xs ys" "set ys \<subseteq> set xs" "distinct ys"
  shows "xs = ys"
proof -
  have "length ys = card (set ys)" using assms(3) by (simp add: distinct_card)
  also have "\<dots> \<le> card (set xs)" using assms(2) by (simp add: card_mono)
  also have "\<dots> \<le> length xs" by (rule card_length)
  finally have "length xs = length ys" using list_emb_length [OF assms(1)] by simp
  then show ?thesis using assms(1) subseq_same_length by blast
qed

end
