(* ===== verification/Storage_Model.thy ===== *)
theory Storage_Model
  imports Prelude
begin

text \<open>
  The storage protocol's data model (\<^verbatim>\<open>src/core/model.h\<close>, \<^verbatim>\<open>src/core/model.cpp\<close>): the live
  pointer, the event descriptor, the rolling manifest with its gaps, the cue lists, the tile
  layout of a composited picture, and the object keys. JSON is in \<open>Json_Codec\<close>.

  One record per struct (fields prefixed by the struct's initials), one definition per
  member function. The lemmas show the rolling window's invariant, that the gap list
  implements a set of sequence numbers with \<open>gap_end\<close> giving the end of a maximal run, that
  the tiles of a layout partition the picture, that the median duration resists atypical
  segments, and that merging cue lists is a sorted, duplicate-free, complete union.
\<close>

section \<open>Data\<close>

definition kProtocolVersion :: int where
  "kProtocolVersion = 1"

definition protocol_readable :: "int \<Rightarrow> bool" where
  "protocol_readable v = (v \<le> kProtocolVersion)"

record live_pointer =
  lp_protocol_version :: int
  lp_room_id :: string
  lp_event_id :: string
  lp_status :: string
  lp_updated_at_ms :: i64

record audio_track =
  at_idx :: int
  at_label :: string
  at_codec :: string
  at_channels :: int
  at_sample_rate :: int
  at_channel_labels :: "string list"
  at_language :: string

record tile_layout =
  tl_cols :: int
  tl_rows :: int

record tile_Rect =
  r_x :: int
  r_y :: int
  r_w :: int
  r_h :: int

record video_info =
  vi_codec :: string
  vi_width :: int
  vi_height :: int
  vi_fps :: double
  vi_layout :: tile_layout

record event_info =
  ev_protocol_version :: int
  ev_event_id :: string
  ev_room_id :: string
  ev_name :: string
  ev_started_at_ms :: i64
  ev_first_seq :: u64
  ev_segment_duration_s :: double
  ev_init :: string
  ev_video :: video_info
  ev_audio_tracks :: "audio_track list"

record room_event_entry =
  re_protocol_version :: int
  re_event_id :: string
  re_room_id :: string
  re_name :: string
  re_started_at_ms :: i64

record manifest_segment =
  ms_seq :: u64
  ms_duration_s :: double
  ms_checksum :: string
  ms_at_ms :: i64

record manifest =
  mf_protocol_version :: int
  mf_event_id :: string
  mf_status :: string
  mf_name :: string
  mf_updated_at_ms :: i64
  mf_started_at_ms :: i64
  mf_first_available_seq :: u64
  mf_window_start_seq :: u64
  mf_latest_seq :: u64
  mf_init :: string
  mf_video :: video_info
  mf_audio_tracks :: "audio_track list"
  mf_segments :: "manifest_segment list"
  mf_gaps :: "(u64 \<times> u64) list"

record marker =
  mk_seq :: u64
  mk_at_ms :: i64
  mk_at_media_ms :: i64
  mk_type :: string
  mk_label :: string
  mk_id :: string
  mk_author :: string

record marker_list =
  ml_protocol_version :: int
  ml_markers :: "marker list"

text \<open>The default member values of the structs.\<close>

definition tile_layout_default :: tile_layout where
  "tile_layout_default = \<lparr>tl_cols = 1, tl_rows = 1\<rparr>"

definition video_info_default :: video_info where
  "video_info_default = \<lparr>vi_codec = ''h264'', vi_width = 0, vi_height = 0, vi_fps = 0,
     vi_layout = tile_layout_default\<rparr>"

definition live_pointer_default :: live_pointer where
  "live_pointer_default = \<lparr>lp_protocol_version = kProtocolVersion, lp_room_id = [],
     lp_event_id = [], lp_status = ''live'', lp_updated_at_ms = 0\<rparr>"

definition manifest_default :: manifest where
  "manifest_default = \<lparr>mf_protocol_version = kProtocolVersion, mf_event_id = [],
     mf_status = ''live'', mf_name = [], mf_updated_at_ms = 0, mf_started_at_ms = 0,
     mf_first_available_seq = 0, mf_window_start_seq = 0, mf_latest_seq = 0,
     mf_init = ''init.mp4'', mf_video = video_info_default, mf_audio_tracks = [],
     mf_segments = [], mf_gaps = []\<rparr>"

definition marker_list_default :: marker_list where
  "marker_list_default = \<lparr>ml_protocol_version = kProtocolVersion, ml_markers = []\<rparr>"


section \<open>TileLayout\<close>

definition layout_count :: "tile_layout \<Rightarrow> int" where
  "layout_count t = tl_cols t * tl_rows t"

definition layout_is_split :: "tile_layout \<Rightarrow> bool" where
  "layout_is_split t = (layout_count t > 1)"

definition layout_to_string :: "tile_layout \<Rightarrow> string" where
  "layout_to_string t = int_str (tl_cols t) @ ''x'' @ int_str (tl_rows t)"

definition digits_only :: "string \<Rightarrow> bool" where
  "digits_only v = (v \<noteq> [] \<and> length v \<le> 2 \<and> list_all is_digit v)"

definition layout_parse :: "string \<Rightarrow> tile_layout" where
  "layout_parse s =
     (let a = takeWhile (\<lambda>c. c \<noteq> CHR ''x'') s;
          rest = dropWhile (\<lambda>c. c \<noteq> CHR ''x'') s;
          b = tl rest
      in if rest = [] \<or> a = [] \<or> b = [] then tile_layout_default
         else if \<not> digits_only a \<or> \<not> digits_only b then tile_layout_default
         else let c = int (read_nat a); r = int (read_nat b)
              in if c < 1 \<or> r < 1 \<or> c > 4 \<or> r > 4 then tile_layout_default
                 else \<lparr>tl_cols = c, tl_rows = r\<rparr>)"

definition even_down :: "int \<Rightarrow> int" where
  "even_down v = (if v > 0 then v - v mod 2 else 0)"

text \<open>The edges of a tile row or column: edge \<open>k\<close> of \<open>n\<close> over a length \<open>len\<close>.\<close>

definition tile_edge :: "int \<Rightarrow> int \<Rightarrow> int \<Rightarrow> int" where
  "tile_edge len n k = even_down ((len * k) sdiv n)"

definition tile_rect :: "tile_layout \<Rightarrow> int \<Rightarrow> int \<Rightarrow> int \<Rightarrow> tile_Rect" where
  "tile_rect t index frame_w frame_h =
     (let whole = \<lparr>r_x = 0, r_y = 0, r_w = even_down frame_w, r_h = even_down frame_h\<rparr>
      in if index < 0 \<or> index \<ge> layout_count t \<or> frame_w \<le> 0 \<or> frame_h \<le> 0 then whole
         else if \<not> layout_is_split t then whole
         else let col = index smod tl_cols t; row = index sdiv tl_cols t;
                  x0 = tile_edge frame_w (tl_cols t) col;
                  x1 = tile_edge frame_w (tl_cols t) (col + 1);
                  y0 = tile_edge frame_h (tl_rows t) row;
                  y1 = tile_edge frame_h (tl_rows t) (row + 1);
                  r = \<lparr>r_x = x0, r_y = y0, r_w = x1 - x0, r_h = y1 - y0\<rparr>
              in if r_w r \<le> 0 \<or> r_h r \<le> 0 then whole else r)"


section \<open>Object keys\<close>

definition live_pointer_key :: "string \<Rightarrow> string" where
  "live_pointer_key room_id = ''rooms/'' @ room_id @ ''/live.json''"

definition room_events_prefix :: "string \<Rightarrow> string" where
  "room_events_prefix room_id = ''rooms/'' @ room_id @ ''/events/''"

definition room_event_key :: "string \<Rightarrow> string \<Rightarrow> string" where
  "room_event_key room_id event_id = room_events_prefix room_id @ event_id @ ''.json''"

definition event_prefix_for :: "string \<Rightarrow> string" where
  "event_prefix_for event_id = ''events/'' @ event_id @ ''/''"

definition event_id_from_index_key :: "string \<Rightarrow> string" where
  "event_id_from_index_key key =
     (let body = rev (dropWhile (\<lambda>c. c = CHR ''/'') (rev key));
          had_slash = (length body < length key);
          tail = rev (takeWhile (\<lambda>c. c \<noteq> CHR ''/'') (rev body));
          n = length tail
      in if key = [] then []
         else if body = [] then []
         else if had_slash then tail
         else if n > 5 \<and> drop (n - 5) tail = ''.json'' then take (n - 5) tail
         else [])"

definition cues_prefix_for :: "string \<Rightarrow> string" where
  "cues_prefix_for event_id = event_prefix_for event_id @ ''cues/''"

text \<open>\<^verbatim>\<open>std::isalnum\<close> and \<^verbatim>\<open>std::tolower\<close> in the C locale.\<close>

definition is_upper :: "char \<Rightarrow> bool" where
  "is_upper c = (CHR ''A'' \<le> c \<and> c \<le> CHR ''Z'')"

definition is_lower :: "char \<Rightarrow> bool" where
  "is_lower c = (CHR ''a'' \<le> c \<and> c \<le> CHR ''z'')"

definition is_alnum :: "char \<Rightarrow> bool" where
  "is_alnum c = (is_digit c \<or> is_upper c \<or> is_lower c)"

definition to_lower :: "char \<Rightarrow> char" where
  "to_lower c = (if is_upper c then char_of ((of_char c :: nat) + 32) else c)"

definition is_separator :: "char \<Rightarrow> bool" where
  "is_separator c = (c = CHR '' '' \<or> c = CHR ''-'' \<or> c = CHR ''_'' \<or> c = CHR ''.'' \<or> c = CHR ''/'')"

fun cue_token_loop :: "string \<Rightarrow> bool \<Rightarrow> string \<Rightarrow> string" where
  "cue_token_loop t last_dash [] = t"
| "cue_token_loop t last_dash (c # cs) =
     (if is_alnum c then cue_token_loop (t @ [to_lower c]) False cs
      else if is_separator c then
        (if t \<noteq> [] \<and> \<not> last_dash then cue_token_loop (t @ ''-'') True cs
         else cue_token_loop t last_dash cs)
      else cue_token_loop t last_dash cs)"

definition cue_author_token :: "string \<Rightarrow> string" where
  "cue_author_token display_name =
     (let t = cue_token_loop [] False display_name;
          t' = rev (dropWhile (\<lambda>c. c = CHR ''-'') (rev t))
      in if t' = [] then ''site'' else t')"

definition cue_object_key :: "string \<Rightarrow> string \<Rightarrow> string" where
  "cue_object_key event_id display_name =
     cues_prefix_for event_id @ cue_author_token display_name @ ''.json''"

text \<open>
  \<open>seq_name\<close> prints into a 16-byte buffer, so it keeps at most fifteen characters
  (\<^verbatim>\<open>snprintf(b, 16, "%08llu", seq)\<close>; the code has one copy per file that names segments).
\<close>

definition seq_name :: "u64 \<Rightarrow> string" where
  "seq_name seq = take 15 (pad8 (nat_str seq))"

definition segment_key_for :: "string \<Rightarrow> u64 \<Rightarrow> string" where
  "segment_key_for event_id seq = event_prefix_for event_id @ ''segments/'' @ seq_name seq @ ''.m4s''"


section \<open>Manifest\<close>

text \<open>\<open>existing = s\<close> at the first entry with the same sequence number, if there is one.\<close>

fun refresh_segment :: "manifest_segment \<Rightarrow> manifest_segment list \<Rightarrow> manifest_segment list option" where
  "refresh_segment s [] = None"
| "refresh_segment s (e # es) =
     (if ms_seq e = ms_seq s then Some (s # es) else map_option ((#) e) (refresh_segment s es))"

text \<open>\<^verbatim>\<open>while (segments.size() > window) segments.erase(segments.begin())\<close>.\<close>

fun trim_window :: "nat \<Rightarrow> manifest_segment list \<Rightarrow> manifest_segment list" where
  "trim_window window [] = []"
| "trim_window window (e # es) = (if length (e # es) > window then trim_window window es else e # es)"

definition manifest_push :: "manifest \<Rightarrow> manifest_segment \<Rightarrow> nat \<Rightarrow> manifest" where
  "manifest_push m s window =
     (let latest = (if ms_seq s > mf_latest_seq m then ms_seq s else mf_latest_seq m)
      in case refresh_segment s (mf_segments m) of
           Some segs \<Rightarrow> m\<lparr>mf_segments := segs, mf_latest_seq := latest\<rparr>
         | None \<Rightarrow>
             let segs = trim_window window (mf_segments m @ [s])
             in m\<lparr>mf_segments := segs, mf_latest_seq := latest,
                  mf_window_start_seq := (case segs of [] \<Rightarrow> 0 | e # _ \<Rightarrow> ms_seq e)\<rparr>)"

definition stream_duration_hint :: "manifest \<Rightarrow> double" where
  "stream_duration_hint m =
     (let d = sort (filter (\<lambda>x. x > 1 / 10) (map ms_duration_s (mf_segments m)))
      in if d = [] then 0 else d ! (length d div 2))"

fun gap_end_in :: "(u64 \<times> u64) list \<Rightarrow> u64 \<Rightarrow> u64 option" where
  "gap_end_in [] seq = None"
| "gap_end_in ((a, b) # gs) seq = (if a \<le> seq \<and> seq \<le> b then Some b else gap_end_in gs seq)"

definition gap_end :: "manifest \<Rightarrow> u64 \<Rightarrow> u64 option" where
  "gap_end m seq = gap_end_in (mf_gaps m) seq"

text \<open>
  The loop of \<open>add_gap\<close> over the sorted ranges: entry \<open>i\<close> is folded into entry \<open>i - 1\<close>
  when it touches it (\<open>gaps[i].first <= gaps[i - 1].second + 1\<close>), else the loop moves on.
\<close>

fun merge_touching :: "(u64 \<times> u64) list \<Rightarrow> (u64 \<times> u64) list" where
  "merge_touching ((a, b) # (c, d) # gs) =
     (if c \<le> inc64 b then merge_touching ((a, max b d) # gs)
      else (a, b) # merge_touching ((c, d) # gs))"
| "merge_touching gs = gs"

definition add_gap_in :: "(u64 \<times> u64) list \<Rightarrow> u64 \<Rightarrow> (u64 \<times> u64) list" where
  "add_gap_in gs seq =
     (case gap_end_in gs seq of Some _ \<Rightarrow> gs | None \<Rightarrow> merge_touching (sort (gs @ [(seq, seq)])))"

definition add_gap :: "manifest \<Rightarrow> u64 \<Rightarrow> manifest" where
  "add_gap m seq = m\<lparr>mf_gaps := add_gap_in (mf_gaps m) seq\<rparr>"


section \<open>Markers\<close>

definition marker_media_ms :: "marker \<Rightarrow> i64 \<Rightarrow> i64" where
  "marker_media_ms m event_started_ms =
     (if mk_at_media_ms m \<ge> 0 then mk_at_media_ms m
      else if mk_at_ms m > 0 \<and> event_started_ms > 0 \<and> mk_at_ms m \<ge> event_started_ms
           then mk_at_ms m - event_started_ms
      else -1)"

definition marker_key :: "marker \<Rightarrow> u64 \<times> i64 \<times> string" where
  "marker_key m = (mk_seq m, mk_at_ms m, mk_id m)"

fun dedup_markers :: "marker list \<Rightarrow> marker list \<Rightarrow> marker list" where
  "dedup_markers out [] = out"
| "dedup_markers out (m # ms) =
     (if mk_id m \<noteq> [] \<and> (\<exists>e \<in> set out. mk_id e = mk_id m) then dedup_markers out ms
      else dedup_markers (out @ [m]) ms)"

definition merge_markers :: "marker_list list \<Rightarrow> marker_list" where
  "merge_markers parts =
     marker_list_default\<lparr>ml_markers :=
       dedup_markers [] (sort_key marker_key (concat (map ml_markers parts)))\<rparr>"


section \<open>Gaps implement a set of sequence numbers\<close>

definition gap_set :: "(u64 \<times> u64) list \<Rightarrow> u64 set" where
  "gap_set gs = (\<Union>(a, b) \<in> set gs. {a..b})"

fun gaps_ok :: "(u64 \<times> u64) list \<Rightarrow> bool" where
  "gaps_ok [] = True"
| "gaps_ok [(a, b)] = (a \<le> b \<and> b \<le> u64_max)"
| "gaps_ok ((a, b) # (c, d) # gs) = (a \<le> b \<and> b \<le> u64_max \<and> b + 1 < c \<and> gaps_ok ((c, d) # gs))"

lemma gap_set_simps [simp]:
  "gap_set [] = {}"
  "gap_set ((a, b) # gs) = {a..b} \<union> gap_set gs"
  by (simp_all add: gap_set_def)

lemma gap_set_sort [simp]: "gap_set (sort gs) = gap_set gs"
  by (simp add: gap_set_def)

lemma gap_set_append [simp]: "gap_set (gs @ hs) = gap_set gs \<union> gap_set hs"
  by (simp add: gap_set_def)

lemma gaps_ok_range: "gaps_ok gs \<Longrightarrow> (a, b) \<in> set gs \<Longrightarrow> a \<le> b \<and> b \<le> u64_max"
  by (induction gs rule: gaps_ok.induct) auto

lemma gaps_ok_head: "gaps_ok ((a, b) # gs) \<Longrightarrow> (c, d) \<in> set gs \<Longrightarrow> b + 1 < c"
proof (induction gs arbitrary: a b)
  case (Cons g gs)
  obtain a' b' where g: "g = (a', b')" by (cases g)
  from Cons.prems(1) g have ok: "gaps_ok ((a', b') # gs)" and lt: "b + 1 < a'" by simp_all
  from gaps_ok_range [OF ok] have "a' \<le> b'" by simp
  with Cons.IH [OF ok] Cons.prems(2) lt g show ?case by force
qed simp

lemma gaps_ok_Cons: "gaps_ok (g # gs) \<Longrightarrow> gaps_ok gs"
  by (cases g; cases gs) auto

lemma gaps_ok_sorted: "gaps_ok gs \<Longrightarrow> sorted gs"
proof (induction gs)
  case (Cons g gs)
  obtain a b where g: "g = (a, b)" by (cases g)
  have "g \<le> h" if "h \<in> set gs" for h
  proof -
    obtain c d where h: "h = (c, d)" by (cases h)
    with gaps_ok_head [OF Cons.prems [unfolded g]] that have "b + 1 < c" by blast
    moreover have "a \<le> b" using gaps_ok_range [OF Cons.prems, of a b] g by simp
    ultimately show ?thesis by (simp add: g h)
  qed
  with Cons.IH [OF gaps_ok_Cons [OF Cons.prems]] show ?case by simp
qed simp

lemma gap_end_in_None [simp]: "gap_end_in gs s = None \<longleftrightarrow> s \<notin> gap_set gs"
  by (induction gs s rule: gap_end_in.induct) auto

lemma gap_end_in_Some:
  assumes "gaps_ok gs" "gap_end_in gs s = Some e"
  shows "s \<le> e \<and> {s..e} \<subseteq> gap_set gs \<and> e + 1 \<notin> gap_set gs \<and> e \<le> u64_max"
  using assms
proof (induction gs)
  case (Cons g gs)
  obtain a b where g: "g = (a, b)" by (cases g)
  note ok = Cons.prems(1) [unfolded g]
  have ab: "a \<le> b" "b \<le> u64_max" using gaps_ok_range [OF ok] by auto
  have above: "b + 1 < x" if "x \<in> gap_set gs" for x
    using that gaps_ok_head [OF ok] by (force simp: gap_set_def)
  show ?case
  proof (cases "a \<le> s \<and> s \<le> b")
    case True
    with Cons.prems g have "e = b" by simp
    with True ab above show ?thesis by (auto simp: g)
  next
    case False
    with Cons.prems g have e: "gap_end_in gs s = Some e" by simp
    with Cons.IH gaps_ok_Cons [OF Cons.prems(1)]
    have IH: "s \<le> e \<and> {s..e} \<subseteq> gap_set gs \<and> e + 1 \<notin> gap_set gs \<and> e \<le> u64_max" by blast
    then have "e \<in> gap_set gs" by auto
    with above have "b + 1 < e" by blast
    with IH show ?thesis by (auto simp: g)
  qed
qed simp

lemma merge_touching_set:
  assumes "sorted (map fst gs)" "\<forall>(a, b) \<in> set gs. a \<le> b \<and> b \<le> u64_max"
  shows "gap_set (merge_touching gs) = gap_set gs"
  using assms
proof (induction gs rule: merge_touching.induct)
  case (1 a b c d gs)
  from "1.prems" have le: "a \<le> c" "a \<le> b" "c \<le> d" "b \<le> u64_max" "d \<le> u64_max" by auto
  show ?case
  proof (cases "c \<le> inc64 b")
    case True
    with le have "c \<le> b + 1" using inc64_le [of b] by linarith
    with le have "{a..max b d} = {a..b} \<union> {c..d}" by auto
    moreover have "gap_set (merge_touching ((a, max b d) # gs)) = gap_set ((a, max b d) # gs)"
      using "1.prems" by (intro "1.IH"(1) [OF True]) auto
    ultimately show ?thesis using True by (auto simp: Un_assoc)
  next
    case False
    with "1.IH"(2) [OF False] "1.prems" show ?thesis by auto
  qed
qed auto

lemma merge_touching_head:
  "\<exists>b'. merge_touching ((a, b) # gs) = (a, b') # tl (merge_touching ((a, b) # gs))"
proof (induction "(a, b) # gs" arbitrary: a b gs rule: merge_touching.induct)
  case (1 a b c d gs)
  then show ?case by (cases "c \<le> inc64 b") auto
qed auto

lemma merge_touching_ok:
  assumes "sorted (map fst gs)" "\<forall>(a, b) \<in> set gs. a \<le> b \<and> b \<le> u64_max"
    "\<forall>(a, b) \<in> set (butlast gs). b < u64_max"
  shows "gaps_ok (merge_touching gs)"
  using assms
proof (induction gs rule: merge_touching.induct)
  case (1 a b c d gs)
  from "1.prems" have le: "a \<le> c" "a \<le> b" "c \<le> d" "b < u64_max" "d \<le> u64_max" by auto
  then have inc: "inc64 b = b + 1" by (simp add: u64_simps)
  show ?case
  proof (cases "c \<le> inc64 b")
    case True
    have "gs = [] \<or> d < u64_max" using "1.prems"(3) by (cases gs) auto
    then have "gaps_ok (merge_touching ((a, max b d) # gs))"
      using "1.prems" le by (intro "1.IH"(1) [OF True]) (auto split: if_splits)
    with True show ?thesis by simp
  next
    case False
    from False "1.prems" have "gaps_ok (merge_touching ((c, d) # gs))"
      by (intro "1.IH"(2)) auto
    moreover obtain b' gs' where "merge_touching ((c, d) # gs) = (c, b') # gs'"
      using merge_touching_head by blast
    ultimately show ?thesis using False le inc by simp
  qed
qed auto

lemma insort_gap_pre:
  assumes "gaps_ok gs" "s \<notin> gap_set gs" "s \<le> u64_max"
  shows "\<forall>(a, b) \<in> set (butlast (insort (s, s) gs)). b < u64_max"
  using assms
proof (induction gs)
  case (Cons g gs)
  obtain a b where g: "g = (a, b)" by (cases g)
  note ok = Cons.prems(1) [unfolded g]
  have ab: "a \<le> b" "b \<le> u64_max" using gaps_ok_range [OF ok] by auto
  have rest: "b < u64_max" if "gs \<noteq> []"
    using that ok gaps_ok_range [of gs] by (cases gs) (auto, fastforce)
  have IH: "\<forall>(a, b) \<in> set (butlast (insort (s, s) gs)). b < u64_max"
    using Cons g by (auto dest: gaps_ok_Cons)
  show ?case
  proof (cases "(s, s) \<le> g")
    case True
    have "\<forall>(a, b) \<in> set (butlast (g # gs)). b < u64_max"
    proof -
      have "insort (s, s) gs \<noteq> []" by (cases gs) auto
      have "set (butlast gs) \<subseteq> set (butlast (insort (s, s) gs))"
      proof -
        have "\<forall>h \<in> set gs. (s, s) \<le> h"
          by (metis True gaps_ok_sorted [OF Cons.prems(1)] order_trans sorted_simps(2))
        then have "insort (s, s) gs = (s, s) # gs"
          by (cases gs) auto
        then show ?thesis by auto
      qed
      with IH rest show ?thesis by (auto simp: g)
    qed
    moreover have "s < u64_max"
      using True Cons.prems ab by (auto simp: g)
    ultimately show ?thesis using True by (auto simp: g)
  next
    case False
    then have "b < s" using Cons.prems ab by (auto simp: g)
    with Cons.prems IH False show ?thesis by (auto simp: g)
  qed
qed simp

lemma add_gap_in_facts:
  assumes "gaps_ok gs" "s \<le> u64_max"
  shows "gaps_ok (add_gap_in gs s)" "gap_set (add_gap_in gs s) = insert s (gap_set gs)"
proof -
  let ?gs = "insort (s, s) gs"
  have sort: "sort (gs @ [(s, s)]) = ?gs"
    by (simp add: sort_insort_snoc sorted_sort_id gaps_ok_sorted [OF assms(1)])
  have sorted: "sorted (map fst ?gs)"
    by (intro sorted_map_fst sorted_insort [THEN iffD2] gaps_ok_sorted assms)
  have range: "\<forall>(a, b) \<in> set ?gs. a \<le> b \<and> b \<le> u64_max"
    using gaps_ok_range [OF assms(1)] assms(2) by (auto simp: set_insort_key)
  have set: "gap_set ?gs = insert s (gap_set gs)"
    by (auto simp: gap_set_def set_insort_key)
  show "gap_set (add_gap_in gs s) = insert s (gap_set gs)"
    using merge_touching_set [OF sorted range] set
    by (auto simp: add_gap_in_def sort split: option.splits)
       (metis gap_end_in_None insert_absorb option.distinct(1))+
  show "gaps_ok (add_gap_in gs s)"
  proof (cases "gap_end_in gs s")
    case None
    then have "s \<notin> gap_set gs" by simp
    from merge_touching_ok [OF sorted range insort_gap_pre [OF assms(1) this assms(2)]]
    have "gaps_ok (merge_touching ?gs)" .
    with None show ?thesis unfolding add_gap_in_def sort by (simp only: option.case)
  next
    case (Some e)
    with assms(1) show ?thesis by (simp add: add_gap_in_def)
  qed
qed


section \<open>The rolling window\<close>

definition manifest_ok :: "nat \<Rightarrow> manifest \<Rightarrow> bool" where
  "manifest_ok window m =
     (distinct (map ms_seq (mf_segments m)) \<and> length (mf_segments m) \<le> window \<and>
      list_all (\<lambda>e. ms_seq e \<le> mf_latest_seq m) (mf_segments m) \<and>
      (mf_segments m \<noteq> [] \<longrightarrow> mf_window_start_seq m = ms_seq (hd (mf_segments m))))"

lemma trim_window_drop: "trim_window w xs = drop (length xs - w) xs"
  by (induction w xs rule: trim_window.induct) (auto simp: Suc_diff_le)

lemma refresh_None: "refresh_segment s xs = None \<longleftrightarrow> ms_seq s \<notin> ms_seq ` set xs"
  by (induction xs) auto

lemma refresh_Some_seqs: "refresh_segment s xs = Some ys \<Longrightarrow> map ms_seq ys = map ms_seq xs"
  by (induction xs arbitrary: ys) (auto split: if_splits)

lemma refresh_Some_in: "refresh_segment s xs = Some ys \<Longrightarrow> s \<in> set ys \<and> set ys \<subseteq> insert s (set xs)"
  by (induction xs arbitrary: ys) (fastforce split: if_splits)+

lemma refresh_again: "refresh_segment s xs = Some ys \<Longrightarrow> refresh_segment s ys = Some ys"
  by (induction xs arbitrary: ys) (auto split: if_splits)

lemma refresh_in: "s \<in> set xs \<Longrightarrow> distinct (map ms_seq xs) \<Longrightarrow> refresh_segment s xs = Some xs"
  by (induction xs) force+

lemma manifest_push_frame [simp]:
  "mf_gaps (manifest_push m s w) = mf_gaps m"
  "mf_status (manifest_push m s w) = mf_status m"
  "mf_event_id (manifest_push m s w) = mf_event_id m"
  "mf_started_at_ms (manifest_push m s w) = mf_started_at_ms m"
  "mf_first_available_seq (manifest_push m s w) = mf_first_available_seq m"
  "mf_latest_seq (manifest_push m s w) = max (mf_latest_seq m) (ms_seq s)"
  by (simp_all add: manifest_push_def Let_def split: option.split)

lemma manifest_push_segments:
  "set (mf_segments (manifest_push m s w)) \<subseteq> insert s (set (mf_segments m))"
  using set_drop_subset [of "Suc (length (mf_segments m)) - w" "mf_segments m @ [s]"]
  by (auto simp: manifest_push_def Let_def trim_window_drop split: option.split
      dest: refresh_Some_in)

lemma manifest_push_listed: "0 < w \<Longrightarrow> s \<in> set (mf_segments (manifest_push m s w))"
  by (auto simp: manifest_push_def Let_def trim_window_drop Suc_diff_le drop_append
      split: option.split dest: refresh_Some_in)

lemma manifest_push_ok:
  assumes "manifest_ok w m"
  shows "manifest_ok w (manifest_push m s w)"
proof (cases "refresh_segment s (mf_segments m)")
  case None
  let ?segs = "drop (Suc (length (mf_segments m)) - w) (mf_segments m @ [s])"
  have "ms_seq s \<notin> ms_seq ` set (mf_segments m)" using None refresh_None by blast
  then have "distinct (map ms_seq (mf_segments m @ [s]))"
    using assms by (auto simp: manifest_ok_def)
  then have "distinct (map ms_seq ?segs)" by (metis distinct_drop drop_map)
  moreover have "list_all (\<lambda>e. ms_seq e \<le> max (mf_latest_seq m) (ms_seq s)) ?segs"
    using assms by (auto simp: manifest_ok_def list_all_iff le_max_iff_disj simp del: drop_append
        dest!: in_set_dropD)
  moreover have "length ?segs \<le> w" by simp
  ultimately show ?thesis using None
    by (auto simp: manifest_ok_def manifest_push_def Let_def trim_window_drop max_def
        list_all_iff hd_conv_nth split: list.split)
next
  case (Some segs)
  note seqs = refresh_Some_seqs [OF Some]
  have "length segs = length (mf_segments m)" using seqs by (metis length_map)
  moreover have "list_all (\<lambda>e. ms_seq e \<le> max (mf_latest_seq m) (ms_seq s)) segs"
    using assms refresh_Some_in [OF Some] by (fastforce simp: manifest_ok_def list_all_iff)
  moreover have "segs \<noteq> [] \<Longrightarrow> ms_seq (hd segs) = ms_seq (hd (mf_segments m))"
    using seqs by (metis hd_map map_is_Nil_conv)
  ultimately show ?thesis using assms Some seqs
    by (auto simp: manifest_ok_def manifest_push_def Let_def max_def list_all_iff)
qed

lemma manifest_push_again:
  assumes "manifest_ok w m" "0 < w"
  shows "manifest_push (manifest_push m s w) s w = manifest_push m s w"
proof -
  let ?m = "manifest_push m s w"
  have "refresh_segment s (mf_segments ?m) = Some (mf_segments ?m)"
    using manifest_push_listed [OF assms(2)] manifest_push_ok [OF assms(1)]
    by (auto intro: refresh_in simp: manifest_ok_def)
  moreover have "mf_latest_seq ?m \<ge> ms_seq s" by simp
  ultimately show ?thesis
    unfolding manifest_push_def [of ?m] by (simp add: Let_def)
qed


section \<open>The median duration\<close>

lemma hint_majority:
  assumes "1 / 10 < d"
    "length (filter (\<lambda>s. 1 / 10 < ms_duration_s s) (mf_segments m))
       < 2 * length (filter (\<lambda>s. ms_duration_s s = d) (mf_segments m))"
  shows "stream_duration_hint m = d"
proof -
  let ?D = "filter (\<lambda>x. x > 1 / 10) (map ms_duration_s (mf_segments m))"
  have len: "length ?D = length (filter (\<lambda>s. 1 / 10 < ms_duration_s s) (mf_segments m))"
    by (simp add: filter_map comp_def)
  have "filter (\<lambda>x. x = d) ?D = filter (\<lambda>x. x = d) (map ms_duration_s (mf_segments m))"
    using assms(1) by (auto simp: filter_filter intro: filter_cong)
  then have cnt: "length (filter (\<lambda>x. x = d) ?D) = length (filter (\<lambda>s. ms_duration_s s = d) (mf_segments m))"
    by (simp add: filter_map comp_def)
  have "sort ?D ! (length (sort ?D) div 2) = d"
    using assms(2) len cnt by (intro sorted_majority_nth) (simp_all only: sorted_sort length_sort length_filter_sort)
  moreover have "?D \<noteq> []"
  proof
    assume "?D = []"
    then have "length (filter (\<lambda>x. x = d) ?D) = 0" by (simp only: filter.simps list.size)
    with assms(2) cnt show False by linarith
  qed
  ultimately show ?thesis by (simp add: stream_duration_hint_def Let_def sort_eq_Nil)
qed


section \<open>Tiles\<close>

definition layout_valid :: "tile_layout \<Rightarrow> bool" where
  "layout_valid t = (1 \<le> tl_cols t \<and> tl_cols t \<le> 4 \<and> 1 \<le> tl_rows t \<and> tl_rows t \<le> 4)"

definition in_rect :: "tile_Rect \<Rightarrow> int \<Rightarrow> int \<Rightarrow> bool" where
  "in_rect r x y = (r_x r \<le> x \<and> x < r_x r + r_w r \<and> r_y r \<le> y \<and> y < r_y r + r_h r)"

lemma layout_parse_valid: "layout_valid (layout_parse s)"
  by (auto simp: layout_parse_def layout_valid_def tile_layout_default_def Let_def)

lemma int_str_small: "0 \<le> i \<Longrightarrow> i < 10 \<Longrightarrow> int_str i = [digit_char (nat i)]"
  by (simp add: int_str_def nat_str.simps [of "nat i"] nat_less_iff)

lemma digit_char_not_x: "d < 10 \<Longrightarrow> digit_char d \<noteq> CHR ''x''"
  using is_digit_char [of d] by (auto simp: is_digit_code)

lemma layout_parse_to_string:
  assumes "layout_valid t"
  shows "layout_parse (layout_to_string t) = t"
proof -
  have "layout_to_string t = digit_char (nat (tl_cols t)) # CHR ''x'' # [digit_char (nat (tl_rows t))]"
    using assms by (simp add: layout_to_string_def layout_valid_def int_str_small)
  then show ?thesis
    using assms
    by (simp add: layout_parse_def layout_valid_def Let_def digits_only_def nat_less_iff
        digit_char_not_x read_nat_def)
qed

lemma even_down_even: "even (even_down v)"
  by (simp add: even_down_def)

lemma even_down_nonneg: "0 \<le> even_down v"
  unfolding even_down_def by (simp, presburger)

lemma even_down_mono: "u \<le> v \<Longrightarrow> even_down u \<le> even_down v"
  unfolding even_down_def by (simp, presburger)

lemma even_down_gap: "0 \<le> u \<Longrightarrow> u + 2 \<le> v \<Longrightarrow> even_down u < even_down v"
  unfolding even_down_def by (simp, presburger)

lemma tile_edge_eq: "0 \<le> len \<Longrightarrow> 0 < n \<Longrightarrow> 0 \<le> k \<Longrightarrow> tile_edge len n k = even_down (len * k div n)"
  by (simp add: tile_edge_def sdiv_pos)

lemma tile_edge_0: "0 < n \<Longrightarrow> tile_edge len n 0 = 0"
  by (simp add: tile_edge_def even_down_def signed_divide_int_def)

lemma tile_edge_last: "0 \<le> len \<Longrightarrow> 0 < n \<Longrightarrow> tile_edge len n n = even_down len"
  by (simp add: tile_edge_eq)

lemma tile_edge_mono:
  "0 \<le> len \<Longrightarrow> 0 < n \<Longrightarrow> 0 \<le> j \<Longrightarrow> j \<le> k \<Longrightarrow> tile_edge len n j \<le> tile_edge len n k"
  by (simp add: tile_edge_eq even_down_mono zdiv_mono1 mult_left_mono)

lemma tile_edge_step:
  assumes "0 < n" "2 * n \<le> len" "0 \<le> k"
  shows "tile_edge len n k < tile_edge len n (k + 1)"
proof -
  have "len * k div n + 2 = (len * k + 2 * n) div n" using assms by simp
  also have "\<dots> \<le> len * (k + 1) div n"
    using assms by (intro zdiv_mono1) (simp_all add: algebra_simps)
  finally have "len * k div n + 2 \<le> len * (k + 1) div n" .
  moreover have "0 \<le> len * k div n" using assms by (simp add: pos_imp_zdiv_nonneg_iff)
  ultimately show ?thesis using assms by (simp add: tile_edge_eq even_down_gap)
qed

text \<open>An increasing sequence of edges puts every point in exactly one cell.\<close>

lemma cell_exists:
  fixes f :: "int \<Rightarrow> int"
  assumes "0 \<le> n" "f 0 \<le> x" "x < f n"
  shows "\<exists>k. 0 \<le> k \<and> k < n \<and> f k \<le> x \<and> x < f (k + 1)"
  using assms
proof (induction n rule: int_ge_induct)
  case base
  then show ?case by simp
next
  case (step n)
  show ?case
  proof (cases "x < f n")
    case True
    with step obtain k where "0 \<le> k" "k < n" "f k \<le> x" "x < f (k + 1)" by auto
    then show ?thesis by (intro exI [of _ k]) auto
  next
    case False
    with step show ?thesis by (intro exI [of _ n]) auto
  qed
qed

lemma cell_unique:
  fixes f :: "int \<Rightarrow> int"
  assumes "\<And>i j. 0 \<le> i \<Longrightarrow> i \<le> j \<Longrightarrow> f i \<le> f j" "0 \<le> j" "0 \<le> k"
    "f j \<le> x" "x < f (j + 1)" "f k \<le> x" "x < f (k + 1)"
  shows "j = k"
proof (rule ccontr)
  assume "j \<noteq> k"
  then consider "j + 1 \<le> k" | "k + 1 \<le> j" by linarith
  then show False
  proof cases
    case 1
    then have "f (j + 1) \<le> f k" using assms by simp
    with assms show False by simp
  next
    case 2
    then have "f (k + 1) \<le> f j" using assms by simp
    with assms show False by simp
  qed
qed

lemma tile_rect_cell:
  assumes "1 \<le> tl_cols t" "1 \<le> tl_rows t" "2 * tl_cols t \<le> w" "2 * tl_rows t \<le> h"
    "0 \<le> i" "i < layout_count t"
  shows "in_rect (tile_rect t i w h) x y \<longleftrightarrow>
     tile_edge w (tl_cols t) (i mod tl_cols t) \<le> x \<and> x < tile_edge w (tl_cols t) (i mod tl_cols t + 1) \<and>
     tile_edge h (tl_rows t) (i div tl_cols t) \<le> y \<and> y < tile_edge h (tl_rows t) (i div tl_cols t + 1)"
proof (cases "layout_is_split t")
  case True
  have sx: "tile_edge w (tl_cols t) (i mod tl_cols t) < tile_edge w (tl_cols t) (i mod tl_cols t + 1)"
    using assms by (intro tile_edge_step) auto
  have sy: "tile_edge h (tl_rows t) (i div tl_cols t) < tile_edge h (tl_rows t) (i div tl_cols t + 1)"
    using assms by (intro tile_edge_step) (auto simp: pos_imp_zdiv_nonneg_iff)
  show ?thesis
    using True assms sx sy by (simp add: tile_rect_def in_rect_def Let_def sdiv_pos smod_pos)
next
  case False
  have "tl_cols t = 1" "tl_rows t = 1"
    using False assms int_mult_le_1 [of "tl_cols t" "tl_rows t"]
    by (simp_all add: layout_is_split_def layout_count_def)
  moreover from this have "i = 0" using assms by (simp add: layout_count_def)
  moreover have "tile_edge w 1 0 = 0" "tile_edge h 1 0 = 0"
    "tile_edge w 1 1 = even_down w" "tile_edge h 1 1 = even_down h"
    using assms tile_edge_0 [of 1] tile_edge_last [of _ 1] by auto
  ultimately show ?thesis
    using assms by (simp add: tile_rect_def in_rect_def Let_def layout_is_split_def layout_count_def)
qed

lemma tile_rect_partition:
  assumes "1 \<le> tl_cols t" "1 \<le> tl_rows t" "2 * tl_cols t \<le> w" "2 * tl_rows t \<le> h"
    "0 \<le> x" "x < even_down w" "0 \<le> y" "y < even_down h"
  shows "\<exists>!i. 0 \<le> i \<and> i < layout_count t \<and> in_rect (tile_rect t i w h) x y"
proof -
  let ?c = "tl_cols t" and ?r = "tl_rows t"
  have wh: "0 \<le> w" "0 \<le> h" using assms by linarith+
  have mw: "0 \<le> j \<Longrightarrow> j \<le> k \<Longrightarrow> tile_edge w ?c j \<le> tile_edge w ?c k" for j k
    using assms wh by (simp add: tile_edge_mono)
  have mh: "0 \<le> j \<Longrightarrow> j \<le> k \<Longrightarrow> tile_edge h ?r j \<le> tile_edge h ?r k" for j k
    using assms wh by (simp add: tile_edge_mono)
  obtain col where col: "0 \<le> col" "col < ?c" "tile_edge w ?c col \<le> x" "x < tile_edge w ?c (col + 1)"
    using cell_exists [of ?c "tile_edge w ?c" x] assms wh by (auto simp: tile_edge_0 tile_edge_last)
  obtain row where row: "0 \<le> row" "row < ?r" "tile_edge h ?r row \<le> y" "y < tile_edge h ?r (row + 1)"
    using cell_exists [of ?r "tile_edge h ?r" y] assms wh by (auto simp: tile_edge_0 tile_edge_last)
  have count: "row * ?c + col < layout_count t"
  proof -
    have "row * ?c + col < (row + 1) * ?c" using col by (simp add: algebra_simps)
    also have "\<dots> \<le> ?r * ?c" using row assms by (intro mult_right_mono) auto
    finally show ?thesis by (simp add: layout_count_def mult.commute)
  qed
  have dm: "(row * ?c + col) mod ?c = col" "(row * ?c + col) div ?c = row"
    using col by (simp_all add: div_mult_self3 mult.commute)
  show ?thesis
  proof (rule ex1I [of _ "row * ?c + col"])
    show "0 \<le> row * ?c + col \<and> row * ?c + col < layout_count t \<and>
        in_rect (tile_rect t (row * ?c + col) w h) x y"
      using tile_rect_cell [OF assms(1-4) _ count, of x y] col row count assms dm by simp
  next
    fix i
    assume i: "0 \<le> i \<and> i < layout_count t \<and> in_rect (tile_rect t i w h) x y"
    then have "i mod ?c = col" "i div ?c = row"
      using tile_rect_cell [OF assms(1-4), of i x y] col row assms
        cell_unique [of "tile_edge w ?c" "i mod ?c" col x] mw
        cell_unique [of "tile_edge h ?r" "i div ?c" row y] mh
      by (auto simp: pos_imp_zdiv_nonneg_iff)
    then show "i = row * ?c + col" by (metis div_mult_mod_eq)
  qed
qed

definition rect_fits :: "tile_Rect \<Rightarrow> int \<Rightarrow> int \<Rightarrow> bool" where
  "rect_fits r w h =
     (0 \<le> r_x r \<and> 0 \<le> r_w r \<and> r_x r + r_w r \<le> even_down w \<and> even (r_x r) \<and> even (r_w r) \<and>
      0 \<le> r_y r \<and> 0 \<le> r_h r \<and> r_y r + r_h r \<le> even_down h \<and> even (r_y r) \<and> even (r_h r))"

lemma whole_fits: "rect_fits \<lparr>r_x = 0, r_y = 0, r_w = even_down w, r_h = even_down h\<rparr> w h"
  by (simp add: rect_fits_def even_down_nonneg even_down_even)

lemma tile_rect_fits:
  assumes "1 \<le> tl_cols t" "1 \<le> tl_rows t"
  shows "rect_fits (tile_rect t i w h) w h"
proof (cases "0 \<le> i \<and> i < layout_count t \<and> 0 < w \<and> 0 < h \<and> layout_is_split t")
  case True
  have row: "0 \<le> i div tl_cols t" "i div tl_cols t + 1 \<le> tl_rows t"
    using True assms div_less_of_mult [of i "tl_cols t" "tl_rows t"]
    by (auto simp: layout_count_def pos_imp_zdiv_nonneg_iff)
  have "tile_edge w (tl_cols t) (i mod tl_cols t + 1) \<le> tile_edge w (tl_cols t) (tl_cols t)"
    using True assms by (intro tile_edge_mono) (auto intro: zless_imp_add1_zle)
  moreover have "tile_edge h (tl_rows t) (i div tl_cols t + 1) \<le> tile_edge h (tl_rows t) (tl_rows t)"
    using True assms row by (intro tile_edge_mono) auto
  ultimately show ?thesis
    using True assms whole_fits [of w h]
    by (auto simp: tile_rect_def Let_def rect_fits_def sdiv_pos smod_pos tile_edge_last
        tile_edge_def even_down_nonneg even_down_even)
next
  case False
  then have "tile_rect t i w h = \<lparr>r_x = 0, r_y = 0, r_w = even_down w, r_h = even_down h\<rparr>"
    by (auto simp: tile_rect_def Let_def)
  then show ?thesis by (simp add: whole_fits)
qed


section \<open>Keys\<close>

lemma seq_name_eq: "seq < 10 ^ 15 \<Longrightarrow> seq_name seq = pad8 (nat_str seq)"
  using nat_str_length [of 15 seq] by (simp add: seq_name_def pad8_def)

lemma read_seq_name: "seq < 10 ^ 15 \<Longrightarrow> read_nat (seq_name seq) = seq"
  by (simp add: seq_name_eq)

lemma segment_key_inj:
  "seq < 10 ^ 15 \<Longrightarrow> seq' < 10 ^ 15 \<Longrightarrow> segment_key_for e seq = segment_key_for e seq' \<longleftrightarrow> seq = seq'"
  by (auto simp: segment_key_for_def dest: arg_cong [where f = read_nat] simp: read_seq_name)

lemma event_id_from_room_event_key:
  assumes "CHR ''/'' \<notin> set e" "e \<noteq> []"
  shows "event_id_from_index_key (room_event_key r e) = e"
proof -
  have rev: "rev (room_event_key r e) =
      (rev ''.json'' @ rev e) @ CHR ''/'' # rev (''rooms/'' @ r @ ''/events'')"
    by (simp add: room_event_key_def room_events_prefix_def)
  have body: "rev (dropWhile (\<lambda>c. c = CHR ''/'') (rev (room_event_key r e))) = room_event_key r e"
    by (simp add: room_event_key_def room_events_prefix_def)
  have tail: "rev (takeWhile (\<lambda>c. c \<noteq> CHR ''/'') (rev (room_event_key r e))) = e @ ''.json''"
    unfolding rev using assms by (subst takeWhile_no) auto
  show ?thesis
    unfolding event_id_from_index_key_def body tail Let_def
    using assms by (simp add: room_event_key_def room_events_prefix_def)
qed

lemma event_id_from_prefix:
  assumes "CHR ''/'' \<notin> set e" "e \<noteq> []"
  shows "event_id_from_index_key (event_prefix_for e) = e"
proof -
  have rev: "rev (''events/'' @ e) = rev e @ CHR ''/'' # rev ''events''" by simp
  have last: "dropWhile (\<lambda>c. c = CHR ''/'') (rev (''events/'' @ e)) = rev (''events/'' @ e)"
  proof -
    obtain c cs where c: "rev e = c # cs" using assms(2) by (cases "rev e") auto
    then have "c \<in> set e" by (metis list.set_intros(1) set_rev)
    with assms(1) have "c \<noteq> CHR ''/''" by auto
    with c show ?thesis by simp
  qed
  have body: "rev (dropWhile (\<lambda>c. c = CHR ''/'') (rev (event_prefix_for e))) = ''events/'' @ e"
    using last by (simp add: event_prefix_for_def)
  have tail: "rev (takeWhile (\<lambda>c. c \<noteq> CHR ''/'') (rev (''events/'' @ e))) = e"
    unfolding rev using assms by (subst takeWhile_no) auto
  show ?thesis
    unfolding event_id_from_index_key_def body tail Let_def
    using assms by (simp add: event_prefix_for_def)
qed


section \<open>Cue author tokens\<close>

definition token_char :: "char \<Rightarrow> bool" where
  "token_char c = (is_digit c \<or> is_lower c \<or> c = CHR ''-'')"

fun dash_runs_ok :: "bool \<Rightarrow> string \<Rightarrow> bool" where
  "dash_runs_ok p [] = True"
| "dash_runs_ok p (c # cs) = ((c = CHR ''-'' \<longrightarrow> \<not> p) \<and> dash_runs_ok (c = CHR ''-'') cs)"

text \<open>Lower-case letters, digits and single dashes, none at either end.\<close>

definition token_ok :: "string \<Rightarrow> bool" where
  "token_ok t = (t \<noteq> [] \<and> list_all token_char t \<and> dash_runs_ok True t \<and> last t \<noteq> CHR ''-'')"

lemma to_lower_token: "is_alnum c \<Longrightarrow> token_char (to_lower c) \<and> to_lower c \<noteq> CHR ''-''"
proof (cases "is_upper c")
  case True
  then have b: "65 \<le> (of_char c :: nat)" "(of_char c :: nat) \<le> 90"
    by (simp_all add: is_upper_def less_eq_char_def)
  then have "of_char (char_of ((of_char c :: nat) + 32) :: char) = (of_char c :: nat) + 32"
    by simp
  moreover have "char_of ((of_char c :: nat) + 32) \<noteq> CHR ''-''"
  proof
    assume "char_of ((of_char c :: nat) + 32) = CHR ''-''"
    from arg_cong [OF this, of "of_char :: char \<Rightarrow> nat"] calculation b show False by simp
  qed
  ultimately show ?thesis using True b
    by (simp add: to_lower_def token_char_def is_lower_def less_eq_char_def)
next
  case False
  assume "is_alnum c"
  with False show ?thesis
    by (auto simp: to_lower_def token_char_def is_alnum_def is_digit_code is_lower_def less_eq_char_def)
qed

lemma dash_runs_snoc:
  "dash_runs_ok p (t @ [c]) \<longleftrightarrow>
     dash_runs_ok p t \<and> (c = CHR ''-'' \<longrightarrow> \<not> (if t = [] then p else last t = CHR ''-''))"
  by (induction t arbitrary: p) auto

lemma cue_token_loop_inv:
  assumes "list_all token_char t" "dash_runs_ok True t"
    "last_dash = (t \<noteq> [] \<and> last t = CHR ''-'')"
  shows "list_all token_char (cue_token_loop t last_dash cs) \<and> dash_runs_ok True (cue_token_loop t last_dash cs)"
  using assms
proof (induction t last_dash cs rule: cue_token_loop.induct)
  case (2 t last_dash c cs)
  then show ?case
    using to_lower_token [of c]
    by (auto simp: dash_runs_snoc token_char_def)
qed simp

lemma dash_runs_append: "dash_runs_ok p (s @ t) \<Longrightarrow> dash_runs_ok p s"
  by (induction s arbitrary: p) auto

lemma strip_dashes:
  assumes "list_all token_char t" "dash_runs_ok True t"
  defines "t' \<equiv> rev (dropWhile (\<lambda>c. c = CHR ''-'') (rev t))"
  shows "t' \<noteq> [] \<Longrightarrow> token_ok t'"
proof -
  obtain u where u: "t = t' @ u"
    unfolding t'_def by (metis rev_append rev_rev_ident takeWhile_dropWhile_id)
  assume "t' \<noteq> []"
  moreover from this have "last t' \<noteq> CHR ''-''"
    unfolding t'_def by (metis (mono_tags) hd_dropWhile last_rev rev_is_Nil_conv)
  ultimately show ?thesis
    using assms(1,2) u by (auto simp: token_ok_def dash_runs_append)
qed

lemma cue_author_token_ok: "token_ok (cue_author_token s)"
proof -
  have "list_all token_char (cue_token_loop [] False s) \<and> dash_runs_ok True (cue_token_loop [] False s)"
    by (rule cue_token_loop_inv) simp_all
  then show ?thesis
    using strip_dashes [of "cue_token_loop [] False s"]
    by (auto simp: cue_author_token_def Let_def token_ok_def token_char_def is_lower_def less_eq_char_def)
qed

lemma token_char_cases:
  assumes "token_char c"
  shows "(is_alnum c \<and> to_lower c = c \<and> c \<noteq> CHR ''-'') \<or> (c = CHR ''-'' \<and> \<not> is_alnum c \<and> is_separator c)"
  using assms
  by (auto simp: token_char_def is_alnum_def to_lower_def is_upper_def is_lower_def is_digit_code
      is_separator_def less_eq_char_def)

lemma cue_token_loop_id:
  assumes "list_all token_char s" "dash_runs_ok (t = [] \<or> last_dash) s"
    "last_dash \<longrightarrow> t \<noteq> []"
  shows "cue_token_loop t last_dash s = t @ s"
  using assms
proof (induction s arbitrary: t last_dash)
  case (Cons c s)
  from Cons.prems token_char_cases [of c] show ?case
    by (auto simp: Cons.IH)
qed simp

lemma cue_author_token_id:
  assumes "token_ok t"
  shows "cue_author_token t = t"
proof -
  have "cue_token_loop [] False t = t"
    using assms cue_token_loop_id [of t "[]" False] by (simp add: token_ok_def)
  moreover have "dropWhile (\<lambda>c. c = CHR ''-'') (rev t) = rev t"
    using assms by (cases t rule: rev_cases) (simp_all add: token_ok_def)
  moreover have "t \<noteq> []" using assms by (simp add: token_ok_def)
  ultimately show ?thesis unfolding cue_author_token_def Let_def by (simp only: rev_rev_ident if_False)
qed


section \<open>Merging cue lists\<close>

lemma dedup_sorted:
  "sorted (map f (out @ ms)) \<Longrightarrow> sorted (map f (dedup_markers out ms))"
proof (induction out ms rule: dedup_markers.induct)
  case (2 out m ms)
  then show ?case by (auto simp: sorted_append split: if_splits)
qed simp

definition ids_distinct :: "marker list \<Rightarrow> bool" where
  "ids_distinct ms = distinct (filter (\<lambda>i. i \<noteq> []) (map mk_id ms))"

lemma dedup_distinct: "ids_distinct out \<Longrightarrow> ids_distinct (dedup_markers out ms)"
proof (induction out ms rule: dedup_markers.induct)
  case (2 out m ms)
  show ?case
  proof (cases "mk_id m \<noteq> [] \<and> (\<exists>e \<in> set out. mk_id e = mk_id m)")
    case True
    with "2.IH"(1) "2.prems" show ?thesis by simp
  next
    case False
    then have "ids_distinct (out @ [m])" using "2.prems" by (auto simp: ids_distinct_def)
    with "2.IH"(2) False show ?thesis by auto
  qed
qed simp

lemma dedup_set: "set out \<subseteq> set (dedup_markers out ms) \<and> set (dedup_markers out ms) \<subseteq> set out \<union> set ms"
  by (induction out ms rule: dedup_markers.induct) (auto split: if_splits)

lemma dedup_covers:
  "m \<in> set ms \<Longrightarrow> (mk_id m = [] \<and> m \<in> set (dedup_markers out ms)) \<or>
     (mk_id m \<noteq> [] \<and> (\<exists>e \<in> set (dedup_markers out ms). mk_id e = mk_id m))"
proof (induction out ms rule: dedup_markers.induct)
  case (2 out x ms)
  show ?case
  proof (cases "mk_id x \<noteq> [] \<and> (\<exists>e \<in> set out. mk_id e = mk_id x)")
    case True
    have "set out \<subseteq> set (dedup_markers out ms)" using dedup_set by blast
    with True "2.IH"(1) [OF True] "2.prems" show ?thesis by auto
  next
    case False
    have "x \<in> set (dedup_markers (out @ [x]) ms)" using dedup_set [of "out @ [x]" ms] by auto
    with False "2.IH"(2) [OF False] "2.prems" show ?thesis by auto
  qed
qed simp

lemma dedup_id:
  assumes "ids_distinct (out @ ms)"
  shows "dedup_markers out ms = out @ ms"
  using assms
proof (induction out ms rule: dedup_markers.induct)
  case (2 out m ms)
  then have "\<not> (mk_id m \<noteq> [] \<and> (\<exists>e \<in> set out. mk_id e = mk_id m))"
    by (auto simp: ids_distinct_def image_iff)
  with 2 show ?case by auto
qed simp

definition all_markers :: "marker_list list \<Rightarrow> marker list" where
  "all_markers parts = concat (map ml_markers parts)"

lemma merge_markers_markers:
  "ml_markers (merge_markers parts) = dedup_markers [] (sort_key marker_key (all_markers parts))"
  by (simp add: merge_markers_def all_markers_def)

lemma merge_markers_sorted: "sorted (map marker_key (ml_markers (merge_markers parts)))"
  by (simp add: merge_markers_def dedup_sorted)

lemma merge_markers_distinct: "ids_distinct (ml_markers (merge_markers parts))"
  by (simp add: merge_markers_def, rule dedup_distinct, simp add: ids_distinct_def)

lemma merge_markers_subset: "set (ml_markers (merge_markers parts)) \<subseteq> set (all_markers parts)"
  using dedup_set [of "[]"] by (force simp: merge_markers_def all_markers_def)

lemma merge_markers_covers:
  "m \<in> set (all_markers parts) \<Longrightarrow>
     (mk_id m = [] \<and> m \<in> set (ml_markers (merge_markers parts))) \<or>
     (mk_id m \<noteq> [] \<and> (\<exists>e \<in> set (ml_markers (merge_markers parts)). mk_id e = mk_id m))"
  unfolding merge_markers_markers by (rule dedup_covers) simp

lemma merge_markers_idem: "merge_markers [merge_markers parts] = merge_markers parts"
proof -
  let ?ms = "ml_markers (merge_markers parts)"
  have "sort_key marker_key ?ms = ?ms"
    by (rule sort_key_id_if_sorted) (rule merge_markers_sorted)
  moreover have "dedup_markers [] ?ms = ?ms"
    using dedup_id [of "[]" ?ms] merge_markers_distinct by simp
  ultimately show ?thesis
    unfolding merge_markers_def [of "[merge_markers parts]"]
    by (simp add: merge_markers_def)
qed


section \<open>Properties\<close>

lemma add_gaps_from:
  assumes "gaps_ok (mf_gaps m)" "list_all (\<lambda>s. s \<le> u64_max) ss"
  shows "gaps_ok (mf_gaps (fold (\<lambda>s m. add_gap m s) ss m)) \<and>
    gap_set (mf_gaps (fold (\<lambda>s m. add_gap m s) ss m)) = gap_set (mf_gaps m) \<union> set ss"
  using assms
proof (induction ss arbitrary: m)
  case (Cons s ss)
  have "gaps_ok (mf_gaps (add_gap m s))" "gap_set (mf_gaps (add_gap m s)) = insert s (gap_set (mf_gaps m))"
    using add_gap_in_facts [of "mf_gaps m" s] Cons.prems by (simp_all add: add_gap_def)
  then show ?case using Cons.IH [of "add_gap m s"] Cons.prems by simp
qed simp

text \<open>
  C37: The gap list of a manifest is a set of sequence numbers. After recording any numbers, in any
  order and with repeats, the ranges are sorted, disjoint and never adjacent, \<open>gap_end\<close> finds a
  range exactly for the numbers recorded, and the end it returns is the last number of the run
  recorded without a break.
\<close>

theorem gaps_implement_set:
  assumes "list_all (\<lambda>s. s \<le> u64_max) ss" "m = fold (\<lambda>s m. add_gap m s) ss manifest_default"
  shows "gaps_ok (mf_gaps m) \<and> (\<forall>x. gap_end m x = None \<longleftrightarrow> x \<notin> set ss) \<and>
    (\<forall>x e. gap_end m x = Some e \<longrightarrow> x \<le> e \<and> {x..e} \<subseteq> set ss \<and> e + 1 \<notin> set ss)"
proof -
  have g: "gaps_ok (mf_gaps m)" "gap_set (mf_gaps m) = set ss"
    using add_gaps_from [of manifest_default ss] assms by (simp_all add: manifest_default_def gap_set_def)
  then show ?thesis using gap_end_in_Some [OF g(1)] by (auto simp: gap_end_def simp flip: g(2))
qed

theorem gaps_implement_set_witness:
  "gap_end (fold (\<lambda>s m. add_gap m s) [7, 3, 4, 3] manifest_default) 3 \<noteq> None \<and>
   gap_end (fold (\<lambda>s m. add_gap m s) [7, 3, 4, 3] manifest_default) 5 = None"
  using gaps_implement_set [of "[7, 3, 4, 3]", OF _ refl] by (simp add: u64_max_def)

text \<open>
  The tiles of a split picture cover the frame exactly. With a layout of at least one row and
  column and at least two pixels for each, every pixel of the even-sized frame lies in exactly one
  tile, and every tile lies within the frame with even coordinates and sizes.
\<close>

lemma tiles_partition_frame:
  assumes "1 \<le> tl_cols t" "1 \<le> tl_rows t" "2 * tl_cols t \<le> w" "2 * tl_rows t \<le> h"
  shows "(\<forall>x y. 0 \<le> x \<and> x < even_down w \<and> 0 \<le> y \<and> y < even_down h \<longrightarrow>
      (\<exists>!i. 0 \<le> i \<and> i < layout_count t \<and> in_rect (tile_rect t i w h) x y)) \<and>
    (\<forall>i. rect_fits (tile_rect t i w h) w h)"
  using tile_rect_partition [OF assms] tile_rect_fits [OF assms(1,2)] by blast

text \<open>
  Merging cue lists orders the cues by sequence number, then time, then id, shows each id once,
  adds nothing, loses no id and no cue without one, and merging the result again changes nothing.
\<close>

lemma merged_cues:
  "sorted (map marker_key (ml_markers (merge_markers parts))) \<and> ids_distinct (ml_markers (merge_markers parts)) \<and>
   set (ml_markers (merge_markers parts)) \<subseteq> set (all_markers parts) \<and>
   mk_id ` set (ml_markers (merge_markers parts)) = mk_id ` set (all_markers parts) \<and>
   {m \<in> set (ml_markers (merge_markers parts)). mk_id m = []} = {m \<in> set (all_markers parts). mk_id m = []} \<and>
   merge_markers [merge_markers parts] = merge_markers parts"
proof -
  have "mk_id m \<in> mk_id ` set (ml_markers (merge_markers parts))" if "m \<in> set (all_markers parts)" for m
    using merge_markers_covers [OF that] by (metis imageI)
  then have "mk_id ` set (ml_markers (merge_markers parts)) = mk_id ` set (all_markers parts)"
    using merge_markers_subset by blast
  moreover have "{m \<in> set (ml_markers (merge_markers parts)). mk_id m = []} = {m \<in> set (all_markers parts). mk_id m = []}"
    using merge_markers_subset merge_markers_covers by blast
  ultimately show ?thesis
    by (simp only: merge_markers_sorted merge_markers_distinct merge_markers_subset merge_markers_idem)
qed

end
