(* ===== verification/Json_Codec.thy ===== *)
theory Json_Codec
  imports Storage_Model
begin

text \<open>
  The JSON (de)serialisation of the protocol documents (\<^verbatim>\<open>src/core/model.cpp\<close>): each
  \<open>to_json\<close> builds a JSON value, each \<open>from_json\<close> reads one. The text layer
  (\<open>json::parse\<close>, \<open>dump\<close>) belongs to the vendored JSON library and is a parameter of the
  components that use it; what is modelled of the library are its values and the access
  functions the code calls: \<open>contains\<close>, \<open>value(key, default)\<close>, \<open>get<T>\<close> and the \<open>is_...\<close>
  tests, with the exceptions they raise (306: \<open>value\<close> on something that is no object; 302: a
  value of the wrong type).

  A number without a fraction is \<open>JInt\<close>, as the parser delivers it; a non-negative one is
  what \<open>is_number_unsigned\<close> accepts. The lemmas show that reading back what was written
  gives the same document (for an audio track, without its language, which is not on the
  wire), and that an unclear protocol version never stops a document from being read.
\<close>

section \<open>JSON values\<close>

datatype json =
    JNull
  | JBool bool
  | JInt int
  | JFloat double
  | JStr string
  | JArr "json list"
  | JObj "(string \<times> json) list"

datatype json_error = Type_Error_302 | Type_Error_306

type_synonym 'a jres = "json_error + 'a"

definition jbind :: "'a jres \<Rightarrow> ('a \<Rightarrow> 'b jres) \<Rightarrow> 'b jres" where
  "jbind r f = (case r of Inl e \<Rightarrow> Inl e | Inr x \<Rightarrow> f x)"

fun jmap :: "('a \<Rightarrow> 'b jres) \<Rightarrow> 'a list \<Rightarrow> 'b list jres" where
  "jmap f [] = Inr []"
| "jmap f (x # xs) = jbind (f x) (\<lambda>y. jbind (jmap f xs) (\<lambda>ys. Inr (y # ys)))"

definition jfind :: "json \<Rightarrow> string \<Rightarrow> json option" where
  "jfind j k = (case j of JObj kvs \<Rightarrow> map_of kvs k | _ \<Rightarrow> None)"

definition json_value :: "(json \<Rightarrow> 'a jres) \<Rightarrow> json \<Rightarrow> string \<Rightarrow> 'a \<Rightarrow> 'a jres" where
  "json_value get j k d =
     (case j of
        JObj kvs \<Rightarrow> (case map_of kvs k of None \<Rightarrow> Inr d | Some v \<Rightarrow> get v)
      | _ \<Rightarrow> Inl Type_Error_306)"

text \<open>\<^verbatim>\<open>static_cast\<close> to a signed type of \<open>w\<close> bits.\<close>

definition wrap_signed :: "nat \<Rightarrow> int \<Rightarrow> int" where
  "wrap_signed w i = (i + 2 ^ (w - 1)) mod 2 ^ w - 2 ^ (w - 1)"

fun get_string :: "json \<Rightarrow> string jres" where
  "get_string (JStr s) = Inr s"
| "get_string _ = Inl Type_Error_302"

fun get_bool :: "json \<Rightarrow> bool jres" where
  "get_bool (JBool b) = Inr b"
| "get_bool _ = Inl Type_Error_302"

fun get_u64 :: "json \<Rightarrow> u64 jres" where
  "get_u64 (JInt i) = Inr (nat (i mod 2 ^ 64))"
| "get_u64 (JFloat r) = Inr (nat (trunc r mod 2 ^ 64))"
| "get_u64 _ = Inl Type_Error_302"

fun get_i64 :: "json \<Rightarrow> i64 jres" where
  "get_i64 (JInt i) = Inr (wrap_signed 64 i)"
| "get_i64 (JFloat r) = Inr (wrap_signed 64 (trunc r))"
| "get_i64 _ = Inl Type_Error_302"

fun get_int :: "json \<Rightarrow> int jres" where
  "get_int (JInt i) = Inr (wrap_signed 32 i)"
| "get_int (JFloat r) = Inr (wrap_signed 32 (trunc r))"
| "get_int (JBool b) = Inr (if b then 1 else 0)"
| "get_int _ = Inl Type_Error_302"

fun get_double :: "json \<Rightarrow> double jres" where
  "get_double (JInt i) = Inr (of_int i)"
| "get_double (JFloat r) = Inr r"
| "get_double _ = Inl Type_Error_302"


section \<open>The documents\<close>

definition read_protocol_version :: "json \<Rightarrow> int" where
  "read_protocol_version j =
     (case jfind j ''protocol_version'' of
        None \<Rightarrow> 1
      | Some (JInt i) \<Rightarrow> (let n = wrap_signed 32 i in if n > 0 then n else 1)
      | Some _ \<Rightarrow> 1)"

definition video_to_json :: "video_info \<Rightarrow> json" where
  "video_to_json v = JObj (
     [(''codec'', JStr (vi_codec v)), (''width'', JInt (vi_width v)),
      (''height'', JInt (vi_height v)), (''fps'', JFloat (vi_fps v))] @
     (if layout_is_split (vi_layout v) then [(''layout'', JStr (layout_to_string (vi_layout v)))] else []))"

definition video_from_json :: "json \<Rightarrow> video_info jres" where
  "video_from_json j =
     jbind (json_value get_string j ''codec'' ''h264'') (\<lambda>codec.
     jbind (json_value get_int j ''width'' 0) (\<lambda>width.
     jbind (json_value get_int j ''height'' 0) (\<lambda>height.
     jbind (json_value get_double j ''fps'' 0) (\<lambda>fps.
     jbind (json_value get_string j ''layout'' ''1x1'') (\<lambda>layout.
     Inr \<lparr>vi_codec = codec, vi_width = width, vi_height = height, vi_fps = fps,
          vi_layout = layout_parse layout\<rparr>)))))"

definition track_to_json :: "audio_track \<Rightarrow> json" where
  "track_to_json t = JObj (
     [(''idx'', JInt (at_idx t)), (''label'', JStr (at_label t)), (''codec'', JStr (at_codec t)),
      (''channels'', JInt (at_channels t)), (''sample_rate'', JInt (at_sample_rate t))] @
     (if at_channel_labels t = [] then []
      else [(''channel_labels'', JArr (map JStr (at_channel_labels t)))]))"

definition tracks_to_json :: "audio_track list \<Rightarrow> json" where
  "tracks_to_json ts = JArr (map track_to_json ts)"

definition track_from_json :: "json \<Rightarrow> audio_track jres" where
  "track_from_json t =
     jbind (json_value get_int t ''idx'' 0) (\<lambda>idx.
     jbind (json_value get_string t ''label'' []) (\<lambda>label.
     jbind (json_value get_string t ''codec'' ''aac'') (\<lambda>codec.
     jbind (json_value get_int t ''channels'' 2) (\<lambda>channels.
     jbind (json_value get_int t ''sample_rate'' 48000) (\<lambda>sample_rate.
     jbind (case jfind t ''channel_labels'' of
              Some (JArr cls) \<Rightarrow> jmap get_string cls
            | _ \<Rightarrow> Inr []) (\<lambda>labels.
     Inr \<lparr>at_idx = idx, at_label = label, at_codec = codec, at_channels = channels,
          at_sample_rate = sample_rate, at_channel_labels = labels, at_language = []\<rparr>))))))"

definition tracks_from_json :: "json \<Rightarrow> audio_track list jres" where
  "tracks_from_json j = (case j of JArr ts \<Rightarrow> jmap track_from_json ts | _ \<Rightarrow> Inr [])"

definition live_pointer_to_json :: "live_pointer \<Rightarrow> json" where
  "live_pointer_to_json p = JObj
     [(''protocol_version'', JInt (lp_protocol_version p)), (''room_id'', JStr (lp_room_id p)),
      (''event_id'', JStr (lp_event_id p)), (''status'', JStr (lp_status p)),
      (''updated_at_ms'', JInt (lp_updated_at_ms p))]"

definition live_pointer_from_json :: "json \<Rightarrow> live_pointer jres" where
  "live_pointer_from_json j =
     jbind (json_value get_string j ''room_id'' []) (\<lambda>room_id.
     jbind (json_value get_string j ''event_id'' []) (\<lambda>event_id.
     jbind (json_value get_string j ''status'' ''live'') (\<lambda>status.
     jbind (json_value get_i64 j ''updated_at_ms'' 0) (\<lambda>updated.
     Inr \<lparr>lp_protocol_version = read_protocol_version j, lp_room_id = room_id,
          lp_event_id = event_id, lp_status = status, lp_updated_at_ms = updated\<rparr>))))"

definition room_event_entry_to_json :: "room_event_entry \<Rightarrow> json" where
  "room_event_entry_to_json e = JObj
     [(''protocol_version'', JInt (re_protocol_version e)), (''event_id'', JStr (re_event_id e)),
      (''room_id'', JStr (re_room_id e)), (''name'', JStr (re_name e)),
      (''started_at_ms'', JInt (re_started_at_ms e))]"

definition room_event_entry_from_json :: "json \<Rightarrow> room_event_entry jres" where
  "room_event_entry_from_json j =
     jbind (json_value get_string j ''event_id'' []) (\<lambda>event_id.
     jbind (json_value get_string j ''room_id'' []) (\<lambda>room_id.
     jbind (json_value get_string j ''name'' []) (\<lambda>name.
     jbind (json_value get_i64 j ''started_at_ms'' 0) (\<lambda>started.
     Inr \<lparr>re_protocol_version = read_protocol_version j, re_event_id = event_id,
          re_room_id = room_id, re_name = name, re_started_at_ms = started\<rparr>))))"

definition event_info_to_json :: "event_info \<Rightarrow> json" where
  "event_info_to_json e = JObj
     [(''protocol_version'', JInt (ev_protocol_version e)), (''event_id'', JStr (ev_event_id e)),
      (''room_id'', JStr (ev_room_id e)), (''name'', JStr (ev_name e)),
      (''started_at_ms'', JInt (ev_started_at_ms e)), (''first_seq'', JInt (int (ev_first_seq e))),
      (''segment_duration_s'', JFloat (ev_segment_duration_s e)), (''init'', JStr (ev_init e)),
      (''video'', video_to_json (ev_video e)), (''audio_tracks'', tracks_to_json (ev_audio_tracks e))]"

definition opt_video :: "json \<Rightarrow> video_info jres" where
  "opt_video j = (case jfind j ''video'' of Some v \<Rightarrow> video_from_json v | None \<Rightarrow> Inr video_info_default)"

definition opt_tracks :: "json \<Rightarrow> audio_track list jres" where
  "opt_tracks j = (case jfind j ''audio_tracks'' of Some v \<Rightarrow> tracks_from_json v | None \<Rightarrow> Inr [])"

definition event_info_from_json :: "json \<Rightarrow> event_info jres" where
  "event_info_from_json j =
     jbind (json_value get_string j ''event_id'' []) (\<lambda>event_id.
     jbind (json_value get_string j ''room_id'' []) (\<lambda>room_id.
     jbind (json_value get_string j ''name'' []) (\<lambda>name.
     jbind (json_value get_i64 j ''started_at_ms'' 0) (\<lambda>started.
     jbind (json_value get_u64 j ''first_seq'' 0) (\<lambda>first_seq.
     jbind (json_value get_double j ''segment_duration_s'' 6) (\<lambda>dur.
     jbind (json_value get_string j ''init'' ''init.mp4'') (\<lambda>init.
     jbind (opt_video j) (\<lambda>video.
     jbind (opt_tracks j) (\<lambda>tracks.
     Inr \<lparr>ev_protocol_version = read_protocol_version j, ev_event_id = event_id,
          ev_room_id = room_id, ev_name = name, ev_started_at_ms = started,
          ev_first_seq = first_seq, ev_segment_duration_s = dur, ev_init = init,
          ev_video = video, ev_audio_tracks = tracks\<rparr>)))))))))"

definition manifest_segment_to_json :: "manifest_segment \<Rightarrow> json" where
  "manifest_segment_to_json s = JObj
     [(''seq'', JInt (int (ms_seq s))), (''duration_s'', JFloat (ms_duration_s s)),
      (''checksum'', JStr (ms_checksum s)), (''at_ms'', JInt (ms_at_ms s))]"

definition gap_to_json :: "u64 \<times> u64 \<Rightarrow> json" where
  "gap_to_json g = JArr [JInt (int (fst g)), JInt (int (snd g))]"

definition manifest_to_json :: "manifest \<Rightarrow> json" where
  "manifest_to_json m = JObj
     [(''protocol_version'', JInt (mf_protocol_version m)), (''event_id'', JStr (mf_event_id m)),
      (''status'', JStr (mf_status m)), (''name'', JStr (mf_name m)),
      (''updated_at_ms'', JInt (mf_updated_at_ms m)), (''started_at_ms'', JInt (mf_started_at_ms m)),
      (''first_available_seq'', JInt (int (mf_first_available_seq m))),
      (''window_start_seq'', JInt (int (mf_window_start_seq m))),
      (''latest_seq'', JInt (int (mf_latest_seq m))), (''init'', JStr (mf_init m)),
      (''video'', video_to_json (mf_video m)), (''audio_tracks'', tracks_to_json (mf_audio_tracks m)),
      (''segments'', JArr (map manifest_segment_to_json (mf_segments m))),
      (''gaps'', JArr (map gap_to_json (mf_gaps m)))]"

definition manifest_segment_from_json :: "json \<Rightarrow> manifest_segment jres" where
  "manifest_segment_from_json seg =
     jbind (json_value get_u64 seg ''seq'' 0) (\<lambda>seq.
     jbind (json_value get_double seg ''duration_s'' 6) (\<lambda>dur.
     jbind (json_value get_string seg ''checksum'' []) (\<lambda>checksum.
     jbind (json_value get_i64 seg ''at_ms'' 0) (\<lambda>at_ms.
     Inr \<lparr>ms_seq = seq, ms_duration_s = dur, ms_checksum = checksum, ms_at_ms = at_ms\<rparr>))))"

text \<open>
  A gap entry is kept when it is an array of two unsigned numbers in order; anything else is
  skipped without an error.
\<close>

fun gap_from_json :: "json \<Rightarrow> (u64 \<times> u64) option" where
  "gap_from_json (JArr [JInt a, JInt b]) =
     (if 0 \<le> a \<and> 0 \<le> b \<and> a mod 2 ^ 64 \<le> b mod 2 ^ 64
      then Some (nat (a mod 2 ^ 64), nat (b mod 2 ^ 64)) else None)"
| "gap_from_json _ = None"

definition manifest_from_json :: "json \<Rightarrow> manifest jres" where
  "manifest_from_json j =
     jbind (json_value get_string j ''event_id'' []) (\<lambda>event_id.
     jbind (json_value get_string j ''status'' ''live'') (\<lambda>status.
     jbind (json_value get_string j ''name'' []) (\<lambda>name.
     jbind (json_value get_i64 j ''updated_at_ms'' 0) (\<lambda>updated.
     jbind (json_value get_i64 j ''started_at_ms'' 0) (\<lambda>started.
     jbind (json_value get_u64 j ''first_available_seq'' 0) (\<lambda>first_available.
     jbind (json_value get_u64 j ''window_start_seq'' 0) (\<lambda>window_start.
     jbind (json_value get_u64 j ''latest_seq'' 0) (\<lambda>latest.
     jbind (json_value get_string j ''init'' ''init.mp4'') (\<lambda>init.
     jbind (opt_video j) (\<lambda>video.
     jbind (opt_tracks j) (\<lambda>tracks.
     jbind (case jfind j ''segments'' of
              Some (JArr segs) \<Rightarrow> jmap manifest_segment_from_json segs
            | _ \<Rightarrow> Inr []) (\<lambda>segments.
     Inr \<lparr>mf_protocol_version = read_protocol_version j, mf_event_id = event_id,
          mf_status = status, mf_name = name, mf_updated_at_ms = updated,
          mf_started_at_ms = started, mf_first_available_seq = first_available,
          mf_window_start_seq = window_start, mf_latest_seq = latest, mf_init = init,
          mf_video = video, mf_audio_tracks = tracks, mf_segments = segments,
          mf_gaps = (case jfind j ''gaps'' of
                       Some (JArr gs) \<Rightarrow> List.map_filter gap_from_json gs
                     | _ \<Rightarrow> [])\<rparr>))))))))))))"

definition marker_to_json :: "marker \<Rightarrow> json" where
  "marker_to_json m = JObj
     [(''seq'', JInt (int (mk_seq m))), (''at_ms'', JInt (mk_at_ms m)),
      (''at_media_ms'', JInt (mk_at_media_ms m)), (''type'', JStr (mk_type m)),
      (''label'', JStr (mk_label m)), (''id'', JStr (mk_id m)), (''author'', JStr (mk_author m))]"

definition marker_list_to_json :: "marker_list \<Rightarrow> json" where
  "marker_list_to_json ml = JObj
     [(''protocol_version'', JInt (ml_protocol_version ml)),
      (''markers'', JArr (map marker_to_json (ml_markers ml)))]"

definition marker_from_json :: "json \<Rightarrow> marker jres" where
  "marker_from_json j =
     jbind (json_value get_u64 j ''seq'' 0) (\<lambda>seq.
     jbind (json_value get_i64 j ''at_ms'' 0) (\<lambda>at_ms.
     jbind (json_value get_i64 j ''at_media_ms'' (-1)) (\<lambda>at_media_ms.
     jbind (json_value get_string j ''type'' ''cue'') (\<lambda>type.
     jbind (json_value get_string j ''label'' []) (\<lambda>label.
     jbind (json_value get_string j ''id'' []) (\<lambda>id.
     jbind (json_value get_string j ''author'' []) (\<lambda>author.
     Inr \<lparr>mk_seq = seq, mk_at_ms = at_ms, mk_at_media_ms = at_media_ms, mk_type = type,
          mk_label = label, mk_id = id, mk_author = author\<rparr>)))))))"

definition marker_list_from_json :: "json \<Rightarrow> marker_list jres" where
  "marker_list_from_json j =
     jbind (case jfind j ''markers'' of
              Some (JArr ms) \<Rightarrow> jmap marker_from_json ms
            | _ \<Rightarrow> Inr []) (\<lambda>ms.
     Inr \<lparr>ml_protocol_version = read_protocol_version j, ml_markers = ms\<rparr>)"


section \<open>Reading back what was written\<close>

definition int32_ok :: "int \<Rightarrow> bool" where
  "int32_ok i = (- (2 ^ 31) \<le> i \<and> i < 2 ^ 31)"

definition int64_ok :: "int \<Rightarrow> bool" where
  "int64_ok i = (- (2 ^ 63) \<le> i \<and> i < 2 ^ 63)"

definition version_ok :: "int \<Rightarrow> bool" where
  "version_ok v = (0 < v \<and> v < 2 ^ 31)"

definition video_ok :: "video_info \<Rightarrow> bool" where
  "video_ok v = (int32_ok (vi_width v) \<and> int32_ok (vi_height v) \<and> layout_valid (vi_layout v))"

definition track_ok :: "audio_track \<Rightarrow> bool" where
  "track_ok t = (int32_ok (at_idx t) \<and> int32_ok (at_channels t) \<and> int32_ok (at_sample_rate t))"

definition segment_ok :: "manifest_segment \<Rightarrow> bool" where
  "segment_ok s = (ms_seq s \<le> u64_max \<and> int64_ok (ms_at_ms s))"

definition marker_ok :: "marker \<Rightarrow> bool" where
  "marker_ok m = (mk_seq m \<le> u64_max \<and> int64_ok (mk_at_ms m) \<and> int64_ok (mk_at_media_ms m))"

definition wire_track :: "audio_track \<Rightarrow> audio_track" where
  "wire_track t = t\<lparr>at_language := []\<rparr>"

definition manifest_wire_ok :: "manifest \<Rightarrow> bool" where
  "manifest_wire_ok m =
     (version_ok (mf_protocol_version m) \<and> int64_ok (mf_updated_at_ms m) \<and>
      int64_ok (mf_started_at_ms m) \<and> mf_first_available_seq m \<le> u64_max \<and>
      mf_window_start_seq m \<le> u64_max \<and> mf_latest_seq m \<le> u64_max \<and> video_ok (mf_video m) \<and>
      list_all track_ok (mf_audio_tracks m) \<and> list_all segment_ok (mf_segments m) \<and>
      list_all (\<lambda>(a, b). a \<le> b \<and> b \<le> u64_max) (mf_gaps m))"

definition event_info_wire_ok :: "event_info \<Rightarrow> bool" where
  "event_info_wire_ok e =
     (version_ok (ev_protocol_version e) \<and> int64_ok (ev_started_at_ms e) \<and>
      ev_first_seq e \<le> u64_max \<and> video_ok (ev_video e) \<and> list_all track_ok (ev_audio_tracks e))"

lemma jbind_simps [simp]: "jbind (Inr x) f = f x" "jbind (Inl e) f = Inl e"
  by (simp_all add: jbind_def)

lemma json_value_obj [simp]:
  "json_value get (JObj kvs) k d = (case map_of kvs k of None \<Rightarrow> Inr d | Some v \<Rightarrow> get v)"
  "jfind (JObj kvs) k = map_of kvs k"
  by (simp_all add: json_value_def jfind_def)

lemma wrap_signed_32 [simp]: "int32_ok i \<Longrightarrow> wrap_signed 32 i = i"
  by (simp add: wrap_signed_def int32_ok_def)

lemma wrap_signed_64 [simp]: "int64_ok i \<Longrightarrow> wrap_signed 64 i = i"
  by (simp add: wrap_signed_def int64_ok_def)

lemma u64_mod [simp]: "n \<le> u64_max \<Longrightarrow> nat (int n mod 18446744073709551616) = n"
  by (simp add: u64_max_def)

lemma get_i64_int [simp]: "int64_ok i \<Longrightarrow> get_i64 (JInt i) = Inr i"
  by simp

lemma get_int_int [simp]: "int32_ok i \<Longrightarrow> get_int (JInt i) = Inr i"
  by simp

lemma jmap_map:
  "(\<And>x. x \<in> set xs \<Longrightarrow> f (g x) = Inr (h x)) \<Longrightarrow> jmap f (map g xs) = Inr (map h xs)"
  by (induction xs) auto

lemma read_version_cons [simp]:
  "version_ok v \<Longrightarrow> read_protocol_version (JObj ((''protocol_version'', JInt v) # kvs)) = v"
  by (simp add: read_protocol_version_def version_ok_def int32_ok_def)

lemma video_roundtrip [simp]:
  assumes "video_ok v"
  shows "video_from_json (video_to_json v) = Inr v"
proof (cases "layout_is_split (vi_layout v)")
  case True
  with assms show ?thesis
    by (simp add: video_from_json_def video_to_json_def video_ok_def layout_parse_to_string)
next
  case False
  let ?t = "vi_layout v"
  from False assms have "tl_cols ?t * tl_rows ?t \<le> 1" "1 \<le> tl_cols ?t" "1 \<le> tl_rows ?t"
    by (auto simp: layout_is_split_def layout_count_def video_ok_def layout_valid_def)
  then have "tl_cols ?t = 1 \<and> tl_rows ?t = 1" by (rule int_mult_le_1)
  then have "layout_to_string ?t = ''1x1''"
    by (simp add: layout_to_string_def int_str_small)
  then have "layout_parse ''1x1'' = ?t"
    using layout_parse_to_string [of ?t] assms by (simp add: video_ok_def)
  with False assms show ?thesis
    by (simp add: video_from_json_def video_to_json_def video_ok_def)
qed

lemma track_roundtrip: "track_ok t \<Longrightarrow> track_from_json (track_to_json t) = Inr (wire_track t)"
  using jmap_map [of "at_channel_labels t" get_string JStr "\<lambda>x. x"]
  by (simp add: track_from_json_def track_to_json_def track_ok_def wire_track_def)

lemma tracks_roundtrip [simp]:
  "list_all track_ok ts \<Longrightarrow> tracks_from_json (tracks_to_json ts) = Inr (map wire_track ts)"
  by (simp add: tracks_from_json_def tracks_to_json_def jmap_map track_roundtrip list_all_iff)

lemma segment_roundtrip:
  "segment_ok s \<Longrightarrow> manifest_segment_from_json (manifest_segment_to_json s) = Inr s"
  by (simp add: manifest_segment_from_json_def manifest_segment_to_json_def segment_ok_def)

lemma gap_roundtrip: "a \<le> b \<Longrightarrow> b \<le> u64_max \<Longrightarrow> gap_from_json (gap_to_json (a, b)) = Some (a, b)"
  by (simp add: gap_to_json_def u64_max_def)

lemma gaps_roundtrip [simp]:
  "list_all (\<lambda>(a, b). a \<le> b \<and> b \<le> u64_max) gs \<Longrightarrow>
     List.map_filter gap_from_json (map gap_to_json gs) = gs"
  by (induction gs) (auto simp: List.map_filter_simps gap_roundtrip)

lemma marker_roundtrip: "marker_ok m \<Longrightarrow> marker_from_json (marker_to_json m) = Inr m"
  by (simp add: marker_from_json_def marker_to_json_def marker_ok_def)

lemma manifest_roundtrip:
  assumes "manifest_wire_ok m"
  shows "manifest_from_json (manifest_to_json m) =
     Inr (m\<lparr>mf_audio_tracks := map wire_track (mf_audio_tracks m)\<rparr>)"
  using assms jmap_map [of "mf_segments m" manifest_segment_from_json manifest_segment_to_json "\<lambda>s. s"]
  by (simp add: manifest_from_json_def manifest_to_json_def manifest_wire_ok_def opt_video_def
      opt_tracks_def segment_roundtrip list_all_iff [of segment_ok])

lemma event_info_roundtrip:
  assumes "event_info_wire_ok e"
  shows "event_info_from_json (event_info_to_json e) =
     Inr (e\<lparr>ev_audio_tracks := map wire_track (ev_audio_tracks e)\<rparr>)"
  using assms
  by (simp add: event_info_from_json_def event_info_to_json_def event_info_wire_ok_def opt_video_def
      opt_tracks_def)

lemma marker_list_roundtrip:
  assumes "version_ok (ml_protocol_version ml)" "list_all marker_ok (ml_markers ml)"
  shows "marker_list_from_json (marker_list_to_json ml) = Inr ml"
  using assms jmap_map [of "ml_markers ml" marker_from_json marker_to_json "\<lambda>m. m"]
  by (simp add: marker_list_from_json_def marker_list_to_json_def marker_roundtrip list_all_iff)

lemma live_pointer_roundtrip:
  assumes "version_ok (lp_protocol_version p)" "int64_ok (lp_updated_at_ms p)"
  shows "live_pointer_from_json (live_pointer_to_json p) = Inr p"
  using assms by (simp add: live_pointer_from_json_def live_pointer_to_json_def)

lemma room_event_entry_roundtrip:
  assumes "version_ok (re_protocol_version e)" "int64_ok (re_started_at_ms e)"
  shows "room_event_entry_from_json (room_event_entry_to_json e) = Inr e"
  using assms by (simp add: room_event_entry_from_json_def room_event_entry_to_json_def)

lemma read_protocol_version_pos: "0 < read_protocol_version j"
  by (auto simp: read_protocol_version_def Let_def split: option.split json.split)


section \<open>Properties\<close>

text \<open>
  A manifest written to \<^verbatim>\<open>manifest.json\<close> is read back as it was, when its numbers fit the
  types of the struct: every field, every segment and every gap, in order. The one exception is
  the language of an audio track, which is not written.
\<close>

lemma manifest_json_roundtrip:
  assumes "manifest_wire_ok m"
  shows "manifest_from_json (manifest_to_json m) = Inr (m\<lparr>mf_audio_tracks := map wire_track (mf_audio_tracks m)\<rparr>)"
  using assms by (rule manifest_roundtrip)

section \<open>Whatever is read is well typed\<close>

lemma wrap_signed_range: "- (2 ^ 31) \<le> wrap_signed 32 i \<and> wrap_signed 32 i < 2 ^ 31" "- (2 ^ 63) \<le> wrap_signed 64 i \<and> wrap_signed 64 i < 2 ^ 63"
proof -
  have "0 \<le> (i + 2 ^ 31) mod 2 ^ 32" "(i + 2 ^ 31) mod 2 ^ 32 < (2 :: int) ^ 32"
    "0 \<le> (i + 2 ^ 63) mod 2 ^ 64" "(i + 2 ^ 63) mod 2 ^ 64 < (2 :: int) ^ 64" by simp_all
  then show "- (2 ^ 31) \<le> wrap_signed 32 i \<and> wrap_signed 32 i < 2 ^ 31" "- (2 ^ 63) \<le> wrap_signed 64 i \<and> wrap_signed 64 i < 2 ^ 63"
    by (simp_all add: wrap_signed_def)
qed

lemma jbind_Inr: "jbind r f = Inr y \<longleftrightarrow> (\<exists>x. r = Inr x \<and> f x = Inr y)"
  by (cases r) simp_all

lemma json_value_typed:
  assumes "json_value get j k d = Inr x" "P d" "\<And>v y. get v = Inr y \<Longrightarrow> P y"
  shows "P x"
  using assms by (auto simp: json_value_def split: json.splits option.splits)

lemma get_u64_typed: "get_u64 v = Inr n \<Longrightarrow> n \<le> u64_max"
  by (cases v) (auto simp: u64_max_def nat_le_iff pos_mod_bound zle_diff1_eq [symmetric])

lemma get_i64_typed: "get_i64 v = Inr n \<Longrightarrow> int64_ok n"
  using wrap_signed_range(2) by (cases v) (auto simp: int64_ok_def)

lemma get_int_typed: "get_int v = Inr n \<Longrightarrow> int32_ok n"
  using wrap_signed_range(1) by (cases v) (auto simp: int32_ok_def)

lemmas value_typed = json_value_typed [where get = get_u64 and P = "\<lambda>n. n \<le> u64_max", OF _ _ get_u64_typed, simplified]
  json_value_typed [where get = get_i64 and P = int64_ok, OF _ _ get_i64_typed]
  json_value_typed [where get = get_int and P = int32_ok, OF _ _ get_int_typed]

lemma default_typed [simp]: "int64_ok 0" "int32_ok 0" "int32_ok 2" "int32_ok 48000"
  by (simp_all add: int64_ok_def int32_ok_def)

lemma jmap_typed: "jmap f xs = Inr ys \<Longrightarrow> (\<And>x y. f x = Inr y \<Longrightarrow> P y) \<Longrightarrow> list_all P ys"
  by (induction xs arbitrary: ys) (auto simp: jbind_Inr)

lemma video_from_json_typed: "video_from_json j = Inr v \<Longrightarrow> video_ok v"
  by (auto simp: video_from_json_def jbind_Inr video_ok_def layout_parse_valid intro: value_typed(3))

lemma track_from_json_typed: "track_from_json j = Inr t \<Longrightarrow> track_ok t \<and> wire_track t = t"
  by (auto simp: track_from_json_def jbind_Inr track_ok_def wire_track_def intro: value_typed(3))

lemma segment_from_json_typed: "manifest_segment_from_json j = Inr s \<Longrightarrow> segment_ok s"
  by (auto simp: manifest_segment_from_json_def jbind_Inr segment_ok_def intro: value_typed(1,2))

lemma gap_from_json_typed: "gap_from_json j = Some (a, b) \<Longrightarrow> a \<le> b \<and> b \<le> u64_max"
proof -
  have "i mod 2 ^ 64 \<le> (2 :: int) ^ 64 - 1" for i :: int using pos_mod_bound [of "2 ^ 64" i] by simp
  then show "gap_from_json j = Some (a, b) \<Longrightarrow> a \<le> b \<and> b \<le> u64_max"
    by (cases j rule: gap_from_json.cases) (auto simp: u64_max_def nat_le_iff nat_le_eq_zle split: if_splits)
qed

lemma opt_video_typed: "opt_video j = Inr v \<Longrightarrow> video_ok v"
proof -
  have "video_ok video_info_default" by (simp add: video_info_default_def video_ok_def layout_valid_def tile_layout_default_def)
  then show "opt_video j = Inr v \<Longrightarrow> video_ok v" by (auto simp: opt_video_def split: option.splits dest: video_from_json_typed)
qed

lemma opt_tracks_typed: "opt_tracks j = Inr ts \<Longrightarrow> list_all (\<lambda>t. track_ok t \<and> wire_track t = t) ts"
  by (auto simp: opt_tracks_def tracks_from_json_def split: option.splits json.splits
      dest: jmap_typed [where P = "\<lambda>t. track_ok t \<and> wire_track t = t"] track_from_json_typed)

lemma version_typed: "version_ok (read_protocol_version j)"
  using wrap_signed_range(1) by (auto simp: read_protocol_version_def version_ok_def Let_def split: option.splits json.splits)

lemma manifest_from_json_typed:
  assumes "manifest_from_json j = Inr m"
  shows "manifest_wire_ok m" "map wire_track (mf_audio_tracks m) = mf_audio_tracks m"
proof -
  have tr: "list_all (\<lambda>t. track_ok t \<and> wire_track t = t) (mf_audio_tracks m)"
    using assms by (auto simp: manifest_from_json_def jbind_Inr dest: opt_tracks_typed)
  have "video_ok (mf_video m)" using assms by (auto simp: manifest_from_json_def jbind_Inr dest: opt_video_typed)
  moreover have "list_all segment_ok (mf_segments m)"
    using assms by (auto simp: manifest_from_json_def jbind_Inr split: option.splits json.splits dest: jmap_typed [OF _ segment_from_json_typed])
  moreover have "list_all (\<lambda>(a, b). a \<le> b \<and> b \<le> u64_max) (mf_gaps m)"
    using assms gap_from_json_typed
    by (force simp: manifest_from_json_def jbind_Inr list_all_iff set_map_filter split: option.splits json.splits)
  moreover have "mf_first_available_seq m \<le> u64_max" "mf_window_start_seq m \<le> u64_max" "mf_latest_seq m \<le> u64_max"
    "int64_ok (mf_updated_at_ms m)" "int64_ok (mf_started_at_ms m)" "version_ok (mf_protocol_version m)"
    using assms version_typed [of j]
    by (auto simp: manifest_from_json_def jbind_Inr intro: value_typed(1,2))
  ultimately show "manifest_wire_ok m" using tr by (simp add: manifest_wire_ok_def list_all_iff)
  show "map wire_track (mf_audio_tracks m) = mf_audio_tracks m" using tr by (auto simp: list_all_iff intro: map_idI)
qed

text \<open>
  C35: Whatever a store holds as \<^verbatim>\<open>manifest.json\<close>, if it is read at all, every field of the result is within the type of its
  struct: numbers fit their 32 or 64 bits, the protocol version is positive, the tile layout is one of at most
  four by four, each segment and track is well formed and each gap runs forwards; and written out again it
  is read back unchanged.
\<close>

theorem decoded_manifest_typed:
  assumes "manifest_from_json j = Inr m"
  shows "manifest_wire_ok m \<and> manifest_from_json (manifest_to_json m) = Inr m"
  using manifest_from_json_typed [OF assms] manifest_roundtrip [of m] by simp

theorem decoded_manifest_typed_witness:
  "\<exists>m. manifest_from_json (JObj [(''latest_seq'', JInt (- 1)), (''gaps'', JArr [JArr [JInt 3, JInt 2], JNull])]) = Inr m \<and>
     manifest_wire_ok m \<and> mf_latest_seq m = 2 ^ 64 - 1 \<and> mf_gaps m = []"
proof -
  let ?j = "JObj [(''latest_seq'', JInt (- 1)), (''gaps'', JArr [JArr [JInt 3, JInt 2], JNull])]"
  obtain m where m: "manifest_from_json ?j = Inr m" "mf_latest_seq m = 2 ^ 64 - 1" "mf_gaps m = []"
    by (simp add: manifest_from_json_def json_value_def jfind_def opt_video_def opt_tracks_def List.map_filter_simps)
  then show ?thesis using decoded_manifest_typed [OF m(1)] by blast
qed

end
