(* ===== verification/Link_Health.thy ===== *)
theory Link_Health
  imports Prelude
begin

text \<open>
  The link tracker (\<^verbatim>\<open>src/core/link_health.h\<close>, \<^verbatim>\<open>link_health.cpp\<close>): three states driven by the
  outcome of every request to the object store. The lemmas characterise the state after any history of outcomes: it depends on the number of failures since the
  last success only.
\<close>

section \<open>LinkTracker\<close>

datatype link_health = Healthy | Degraded | Offline

record link_tracker =
  lt_known :: bool
  lt_health :: link_health
  lt_failures :: nat
  lt_changed_ms :: i64

definition link_tracker_init :: link_tracker where
  "link_tracker_init = \<lparr>lt_known = False, lt_health = Healthy, lt_failures = 0, lt_changed_ms = 0\<rparr>"

definition observe :: "link_tracker \<Rightarrow> bool \<Rightarrow> i64 \<Rightarrow> link_tracker" where
  "observe t ok now =
     (let failures = (if ok then 0 else lt_failures t + 1);
          nxt = (if ok then Healthy else if failures \<ge> 2 then Offline else Degraded)
      in t\<lparr>lt_failures := failures, lt_health := nxt, lt_known := True,
           lt_changed_ms := (if lt_health t \<noteq> nxt then now else lt_changed_ms t)\<rparr>)"

definition link_reachable_result :: "bool \<Rightarrow> int \<Rightarrow> bool" where
  "link_reachable_result success http_status =
     (if success then True else http_status \<noteq> 0 \<and> http_status < 500)"

text \<open>A whole history of outcomes, oldest first.\<close>

fun observe_all :: "link_tracker \<Rightarrow> (bool \<times> i64) list \<Rightarrow> link_tracker" where
  "observe_all t [] = t"
| "observe_all t ((ok, now) # hs) = observe_all (observe t ok now) hs"

definition trailing_failures :: "(bool \<times> i64) list \<Rightarrow> nat" where
  "trailing_failures hs = length (takeWhile (\<lambda>h. \<not> fst h) (rev hs))"

definition health_of_failures :: "nat \<Rightarrow> link_health" where
  "health_of_failures n = (if n = 0 then Healthy else if n = 1 then Degraded else Offline)"

lemma observe_fields [simp]:
  "lt_failures (observe t ok now) = (if ok then 0 else lt_failures t + 1)"
  "lt_health (observe t ok now) = health_of_failures (lt_failures (observe t ok now))"
  "lt_known (observe t ok now)"
  by (simp_all add: observe_def health_of_failures_def Let_def)

lemma observe_all_snoc: "observe_all t (hs @ [(ok, now)]) = observe (observe_all t hs) ok now"
  by (induction t hs rule: observe_all.induct) auto

lemma trailing_failures_snoc:
  "trailing_failures (hs @ [(ok, now)]) = (if ok then 0 else Suc (trailing_failures hs))"
  by (simp add: trailing_failures_def)

lemma observe_all_failures:
  "lt_failures t = 0 \<Longrightarrow> lt_failures (observe_all t hs) = trailing_failures hs"
proof (induction hs rule: rev_induct)
  case Nil
  then show ?case by (simp add: trailing_failures_def)
next
  case (snoc h hs)
  obtain ok now where h: "h = (ok, now)" by (cases h)
  from snoc h show ?case by (simp add: observe_all_snoc trailing_failures_snoc)
qed

lemma observe_all_health:
  assumes "hs \<noteq> []"
  shows "lt_health (observe_all link_tracker_init hs) = health_of_failures (trailing_failures hs)"
proof -
  obtain gs h where hs: "hs = gs @ [h]" using assms by (cases hs rule: rev_cases) auto
  obtain ok now where h: "h = (ok, now)" by (cases h)
  have "lt_failures (observe_all link_tracker_init gs) = trailing_failures gs"
    by (rule observe_all_failures) (simp add: link_tracker_init_def)
  then show ?thesis by (simp add: hs h observe_all_snoc trailing_failures_snoc)
qed


section \<open>Properties\<close>

text \<open>
  The health shown for the link depends only on the failures since the last success: none
  shows healthy, one degraded, two or more offline, whatever came before and whenever the
  requests were made.
\<close>

lemma link_health_of_history:
  assumes "hs \<noteq> []"
  shows "lt_health (observe_all link_tracker_init hs) =
    (let n = trailing_failures hs in if n = 0 then Healthy else if n = 1 then Degraded else Offline)"
  using observe_all_health [OF assms] by (simp add: health_of_failures_def)

end
