(* ===== verification/Transport_Model.thy ===== *)
theory Transport_Model
  imports Json_Codec Link_Health
begin

text \<open>
  The interface to the object store (\<^verbatim>\<open>src/core/transport.h\<close>): the results its requests
  return, and the store itself as far as the program relies on it. Every answer of the
  network is an input of the operations that use it. What an answer means is what the S3
  protocol documents: a successful PUT has replaced the object under its key, a failed one
  may have reached the store all the same (the answer was lost), and an object changes in no
  other way. A JSON document is represented by the value its text encodes, so that a body is
  either media bytes or a document.
\<close>

datatype body = Bytes bytes | Doc json

text \<open>Parsing a body: media bytes are not a JSON document.\<close>

fun parse_body :: "body \<Rightarrow> json option" where
  "parse_body (Doc j) = Some j"
| "parse_body (Bytes b) = None"

fun media_of :: "body \<Rightarrow> bytes option" where
  "media_of (Bytes b) = Some b"
| "media_of (Doc j) = None"

text \<open>\<^verbatim>\<open>T::from_json\<close> of a body inside \<^verbatim>\<open>try\<close>: \<open>None\<close> when it threw.\<close>

definition parsed :: "(json \<Rightarrow> 'a jres) \<Rightarrow> body \<Rightarrow> 'a option" where
  "parsed from_json b =
     (case parse_body b of
        None \<Rightarrow> None
      | Some j \<Rightarrow> (case from_json j of Inr x \<Rightarrow> Some x | Inl e \<Rightarrow> None))"

record put_result =
  pr_success :: bool
  pr_http_status :: int
  pr_retryable :: bool
  pr_error :: string

record get_result =
  gr_success :: bool
  gr_http_status :: int
  gr_retryable :: bool
  gr_error :: string
  gr_body :: body

definition get_result_default :: get_result where
  "get_result_default = \<lparr>gr_success = False, gr_http_status = 0, gr_retryable = True, gr_error = [], gr_body = Bytes []\<rparr>"

type_synonym bucket = "string \<rightharpoonup> body"

text \<open>
  The effect of a PUT that answered \<open>r\<close>; \<open>landed\<close> says whether a request that reported failure
  had reached the store.
\<close>

definition store_put :: "put_result \<Rightarrow> bool \<Rightarrow> string \<Rightarrow> body \<Rightarrow> bucket \<Rightarrow> bucket" where
  "store_put r landed key b bkt = (if pr_success r \<or> landed then bkt(key \<mapsto> b) else bkt)"

lemma store_put_success [simp]: "pr_success r \<Longrightarrow> store_put r landed key b bkt = bkt(key \<mapsto> b)"
  by (simp add: store_put_def)

lemma store_put_other [simp]: "k \<noteq> key \<Longrightarrow> store_put r landed key b bkt k = bkt k"
  by (simp add: store_put_def)

lemma store_put_cases: "store_put r landed key b bkt k = bkt k \<or> k = key \<and> store_put r landed key b bkt k = Some b"
  by (simp add: store_put_def)

text \<open>One page of a listing; the size of an entry is -1 when the store omitted it.\<close>

record list_entry =
  le_key :: string
  le_size :: i64
  le_last_modified :: string

record list_result =
  lr_success :: bool
  lr_http_status :: int
  lr_retryable :: bool
  lr_error :: string
  lr_common_prefixes :: "string list"
  lr_keys :: "list_entry list"
  lr_truncated :: bool
  lr_next_continuation_token :: string

record delete_result =
  dl_success :: bool
  dl_http_status :: int
  dl_retryable :: bool
  dl_error :: string

text \<open>The effect of a DELETE that answered \<open>r\<close>, as for a PUT.\<close>

definition store_remove :: "delete_result \<Rightarrow> bool \<Rightarrow> string \<Rightarrow> bucket \<Rightarrow> bucket" where
  "store_remove r landed key bkt = (if dl_success r \<or> landed then bkt(key := None) else bkt)"

lemma store_remove_success [simp]: "dl_success r \<Longrightarrow> store_remove r landed key bkt = bkt(key := None)"
  by (simp add: store_remove_def)

lemma store_remove_other [simp]: "k \<noteq> key \<Longrightarrow> store_remove r landed key bkt k = bkt k"
  by (simp add: store_remove_def)

text \<open>
  What the S3 protocol documents of a listing: the pages of a request answered in full, followed
  from token to token up to the last one, give between them every key of the store under the
  prefix and no other (\<open>lists_keys\<close>), or, with the delimiter \<^verbatim>\<open>/\<close>, every group
  under it (\<open>lists_groups\<close>).
\<close>

definition next_token :: "list_result \<Rightarrow> string" where
  "next_token r = (if lr_truncated r then lr_next_continuation_token r else [])"

definition full_listing :: "(nat \<Rightarrow> list_result) \<Rightarrow> nat \<Rightarrow> bool" where
  "full_listing pages n \<longleftrightarrow>
     (\<forall>i<n. lr_success (pages i)) \<and> 0 < n \<and> (\<forall>i<n - 1. next_token (pages i) \<noteq> []) \<and> next_token (pages (n - 1)) = []"

definition page_keys :: "(nat \<Rightarrow> list_result) \<Rightarrow> nat \<Rightarrow> string list" where
  "page_keys pages n = concat (map (\<lambda>i. map le_key (lr_keys (pages i))) [0..<n])"

definition page_groups :: "(nat \<Rightarrow> list_result) \<Rightarrow> nat \<Rightarrow> string list" where
  "page_groups pages n = concat (map (\<lambda>i. lr_common_prefixes (pages i)) [0..<n])"

definition key_under :: "string \<Rightarrow> string \<Rightarrow> bool" where
  "key_under p k = (take (length p) k = p)"

definition lists_keys :: "bucket \<Rightarrow> string \<Rightarrow> (nat \<Rightarrow> list_result) \<Rightarrow> nat \<Rightarrow> bool" where
  "lists_keys bkt p pages n \<longleftrightarrow> full_listing pages n \<and> set (page_keys pages n) = {k \<in> dom bkt. key_under p k}"

definition lists_groups :: "bucket \<Rightarrow> string \<Rightarrow> (nat \<Rightarrow> list_result) \<Rightarrow> nat \<Rightarrow> bool" where
  "lists_groups bkt p pages n \<longleftrightarrow> full_listing pages n \<and>
     set (page_groups pages n) = {p @ x @ ''/'' | x y. CHR ''/'' \<notin> set x \<and> p @ x @ ''/'' @ y \<in> dom bkt}"

lemma key_under_append [simp]: "key_under p (p @ k)"
  by (simp add: key_under_def)

lemma key_under_iff: "key_under p k \<longleftrightarrow> (\<exists>x. k = p @ x)"
  by (metis append_take_drop_id key_under_append key_under_def)

lemma page_keys_Suc [simp]: "page_keys pages (Suc n) = page_keys pages n @ map le_key (lr_keys (pages n))"
  by (simp add: page_keys_def)

lemma page_keys_0 [simp]: "page_keys pages 0 = []"
  by (simp add: page_keys_def)

lemma page_groups_Suc [simp]: "page_groups pages (Suc n) = page_groups pages n @ lr_common_prefixes (pages n)"
  by (simp add: page_groups_def)

lemma page_groups_0 [simp]: "page_groups pages 0 = []"
  by (simp add: page_groups_def)

text \<open>Where a loop over the pages of a full listing stands after \<open>p\<close> of them.\<close>

lemma full_listing_at:
  assumes "full_listing pages n" "p < n"
  shows "lr_success (pages p)" "next_token (pages p) = [] \<longleftrightarrow> Suc p = n"
proof -
  show "lr_success (pages p)" using assms by (simp add: full_listing_def)
  have "next_token (pages p) \<noteq> []" if "Suc p < n" using assms that by (simp add: full_listing_def)
  moreover have "next_token (pages p) = []" if "Suc p = n" using assms that by (auto simp: full_listing_def)
  ultimately show "next_token (pages p) = [] \<longleftrightarrow> Suc p = n" using assms(2) by (meson Suc_lessI)
qed

end
