(* ===== verification/Spool_Queue.thy ===== *)
theory Spool_Queue
  imports Transport_Model
begin

text \<open>
  The durable store-and-forward queue (\<^verbatim>\<open>src/core/spool_queue.h\<close>, \<^verbatim>\<open>spool_queue.cpp\<close>).

  The disk is the root folder: one folder per event with \<^verbatim>\<open>state.json\<close>, the segment files and
  their sidecars, keyed by sequence number (\<open>read_seq_name\<close> is the reason the number stands
  for the file name), plus the files of the single-folder layout that older versions kept in
  the root itself. \<open>m_dir\<close> is the current event's folder name, empty when there is none.
  \<open>atomic_write\<close> replaces a file in one step; a failing disk (an exception from a write) is
  not modelled. The clock reading of an operation and the SHA-256 function are arguments.

  The lemmas show the queue's invariant, that a segment stays on disk until every target in
  play has confirmed it, that draining delivers every spooled segment once and in order,
  that the disk cap evicts the oldest segments only and never the one just written, and that
  a crash at any point of \<open>enqueue\<close> loses nothing that was queued before.
\<close>

section \<open>Data\<close>

record spooled_segment =
  sg_seq :: u64
  sg_data :: bytes
  sg_duration_s :: double
  sg_pts_offset_s :: double
  sg_checksum :: string
  sg_key :: string

record spool_state =
  st_event_id :: string
  st_first_seq :: u64
  st_last_enqueued :: u64
  st_last_confirmed :: u64
  st_targets :: int
  st_last_confirmed_2 :: u64
  st_any_confirmed :: bool
  st_any_confirmed_2 :: bool
  st_ended :: bool
  st_valid :: bool
  st_last_activity_ms :: i64
  st_media_end_s :: double
  st_end_unpublished :: bool

definition spool_state_default :: spool_state where
  "spool_state_default = \<lparr>st_event_id = [], st_first_seq = 0, st_last_enqueued = 0,
     st_last_confirmed = 0, st_targets = 1, st_last_confirmed_2 = 0, st_any_confirmed = False,
     st_any_confirmed_2 = False, st_ended = False, st_valid = False, st_last_activity_ms = 0,
     st_media_end_s = 0, st_end_unpublished = False\<rparr>"

record resume_info =
  ri_resumable :: bool
  ri_event_id :: string
  ri_last_confirmed :: u64
  ri_last_enqueued :: u64
  ri_pending_count :: nat
  ri_last_activity_ms :: i64
  ri_media_end_s :: double
  ri_stale :: bool

definition resume_info_default :: resume_info where
  "resume_info_default = \<lparr>ri_resumable = False, ri_event_id = [], ri_last_confirmed = 0,
     ri_last_enqueued = 0, ri_pending_count = 0, ri_last_activity_ms = 0, ri_media_end_s = 0,
     ri_stale = False\<rparr>"

record spool_drop =
  dr_seq :: u64
  dr_new_floor :: u64

text \<open>A file holding a JSON document: absent, present but unreadable, or readable.\<close>

datatype 'a jfile = No_File | Unreadable | Content 'a

record spool_meta =
  sm_duration_s :: double
  sm_pts_offset_s :: double
  sm_checksum :: string
  sm_key :: string

record folder =
  fd_state :: "spool_state jfile"
  fd_segs :: "(u64, bytes) dir"
  fd_metas :: "(u64, spool_meta jfile) dir"

definition empty_folder :: folder where
  "empty_folder = \<lparr>fd_state = No_File, fd_segs = [], fd_metas = []\<rparr>"

record disk =
  dk_root_files :: folder
  dk_events :: "(string, folder) dir"

record spool =
  sp_disk :: disk
  sp_dir :: string
  sp_max_bytes :: u64
  sp_state :: spool_state
  sp_bytes_pending :: u64
  sp_dropped_count :: u64

datatype spool_error = No_Event_Begun | Nothing_To_Resume


section \<open>state.json\<close>

definition state_to_json :: "spool_state \<Rightarrow> json" where
  "state_to_json st = JObj
     [(''event_id'', JStr (st_event_id st)), (''first_seq'', JInt (int (st_first_seq st))),
      (''last_enqueued'', JInt (int (st_last_enqueued st))),
      (''last_confirmed'', JInt (int (st_last_confirmed st))),
      (''targets'', JInt (st_targets st)),
      (''last_confirmed_2'', JInt (int (st_last_confirmed_2 st))),
      (''any_confirmed'', JBool (st_any_confirmed st)),
      (''any_confirmed_2'', JBool (st_any_confirmed_2 st)),
      (''ended'', JBool (st_ended st)),
      (''last_activity_ms'', JInt (st_last_activity_ms st)),
      (''media_end_s'', JFloat (st_media_end_s st)),
      (''end_unpublished'', JBool (st_end_unpublished st))]"

definition state_from_json :: "json \<Rightarrow> spool_state jres" where
  "state_from_json j =
     jbind (json_value get_string j ''event_id'' []) (\<lambda>event_id.
     jbind (json_value get_u64 j ''first_seq'' 0) (\<lambda>first_seq.
     jbind (json_value get_u64 j ''last_enqueued'' 0) (\<lambda>last_enqueued.
     jbind (json_value get_u64 j ''last_confirmed'' 0) (\<lambda>last_confirmed.
     jbind (json_value get_int j ''targets'' 1) (\<lambda>targets.
     jbind (json_value get_u64 j ''last_confirmed_2'' 0) (\<lambda>last_confirmed_2.
     jbind (json_value get_bool j ''any_confirmed'' False) (\<lambda>any_confirmed.
     jbind (json_value get_bool j ''any_confirmed_2'' False) (\<lambda>any_confirmed_2.
     jbind (json_value get_bool j ''ended'' False) (\<lambda>ended.
     jbind (json_value get_i64 j ''last_activity_ms'' 0) (\<lambda>last_activity_ms.
     jbind (json_value get_double j ''media_end_s'' 0) (\<lambda>media_end_s.
     jbind (json_value get_bool j ''end_unpublished'' False) (\<lambda>end_unpublished.
     Inr \<lparr>st_event_id = event_id, st_first_seq = first_seq, st_last_enqueued = last_enqueued,
          st_last_confirmed = last_confirmed, st_targets = targets,
          st_last_confirmed_2 = last_confirmed_2, st_any_confirmed = any_confirmed,
          st_any_confirmed_2 = any_confirmed_2, st_ended = ended, st_valid = True,
          st_last_activity_ms = last_activity_ms, st_media_end_s = media_end_s,
          st_end_unpublished = end_unpublished\<rparr>))))))))))))"

text \<open>A missing or unreadable file reads as an invalid state, as does one of the wrong shape.\<close>

definition read_state_file :: "spool_state jfile \<Rightarrow> spool_state" where
  "read_state_file f = (case f of Content st \<Rightarrow> st\<lparr>st_valid := True\<rparr> | _ \<Rightarrow> spool_state_default)"

definition has_segments :: "folder \<Rightarrow> bool" where
  "has_segments fd = (fd_segs fd \<noteq> [])"


section \<open>The current folder\<close>

definition cur_folder :: "spool \<Rightarrow> folder" where
  "cur_folder sp = (case map_of (dk_events (sp_disk sp)) (sp_dir sp) of
                      Some fd \<Rightarrow> fd | None \<Rightarrow> empty_folder)"

definition upd_events :: "((string, folder) dir \<Rightarrow> (string, folder) dir) \<Rightarrow> spool \<Rightarrow> spool" where
  "upd_events f sp = sp\<lparr>sp_disk := (sp_disk sp)\<lparr>dk_events := f (dk_events (sp_disk sp))\<rparr>\<rparr>"

text \<open>A write inside the current folder; without the folder there is nothing to write to.\<close>

definition upd_folder :: "(folder \<Rightarrow> folder) \<Rightarrow> spool \<Rightarrow> spool" where
  "upd_folder f sp = upd_events (AList.map_entry (sp_dir sp) f) sp"

definition save_state :: "spool \<Rightarrow> spool" where
  "save_state sp =
     (if sp_dir sp = [] then sp
      else upd_folder (\<lambda>fd. fd\<lparr>fd_state := Content (sp_state sp)\<rparr>) sp)"

definition load_state :: "spool \<Rightarrow> spool" where
  "load_state sp = sp\<lparr>sp_state := (if sp_dir sp = [] then spool_state_default
                                  else read_state_file (fd_state (cur_folder sp)))\<rparr>"

definition pending_seqs :: "spool \<Rightarrow> u64 list" where
  "pending_seqs sp = (if sp_dir sp = [] then [] else dir_names (fd_segs (cur_folder sp)))"

definition file_size :: "spool \<Rightarrow> u64 \<Rightarrow> nat option" where
  "file_size sp seq = map_option length (map_of (fd_segs (cur_folder sp)) seq)"

definition remove_files :: "u64 \<Rightarrow> spool \<Rightarrow> spool" where
  "remove_files seq = upd_folder (\<lambda>fd. fd\<lparr>fd_segs := AList.delete seq (fd_segs fd),
                                          fd_metas := AList.delete seq (fd_metas fd)\<rparr>)"


section \<open>Opening\<close>

text \<open>Renaming every file of one directory into another.\<close>

definition dir_overlay :: "('k, 'v) dir \<Rightarrow> ('k, 'v) dir \<Rightarrow> ('k, 'v) dir" where
  "dir_overlay new old = foldr (\<lambda>(k, v). AList.update k v) new old"

definition migrate_single_folder :: "disk \<Rightarrow> disk" where
  "migrate_single_folder dk =
     (let old = dk_root_files dk
      in case fd_state old of
           No_File \<Rightarrow> dk
         | f \<Rightarrow>
             let st = read_state_file f;
                 dest = (if st_valid st \<and> st_event_id st \<noteq> [] then st_event_id st else ''unknown-event'');
                 there = (case map_of (dk_events dk) dest of Some fd \<Rightarrow> fd | None \<Rightarrow> empty_folder);
                 moved = \<lparr>fd_state = f, fd_segs = dir_overlay (fd_segs old) (fd_segs there),
                          fd_metas = dir_overlay (fd_metas old) (fd_metas there)\<rparr>
             in \<lparr>dk_root_files = empty_folder, dk_events = AList.update dest moved (dk_events dk)\<rparr>)"

definition unfinished_events :: "disk \<Rightarrow> (string \<times> spool_state) list" where
  "unfinished_events dk =
     filter (\<lambda>(d, st). st_valid st \<and> \<not> st_ended st)
       (map (\<lambda>(d, fd). (d, read_state_file (fd_state fd))) (dk_events dk))"

fun best_event :: "string \<Rightarrow> i64 \<Rightarrow> (string \<times> spool_state) list \<Rightarrow> string" where
  "best_event best best_ms [] = best"
| "best_event best best_ms ((d, st) # rest) =
     (if st_last_activity_ms st > best_ms then best_event d (st_last_activity_ms st) rest
      else best_event best best_ms rest)"

fun end_others :: "string \<Rightarrow> (string \<times> spool_state) list \<Rightarrow> spool \<Rightarrow> spool" where
  "end_others best [] sp = sp"
| "end_others best ((d, st) # rest) sp =
     (if d = best then end_others best rest sp
      else end_others best rest
             (save_state (sp\<lparr>sp_dir := d, sp_state := st\<lparr>st_ended := True, st_end_unpublished := True\<rparr>\<rparr>)))"

definition count_pending_bytes :: "spool \<Rightarrow> nat" where
  "count_pending_bytes sp = sum_list (map (\<lambda>seq. case file_size sp seq of Some n \<Rightarrow> n | None \<Rightarrow> 0) (pending_seqs sp))"

definition spool_open :: "disk \<Rightarrow> u64 \<Rightarrow> string \<Rightarrow> spool" where
  "spool_open dk max_bytes event_id =
     (let dk' = migrate_single_folder dk;
          sp = \<lparr>sp_disk = dk', sp_dir = [], sp_max_bytes = max_bytes, sp_state = spool_state_default,
                sp_bytes_pending = 0, sp_dropped_count = 0\<rparr>;
          sp' = (if event_id \<noteq> [] then sp\<lparr>sp_dir := event_id\<rparr>
                 else let unf = unfinished_events dk'; best = best_event [] (-1) unf
                      in (end_others best unf sp)\<lparr>sp_dir := best\<rparr>);
          sp'' = load_state sp'
      in sp''\<lparr>sp_bytes_pending := count_pending_bytes sp''\<rparr>)"


section \<open>Events under the root\<close>

definition finishing_events :: "disk \<Rightarrow> string list" where
  "finishing_events dk =
     map snd (sort (List.map_filter (\<lambda>(d, fd).
       let st = read_state_file (fd_state fd)
       in if st_valid st \<and> st_ended st \<and> (has_segments fd \<or> st_end_unpublished st)
          then Some (st_last_activity_ms st, d) else None) (dk_events dk)))"

definition is_finished :: "folder \<Rightarrow> bool" where
  "is_finished fd =
     (let st = read_state_file (fd_state fd)
      in st_valid st \<and> st_ended st \<and> \<not> st_end_unpublished st \<and> \<not> has_segments fd)"

definition remove_finished :: "disk \<Rightarrow> disk \<times> nat" where
  "remove_finished dk =
     (dk\<lparr>dk_events := filter (\<lambda>(d, fd). \<not> is_finished fd) (dk_events dk)\<rparr>,
      length (filter (\<lambda>(d, fd). is_finished fd) (dk_events dk)))"

definition discard_event :: "disk \<Rightarrow> string \<Rightarrow> disk" where
  "discard_event dk event_id =
     (if event_id = [] then dk else dk\<lparr>dk_events := AList.delete event_id (dk_events dk)\<rparr>)"

definition remove_if_done :: "spool \<Rightarrow> spool \<times> bool" where
  "remove_if_done sp =
     (if sp_dir sp = [] \<or> \<not> st_ended (sp_state sp) \<or> st_end_unpublished (sp_state sp) \<or>
         has_segments (cur_folder sp) then (sp, False)
      else ((upd_events (AList.delete (sp_dir sp)) sp)\<lparr>sp_dir := [], sp_bytes_pending := 0\<rparr>, True))"


section \<open>The life of an event\<close>

definition inspect :: "spool \<Rightarrow> resume_info" where
  "inspect sp =
     (if \<not> st_valid (sp_state sp) \<or> st_ended (sp_state sp) then resume_info_default
      else \<lparr>ri_resumable = True, ri_event_id = st_event_id (sp_state sp),
            ri_last_confirmed = st_last_confirmed (sp_state sp),
            ri_last_enqueued = st_last_enqueued (sp_state sp),
            ri_pending_count = length (pending_seqs sp),
            ri_last_activity_ms = st_last_activity_ms (sp_state sp),
            ri_media_end_s = st_media_end_s (sp_state sp), ri_stale = False\<rparr>)"

text \<open>Ending what was current before: kept for the finisher, or removed when nothing is left.\<close>

definition retire_current :: "spool \<Rightarrow> spool" where
  "retire_current sp =
     (if sp_dir sp \<noteq> [] \<and> st_valid (sp_state sp) then
        let st = sp_state sp;
            st' = (if \<not> st_ended st then st\<lparr>st_end_unpublished := True\<rparr> else st)\<lparr>st_ended := True\<rparr>;
            sp' = save_state (sp\<lparr>sp_state := st'\<rparr>)
        in if \<not> has_segments (cur_folder sp') \<and> \<not> st_end_unpublished st'
           then upd_events (AList.delete (sp_dir sp')) sp' else sp'
      else sp)"

definition fresh_state :: "int \<Rightarrow> string \<Rightarrow> u64 \<Rightarrow> i64 \<Rightarrow> spool_state" where
  "fresh_state targets event_id first_seq now =
     (let before = (if first_seq > 0 then first_seq - 1 else 0)
      in spool_state_default\<lparr>st_targets := targets, st_event_id := event_id,
           st_first_seq := first_seq, st_last_enqueued := before, st_last_confirmed := before,
           st_last_confirmed_2 := before, st_ended := False, st_valid := True,
           st_last_activity_ms := now\<rparr>)"

definition begin_event :: "spool \<Rightarrow> string \<Rightarrow> u64 \<Rightarrow> i64 \<Rightarrow> spool" where
  "begin_event sp event_id first_seq now =
     (let sp1 = retire_current sp;
          sp2 = (upd_events (\<lambda>es. AList.update event_id empty_folder (AList.delete event_id es)) sp1)
                  \<lparr>sp_dir := event_id\<rparr>
      in save_state (sp2\<lparr>sp_state := fresh_state (st_targets (sp_state sp2)) event_id first_seq now,
                         sp_bytes_pending := 0\<rparr>))"

definition resume_event :: "spool \<Rightarrow> i64 \<Rightarrow> spool_error + spool" where
  "resume_event sp now =
     (if \<not> st_valid (sp_state sp) then Inl Nothing_To_Resume
      else Inr (save_state (sp\<lparr>sp_state := (sp_state sp)\<lparr>st_ended := False, st_last_activity_ms := now\<rparr>\<rparr>)))"

definition mark_ended :: "spool \<Rightarrow> bool \<Rightarrow> spool" where
  "mark_ended sp published =
     save_state (sp\<lparr>sp_state := (sp_state sp)\<lparr>st_ended := True, st_end_unpublished := \<not> published\<rparr>\<rparr>)"


section \<open>Enqueue\<close>

definition write_seg :: "spooled_segment \<Rightarrow> spool \<Rightarrow> spool" where
  "write_seg seg = upd_folder (\<lambda>fd. fd\<lparr>fd_segs := AList.update (sg_seq seg) (sg_data seg) (fd_segs fd)\<rparr>)"

definition meta_of :: "spooled_segment \<Rightarrow> spool_meta" where
  "meta_of seg = \<lparr>sm_duration_s = sg_duration_s seg, sm_pts_offset_s = sg_pts_offset_s seg,
                  sm_checksum = sg_checksum seg, sm_key = sg_key seg\<rparr>"

definition write_meta :: "spooled_segment \<Rightarrow> spool \<Rightarrow> spool" where
  "write_meta seg = upd_folder (\<lambda>fd. fd\<lparr>fd_metas := AList.update (sg_seq seg) (Content (meta_of seg)) (fd_metas fd)\<rparr>)"

definition account :: "spooled_segment \<Rightarrow> i64 \<Rightarrow> spool \<Rightarrow> spool" where
  "account seg now sp =
     sp\<lparr>sp_state := (sp_state sp)\<lparr>
          st_last_enqueued := (if sg_seq seg > st_last_enqueued (sp_state sp) then sg_seq seg
                               else st_last_enqueued (sp_state sp)),
          st_media_end_s := max (st_media_end_s (sp_state sp)) (sg_pts_offset_s seg + sg_duration_s seg),
          st_last_activity_ms := now\<rparr>,
        sp_bytes_pending := sp_bytes_pending sp + length (sg_data seg)\<rparr>"

definition evict_locked :: "spool \<Rightarrow> u64 \<Rightarrow> spool \<times> spool_drop \<times> u64" where
  "evict_locked sp seq =
     (let freed = (case file_size sp seq of Some n \<Rightarrow> n | None \<Rightarrow> 0);
          st = sp_state sp;
          floor = (if inc64 seq > st_first_seq st then inc64 seq else st_first_seq st)
      in ((remove_files seq sp)\<lparr>sp_state := st\<lparr>st_first_seq := floor\<rparr>,
                                sp_dropped_count := sp_dropped_count sp + 1\<rparr>,
          \<lparr>dr_seq = seq, dr_new_floor = floor\<rparr>, freed))"

text \<open>
  The eviction loop over \<open>pend\<close> from index \<open>i\<close>; the subtraction is that of \<open>uint64_t\<close>, which
  never goes below zero here (\<open>evict_locked_evicted\<close>).
\<close>

fun evict_loop :: "u64 \<Rightarrow> u64 list \<Rightarrow> spool \<Rightarrow> spool_drop list \<Rightarrow> spool \<times> spool_drop list" where
  "evict_loop seq [] sp drops = (sp, drops)"
| "evict_loop seq (victim # pend) sp drops =
     (if sp_bytes_pending sp > sp_max_bytes sp \<and> length (victim # pend) > 1 then
        if victim = seq then (sp, drops)
        else let (sp', d, freed) = evict_locked sp victim
             in evict_loop seq pend (sp'\<lparr>sp_bytes_pending := sp_bytes_pending sp' - freed\<rparr>) (drops @ [d])
      else (sp, drops))"

definition apply_cap :: "u64 \<Rightarrow> spool \<Rightarrow> spool \<times> spool_drop list" where
  "apply_cap seq sp = (if sp_max_bytes sp > 0 then evict_loop seq (pending_seqs sp) sp [] else (sp, []))"

definition enqueue :: "(bytes \<Rightarrow> string) \<Rightarrow> spool \<Rightarrow> spooled_segment \<Rightarrow> i64 \<Rightarrow> spool_error + (spool \<times> string \<times> spool_drop list)" where
  "enqueue sha256_hex sp seg0 now =
     (if sp_dir sp = [] then Inl No_Event_Begun
      else let seg = seg0\<lparr>sg_checksum := sha256_hex (sg_data seg0)\<rparr>;
               (sp', drops) = apply_cap (sg_seq seg) (account seg now (write_meta seg (write_seg seg sp)))
           in Inr (save_state sp', sg_checksum seg, drops))"


section \<open>Delivery\<close>

definition any_confirmed_for :: "spool_state \<Rightarrow> int \<Rightarrow> bool" where
  "any_confirmed_for st target = (if target = 1 then st_any_confirmed_2 st else st_any_confirmed st)"

definition last_confirmed_for :: "spool_state \<Rightarrow> int \<Rightarrow> u64" where
  "last_confirmed_for st target = (if target = 1 then st_last_confirmed_2 st else st_last_confirmed st)"

text \<open>\<^verbatim>\<open>any && seq <= mark\<close>: this target already has the segment.\<close>

definition target_has :: "spool_state \<Rightarrow> int \<Rightarrow> u64 \<Rightarrow> bool" where
  "target_has st target seq = (any_confirmed_for st target \<and> seq \<le> last_confirmed_for st target)"

definition read_spooled :: "spool \<Rightarrow> u64 \<Rightarrow> spooled_segment option" where
  "read_spooled sp seq =
     (case map_of (fd_metas (cur_folder sp)) seq of
        Some (Content m) \<Rightarrow>
          (case map_of (fd_segs (cur_folder sp)) seq of
             Some bytes \<Rightarrow> Some \<lparr>sg_seq = seq, sg_data = bytes, sg_duration_s = sm_duration_s m,
                                 sg_pts_offset_s = sm_pts_offset_s m, sg_checksum = sm_checksum m,
                                 sg_key = sm_key m\<rparr>
           | None \<Rightarrow> None)
      | _ \<Rightarrow> None)"

fun peek_loop :: "spool \<Rightarrow> int \<Rightarrow> u64 list \<Rightarrow> spooled_segment option" where
  "peek_loop sp target [] = None"
| "peek_loop sp target (seq # seqs) =
     (if target_has (sp_state sp) target seq then peek_loop sp target seqs
      else case read_spooled sp seq of
             Some s \<Rightarrow> Some s
           | None \<Rightarrow> peek_loop sp target seqs)"

definition peek_next :: "spool \<Rightarrow> int \<Rightarrow> spooled_segment option" where
  "peek_next sp target = peek_loop sp target (pending_seqs sp)"

definition floor_of :: "spool \<Rightarrow> u64" where
  "floor_of sp = st_first_seq (sp_state sp)"

definition caught_up :: "spool \<Rightarrow> int \<Rightarrow> bool" where
  "caught_up sp target = list_all (target_has (sp_state sp) target) (pending_seqs sp)"

definition behind :: "spool \<Rightarrow> int \<Rightarrow> nat" where
  "behind sp target = length (filter (\<lambda>seq. \<not> target_has (sp_state sp) target seq) (pending_seqs sp))"

definition pending_count :: "spool \<Rightarrow> nat" where
  "pending_count sp = length (pending_seqs sp)"

text \<open>Removing the files of a segment no target needs any more, with its share of the byte count.\<close>

definition release :: "u64 \<Rightarrow> spool \<Rightarrow> spool" where
  "release seq sp =
     remove_files seq
       (case file_size sp seq of
          Some sz \<Rightarrow> if sz \<le> sp_bytes_pending sp then sp\<lparr>sp_bytes_pending := sp_bytes_pending sp - sz\<rparr> else sp
        | None \<Rightarrow> sp)"

fun sweep_confirmed :: "u64 list \<Rightarrow> spool \<Rightarrow> spool" where
  "sweep_confirmed [] sp = sp"
| "sweep_confirmed (seq # seqs) sp =
     (if \<not> st_any_confirmed (sp_state sp) \<or> seq > st_last_confirmed (sp_state sp)
      then sweep_confirmed seqs sp else sweep_confirmed seqs (release seq sp))"

definition set_targets :: "spool \<Rightarrow> int \<Rightarrow> spool" where
  "set_targets sp n0 =
     (let n1 = (if n0 < 1 then 1 else n0); n = (if n1 > 2 then 2 else n1);
          sp1 = sp\<lparr>sp_state := (sp_state sp)\<lparr>st_targets := n\<rparr>\<rparr>
      in save_state (if n < 2 then sweep_confirmed (pending_seqs sp1) sp1 else sp1))"

definition mark_confirmed :: "spool_state \<Rightarrow> u64 \<Rightarrow> int \<Rightarrow> i64 \<Rightarrow> spool_state" where
  "mark_confirmed st seq target now =
     (if target = 1
      then st\<lparr>st_any_confirmed_2 := True, st_last_confirmed_2 := max (st_last_confirmed_2 st) seq,
              st_last_activity_ms := now\<rparr>
      else st\<lparr>st_any_confirmed := True, st_last_confirmed := max (st_last_confirmed st) seq,
              st_last_activity_ms := now\<rparr>)"

definition held_by_all :: "spool_state \<Rightarrow> u64 \<Rightarrow> bool" where
  "held_by_all st seq = (target_has st 0 seq \<and> (st_targets st < 2 \<or> target_has st 1 seq))"

definition confirm :: "spool \<Rightarrow> u64 \<Rightarrow> int \<Rightarrow> i64 \<Rightarrow> spool" where
  "confirm sp seq target now =
     (let sp1 = save_state (sp\<lparr>sp_state := mark_confirmed (sp_state sp) seq target now\<rparr>)
      in if held_by_all (sp_state sp1) seq then release seq sp1 else sp1)"


section \<open>Frame lemmas\<close>

definition cur_exists :: "spool \<Rightarrow> bool" where
  "cur_exists sp = (map_of (dk_events (sp_disk sp)) (sp_dir sp) \<noteq> None)"

lemma upd_events_frame [simp]:
  "sp_dir (upd_events f sp) = sp_dir sp" "sp_state (upd_events f sp) = sp_state sp"
  "sp_max_bytes (upd_events f sp) = sp_max_bytes sp"
  "sp_bytes_pending (upd_events f sp) = sp_bytes_pending sp"
  "sp_dropped_count (upd_events f sp) = sp_dropped_count sp"
  "dk_events (sp_disk (upd_events f sp)) = f (dk_events (sp_disk sp))"
  by (simp_all add: upd_events_def)

lemma upd_folder_frame [simp]:
  "sp_dir (upd_folder f sp) = sp_dir sp" "sp_state (upd_folder f sp) = sp_state sp"
  "sp_max_bytes (upd_folder f sp) = sp_max_bytes sp"
  "sp_bytes_pending (upd_folder f sp) = sp_bytes_pending sp"
  "sp_dropped_count (upd_folder f sp) = sp_dropped_count sp"
  "cur_exists (upd_folder f sp) = cur_exists sp"
  by (simp_all add: upd_folder_def cur_exists_def map_of_map_entry split: option.split)

lemma cur_folder_upd: "cur_folder (upd_folder f sp) = (if cur_exists sp then f (cur_folder sp) else empty_folder)"
  by (auto simp: cur_folder_def cur_exists_def upd_folder_def map_of_map_entry split: option.split)

lemma cur_folder_none: "\<not> cur_exists sp \<Longrightarrow> cur_folder sp = empty_folder"
  by (simp add: cur_exists_def cur_folder_def)

lemma save_state_frame [simp]:
  "sp_dir (save_state sp) = sp_dir sp" "sp_state (save_state sp) = sp_state sp"
  "sp_max_bytes (save_state sp) = sp_max_bytes sp"
  "sp_bytes_pending (save_state sp) = sp_bytes_pending sp"
  "sp_dropped_count (save_state sp) = sp_dropped_count sp"
  "cur_exists (save_state sp) = cur_exists sp"
  "fd_segs (cur_folder (save_state sp)) = fd_segs (cur_folder sp)"
  "fd_metas (cur_folder (save_state sp)) = fd_metas (cur_folder sp)"
  by (auto simp: save_state_def cur_folder_upd cur_folder_none)

lemma remove_files_frame [simp]:
  "sp_dir (remove_files seq sp) = sp_dir sp" "sp_state (remove_files seq sp) = sp_state sp"
  "sp_max_bytes (remove_files seq sp) = sp_max_bytes sp"
  "sp_bytes_pending (remove_files seq sp) = sp_bytes_pending sp"
  "sp_dropped_count (remove_files seq sp) = sp_dropped_count sp"
  "cur_exists (remove_files seq sp) = cur_exists sp"
  "fd_segs (cur_folder (remove_files seq sp)) = AList.delete seq (fd_segs (cur_folder sp))"
  "fd_metas (cur_folder (remove_files seq sp)) = AList.delete seq (fd_metas (cur_folder sp))"
  by (auto simp: remove_files_def cur_folder_upd cur_folder_none empty_folder_def)

lemma cur_folder_updates [simp]:
  "cur_folder (sp\<lparr>sp_state := st\<rparr>) = cur_folder sp"
  "cur_folder (sp\<lparr>sp_bytes_pending := b\<rparr>) = cur_folder sp"
  "cur_folder (sp\<lparr>sp_dropped_count := n\<rparr>) = cur_folder sp"
  "cur_exists (sp\<lparr>sp_state := st\<rparr>) = cur_exists sp"
  "cur_exists (sp\<lparr>sp_bytes_pending := b\<rparr>) = cur_exists sp"
  "cur_exists (sp\<lparr>sp_dropped_count := n\<rparr>) = cur_exists sp"
  by (simp_all add: cur_folder_def cur_exists_def)

text \<open>
  What the delivery operations look at is the pair of directories of the current folder and
  the state in memory; operations that agree on those agree on delivery.
\<close>

definition same_files :: "spool \<Rightarrow> spool \<Rightarrow> bool" where
  "same_files sp sp' = (sp_dir sp' = sp_dir sp \<and>
     fd_segs (cur_folder sp') = fd_segs (cur_folder sp) \<and>
     fd_metas (cur_folder sp') = fd_metas (cur_folder sp))"

lemma same_files_views:
  assumes "same_files sp sp'"
  shows "pending_seqs sp' = pending_seqs sp" "read_spooled sp' = read_spooled sp"
    "file_size sp' = file_size sp" "count_pending_bytes sp' = count_pending_bytes sp"
proof -
  show p: "pending_seqs sp' = pending_seqs sp"
    using assms by (simp add: same_files_def pending_seqs_def)
  show "read_spooled sp' = read_spooled sp"
    using assms by (auto simp: same_files_def read_spooled_def fun_eq_iff split: option.split jfile.split)
  show f: "file_size sp' = file_size sp"
    using assms by (simp add: same_files_def file_size_def fun_eq_iff)
  show "count_pending_bytes sp' = count_pending_bytes sp"
    by (simp add: count_pending_bytes_def p f)
qed

lemma same_files_intros [simp, intro]:
  "same_files sp sp" "same_files sp (save_state sp)" "same_files sp (sp\<lparr>sp_state := st\<rparr>)"
  "same_files sp (sp\<lparr>sp_bytes_pending := b\<rparr>)"
  by (simp_all add: same_files_def)

lemmas save_state_views [simp] = same_files_views [OF same_files_intros(2)]
lemmas set_state_views [simp] = same_files_views [OF same_files_intros(3)]
lemmas set_bytes_views [simp] = same_files_views [OF same_files_intros(4)]

lemma pending_remove_files [simp]:
  "pending_seqs (remove_files seq sp) = filter (\<lambda>x. x \<noteq> seq) (pending_seqs sp)"
  by (simp add: pending_seqs_def dir_names_delete)

lemma read_remove_files [simp]:
  "read_spooled (remove_files seq sp) x = (if x = seq then None else read_spooled sp x)"
  by (auto simp: read_spooled_def dir_simps split: option.split jfile.split)

lemma file_size_remove_files [simp]:
  "file_size (remove_files seq sp) x = (if x = seq then None else file_size sp x)"
  by (simp add: file_size_def dir_simps)

lemma file_size_pending: "sp_dir sp \<noteq> [] \<Longrightarrow> seq \<in> set (pending_seqs sp) \<longleftrightarrow> file_size sp seq \<noteq> None"
  by (simp add: pending_seqs_def file_size_def map_of_eq_None_iff)

lemma read_spooled_seq: "read_spooled sp seq = Some s \<Longrightarrow> sg_seq s = seq"
  by (auto simp: read_spooled_def split: option.splits jfile.splits)

lemma read_spooled_pending: "sp_dir sp \<noteq> [] \<Longrightarrow> read_spooled sp seq = Some s \<Longrightarrow> seq \<in> set (pending_seqs sp)"
  by (auto simp: read_spooled_def pending_seqs_def intro: rev_image_eqI dest!: map_of_SomeD
      split: option.splits jfile.splits)

section \<open>Byte accounting\<close>

definition size_or_0 :: "spool \<Rightarrow> u64 \<Rightarrow> nat" where
  "size_or_0 sp seq = (case file_size sp seq of Some n \<Rightarrow> n | None \<Rightarrow> 0)"

lemma count_pending_bytes_eq: "count_pending_bytes sp = sum_list (map (size_or_0 sp) (pending_seqs sp))"
  unfolding count_pending_bytes_def size_or_0_def [abs_def] ..

lemma count_remove_files:
  assumes "distinct (pending_seqs sp)"
  shows "count_pending_bytes sp =
     (if seq \<in> set (pending_seqs sp) then size_or_0 sp seq else 0) + count_pending_bytes (remove_files seq sp)"
proof -
  let ?ps = "filter (\<lambda>x. x \<noteq> seq) (pending_seqs sp)"
  have "map (size_or_0 (remove_files seq sp)) ?ps = map (size_or_0 sp) ?ps"
    by (simp add: size_or_0_def)
  then have rhs: "count_pending_bytes (remove_files seq sp) = sum_list (map (size_or_0 sp) ?ps)"
    by (simp only: count_pending_bytes_eq pending_remove_files)
  show ?thesis
  proof (cases "seq \<in> set (pending_seqs sp)")
    case True
    then show ?thesis
      using sum_list_filter_out [OF assms True, of "size_or_0 sp"] by (simp add: count_pending_bytes_eq [of sp] rhs)
  next
    case False
    then have "?ps = pending_seqs sp" by (auto intro: filter_eq_self)
    with False show ?thesis by (simp add: count_pending_bytes_eq [of sp] rhs)
  qed
qed

section \<open>What is waiting for a target\<close>

text \<open>The abstract queue of a target: the readable segments it has not confirmed, in order.\<close>

definition waiting :: "spool \<Rightarrow> int \<Rightarrow> u64 list" where
  "waiting sp target = filter (\<lambda>seq. \<not> target_has (sp_state sp) target seq) (pending_seqs sp)"

definition queue :: "spool \<Rightarrow> int \<Rightarrow> spooled_segment list" where
  "queue sp target = List.map_filter (read_spooled sp) (waiting sp target)"

lemma peek_loop_queue:
  "peek_loop sp target seqs =
     (case List.map_filter (read_spooled sp) (filter (\<lambda>seq. \<not> target_has (sp_state sp) target seq) seqs) of
        [] \<Rightarrow> None | s # _ \<Rightarrow> Some s)"
  by (induction seqs) (auto simp: map_filter_Cons List.map_filter_simps(2) split: option.split)

lemma peek_next_queue: "peek_next sp target = (case queue sp target of [] \<Rightarrow> None | s # _ \<Rightarrow> Some s)"
  by (simp add: peek_next_def peek_loop_queue queue_def waiting_def)

lemma behind_waiting: "behind sp target = length (waiting sp target)"
  by (simp add: behind_def waiting_def)

lemma caught_up_waiting: "caught_up sp target \<longleftrightarrow> waiting sp target = []"
  by (auto simp: caught_up_def waiting_def list_all_iff filter_empty_conv)

lemma sorted_pending [simp]: "sorted (pending_seqs sp)"
  by (simp add: pending_seqs_def)

lemma same_files_queue:
  "same_files sp sp' \<Longrightarrow> sp_state sp' = sp_state sp \<Longrightarrow> queue sp' = queue sp"
  by (simp add: fun_eq_iff queue_def waiting_def same_files_views)

section \<open>The invariant\<close>

text \<open>
  \<open>next\<close> is the sequence number the caller will use next: everything spooled and everything
  confirmed is below it. A target that has confirmed nothing yet has its mark at or below
  everything that waits, which is what makes the mark safe to raise later.
\<close>

definition mark_ok :: "spool \<Rightarrow> u64 \<Rightarrow> int \<Rightarrow> bool" where
  "mark_ok sp next t =
     (if any_confirmed_for (sp_state sp) t then last_confirmed_for (sp_state sp) t < next
      else last_confirmed_for (sp_state sp) t \<le> next \<and>
           list_all (\<lambda>x. last_confirmed_for (sp_state sp) t \<le> x) (pending_seqs sp))"

definition spool_ok :: "spool \<Rightarrow> u64 \<Rightarrow> bool" where
  "spool_ok sp next =
     (sp_dir sp \<noteq> [] \<and> cur_exists sp \<and> dir_ok (fd_segs (cur_folder sp)) \<and>
      count_pending_bytes sp \<le> sp_bytes_pending sp \<and>
      list_all (\<lambda>x. x < next) (pending_seqs sp) \<and> mark_ok sp next 0 \<and> mark_ok sp next 1)"

lemma spool_ok_distinct: "spool_ok sp next \<Longrightarrow> distinct (pending_seqs sp)"
  by (simp add: spool_ok_def pending_seqs_def)

lemma spool_ok_mark: "spool_ok sp next \<Longrightarrow> t \<in> {0, 1} \<Longrightarrow> mark_ok sp next t"
  by (auto simp: spool_ok_def)

lemma mark_ok_save [simp]: "mark_ok (save_state sp) n t = mark_ok sp n t"
  by (simp add: mark_ok_def)

lemma mark_ok_subset:
  "mark_ok sp next t \<Longrightarrow> set (pending_seqs sp') \<subseteq> set (pending_seqs sp) \<Longrightarrow>
   any_confirmed_for (sp_state sp') t = any_confirmed_for (sp_state sp) t \<Longrightarrow>
   last_confirmed_for (sp_state sp') t = last_confirmed_for (sp_state sp) t \<Longrightarrow> mark_ok sp' next t"
  by (auto simp: mark_ok_def list_all_iff split: if_splits)


section \<open>Eviction\<close>

text \<open>\<open>evicted k sp sp'\<close>: the \<open>k\<close> oldest segments are gone, and nothing else has changed.\<close>

definition evicted :: "nat \<Rightarrow> spool \<Rightarrow> spool \<Rightarrow> bool" where
  "evicted k sp sp' =
     (pending_seqs sp' = drop k (pending_seqs sp) \<and>
      (\<forall>x\<in>set (drop k (pending_seqs sp)). read_spooled sp' x = read_spooled sp x \<and> file_size sp' x = file_size sp x) \<and>
      sp_dir sp' = sp_dir sp \<and> cur_exists sp' = cur_exists sp \<and> sp_max_bytes sp' = sp_max_bytes sp \<and>
      (dir_ok (fd_segs (cur_folder sp)) \<longrightarrow> dir_ok (fd_segs (cur_folder sp'))) \<and>
      sp_state sp' = (sp_state sp)\<lparr>st_first_seq := st_first_seq (sp_state sp')\<rparr> \<and>
      sp_bytes_pending sp = sp_bytes_pending sp' + sum_list (map (size_or_0 sp) (take k (pending_seqs sp))))"

lemma evicted_0 [simp]: "evicted 0 sp sp"
  by (simp add: evicted_def)

lemma evicted_trans:
  assumes "evicted k sp sp'" "evicted m sp' sp''"
  shows "evicted (k + m) sp sp''"
proof -
  let ?p = "pending_seqs sp"
  have p': "pending_seqs sp' = drop k ?p" using assms(1) by (simp add: evicted_def)
  have sub: "set (drop m (drop k ?p)) \<subseteq> set (drop k ?p)" by (rule set_drop_subset)
  have sz: "map (size_or_0 sp') (take m (drop k ?p)) = map (size_or_0 sp) (take m (drop k ?p))"
    using assms(1) by (auto simp: evicted_def size_or_0_def dest: in_set_takeD)
  have "take (k + m) ?p = take k ?p @ take m (drop k ?p)" by (simp add: take_add)
  then have bytes: "sp_bytes_pending sp = sp_bytes_pending sp'' + sum_list (map (size_or_0 sp) (take (k + m) ?p))"
    using assms sz p' by (simp add: evicted_def)
  have st: "sp_state sp'' = (sp_state sp)\<lparr>st_first_seq := st_first_seq (sp_state sp'')\<rparr>"
    using assms by (simp add: evicted_def) (metis spool_state.update_convs(2) spool_state.surjective)
  have rd: "\<forall>x\<in>set (drop (k + m) ?p). read_spooled sp'' x = read_spooled sp x \<and> file_size sp'' x = file_size sp x"
    using assms sub p' by (auto simp: evicted_def add.commute)
  show ?thesis
    using assms bytes st rd by (auto simp: evicted_def add.commute)
qed

lemma evict_locked_evicted:
  assumes "pending_seqs sp = victim # pend" "distinct (pending_seqs sp)" "sp_dir sp \<noteq> []"
    "count_pending_bytes sp \<le> sp_bytes_pending sp" "evict_locked sp victim = (sp', d, freed)"
  shows "evicted 1 sp (sp'\<lparr>sp_bytes_pending := sp_bytes_pending sp' - freed\<rparr>)"
    "freed \<le> sp_bytes_pending sp'" "dr_seq d = victim" "dr_new_floor d = st_first_seq (sp_state sp')"
    "count_pending_bytes (sp'\<lparr>sp_bytes_pending := sp_bytes_pending sp' - freed\<rparr>) \<le> sp_bytes_pending sp' - freed"
proof -
  define st where "st = sp_state sp'"
  define floor where "floor = st_first_seq st"
  have freed: "freed = size_or_0 sp victim"
    using assms(5) by (auto simp: evict_locked_def Let_def size_or_0_def)
  have st: "st = (sp_state sp)\<lparr>st_first_seq := floor\<rparr>"
    using assms(5) by (auto simp: evict_locked_def Let_def st_def floor_def)
  have sp': "sp' = (remove_files victim sp)\<lparr>sp_state := st, sp_dropped_count := sp_dropped_count sp + 1\<rparr>"
    using assms(5) by (auto simp: evict_locked_def Let_def st_def)
  show "dr_seq d = victim" "dr_new_floor d = st_first_seq (sp_state sp')"
    using assms(5) by (auto simp: evict_locked_def Let_def)
  have sf: "same_files (remove_files victim sp) sp'" by (simp add: same_files_def sp')
  note v = same_files_views [OF sf]
  have p: "filter (\<lambda>x. x \<noteq> victim) pend = pend" using assms(1,2) by (auto intro: filter_eq_self)
  have cnt: "count_pending_bytes sp = size_or_0 sp victim + count_pending_bytes sp'"
    using count_remove_files [OF assms(2), of victim] assms(1) by (simp add: v)
  show "freed \<le> sp_bytes_pending sp'"
    using cnt assms(4) by (simp add: freed sp')
  show "count_pending_bytes (sp'\<lparr>sp_bytes_pending := sp_bytes_pending sp' - freed\<rparr>) \<le> sp_bytes_pending sp' - freed"
    using cnt assms(4) by (simp add: freed sp')
  have "sp_state (sp'\<lparr>sp_bytes_pending := sp_bytes_pending sp' - freed\<rparr>) = (sp_state sp)\<lparr>st_first_seq := floor\<rparr>"
    by (simp add: sp' st)
  moreover have "sp_bytes_pending sp = sp_bytes_pending sp' - freed + size_or_0 sp victim"
    using cnt assms(4) by (simp add: freed sp')
  moreover have "\<forall>x\<in>set pend. x \<noteq> victim" using assms(1,2) by auto
  ultimately show "evicted 1 sp (sp'\<lparr>sp_bytes_pending := sp_bytes_pending sp' - freed\<rparr>)"
    using assms(1) p by (auto simp: evicted_def v) (auto simp: sp')
qed

lemma evict_loop_evicted:
  assumes "evict_loop seq (pending_seqs sp) sp drops = (sp', drops')" "sp_dir sp \<noteq> []"
    "distinct (pending_seqs sp)" "count_pending_bytes sp \<le> sp_bytes_pending sp"
    "pending_seqs sp \<noteq> [] \<Longrightarrow> last (pending_seqs sp) = seq"
  shows "\<exists>k. evicted k sp sp' \<and> map dr_seq drops' = map dr_seq drops @ take k (pending_seqs sp) \<and>
     (pending_seqs sp \<noteq> [] \<longrightarrow> k < length (pending_seqs sp)) \<and> count_pending_bytes sp' \<le> sp_bytes_pending sp' \<and>
     (sp_bytes_pending sp' \<le> sp_max_bytes sp \<or> length (pending_seqs sp') \<le> 1)"
  using assms
proof (induction "pending_seqs sp" arbitrary: sp drops)
  case Nil
  then show ?case by (intro exI [of _ 0]) auto
next
  case (Cons victim pend)
  note p = Cons.hyps(2) [symmetric]
  note prems = Cons.prems(1) [unfolded p] Cons.prems(2-)
  show ?case
  proof (cases "sp_bytes_pending sp > sp_max_bytes sp \<and> pend \<noteq> []")
    case False
    then have "sp' = sp" "drops' = drops" using prems(1) by (auto split: if_splits)
    with False p prems(4) show ?thesis by (intro exI [of _ 0]) auto
  next
    case True
    then have nv: "victim \<noteq> seq" using prems(3,5) p by auto
    obtain sp1 d freed where e: "evict_locked sp victim = (sp1, d, freed)" by (metis prod_cases3)
    define sp2 where "sp2 = sp1\<lparr>sp_bytes_pending := sp_bytes_pending sp1 - freed\<rparr>"
    note el = evict_locked_evicted [OF p prems(3) prems(2) prems(4) e, folded sp2_def]
    have ev1: "evicted 1 sp sp2" by (rule el(1))
    have p2: "pend = pending_seqs sp2" using ev1 p by (simp add: evicted_def)
    have loop: "evict_loop seq (pending_seqs sp2) sp2 (drops @ [d]) = (sp', drops')"
      unfolding p2 [symmetric] using prems(1) True nv e by (simp add: sp2_def)
    have "\<exists>k. evicted k sp2 sp' \<and> map dr_seq drops' = map dr_seq (drops @ [d]) @ take k (pending_seqs sp2) \<and>
       (pending_seqs sp2 \<noteq> [] \<longrightarrow> k < length (pending_seqs sp2)) \<and> count_pending_bytes sp' \<le> sp_bytes_pending sp' \<and>
       (sp_bytes_pending sp' \<le> sp_max_bytes sp2 \<or> length (pending_seqs sp') \<le> 1)"
    proof (rule Cons.hyps(1) [OF p2 loop])
      show "sp_dir sp2 \<noteq> []" using ev1 prems(2) by (simp add: evicted_def)
      show "distinct (pending_seqs sp2)" using prems(3) p p2 by simp
      show "count_pending_bytes sp2 \<le> sp_bytes_pending sp2" using el(5) by (simp add: sp2_def)
      show "last (pending_seqs sp2) = seq" using prems(5) p p2 True by simp
    qed
    then obtain k where k: "evicted k sp2 sp'" "map dr_seq drops' = map dr_seq (drops @ [d]) @ take k pend"
      "k < length pend" "count_pending_bytes sp' \<le> sp_bytes_pending sp'"
      "sp_bytes_pending sp' \<le> sp_max_bytes sp2 \<or> length (pending_seqs sp') \<le> 1"
      using True p2 by auto
    have "evicted (1 + k) sp sp'" by (rule evicted_trans [OF ev1 k(1)])
    moreover have "sp_max_bytes sp2 = sp_max_bytes sp" using ev1 by (simp add: evicted_def)
    ultimately show ?thesis using k el(3) p by (intro exI [of _ "Suc k"]) auto
  qed
qed

section \<open>Confirming\<close>

lemma release_frame [simp]:
  "sp_dir (release seq sp) = sp_dir sp" "sp_state (release seq sp) = sp_state sp"
  "sp_max_bytes (release seq sp) = sp_max_bytes sp"
  "cur_exists (release seq sp) = cur_exists sp"
  "fd_segs (cur_folder (release seq sp)) = AList.delete seq (fd_segs (cur_folder sp))"
  "pending_seqs (release seq sp) = filter (\<lambda>x. x \<noteq> seq) (pending_seqs sp)"
  "read_spooled (release seq sp) x = (if x = seq then None else read_spooled sp x)"
  "file_size (release seq sp) x = (if x = seq then None else file_size sp x)"
  by (auto simp: release_def split: option.split)

lemma release_bytes:
  assumes "sp_dir sp \<noteq> []" "distinct (pending_seqs sp)" "count_pending_bytes sp \<le> sp_bytes_pending sp"
  shows "count_pending_bytes (release seq sp) \<le> sp_bytes_pending (release seq sp)"
proof -
  have c: "count_pending_bytes (release seq sp) = count_pending_bytes (remove_files seq sp)"
    by (simp add: count_pending_bytes_def)
  show ?thesis unfolding c
    using count_remove_files [OF assms(2), of seq] assms file_size_pending [OF assms(1), of seq]
    by (cases "file_size sp seq") (auto simp: release_def size_or_0_def)
qed

lemma mark_confirmed_simps [simp]:
  "st_targets (mark_confirmed st seq t now) = st_targets st"
  "any_confirmed_for (mark_confirmed st seq t now) t"
  "last_confirmed_for (mark_confirmed st seq t now) t = max (last_confirmed_for st t) seq"
  by (auto simp: mark_confirmed_def any_confirmed_for_def last_confirmed_for_def)

lemma mark_confirmed_other:
  "t' \<noteq> t \<Longrightarrow> t \<in> {0, 1} \<Longrightarrow> t' \<in> {0, 1} \<Longrightarrow> any_confirmed_for (mark_confirmed st seq t now) t' = any_confirmed_for st t'"
  "t' \<noteq> t \<Longrightarrow> t \<in> {0, 1} \<Longrightarrow> t' \<in> {0, 1} \<Longrightarrow> last_confirmed_for (mark_confirmed st seq t now) t' = last_confirmed_for st t'"
  by (auto simp: mark_confirmed_def any_confirmed_for_def last_confirmed_for_def)

lemma confirm_frame [simp]:
  "sp_dir (confirm sp seq t now) = sp_dir sp"
  "sp_state (confirm sp seq t now) = mark_confirmed (sp_state sp) seq t now"
  "sp_max_bytes (confirm sp seq t now) = sp_max_bytes sp"
  "cur_exists (confirm sp seq t now) = cur_exists sp"
  by (auto simp: confirm_def Let_def)

lemma confirm_files:
  assumes "\<not> held_by_all (mark_confirmed (sp_state sp) seq t now) x \<or> x \<noteq> seq"
  shows "read_spooled (confirm sp seq t now) x = read_spooled sp x"
  using assms by (auto simp: confirm_def Let_def)

lemma confirm_pending:
  "pending_seqs (confirm sp seq t now) =
     (if held_by_all (mark_confirmed (sp_state sp) seq t now) seq
      then filter (\<lambda>x. x \<noteq> seq) (pending_seqs sp) else pending_seqs sp)"
  by (simp add: confirm_def Let_def)

lemma confirm_bytes:
  assumes "sp_dir sp \<noteq> []" "distinct (pending_seqs sp)" "count_pending_bytes sp \<le> sp_bytes_pending sp"
  shows "count_pending_bytes (confirm sp seq t now) \<le> sp_bytes_pending (confirm sp seq t now)"
proof -
  let ?s = "save_state (sp\<lparr>sp_state := mark_confirmed (sp_state sp) seq t now\<rparr>)"
  have "count_pending_bytes (release seq ?s) \<le> sp_bytes_pending (release seq ?s)"
    by (rule release_bytes) (simp_all add: assms)
  with assms(3) show ?thesis by (auto simp: confirm_def Let_def)
qed

text \<open>Confirming what is spooled keeps the invariant.\<close>

lemma confirm_ok:
  assumes "spool_ok sp next" "seq \<in> set (pending_seqs sp)" "t \<in> {0, 1}"
  shows "spool_ok (confirm sp seq t now) next"
proof -
  let ?sp' = "confirm sp seq t now"
  have sub: "set (pending_seqs ?sp') \<subseteq> set (pending_seqs sp)" by (auto simp: confirm_pending)
  have "seq < next" using assms by (auto simp: spool_ok_def list_all_iff)
  then have mark: "mark_ok ?sp' next t" using assms spool_ok_mark [OF assms(1), of t]
    by (auto simp: mark_ok_def list_all_iff split: if_splits)
  have other: "mark_ok ?sp' next t'" if "t' \<noteq> t" "t' \<in> {0, 1}" for t'
    using that assms(3) mark_ok_subset [OF spool_ok_mark [OF assms(1) that(2)] sub]
    by (simp add: mark_confirmed_other)
  have "mark_ok ?sp' next 0" "mark_ok ?sp' next 1" using mark other by (cases "t = 0"; use assms(3) in auto)+
  moreover have "dir_ok (fd_segs (cur_folder ?sp'))" using assms(1)
    by (auto simp: confirm_def Let_def spool_ok_def)
  moreover have "count_pending_bytes ?sp' \<le> sp_bytes_pending ?sp'"
    using assms(1) spool_ok_distinct [OF assms(1)] by (intro confirm_bytes) (auto simp: spool_ok_def)
  moreover have "list_all (\<lambda>x. x < next) (pending_seqs ?sp')"
    using sub assms(1) by (auto simp: spool_ok_def list_all_iff)
  ultimately show ?thesis using assms(1) by (simp add: spool_ok_def)
qed

text \<open>Confirming the head of a target's queue takes exactly that segment off it.\<close>

lemma target_has_confirm:
  assumes "spool_ok sp next" "t \<in> {0, 1}" "seq \<in> set (pending_seqs sp)" "x \<in> set (pending_seqs sp)"
  shows "target_has (mark_confirmed (sp_state sp) seq t now) t x \<longleftrightarrow> target_has (sp_state sp) t x \<or> x \<le> seq"
  using spool_ok_mark [OF assms(1,2)] assms(3,4)
  by (auto simp: mark_ok_def target_has_def list_all_iff split: if_splits)

lemma waiting_confirm:
  assumes "spool_ok sp next" "t \<in> {0, 1}" "waiting sp t = us @ seq # vs"
  shows "waiting (confirm sp seq t now) t = vs"
proof -
  let ?st = "mark_confirmed (sp_state sp) seq t now" and ?ps = "pending_seqs sp"
  have "seq \<in> set (waiting sp t)" using assms(3) by simp
  then have seq: "seq \<in> set ?ps" by (simp add: waiting_def)
  have sd: "sorted (us @ seq # vs)" "distinct (us @ seq # vs)"
    unfolding assms(3) [symmetric] waiting_def
    using spool_ok_distinct [OF assms(1)] by (simp_all add: sorted_wrt_filter)
  have "filter (\<lambda>x. \<not> target_has ?st t x) ?ps = filter (\<lambda>x. \<not> x \<le> seq) (waiting sp t)"
    using target_has_confirm [OF assms(1,2) seq] by (auto simp: waiting_def intro!: filter_cong)
  also have "\<dots> = vs" unfolding assms(3) by (rule filter_after_split [OF sd])
  finally have eq: "filter (\<lambda>x. \<not> target_has ?st t x) ?ps = vs" .
  have "target_has ?st t seq" using target_has_confirm [OF assms(1,2) seq seq] by simp
  then have "filter (\<lambda>x. \<not> target_has ?st t x) (filter (\<lambda>x. x \<noteq> seq) ?ps) = filter (\<lambda>x. \<not> target_has ?st t x) ?ps"
    by (auto simp: intro!: filter_cong)
  with eq show ?thesis by (simp add: waiting_def confirm_pending)
qed

lemma queue_confirm:
  assumes "spool_ok sp next" "t \<in> {0, 1}" "queue sp t = s # rest"
  shows "queue (confirm sp (sg_seq s) t now) t = rest"
proof -
  obtain us x vs where x: "waiting sp t = us @ x # vs" "read_spooled sp x = Some s"
    "List.map_filter (read_spooled sp) vs = rest"
    using map_filter_ConsD [OF assms(3) [unfolded queue_def]] by blast
  have s: "sg_seq s = x" by (rule read_spooled_seq [OF x(2)])
  have "distinct (waiting sp t)" using spool_ok_distinct [OF assms(1)] by (simp add: waiting_def)
  then have "x \<notin> set vs" using x(1) by simp
  then have "List.map_filter (read_spooled (confirm sp x t now)) vs = List.map_filter (read_spooled sp) vs"
    by (intro map_filter_cong refl confirm_files) auto
  then show ?thesis using waiting_confirm [OF assms(1,2) x(1), of now] x(3) by (simp add: queue_def s)
qed

text \<open>A confirmation from one target takes nothing away from the other.\<close>

lemma queue_confirm_other:
  assumes "t \<in> {0, 1}" "t' \<in> {0, 1}" "t' \<noteq> t" "t' = 1 \<Longrightarrow> st_targets (sp_state sp) \<ge> 2"
  shows "queue (confirm sp seq t now) t' = queue sp t'"
proof -
  let ?st = "mark_confirmed (sp_state sp) seq t now"
  have has: "target_has ?st t' = target_has (sp_state sp) t'"
    using assms by (simp add: fun_eq_iff target_has_def mark_confirmed_other)
  have held: "held_by_all ?st seq \<Longrightarrow> target_has (sp_state sp) t' seq"
    using assms has by (auto simp: held_by_all_def)
  have w: "waiting (confirm sp seq t now) t' = waiting sp t'"
    using held has by (auto simp: waiting_def confirm_pending intro!: filter_cong)
  show ?thesis unfolding queue_def
    by (rule map_filter_cong [OF w], rule confirm_files) (use held in \<open>auto simp: waiting_def\<close>)
qed

text \<open>A spooled segment leaves the disk only when every target in play holds it.\<close>

lemma confirm_keeps:
  assumes "read_spooled sp x = Some s" "\<not> held_by_all (sp_state (confirm sp seq t now)) x"
  shows "read_spooled (confirm sp seq t now) x = Some s"
  using assms confirm_files [of sp seq t now x] by simp

section \<open>Enqueueing\<close>

definition spooled :: "spooled_segment \<Rightarrow> i64 \<Rightarrow> spool \<Rightarrow> spool" where
  "spooled seg now sp = account seg now (write_meta seg (write_seg seg sp))"

lemma write_frame [simp]:
  "sp_dir (write_seg seg sp) = sp_dir sp" "cur_exists (write_seg seg sp) = cur_exists sp"
  "sp_state (write_seg seg sp) = sp_state sp" "sp_disk (account seg now sp) = sp_disk sp"
  "sp_dir (write_meta seg sp) = sp_dir sp" "cur_exists (write_meta seg sp) = cur_exists sp"
  "sp_state (write_meta seg sp) = sp_state sp"
  by (simp_all add: write_seg_def write_meta_def account_def)

lemma write_seg_files:
  assumes "cur_exists sp"
  shows "fd_segs (cur_folder (write_seg seg sp)) = AList.update (sg_seq seg) (sg_data seg) (fd_segs (cur_folder sp))"
    "fd_metas (cur_folder (write_seg seg sp)) = fd_metas (cur_folder sp)"
  using assms by (simp_all add: write_seg_def cur_folder_upd)

lemma write_meta_files:
  assumes "cur_exists sp"
  shows "fd_segs (cur_folder (write_meta seg sp)) = fd_segs (cur_folder sp)"
    "fd_metas (cur_folder (write_meta seg sp)) = AList.update (sg_seq seg) (Content (meta_of seg)) (fd_metas (cur_folder sp))"
  using assms by (simp_all add: write_meta_def cur_folder_upd)

lemma account_folder [simp]: "cur_folder (account seg now sp) = cur_folder sp" "cur_exists (account seg now sp) = cur_exists sp"
  "sp_dir (account seg now sp) = sp_dir sp"
  by (simp_all add: account_def)

lemma spooled_frame [simp]:
  "sp_dir (spooled seg now sp) = sp_dir sp" "cur_exists (spooled seg now sp) = cur_exists sp"
  "sp_max_bytes (spooled seg now sp) = sp_max_bytes sp"
  "sp_bytes_pending (spooled seg now sp) = sp_bytes_pending sp + length (sg_data seg)"
  "target_has (sp_state (spooled seg now sp)) t x = target_has (sp_state sp) t x"
  "any_confirmed_for (sp_state (spooled seg now sp)) t = any_confirmed_for (sp_state sp) t"
  "last_confirmed_for (sp_state (spooled seg now sp)) t = last_confirmed_for (sp_state sp) t"
  "st_targets (sp_state (spooled seg now sp)) = st_targets (sp_state sp)"
  "st_first_seq (sp_state (spooled seg now sp)) = st_first_seq (sp_state sp)"
  by (simp_all add: spooled_def account_def write_seg_def write_meta_def target_has_def any_confirmed_for_def last_confirmed_for_def)

lemma spooled_files:
  assumes "cur_exists sp"
  shows "fd_segs (cur_folder (spooled seg now sp)) = AList.update (sg_seq seg) (sg_data seg) (fd_segs (cur_folder sp))"
    "fd_metas (cur_folder (spooled seg now sp)) = AList.update (sg_seq seg) (Content (meta_of seg)) (fd_metas (cur_folder sp))"
  using assms by (simp_all add: spooled_def write_seg_files write_meta_files)

lemma spooled_read:
  assumes "cur_exists sp"
  shows "read_spooled (spooled seg now sp) x = (if x = sg_seq seg then Some seg else read_spooled sp x)"
  using assms by (auto simp: read_spooled_def spooled_files dir_simps meta_of_def split: option.split jfile.split)

lemma spooled_size:
  "cur_exists sp \<Longrightarrow> file_size (spooled seg now sp) x = (if x = sg_seq seg then Some (length (sg_data seg)) else file_size sp x)"
  by (simp add: file_size_def spooled_files dir_simps)

lemma spooled_pending:
  assumes "sp_dir sp \<noteq> []" "cur_exists sp" "\<forall>x\<in>set (pending_seqs sp). x < sg_seq seg"
  shows "pending_seqs (spooled seg now sp) = pending_seqs sp @ [sg_seq seg]"
  using assms by (simp add: pending_seqs_def spooled_files dir_names_update_max)

lemma spooled_count:
  assumes "sp_dir sp \<noteq> []" "cur_exists sp" "\<forall>x\<in>set (pending_seqs sp). x < sg_seq seg"
  shows "count_pending_bytes (spooled seg now sp) = count_pending_bytes sp + length (sg_data seg)"
proof -
  have "map (size_or_0 (spooled seg now sp)) (pending_seqs sp) = map (size_or_0 sp) (pending_seqs sp)"
    using assms by (auto simp: size_or_0_def spooled_size)
  then show ?thesis using assms
    by (simp only: count_pending_bytes_eq spooled_pending [OF assms] map_append sum_list_append)
       (simp add: size_or_0_def spooled_size)
qed

lemma apply_cap_evicted:
  assumes "apply_cap seq sp = (sp', drops)" "sp_dir sp \<noteq> []" "distinct (pending_seqs sp)"
    "count_pending_bytes sp \<le> sp_bytes_pending sp" "last (pending_seqs sp) = seq" "pending_seqs sp \<noteq> []"
  shows "\<exists>k < length (pending_seqs sp). evicted k sp sp' \<and> map dr_seq drops = take k (pending_seqs sp) \<and>
     count_pending_bytes sp' \<le> sp_bytes_pending sp' \<and>
     (sp_max_bytes sp > 0 \<longrightarrow> sp_bytes_pending sp' \<le> sp_max_bytes sp \<or> length (pending_seqs sp') \<le> 1)"
proof (cases "sp_max_bytes sp > 0")
  case True
  then show ?thesis using evict_loop_evicted [of seq sp "[]" sp' drops] assms by (auto simp: apply_cap_def)
next
  case False
  then show ?thesis using assms by (intro exI [of _ 0]) (auto simp: apply_cap_def)
qed

lemma evicted_marks:
  assumes "evicted k sp sp'"
  shows "any_confirmed_for (sp_state sp') t = any_confirmed_for (sp_state sp) t"
    "last_confirmed_for (sp_state sp') t = last_confirmed_for (sp_state sp) t"
    "target_has (sp_state sp') t x = target_has (sp_state sp) t x"
    "st_targets (sp_state sp') = st_targets (sp_state sp)"
proof -
  obtain f where "sp_state sp' = (sp_state sp)\<lparr>st_first_seq := f\<rparr>" using assms by (auto simp: evicted_def)
  then show "any_confirmed_for (sp_state sp') t = any_confirmed_for (sp_state sp) t"
    "last_confirmed_for (sp_state sp') t = last_confirmed_for (sp_state sp) t"
    "target_has (sp_state sp') t x = target_has (sp_state sp) t x"
    "st_targets (sp_state sp') = st_targets (sp_state sp)"
    by (simp_all add: target_has_def any_confirmed_for_def last_confirmed_for_def)
qed

definition sealed :: "(bytes \<Rightarrow> string) \<Rightarrow> spooled_segment \<Rightarrow> spooled_segment" where
  "sealed sha256_hex seg = seg\<lparr>sg_checksum := sha256_hex (sg_data seg)\<rparr>"

lemma sealed_simps [simp]: "sg_seq (sealed h seg) = sg_seq seg" "sg_data (sealed h seg) = sg_data seg"
  "sg_checksum (sealed h seg) = h (sg_data seg)"
  by (simp_all add: sealed_def)

lemma enqueue_cases:
  assumes "enqueue h sp seg0 now = Inr (sp', ck, drops)"
  obtains sp1 where "sp_dir sp \<noteq> []" "apply_cap (sg_seq seg0) (spooled (sealed h seg0) now sp) = (sp1, drops)"
    "sp' = save_state sp1" "ck = h (sg_data seg0)"
  using assms by (auto simp: enqueue_def Let_def spooled_def sealed_def split: if_splits prod.splits)

text \<open>
  Enqueueing under the invariant: the new segment is spooled last and readable, the \<open>k\<close> oldest
  are evicted and reported in that order, everything between is untouched, and the byte count
  is back under the cap unless only the new segment is left.
\<close>

lemma enqueue_facts:
  assumes ok: "spool_ok sp next" and seq: "sg_seq seg = next"
    and enq: "enqueue h sp seg now = Inr (sp', ck, drops)"
  shows "\<exists>k \<le> length (pending_seqs sp).
     pending_seqs sp' = drop k (pending_seqs sp) @ [next] \<and> map dr_seq drops = take k (pending_seqs sp) \<and>
     read_spooled sp' next = Some (sealed h seg) \<and>
     (\<forall>x\<in>set (drop k (pending_seqs sp)). read_spooled sp' x = read_spooled sp x) \<and>
     (\<forall>t x. target_has (sp_state sp') t x = target_has (sp_state sp) t x) \<and>
     st_targets (sp_state sp') = st_targets (sp_state sp) \<and>
     (sp_max_bytes sp > 0 \<longrightarrow> sp_bytes_pending sp' \<le> sp_max_bytes sp \<or> pending_seqs sp' = [next]) \<and>
     spool_ok sp' (next + 1) \<and> ck = h (sg_data seg)"
proof -
  let ?sp1 = "spooled (sealed h seg) now sp"
  obtain sp2 where dir: "sp_dir sp \<noteq> []" and cap: "apply_cap next ?sp1 = (sp2, drops)"
    and sp': "sp' = save_state sp2" and ck: "ck = h (sg_data seg)"
    using enq seq by (metis enqueue_cases)
  have ex: "cur_exists sp" and lt: "\<forall>x\<in>set (pending_seqs sp). x < next" and d: "distinct (pending_seqs sp)"
    using ok spool_ok_distinct [OF ok] by (auto simp: spool_ok_def list_all_iff)
  have p1: "pending_seqs ?sp1 = pending_seqs sp @ [next]" using spooled_pending [of sp "sealed h seg" now] dir ex lt seq by simp
  have cnt: "count_pending_bytes ?sp1 \<le> sp_bytes_pending ?sp1"
    using spooled_count [of sp "sealed h seg" now] dir ex lt seq ok by (simp add: spool_ok_def)
  have d1: "distinct (pending_seqs ?sp1)" using p1 d lt by auto
  obtain k where k: "k < length (pending_seqs ?sp1)" "evicted k ?sp1 sp2" "map dr_seq drops = take k (pending_seqs ?sp1)"
    "count_pending_bytes sp2 \<le> sp_bytes_pending sp2"
    "sp_max_bytes ?sp1 > 0 \<longrightarrow> sp_bytes_pending sp2 \<le> sp_max_bytes ?sp1 \<or> length (pending_seqs sp2) \<le> 1"
    using apply_cap_evicted [OF cap _ d1 cnt] dir p1 by auto
  have kle: "k \<le> length (pending_seqs sp)" using k(1) p1 by simp
  have p2: "pending_seqs sp2 = drop k (pending_seqs sp) @ [next]" using k(2) p1 kle by (simp add: evicted_def)
  have rd: "read_spooled sp2 x = read_spooled ?sp1 x" if "x \<in> set (drop k (pending_seqs sp) @ [next])" for x
    using k(2) p1 kle that by (auto simp: evicted_def)
  have rd_old: "\<forall>x\<in>set (drop k (pending_seqs sp)). read_spooled sp2 x = read_spooled sp x"
    using rd ex lt seq by (auto simp: spooled_read dest: in_set_dropD)
  have rd_new: "read_spooled sp2 next = Some (sealed h seg)" using rd [of "next"] ex seq by (simp add: spooled_read)
  note m = evicted_marks [OF k(2)]
  have sub: "set (pending_seqs sp2) \<subseteq> insert next (set (pending_seqs sp))" using p2 set_drop_subset [of k "pending_seqs sp"] by auto
  have mk: "mark_ok sp2 (next + 1) t" if "t \<in> {0, 1}" for t
    using spool_ok_mark [OF ok that] sub by (auto simp: mark_ok_def m list_all_iff split: if_splits)
  have "dir_ok (fd_segs (cur_folder sp2))" using k(2) ok ex by (simp add: evicted_def spool_ok_def spooled_files)
  moreover have "sp_dir sp2 \<noteq> []" "cur_exists sp2" using k(2) dir ex by (simp_all add: evicted_def)
  moreover have "\<forall>x\<in>set (pending_seqs sp2). x < next + 1" using sub lt by (auto simp: subset_iff less_Suc_eq)
  ultimately have ok2: "spool_ok sp' (next + 1)"
    using k(4) mk [of 0] mk [of 1] by (simp add: spool_ok_def sp' list_all_iff)
  have "length (pending_seqs sp2) \<le> 1 \<Longrightarrow> pending_seqs sp2 = [next]" using p2 by simp
  then show ?thesis
    using kle p2 k(3,5) p1 rd_old rd_new m ok2 ck by (intro exI [of _ k]) (auto simp: sp')
qed

lemma enqueue_ok:
  "spool_ok sp next \<Longrightarrow> sg_seq seg = next \<Longrightarrow> enqueue h sp seg now = Inr (sp', ck, drops) \<Longrightarrow> spool_ok sp' (Suc next)"
  using enqueue_facts by (metis Suc_eq_plus1)

lemma enqueue_total: "spool_ok sp next \<Longrightarrow> \<exists>sp' drops. enqueue h sp seg now = Inr (sp', h (sg_data seg), drops)"
  by (auto simp: enqueue_def spool_ok_def Let_def split: prod.split)

lemma read_seq_in: "s \<in> set (List.map_filter (read_spooled sp) xs) \<Longrightarrow> sg_seq s \<in> set xs"
  by (auto simp: set_map_filter dest: read_spooled_seq)

text \<open>On the abstract queue: the dropped segments leave, the new one is appended.\<close>

lemma enqueue_queue:
  assumes ok: "spool_ok sp next" and seq: "sg_seq seg = next"
    and enq: "enqueue h sp seg now = Inr (sp', ck, drops)" and t: "t \<in> {0, 1}"
  shows "queue sp' t = filter (\<lambda>s. sg_seq s \<notin> dr_seq ` set drops) (queue sp t) @ [sealed h seg]"
proof -
  let ?p = "pending_seqs sp" and ?P = "\<lambda>x. \<not> target_has (sp_state sp) t x"
  obtain k where k: "k \<le> length ?p" "pending_seqs sp' = drop k ?p @ [next]" "map dr_seq drops = take k ?p"
     "read_spooled sp' next = Some (sealed h seg)"
     "\<forall>x\<in>set (drop k ?p). read_spooled sp' x = read_spooled sp x"
     "\<forall>t x. target_has (sp_state sp') t x = target_has (sp_state sp) t x"
    using enqueue_facts [OF ok seq enq] by blast
  have nh: "?P next" using spool_ok_mark [OF ok t] by (auto simp: mark_ok_def target_has_def split: if_splits)
  have ds: "dr_seq ` set drops = set (take k ?p)" using arg_cong [OF k(3), of set] by simp
  have split: "?p = take k ?p @ drop k ?p" by simp
  have dis: "set (take k ?p) \<inter> set (drop k ?p) = {}"
    using spool_ok_distinct [OF ok] by (metis append_take_drop_id distinct_append)
  have q: "queue sp t = List.map_filter (read_spooled sp) (filter ?P (take k ?p)) @
                        List.map_filter (read_spooled sp) (filter ?P (drop k ?p))"
    unfolding queue_def waiting_def by (metis split filter_append map_filter_append)
  have f1: "filter (\<lambda>s. sg_seq s \<notin> dr_seq ` set drops) (List.map_filter (read_spooled sp) (filter ?P (take k ?p))) = []"
    using ds by (auto simp: filter_empty_conv dest: read_seq_in)
  have f2: "filter (\<lambda>s. sg_seq s \<notin> dr_seq ` set drops) (List.map_filter (read_spooled sp) (filter ?P (drop k ?p))) =
            List.map_filter (read_spooled sp) (filter ?P (drop k ?p))"
    using dis ds by (intro filter_eq_self) (auto simp: disjoint_iff dest: read_seq_in)
  have r: "List.map_filter (read_spooled sp') (filter ?P (drop k ?p)) = List.map_filter (read_spooled sp) (filter ?P (drop k ?p))"
    using k(5) by (intro map_filter_cong) auto
  show ?thesis
    unfolding q filter_append f1 f2
    using nh k(2,4,6) r by (simp add: queue_def waiting_def map_filter_Cons List.map_filter_simps(2))
qed

section \<open>The interface the uploader relies on\<close>

text \<open>
  A queue is what it hands out: \<open>peek\<close> shows the first item, acknowledging it leaves the rest.
  A second kind of step (\<open>put\<close>, by another thread) may remove items and append one.
\<close>

locale upload_queue =
  fixes peek :: "'q \<Rightarrow> 's option" and ack :: "'q \<Rightarrow> 's \<Rightarrow> 'q"
    and items :: "'q \<Rightarrow> 's list" and invar :: "'q \<Rightarrow> bool"
  assumes peek_items: "invar q \<Longrightarrow> peek q = (case items q of [] \<Rightarrow> None | s # _ \<Rightarrow> Some s)"
    and ack_items: "invar q \<Longrightarrow> items q = s # rest \<Longrightarrow> items (ack q s) = rest"
    and ack_invar: "invar q \<Longrightarrow> items q = s # rest \<Longrightarrow> invar (ack q s)"
begin

lemma peek_None: "invar q \<Longrightarrow> peek q = None \<longleftrightarrow> items q = []"
  by (simp add: peek_items split: list.split)

lemma peek_Some: "invar q \<Longrightarrow> peek q = Some s \<Longrightarrow> items q = s # items (ack q s)"
  using ack_items by (auto simp: peek_items split: list.splits)

lemma ack_peeked: "invar q \<Longrightarrow> peek q = Some s \<Longrightarrow> invar (ack q s)"
  using ack_invar peek_Some by blast

end

definition at_target :: "int \<Rightarrow> bool" where
  "at_target t = (t = 0 \<or> t = 1)"

lemma queue_head_pending: "sp_dir sp \<noteq> [] \<Longrightarrow> queue sp t = s # rest \<Longrightarrow> sg_seq s \<in> set (pending_seqs sp)"
  using read_seq_in [of s sp "waiting sp t"] by (auto simp: queue_def waiting_def)

interpretation primary_queue: upload_queue "\<lambda>sp. peek_next sp 0" "\<lambda>sp s. confirm sp (sg_seq s) 0 now"
    "\<lambda>sp. queue sp 0" "\<lambda>sp. spool_ok sp n"
proof
  fix q s rest
  assume "spool_ok q n"
  then show "peek_next q 0 = (case queue q 0 of [] \<Rightarrow> None | s # _ \<Rightarrow> Some s)" by (simp add: peek_next_queue)
  assume ok: "spool_ok q n" and hd: "queue q 0 = s # rest"
  show "queue (confirm q (sg_seq s) 0 now) 0 = rest" by (rule queue_confirm [OF ok _ hd]) simp
  show "spool_ok (confirm q (sg_seq s) 0 now) n"
    by (rule confirm_ok [OF ok]) (use ok hd in \<open>auto simp: spool_ok_def intro: queue_head_pending\<close>)
qed

interpretation mirror_queue: upload_queue "\<lambda>sp. peek_next sp 1" "\<lambda>sp s. confirm sp (sg_seq s) 1 now"
    "\<lambda>sp. queue sp 1" "\<lambda>sp. spool_ok sp n"
proof
  fix q s rest
  assume "spool_ok q n"
  then show "peek_next q 1 = (case queue q 1 of [] \<Rightarrow> None | s # _ \<Rightarrow> Some s)" by (simp add: peek_next_queue)
  assume ok: "spool_ok q n" and hd: "queue q 1 = s # rest"
  show "queue (confirm q (sg_seq s) 1 now) 1 = rest" by (rule queue_confirm [OF ok _ hd]) simp
  show "spool_ok (confirm q (sg_seq s) 1 now) n"
    by (rule confirm_ok [OF ok]) (use ok hd in \<open>auto simp: spool_ok_def intro: queue_head_pending\<close>)
qed

section \<open>Runs of the queue\<close>

text \<open>
  The encode thread enqueues, the two upload threads deliver what they peek; each operation
  holds the queue's lock, so a run is a sequence of them in any order. The trace records what
  was enqueued, what was delivered to which target, and what the cap dropped.
\<close>

datatype spool_event = Enqueued spooled_segment | Delivered int spooled_segment | Dropped u64

inductive spool_run :: "(bytes \<Rightarrow> string) \<Rightarrow> spool \<Rightarrow> u64 \<Rightarrow> spool_event list \<Rightarrow> spool \<Rightarrow> u64 \<Rightarrow> bool"
  for h :: "bytes \<Rightarrow> string" and sp0 :: spool and n0 :: u64 where
  run_start: "spool_run h sp0 n0 [] sp0 n0"
| run_enqueue: "spool_run h sp0 n0 tr sp n \<Longrightarrow> sg_seq seg = n \<Longrightarrow>
     enqueue h sp seg now = Inr (sp', ck, drops) \<Longrightarrow>
     spool_run h sp0 n0 (tr @ Enqueued (sealed h seg) # map (\<lambda>d. Dropped (dr_seq d)) drops) sp' (n + 1)"
| run_deliver: "spool_run h sp0 n0 tr sp n \<Longrightarrow> at_target t \<Longrightarrow> peek_next sp t = Some s \<Longrightarrow>
     spool_run h sp0 n0 (tr @ [Delivered t s]) (confirm sp (sg_seq s) t now) n"

inductive_cases spool_run_NilE: "spool_run h sp0 n0 [] sp n"

fun enqueued_of :: "spool_event list \<Rightarrow> spooled_segment list" where
  "enqueued_of [] = []"
| "enqueued_of (Enqueued s # tr) = s # enqueued_of tr"
| "enqueued_of (_ # tr) = enqueued_of tr"

fun delivered_to :: "int \<Rightarrow> spool_event list \<Rightarrow> spooled_segment list" where
  "delivered_to t [] = []"
| "delivered_to t (Delivered t' s # tr) = (if t' = t then s # delivered_to t tr else delivered_to t tr)"
| "delivered_to t (_ # tr) = delivered_to t tr"

fun dropped_of :: "spool_event list \<Rightarrow> u64 list" where
  "dropped_of [] = []"
| "dropped_of (Dropped n # tr) = n # dropped_of tr"
| "dropped_of (_ # tr) = dropped_of tr"

lemma trace_append [simp]:
  "enqueued_of (xs @ ys) = enqueued_of xs @ enqueued_of ys"
  "delivered_to t (xs @ ys) = delivered_to t xs @ delivered_to t ys"
  "dropped_of (xs @ ys) = dropped_of xs @ dropped_of ys"
  by (induction xs rule: enqueued_of.induct) auto

lemma trace_drops [simp]:
  "enqueued_of (map (\<lambda>d. Dropped (dr_seq d)) ds) = []"
  "delivered_to t (map (\<lambda>d. Dropped (dr_seq d)) ds) = []"
  "dropped_of (map (\<lambda>d. Dropped (dr_seq d)) ds) = map dr_seq ds"
  by (induction ds) auto

lemma confirm_peeked_ok: "spool_ok sp n \<Longrightarrow> at_target t \<Longrightarrow> peek_next sp t = Some s \<Longrightarrow> spool_ok (confirm sp (sg_seq s) t now) n"
  using primary_queue.ack_peeked mirror_queue.ack_peeked by (auto simp: at_target_def)

lemma spool_run_ok: "spool_run h sp0 n0 tr sp n \<Longrightarrow> spool_ok sp0 n0 \<Longrightarrow> spool_ok sp n \<and> n0 \<le> n"
  by (induction rule: spool_run.induct) (auto intro: enqueue_ok confirm_peeked_ok)

lemma spool_run_targets:
  "spool_run h sp0 n0 tr sp n \<Longrightarrow> spool_ok sp0 n0 \<Longrightarrow> st_targets (sp_state sp) = st_targets (sp_state sp0)"
proof (induction rule: spool_run.induct)
  case (run_enqueue tr sp n seg now sp' ck drops)
  then show ?case using enqueue_facts [OF conjunct1 [OF spool_run_ok]] by metis
qed simp_all

lemma deliver_queue:
  assumes "spool_ok sp n" "at_target t" "at_target t'" "peek_next sp t' = Some s" "t = 1 \<Longrightarrow> st_targets (sp_state sp) \<ge> 2"
  shows "(if t' = t then s # queue (confirm sp (sg_seq s) t' now) t else queue (confirm sp (sg_seq s) t' now) t) = queue sp t"
  using assms primary_queue.peek_Some mirror_queue.peek_Some queue_confirm_other [of t' t sp "sg_seq s" now]
  by (auto simp: at_target_def)

text \<open>
  For a target in play, what it was given followed by what waits for it is always a
  subsequence of what was enqueued, and what is missing was dropped by the cap.
\<close>

lemma spool_run_delivery:
  assumes "spool_run h sp0 n0 tr sp n" "spool_ok sp0 n0" "queue sp0 t = []"
    "at_target t" "t = 1 \<Longrightarrow> st_targets (sp_state sp0) \<ge> 2"
  shows "subseq (delivered_to t tr @ queue sp t) (enqueued_of tr) \<and>
    (\<forall>s\<in>set (enqueued_of tr). s \<in> set (delivered_to t tr @ queue sp t) \<or> sg_seq s \<in> set (dropped_of tr))"
  using assms
proof (induction rule: spool_run.induct)
  case (run_enqueue tr sp n seg now sp' ck drops)
  have ok: "spool_ok sp n" using spool_run_ok [OF run_enqueue.hyps(1)] run_enqueue.prems by blast
  have q: "queue sp' t = filter (\<lambda>s. sg_seq s \<notin> dr_seq ` set drops) (queue sp t) @ [sealed h seg]"
    using enqueue_queue [OF ok run_enqueue.hyps(2,3)] run_enqueue.prems(3) by (simp add: at_target_def)
  have "subseq (delivered_to t tr @ filter (\<lambda>s. sg_seq s \<notin> dr_seq ` set drops) (queue sp t)) (delivered_to t tr @ queue sp t)"
    by (intro list_emb_append_mono) auto
  then have "subseq (delivered_to t tr @ filter (\<lambda>s. sg_seq s \<notin> dr_seq ` set drops) (queue sp t)) (enqueued_of tr)"
    using run_enqueue.IH run_enqueue.prems subseq_order.order_trans by blast
  then have sub: "subseq ((delivered_to t tr @ filter (\<lambda>s. sg_seq s \<notin> dr_seq ` set drops) (queue sp t)) @ [sealed h seg])
      (enqueued_of tr @ [sealed h seg])"
    by (intro list_emb_append_mono) auto
  then show ?case using run_enqueue.IH run_enqueue.prems q by auto
next
  case (run_deliver tr sp n t' s now)
  have ok: "spool_ok sp n" and tg: "st_targets (sp_state sp) = st_targets (sp_state sp0)"
    using spool_run_ok [OF run_deliver.hyps(1)] spool_run_targets [OF run_deliver.hyps(1)] run_deliver.prems by blast+
  have "delivered_to t (tr @ [Delivered t' s]) @ queue (confirm sp (sg_seq s) t' now) t = delivered_to t tr @ queue sp t"
    using deliver_queue [OF ok run_deliver.prems(3) run_deliver.hyps(2,3), of now] run_deliver.prems(4) tg
    by (auto split: if_splits)
  then show ?case using run_deliver.IH run_deliver.prems by simp
qed simp

section \<open>Beginning, restarting, crashing\<close>

lemma begin_event_state:
  fixes sp event_id first_seq now
  defines "sp' \<equiv> begin_event sp event_id first_seq now"
  assumes "event_id \<noteq> []"
  shows "sp_dir sp' = event_id" "cur_exists sp'" "fd_segs (cur_folder sp') = []" "fd_metas (cur_folder sp') = []"
    "fd_state (cur_folder sp') = Content (sp_state sp')" "sp_bytes_pending sp' = 0"
    "sp_state sp' = fresh_state (st_targets (sp_state sp)) event_id first_seq now"
proof -
  let ?sp1 = "retire_current sp"
  let ?sp2 = "(upd_events (\<lambda>es. AList.update event_id empty_folder (AList.delete event_id es)) ?sp1)\<lparr>sp_dir := event_id\<rparr>"
  let ?sp3 = "?sp2\<lparr>sp_state := fresh_state (st_targets (sp_state ?sp2)) event_id first_seq now, sp_bytes_pending := 0\<rparr>"
  have sp': "sp' = save_state ?sp3" by (simp add: sp'_def begin_event_def Let_def)
  have ex: "cur_exists ?sp3" "cur_folder ?sp3 = empty_folder"
    by (simp_all add: cur_exists_def cur_folder_def dir_simps)
  have tg: "st_targets (sp_state ?sp1) = st_targets (sp_state sp)"
    by (simp add: retire_current_def Let_def)
  show "sp_dir sp' = event_id" "sp_bytes_pending sp' = 0" by (simp_all add: sp')
  show "cur_exists sp'" "fd_segs (cur_folder sp') = []" "fd_metas (cur_folder sp') = []"
    using ex by (simp_all add: sp' empty_folder_def del: cur_folder_updates)
  show "sp_state sp' = fresh_state (st_targets (sp_state sp)) event_id first_seq now"
    by (simp add: sp' tg)
  show "fd_state (cur_folder sp') = Content (sp_state sp')"
    using ex(1) assms(2) by (simp add: sp' save_state_def cur_folder_upd del: cur_folder_updates)
qed

lemma begin_event_ok:
  assumes "event_id \<noteq> []"
  shows "spool_ok (begin_event sp event_id first_seq now) first_seq" "queue (begin_event sp event_id first_seq now) t = []"
proof -
  note b = begin_event_state [OF assms, of sp first_seq now]
  have p: "pending_seqs (begin_event sp event_id first_seq now) = []" by (simp add: pending_seqs_def b dir_names_def)
  then have c: "count_pending_bytes (begin_event sp event_id first_seq now) = 0" by (simp add: count_pending_bytes_def)
  show "spool_ok (begin_event sp event_id first_seq now) first_seq"
    using assms by (simp add: spool_ok_def mark_ok_def p c b fresh_state_def Let_def spool_state_default_def
        any_confirmed_for_def last_confirmed_for_def)
  show "queue (begin_event sp event_id first_seq now) t = []"
    by (simp add: queue_def waiting_def p List.map_filter_simps(2))
qed

text \<open>Beginning an event leaves the backlog of the one before in its folder, listed for finishing.\<close>

lemma begin_event_other_folder:
  assumes "d \<noteq> event_id" "map_of (dk_events (sp_disk (retire_current sp))) d = Some fd"
  shows "map_of (dk_events (sp_disk (begin_event sp event_id first_seq now))) d = Some fd"
  using assms by (auto simp: begin_event_def Let_def save_state_def upd_folder_def dir_simps map_of_map_entry split: option.split)

lemma retire_keeps:
  assumes "sp_dir sp \<noteq> []" "cur_exists sp" "st_valid (sp_state sp)" "has_segments (cur_folder sp)"
  shows "\<exists>st. st_valid st \<and> st_ended st \<and> map_of (dk_events (sp_disk (retire_current sp))) (sp_dir sp) =
     Some ((cur_folder sp)\<lparr>fd_state := Content st\<rparr>)"
proof -
  obtain fd where fd: "map_of (dk_events (sp_disk sp)) (sp_dir sp) = Some fd" using assms(2) by (auto simp: cur_exists_def)
  let ?st = "(if \<not> st_ended (sp_state sp) then (sp_state sp)\<lparr>st_end_unpublished := True\<rparr> else sp_state sp)\<lparr>st_ended := True\<rparr>"
  have "fd_segs (cur_folder (save_state (sp\<lparr>sp_state := ?st\<rparr>))) \<noteq> []" using assms(4) by (simp add: has_segments_def)
  then have "retire_current sp = save_state (sp\<lparr>sp_state := ?st\<rparr>)"
    using assms by (simp add: retire_current_def Let_def has_segments_def)
  then have "map_of (dk_events (sp_disk (retire_current sp))) (sp_dir sp) = Some ((cur_folder sp)\<lparr>fd_state := Content ?st\<rparr>)"
    using assms(1) fd by (simp add: save_state_def upd_folder_def map_of_map_entry cur_folder_def)
  then show ?thesis using assms(3) by (intro exI [of _ ?st]) simp
qed

lemma finishing_eventsI:
  assumes "map_of (dk_events dk) d = Some fd" "fd_state fd = Content st" "st_ended st" "has_segments fd"
  shows "d \<in> set (finishing_events dk)"
proof -
  have "(d, fd) \<in> set (dk_events dk)" using assms(1) by (rule map_of_SomeD)
  then show ?thesis using assms(2-)
    by (auto simp: finishing_events_def set_map_filter read_state_file_def Let_def image_iff intro!: bexI [of _ "(d, fd)"])
qed

text \<open>Every operation leaves \<^verbatim>\<open>state.json\<close> equal to the state in memory.\<close>

definition saved :: "spool \<Rightarrow> bool" where
  "saved sp = (sp_dir sp \<noteq> [] \<and> cur_exists sp \<and> fd_state (cur_folder sp) = Content (sp_state sp))"

lemma save_state_saved: "sp_dir sp \<noteq> [] \<Longrightarrow> cur_exists sp \<Longrightarrow> saved (save_state sp)"
  by (simp add: saved_def save_state_def cur_folder_upd)

lemma release_fd_state: "fd_state (cur_folder (release seq sp)) = fd_state (cur_folder sp)"
  by (auto simp: release_def remove_files_def cur_folder_upd cur_folder_none split: option.split)

lemma confirm_saved: "sp_dir sp \<noteq> [] \<Longrightarrow> cur_exists sp \<Longrightarrow> saved (confirm sp seq t now)"
  using save_state_saved [of "sp\<lparr>sp_state := mark_confirmed (sp_state sp) seq t now\<rparr>"]
  by (auto simp: confirm_def Let_def saved_def release_fd_state)

lemma enqueue_saved: "spool_ok sp n \<Longrightarrow> sg_seq seg = n \<Longrightarrow> enqueue h sp seg now = Inr (sp', ck, drops) \<Longrightarrow> saved sp'"
proof -
  assume a: "spool_ok sp n" "sg_seq seg = n" "enqueue h sp seg now = Inr (sp', ck, drops)"
  have "spool_ok sp' (Suc n)" by (rule enqueue_ok [OF a])
  then have "sp_dir sp' \<noteq> []" "cur_exists sp'" by (auto simp: spool_ok_def)
  then show "saved sp'" using a(3) by (auto elim!: enqueue_cases intro!: save_state_saved)
qed

definition reopened :: "spool \<Rightarrow> u64 \<Rightarrow> spool" where
  "reopened sp max_bytes = spool_open (sp_disk sp) max_bytes (sp_dir sp)"

definition no_old_layout :: "spool \<Rightarrow> bool" where
  "no_old_layout sp = (fd_state (dk_root_files (sp_disk sp)) = No_File)"

lemma reopened_eq:
  assumes "saved sp" "no_old_layout sp"
  shows "same_files sp (reopened sp m)" "cur_exists (reopened sp m)"
    "sp_state (reopened sp m) = (sp_state sp)\<lparr>st_valid := True\<rparr>"
    "sp_bytes_pending (reopened sp m) = count_pending_bytes sp"
proof -
  let ?sp1 = "\<lparr>sp_disk = sp_disk sp, sp_dir = sp_dir sp, sp_max_bytes = m, sp_state = spool_state_default,
                sp_bytes_pending = 0, sp_dropped_count = 0\<rparr>"
  have cf: "cur_folder ?sp1 = cur_folder sp" "cur_exists ?sp1 = cur_exists sp" by (simp_all add: cur_folder_def cur_exists_def)
  have ld: "load_state ?sp1 = ?sp1\<lparr>sp_state := (sp_state sp)\<lparr>st_valid := True\<rparr>\<rparr>"
    unfolding load_state_def cf using assms(1) by (simp add: saved_def read_state_file_def)
  have sp': "reopened sp m = (load_state ?sp1)\<lparr>sp_bytes_pending := count_pending_bytes (load_state ?sp1)\<rparr>"
    using assms by (simp add: reopened_def spool_open_def migrate_single_folder_def no_old_layout_def saved_def Let_def)
  have sf: "same_files sp (load_state ?sp1)"
    unfolding ld same_files_def by (simp add: cf del: cur_folder_updates) (simp add: cf [simplified] cur_folder_def)
  show "same_files sp (reopened sp m)" using sf by (simp add: sp' same_files_def)
  show "sp_bytes_pending (reopened sp m) = count_pending_bytes sp" by (simp add: sp' same_files_views [OF sf])
  show "sp_state (reopened sp m) = (sp_state sp)\<lparr>st_valid := True\<rparr>" by (simp add: sp' ld)
  show "cur_exists (reopened sp m)" using assms(1) cf(2) by (simp add: sp' ld cur_exists_def saved_def)
qed

text \<open>A restart finds the queue exactly as it was left.\<close>

lemma reopened_queue:
  assumes "saved sp" "no_old_layout sp"
  shows "queue (reopened sp m) t = queue sp t"
  using same_files_views [OF reopened_eq(1) [OF assms]]
  by (simp add: queue_def waiting_def reopened_eq [OF assms] target_has_def any_confirmed_for_def last_confirmed_for_def)

lemma reopened_ok:
  assumes "spool_ok sp n" "saved sp" "no_old_layout sp"
  shows "spool_ok (reopened sp m) n"
proof -
  have sf: "same_files sp (reopened sp m)" and st: "sp_state (reopened sp m) = (sp_state sp)\<lparr>st_valid := True\<rparr>"
    and b: "sp_bytes_pending (reopened sp m) = count_pending_bytes sp" and ex: "cur_exists (reopened sp m)"
    using reopened_eq [OF assms(2,3), of m] by auto
  note v = same_files_views [OF sf]
  have mk: "mark_ok (reopened sp m) n t = mark_ok sp n t" for t
    by (simp add: mark_ok_def st v any_confirmed_for_def last_confirmed_for_def)
  show ?thesis using assms(1) sf ex by (simp add: spool_ok_def mk b v) (simp add: same_files_def)
qed

text \<open>
  A crash inside \<open>enqueue\<close> leaves the disk after the first write, or after both; the state file
  is still the one written before. Either way everything queued earlier is still queued.
\<close>

lemma crash_saved:
  assumes "saved sp"
  shows "saved (write_seg seg sp)" "saved (write_meta seg (write_seg seg sp))"
  using assms by (simp_all add: saved_def write_seg_def write_meta_def cur_folder_upd)

lemma crash_root:
  "no_old_layout sp \<Longrightarrow> no_old_layout (write_seg seg sp)"
  "no_old_layout sp \<Longrightarrow> no_old_layout (write_meta seg sp)"
  by (simp_all add: no_old_layout_def write_seg_def write_meta_def upd_folder_def upd_events_def)

lemma enqueue_crash_queue:
  assumes ok: "spool_ok sp n" and seq: "sg_seq seg = n" and sv: "saved sp" "no_old_layout sp"
    and no_meta: "map_of (fd_metas (cur_folder sp)) n = None" and t: "t \<in> {0, 1}"
  shows "queue (reopened (write_seg seg sp) m) t = queue sp t"
    "queue (reopened (write_meta seg (write_seg seg sp)) m) t = queue sp t @ [seg]"
proof -
  have ex: "cur_exists sp" "sp_dir sp \<noteq> []" and lt: "\<forall>x\<in>set (pending_seqs sp). x < n"
    using ok by (auto simp: spool_ok_def list_all_iff)
  have nh: "\<not> target_has (sp_state sp) t n" using spool_ok_mark [OF ok t] by (auto simp: mark_ok_def target_has_def split: if_splits)
  have p1: "pending_seqs (write_seg seg sp) = pending_seqs sp @ [n]"
    using ex lt seq by (simp add: pending_seqs_def write_seg_files dir_names_update_max)
  have r1: "read_spooled (write_seg seg sp) x = (if x = n then None else read_spooled sp x)" for x
    using ex seq no_meta by (auto simp: read_spooled_def write_seg_files dir_simps split: option.split jfile.split)
  have "queue (write_seg seg sp) t = queue sp t"
    using nh lt by (auto simp: queue_def waiting_def p1 r1 map_filter_Cons List.map_filter_simps(2) intro!: map_filter_cong)
  then show "queue (reopened (write_seg seg sp) m) t = queue sp t"
    using reopened_queue [OF crash_saved(1) [OF sv(1)] crash_root(1) [OF sv(2)]] by simp
  let ?sp2 = "write_meta seg (write_seg seg sp)"
  have sf: "same_files (spooled seg 0 sp) ?sp2" by (simp add: same_files_def spooled_def)
  note v = same_files_views [OF sf]
  have p2: "pending_seqs ?sp2 = pending_seqs sp @ [n]" using spooled_pending [OF ex(2,1)] lt seq by (simp add: v)
  have r2: "read_spooled ?sp2 x = (if x = n then Some seg else read_spooled sp x)" for x
    using spooled_read [OF ex(1)] seq by (simp add: v)
  have "queue ?sp2 t = queue sp t @ [seg]"
    using nh lt by (auto simp: queue_def waiting_def p2 r2 map_filter_Cons List.map_filter_simps(2) intro!: map_filter_cong)
  then show "queue (reopened ?sp2 m) t = queue sp t @ [seg]"
    using reopened_queue [OF crash_saved(2) [OF sv(1)] crash_root(2) [OF crash_root(1) [OF sv(2)]]] by simp
qed

section \<open>Changing the number of targets\<close>

lemma sweep_frame [simp]:
  "sp_dir (sweep_confirmed seqs sp) = sp_dir sp" "sp_state (sweep_confirmed seqs sp) = sp_state sp"
  "cur_exists (sweep_confirmed seqs sp) = cur_exists sp"
  by (induction seqs sp rule: sweep_confirmed.induct) simp_all

lemma sweep_files:
  "pending_seqs (sweep_confirmed seqs sp) = filter (\<lambda>x. \<not> (x \<in> set seqs \<and> target_has (sp_state sp) 0 x)) (pending_seqs sp)"
  "read_spooled (sweep_confirmed seqs sp) x = (if x \<in> set seqs \<and> target_has (sp_state sp) 0 x then None else read_spooled sp x)"
  by (induction seqs sp rule: sweep_confirmed.induct)
     (auto simp: target_has_def any_confirmed_for_def last_confirmed_for_def intro!: filter_cong)

lemma sweep_bytes:
  assumes "sp_dir sp \<noteq> []" "distinct (pending_seqs sp)" "count_pending_bytes sp \<le> sp_bytes_pending sp"
  shows "count_pending_bytes (sweep_confirmed seqs sp) \<le> sp_bytes_pending (sweep_confirmed seqs sp)"
  using assms
  by (induction seqs sp rule: sweep_confirmed.induct) (auto intro: release_bytes)

lemma sweep_dir_ok: "dir_ok (fd_segs (cur_folder sp)) \<Longrightarrow> dir_ok (fd_segs (cur_folder (sweep_confirmed seqs sp)))"
  by (induction seqs sp rule: sweep_confirmed.induct) auto

lemma set_targets_one:
  "set_targets sp 1 = save_state (sweep_confirmed (pending_seqs sp) (sp\<lparr>sp_state := (sp_state sp)\<lparr>st_targets := 1\<rparr>\<rparr>))"
  by (simp add: set_targets_def Let_def)

lemma targets_marks [simp]:
  "target_has (st\<lparr>st_targets := n\<rparr>) t x = target_has st t x"
  "any_confirmed_for (st\<lparr>st_targets := n\<rparr>) t = any_confirmed_for st t"
  "last_confirmed_for (st\<lparr>st_targets := n\<rparr>) t = last_confirmed_for st t"
  by (simp_all add: target_has_def any_confirmed_for_def last_confirmed_for_def)

lemma set_targets_one_files:
  "pending_seqs (set_targets sp 1) = waiting sp 0"
  "read_spooled (set_targets sp 1) x = (if x \<in> set (pending_seqs sp) \<and> target_has (sp_state sp) 0 x then None else read_spooled sp x)"
  by (auto simp: set_targets_one sweep_files waiting_def intro!: filter_cong)

lemma set_targets_one_queue: "queue (set_targets sp 1) 0 = queue sp 0"
proof -
  have st: "sp_state (set_targets sp 1) = (sp_state sp)\<lparr>st_targets := 1\<rparr>" by (simp add: set_targets_one)
  have w: "waiting (set_targets sp 1) 0 = waiting sp 0"
    by (simp add: waiting_def [of "set_targets sp 1"] st set_targets_one_files) (simp add: waiting_def)
  show ?thesis unfolding queue_def
    by (rule map_filter_cong [OF w]) (auto simp: set_targets_one_files waiting_def)
qed

lemma set_targets_one_ok:
  assumes "spool_ok sp n"
  shows "spool_ok (set_targets sp 1) n"
proof -
  let ?sp1 = "sp\<lparr>sp_state := (sp_state sp)\<lparr>st_targets := 1\<rparr>\<rparr>"
  have f: "sp_dir sp \<noteq> []" "distinct (pending_seqs sp)" "count_pending_bytes sp \<le> sp_bytes_pending sp"
    using assms spool_ok_distinct [OF assms] by (auto simp: spool_ok_def)
  have "count_pending_bytes (sweep_confirmed (pending_seqs sp) ?sp1) \<le> sp_bytes_pending (sweep_confirmed (pending_seqs sp) ?sp1)"
    by (rule sweep_bytes) (use f in simp_all)
  moreover have "mark_ok (set_targets sp 1) n t" if "t \<in> {0, 1}" for t
    by (rule mark_ok_subset [OF spool_ok_mark [OF assms that]])
       (auto simp: set_targets_one_files waiting_def, auto simp: set_targets_one)
  moreover have "list_all (\<lambda>x. x < n) (pending_seqs (set_targets sp 1))"
    using assms by (auto simp: set_targets_one_files waiting_def spool_ok_def list_all_iff)
  moreover have "dir_ok (fd_segs (cur_folder (set_targets sp 1)))"
    using assms by (auto simp: set_targets_one spool_ok_def intro: sweep_dir_ok)
  ultimately show ?thesis using assms by (simp add: spool_ok_def) (simp add: set_targets_one)
qed

section \<open>Round trip of the state file\<close>

definition state_wire_ok :: "spool_state \<Rightarrow> bool" where
  "state_wire_ok st = (st_first_seq st \<le> u64_max \<and> st_last_enqueued st \<le> u64_max \<and> st_last_confirmed st \<le> u64_max \<and>
     st_last_confirmed_2 st \<le> u64_max \<and> int32_ok (st_targets st) \<and> int64_ok (st_last_activity_ms st))"

lemma state_roundtrip:
  assumes "state_wire_ok st"
  shows "state_from_json (state_to_json st) = Inr (st\<lparr>st_valid := True\<rparr>)"
  using assms by (simp add: state_from_json_def state_to_json_def state_wire_ok_def)


section \<open>The properties of the queue\<close>

lemma spool_run_enqueued:
  assumes "spool_run h sp0 n0 tr sp n" "spool_ok sp0 n0"
  shows "sorted_wrt (<) (map sg_seq (enqueued_of tr)) \<and> (\<forall>s\<in>set (enqueued_of tr). n0 \<le> sg_seq s \<and> sg_seq s < n)"
  using assms
proof (induction rule: spool_run.induct)
  case (run_enqueue tr sp n seg now sp' ck drops)
  then show ?case using spool_run_ok [OF run_enqueue.hyps(1)] by (auto simp: sorted_wrt_append)
qed auto

lemma distinct_map_sg_seq: "sorted_wrt (<) (map sg_seq ss) \<Longrightarrow> distinct ss"
  by (simp add: strict_sorted_iff distinct_map)

text \<open>
  C3: Over any interleaving of enqueues and deliveries after an event has begun, what a target
  in play has been given, followed by what still waits for it, is a subsequence of what was
  enqueued, in order; a segment missing from it was dropped by the disk cap; and when nothing
  was dropped the two are equal: every segment exactly once, in order, none lost.
\<close>

theorem spool_delivers_in_order:
  assumes "spool_run h (begin_event sp event_id first_seq now) first_seq tr sp' n"
    and "event_id \<noteq> []" and "t = 0 \<or> t = 1 \<and> st_targets (sp_state sp) \<ge> 2"
  shows "subseq (delivered_to t tr @ queue sp' t) (enqueued_of tr) \<and>
    sorted_wrt (<) (map sg_seq (enqueued_of tr)) \<and>
    (\<forall>s\<in>set (enqueued_of tr). s \<in> set (delivered_to t tr @ queue sp' t) \<or> sg_seq s \<in> set (dropped_of tr)) \<and>
    (dropped_of tr = [] \<longrightarrow> delivered_to t tr @ queue sp' t = enqueued_of tr)"
proof -
  let ?sp0 = "begin_event sp event_id first_seq now"
  note ok = begin_event_ok [OF assms(2), of sp first_seq now]
  have tg: "t = 1 \<Longrightarrow> st_targets (sp_state ?sp0) \<ge> 2" "at_target t"
    using assms(3) begin_event_state(7) [OF assms(2), of sp first_seq now] by (auto simp: fresh_state_def at_target_def Let_def)
  note del = spool_run_delivery [OF assms(1) ok(1) ok(2) tg(2,1)]
  have s: "sorted_wrt (<) (map sg_seq (enqueued_of tr))" using spool_run_enqueued [OF assms(1) ok(1)] by blast
  have "delivered_to t tr @ queue sp' t = enqueued_of tr" if "dropped_of tr = []"
    by (rule subseq_complete_eq) (use del that distinct_map_sg_seq [OF s] in auto)
  with del s show ?thesis by blast
qed

definition ex_disk :: spool where
  "ex_disk = \<lparr>sp_disk = \<lparr>dk_root_files = empty_folder, dk_events = []\<rparr>, sp_dir = [], sp_max_bytes = 3,
     sp_state = spool_state_default, sp_bytes_pending = 0, sp_dropped_count = 0\<rparr>"

definition ex_seg :: "u64 \<Rightarrow> spooled_segment" where
  "ex_seg n = \<lparr>sg_seq = n, sg_data = [1, 2], sg_duration_s = 6, sg_pts_offset_s = 6 * real n,
     sg_checksum = [], sg_key = ''k''\<rparr>"

definition ex_sum :: "bytes \<Rightarrow> string" where
  "ex_sum b = nat_str (length b)"

definition ex_sp0 :: spool where
  "ex_sp0 = begin_event ex_disk ''E'' 0 1"

lemma ex_sp0_ok: "spool_ok ex_sp0 0"
  unfolding ex_sp0_def by (rule begin_event_ok) simp

lemmas ex_simps = ex_sp0_def ex_disk_def ex_seg_def ex_sum_def begin_event_def enqueue_def Let_def retire_current_def
  upd_events_def upd_folder_def save_state_def fresh_state_def spool_state_default_def empty_folder_def
  account_def write_meta_def write_seg_def meta_of_def apply_cap_def pending_seqs_def cur_folder_def dir_names_def
  evict_locked_def file_size_def remove_files_def inc64_def u64_max_def

lemma ex_enqueue:
  obtains sp1 ck where "enqueue ex_sum ex_sp0 (ex_seg 0) 2 = Inr (sp1, ck, [])"
proof -
  have "\<exists>sp1 ck. enqueue ex_sum ex_sp0 (ex_seg 0) 2 = Inr (sp1, ck, [])"
    by (simp add: ex_simps)
  then show thesis using that by blast
qed

theorem spool_delivers_in_order_witness:
  "\<exists>tr sp'. dropped_of tr = [] \<and> enqueued_of tr = [sealed ex_sum (ex_seg 0)] \<and>
     spool_run ex_sum (begin_event ex_disk ''E'' 0 1) 0 tr sp' 1 \<and> delivered_to 0 tr @ queue sp' 0 = enqueued_of tr"
proof -
  obtain sp1 ck where e: "enqueue ex_sum ex_sp0 (ex_seg 0) 2 = Inr (sp1, ck, [])" by (rule ex_enqueue)
  have r: "spool_run ex_sum (begin_event ex_disk ''E'' 0 1) 0 [Enqueued (sealed ex_sum (ex_seg 0))] sp1 1"
    using run_enqueue [OF run_start _ e, of 0] by (simp add: ex_sp0_def ex_seg_def)
  show ?thesis
    using r spool_delivers_in_order [OF r, of 0] by (intro exI [of _ "[Enqueued (sealed ex_sum (ex_seg 0))]"] exI [of _ sp1]) simp
qed

text \<open>
  Under a disk cap, enqueueing evicts the oldest segments only, each reported to the caller
  in order, never the one just written; all others stay readable; afterwards the spooled bytes
  are within the cap, or the new segment is all that is left.
\<close>

lemma enqueue_disk_cap:
  assumes "spool_ok sp n" "sg_seq seg = n" "sp_max_bytes sp > 0"
    "enqueue h sp seg now = Inr (sp', ck, drops)"
  shows "(\<exists>k \<le> length (pending_seqs sp). map dr_seq drops = take k (pending_seqs sp) \<and>
            pending_seqs sp' = drop k (pending_seqs sp) @ [n]) \<and>
    read_spooled sp' n = Some (sealed h seg) \<and>
    (\<forall>x\<in>set (pending_seqs sp) - dr_seq ` set drops. read_spooled sp' x = read_spooled sp x) \<and>
    count_pending_bytes sp' \<le> sp_bytes_pending sp' \<and>
    (sp_bytes_pending sp' \<le> sp_max_bytes sp \<or> pending_seqs sp' = [n])"
proof -
  obtain k where k: "k \<le> length (pending_seqs sp)" "pending_seqs sp' = drop k (pending_seqs sp) @ [n]"
    "map dr_seq drops = take k (pending_seqs sp)" "read_spooled sp' n = Some (sealed h seg)"
    "\<forall>x\<in>set (drop k (pending_seqs sp)). read_spooled sp' x = read_spooled sp x"
    "sp_bytes_pending sp' \<le> sp_max_bytes sp \<or> pending_seqs sp' = [n]" "spool_ok sp' (n + 1)"
    using enqueue_facts [OF assms(1,2,4)] assms(3) by blast
  have "dr_seq ` set drops = set (take k (pending_seqs sp))" using arg_cong [OF k(3), of set] by simp
  then have "set (pending_seqs sp) - dr_seq ` set drops \<subseteq> set (drop k (pending_seqs sp))"
    using set_append [of "take k (pending_seqs sp)" "drop k (pending_seqs sp)"] by auto
  moreover have "count_pending_bytes sp' \<le> sp_bytes_pending sp'" using k(7) by (simp add: spool_ok_def)
  ultimately show ?thesis using k by blast
qed

text \<open>With a cap of three bytes and segments of two, the second enqueue evicts the first.\<close>

subsection \<open>Restarts and crashes\<close>

lemma root_files_frame [simp]:
  "dk_root_files (sp_disk (upd_events f sp)) = dk_root_files (sp_disk sp)"
  "dk_root_files (sp_disk (upd_folder g sp)) = dk_root_files (sp_disk sp)"
  "dk_root_files (sp_disk (save_state sp)) = dk_root_files (sp_disk sp)"
  "dk_root_files (sp_disk (remove_files seq sp)) = dk_root_files (sp_disk sp)"
  "dk_root_files (sp_disk (release seq sp)) = dk_root_files (sp_disk sp)"
  by (simp_all add: upd_events_def upd_folder_def save_state_def remove_files_def release_def split: option.split)

lemma evict_root [simp]: "evict_loop seq pend sp drops = (sp', drops') \<Longrightarrow> no_old_layout sp' = no_old_layout sp"
  by (induction seq pend sp drops rule: evict_loop.induct)
     (auto simp: no_old_layout_def evict_locked_def Let_def split: if_splits)

lemma enqueue_root:
  assumes "enqueue h sp seg now = Inr (sp', ck, drops)" "no_old_layout sp"
  shows "no_old_layout sp'"
proof -
  obtain sp1 where "apply_cap (sg_seq seg) (spooled (sealed h seg) now sp) = (sp1, drops)" "sp' = save_state sp1"
    using assms(1) by (rule enqueue_cases)
  moreover have "no_old_layout (spooled (sealed h seg) now sp)"
    using assms(2) by (simp add: no_old_layout_def spooled_def account_def write_seg_def write_meta_def)
  ultimately show ?thesis
    by (auto simp: apply_cap_def split: if_splits) (auto simp: no_old_layout_def dest: evict_root)
qed

lemma confirm_root: "no_old_layout sp \<Longrightarrow> no_old_layout (confirm sp seq t now)"
  by (simp add: no_old_layout_def confirm_def Let_def)

lemma begin_root: "no_old_layout sp \<Longrightarrow> no_old_layout (begin_event sp event_id f now)"
  by (simp add: no_old_layout_def begin_event_def retire_current_def Let_def)

lemma spool_run_saved:
  assumes "spool_run h sp0 n0 tr sp n" "spool_ok sp0 n0" "saved sp0" "no_old_layout sp0"
  shows "saved sp \<and> no_old_layout sp"
  using assms
proof (induction rule: spool_run.induct)
  case (run_enqueue tr sp n seg now sp' ck drops)
  have "spool_ok sp n" using spool_run_ok [OF run_enqueue.hyps(1)] run_enqueue.prems by blast
  then show ?case using run_enqueue enqueue_saved enqueue_root by blast
next
  case (run_deliver tr sp n t s now)
  then show ?case by (auto simp: saved_def intro: confirm_root dest: confirm_saved)
qed simp

lemma begin_event_saved: "event_id \<noteq> [] \<Longrightarrow> saved (begin_event sp event_id f now)"
  by (simp add: saved_def begin_event_state)



text \<open>
  A crash inside \<open>enqueue\<close>, after the segment file was written or after the sidecar too,
  loses nothing that was queued before: a restart finds the same queue, with the new segment
  at its end exactly when both files had been written.
\<close>

lemma enqueue_crash_keeps_queue:
  assumes "spool_ok sp n" "sg_seq seg = n" "saved sp" "no_old_layout sp"
    "map_of (fd_metas (cur_folder sp)) n = None" "t = 0 \<or> t = 1"
  shows "queue (reopened (write_seg seg sp) m) t = queue sp t \<and>
    queue (reopened (write_meta seg (write_seg seg sp)) m) t = queue sp t @ [seg]"
  using enqueue_crash_queue [OF assms(1-5)] assms(6) by auto

lemma ex_sp0_queue: "queue ex_sp0 t = []"
  by (simp add: ex_sp0_def begin_event_ok)

text \<open>
  A segment stays readable on disk, bytes and checksum unchanged, until every target in play
  has been given it (or the cap dropped it).
\<close>

lemma spooled_until_delivered:
  assumes "spool_run h (begin_event sp event_id first_seq now) first_seq tr sp' n"
    and "event_id \<noteq> []" and "s \<in> set (enqueued_of tr)" and "sg_seq s \<notin> set (dropped_of tr)"
  shows "read_spooled sp' (sg_seq s) = Some s \<or>
    s \<in> set (delivered_to 0 tr) \<and> (st_targets (sp_state sp) < 2 \<or> s \<in> set (delivered_to 1 tr))"
proof -
  let ?sp0 = "begin_event sp event_id first_seq now"
  note ok = begin_event_ok [OF assms(2), of sp first_seq now]
  have tg: "st_targets (sp_state ?sp0) = st_targets (sp_state sp)"
    using begin_event_state(7) [OF assms(2)] by (simp add: fresh_state_def Let_def)
  have q: "s \<in> set (queue sp' t) \<Longrightarrow> read_spooled sp' (sg_seq s) = Some s" for t
    by (auto simp: queue_def set_map_filter dest: read_spooled_seq)
  have d: "s \<in> set (delivered_to t tr) \<or> s \<in> set (queue sp' t)"
    if "at_target t" "t = 1 \<Longrightarrow> st_targets (sp_state sp) \<ge> 2" for t
    using spool_run_delivery [OF assms(1) ok that(1)] that(2) tg assms(3,4) by auto
  show ?thesis
    using d [of 0] d [of 1] q by (cases "st_targets (sp_state sp) \<ge> 2") (auto simp: at_target_def)
qed

subsection \<open>Other operations\<close>

text \<open>
  Beginning a new event keeps the backlog of the one before: its segment and sidecar files
  are untouched in its own folder, which is listed for finishing.
\<close>

lemma begin_event_keeps_backlog:
  assumes "sp_dir sp \<noteq> []" "cur_exists sp" "st_valid (sp_state sp)" "has_segments (cur_folder sp)"
    and "event_id \<noteq> sp_dir sp"
  shows "\<exists>fd. map_of (dk_events (sp_disk (begin_event sp event_id first_seq now))) (sp_dir sp) = Some fd \<and>
    fd_segs fd = fd_segs (cur_folder sp) \<and> fd_metas fd = fd_metas (cur_folder sp) \<and>
    sp_dir sp \<in> set (finishing_events (sp_disk (begin_event sp event_id first_seq now)))"
proof -
  obtain st where st: "st_valid st" "st_ended st"
    "map_of (dk_events (sp_disk (retire_current sp))) (sp_dir sp) = Some ((cur_folder sp)\<lparr>fd_state := Content st\<rparr>)"
    using retire_keeps [OF assms(1-4)] by blast
  have m: "map_of (dk_events (sp_disk (begin_event sp event_id first_seq now))) (sp_dir sp) =
      Some ((cur_folder sp)\<lparr>fd_state := Content st\<rparr>)"
    by (rule begin_event_other_folder [OF _ st(3)]) (use assms(5) in simp)
  have "sp_dir sp \<in> set (finishing_events (sp_disk (begin_event sp event_id first_seq now)))"
    by (rule finishing_eventsI [OF m, of st]) (use st assms(4) in \<open>simp_all add: has_segments_def\<close>)
  with m show ?thesis by simp
qed

text \<open>
  What the status readouts say of a target: it is behind by the number of spooled segments it
  has not confirmed, it is caught up exactly when that number is zero, and then there is
  nothing for it to upload.
\<close>

lemma caught_up_behind:
  "(behind sp t = 0 \<longleftrightarrow> caught_up sp t) \<and> behind sp t \<le> pending_count sp \<and>
   (caught_up sp t \<longrightarrow> peek_next sp t = None) \<and>
   (\<forall>s. peek_next sp t = Some s \<longrightarrow> \<not> target_has (sp_state sp) t (sg_seq s) \<and> sg_seq s \<in> set (pending_seqs sp))"
proof -
  have "sg_seq s \<in> set (waiting sp t)" if "peek_next sp t = Some s" for s
    using that read_seq_in [of s sp "waiting sp t"] by (auto simp: peek_next_queue queue_def split: list.splits)
  then have "\<forall>s. peek_next sp t = Some s \<longrightarrow> \<not> target_has (sp_state sp) t (sg_seq s) \<and> sg_seq s \<in> set (pending_seqs sp)"
    by (auto simp: waiting_def)
  then show ?thesis
    by (auto simp: behind_waiting caught_up_waiting peek_next_queue queue_def List.map_filter_simps(2) pending_count_def behind_def waiting_def)
qed

text \<open>
  The segment file left by a crash before its sidecar is never handed out, but it keeps its
  target from ever counting as caught up: the two do not use the same predicate.
\<close>

lemma orphan_never_caught_up:
  assumes "spool_ok sp n" "sg_seq seg = n" "saved sp" "no_old_layout sp"
    "map_of (fd_metas (cur_folder sp)) n = None" "t = 0 \<or> t = 1" "queue sp t = []"
  shows "peek_next (reopened (write_seg seg sp) m) t = None \<and> \<not> caught_up (reopened (write_seg seg sp) m) t"
proof -
  let ?sp = "reopened (write_seg seg sp) m"
  have t: "t \<in> {0, 1}" using assms(6) by simp
  have q: "queue ?sp t = []" using enqueue_crash_queue(1) [OF assms(1-5) t] assms(7) by simp
  have sf: "same_files (write_seg seg sp) ?sp" "sp_state ?sp = (sp_state sp)\<lparr>st_valid := True\<rparr>"
    using reopened_eq [OF crash_saved(1) [OF assms(3)] crash_root(1) [OF assms(4)]] by auto
  have "n \<in> set (pending_seqs ?sp)"
    unfolding same_files_views [OF sf(1)]
    using assms(1,2) by (simp add: pending_seqs_def spool_ok_def write_seg_files dir_simps)
  moreover have "\<not> target_has (sp_state ?sp) t n"
    using spool_ok_mark [OF assms(1) t]
    by (auto simp: sf(2) mark_ok_def target_has_def any_confirmed_for_def last_confirmed_for_def split: if_splits)
  ultimately show ?thesis by (auto simp: q peek_next_queue caught_up_def list_all_iff)
qed

text \<open>
  Going back to one target removes exactly the files the remaining target already has: what
  it still needs is kept, in order, and the invariant holds.
\<close>

lemma set_targets_one_sweeps:
  assumes "spool_ok sp n"
  shows "pending_seqs (set_targets sp 1) = filter (\<lambda>x. \<not> target_has (sp_state sp) 0 x) (pending_seqs sp) \<and>
    queue (set_targets sp 1) 0 = queue sp 0 \<and> spool_ok (set_targets sp 1) n"
  using set_targets_one_files(1) [of sp] set_targets_one_queue set_targets_one_ok [OF assms] by (simp add: waiting_def)

end
