(* ===== verification/Retry_Uploader.thy ===== *)
theory Retry_Uploader
  imports Spool_Queue
begin

text \<open>
  The uploader (\<^verbatim>\<open>src/core/retry_uploader.h\<close>, \<^verbatim>\<open>retry_uploader.cpp\<close>): drains the spool to one
  target in strict order, with exponential backoff between attempts.

  An attempt is one turn of the loop of \<open>upload_one\<close>: what the thread reads from outside in
  that turn (the running flag, the deadline, the answer of the store, the random jitter) is
  the record \<open>attempt\<close>. \<open>upload_begin\<close> is the part before the request and \<open>upload_finish\<close> the
  part after its answer, so that other threads can be placed between the two; \<open>upload_loop\<close>
  runs the attempts one after the other. The callbacks of the host, and the store, are the
  fields of \<open>host_ops\<close> acting on a host state; the session supplies its own. Log lines are
  not modelled.
\<close>

section \<open>Data\<close>

record uploader_config =
  uc_base_backoff_ms :: int
  uc_max_backoff_ms :: int
  uc_jitter :: double
  uc_max_attempts :: int
  uc_content_type :: string
  uc_verify_first_n :: int
  uc_tags :: "(string \<times> string) list"
  uc_target :: int

definition uploader_config_default :: uploader_config where
  "uploader_config_default = \<lparr>uc_base_backoff_ms = 250, uc_max_backoff_ms = 15000, uc_jitter = 3 / 10,
     uc_max_attempts = 0, uc_content_type = ''video/mp4'', uc_verify_first_n = 3,
     uc_tags = [(''MultisiteExpiry'', ''7d'')], uc_target = 0\<rparr>"

record uploader_stats =
  us_confirmed :: u64
  us_bytes :: u64
  us_retries :: u64
  us_permanent_failures :: u64
  us_verify_failures :: u64
  us_damaged_skipped :: u64

definition uploader_stats_default :: uploader_stats where
  "uploader_stats_default = \<lparr>us_confirmed = 0, us_bytes = 0, us_retries = 0, us_permanent_failures = 0,
     us_verify_failures = 0, us_damaged_skipped = 0\<rparr>"

record 'h uploader =
  up_spool :: spool
  up_stats :: uploader_stats
  up_health :: link_health
  up_note :: string
  up_host :: 'h

text \<open>What the thread observes in one turn of the retry loop.\<close>

record attempt =
  a_running :: bool
  a_past_deadline :: bool
  a_result :: put_result
  a_landed :: bool
  a_stored_size :: i64
  a_stopped :: bool
  a_jitter :: double
  a_deadline_asleep :: bool
  a_now :: i64

text \<open>
  The host: the store receives an object, \<^verbatim>\<open>m_on_confirm\<close>, \<^verbatim>\<open>m_on_skipped\<close> and
  \<^verbatim>\<open>m_on_confirmed_after\<close>.
\<close>

record 'h host_ops =
  ho_put :: "attempt \<Rightarrow> string \<Rightarrow> bytes \<Rightarrow> 'h \<Rightarrow> 'h"
  ho_confirm :: "attempt \<Rightarrow> spooled_segment \<Rightarrow> 'h \<Rightarrow> 'h"
  ho_skipped :: "u64 \<Rightarrow> 'h \<Rightarrow> 'h"
  ho_confirmed_after :: "attempt \<Rightarrow> spooled_segment \<Rightarrow> 'h \<Rightarrow> 'h"

datatype upload_step = Uploaded | Gave_Up | Again int


section \<open>Backoff\<close>

definition llround :: "double \<Rightarrow> int" where
  "llround x = (if 0 \<le> x then \<lfloor>x + 1 / 2\<rfloor> else - \<lfloor>- x + 1 / 2\<rfloor>)"

text \<open>The jitter is the draw \<open>d\<close>, uniform between \<^verbatim>\<open>1 - jitter\<close> and \<^verbatim>\<open>1 + jitter\<close>.\<close>

definition backoff_ms :: "uploader_config \<Rightarrow> int \<Rightarrow> double \<Rightarrow> int" where
  "backoff_ms cfg attempt d =
     (let base = real_of_int (uc_base_backoff_ms cfg) * 2 ^ nat (max 0 (attempt - 1));
          capped = min base (real_of_int (uc_max_backoff_ms cfg))
      in llround (capped * d))"


section \<open>Uploading one segment\<close>

definition verify_sha256 :: "(bytes \<Rightarrow> string) \<Rightarrow> bytes \<Rightarrow> string \<Rightarrow> bool" where
  "verify_sha256 sha256_hex data expected_hex = (expected_hex \<noteq> [] \<and> sha256_hex data = expected_hex)"

text \<open>The checks at the head of the loop: whether this turn sends a request.\<close>

definition upload_begin :: "spooled_segment \<Rightarrow> attempt \<Rightarrow> 'h uploader \<Rightarrow> bool" where
  "upload_begin seg a up =
     (a_running a \<and> \<not> sg_seq seg < floor_of (up_spool up) \<and> \<not> a_past_deadline a)"

definition verify_upload :: "uploader_config \<Rightarrow> spooled_segment \<Rightarrow> attempt \<Rightarrow> 'h uploader \<Rightarrow> 'h uploader" where
  "verify_upload cfg seg a up =
     (if pr_success (a_result a) \<and> uc_verify_first_n cfg > 0 \<and>
         int (us_confirmed (up_stats up)) < uc_verify_first_n cfg then
        if a_stored_size a \<ge> 0 \<and> a_stored_size a \<noteq> int (length (sg_data seg)) then
          up\<lparr>up_stats := (up_stats up)\<lparr>us_verify_failures := us_verify_failures (up_stats up) + 1\<rparr>,
             up_note := ''stored size '' @ int_str (a_stored_size a) @ '' != sent '' @
                        nat_str (length (sg_data seg)) @ '' for '' @ sg_key seg\<rparr>
        else if a_stored_size a < 0 then
          up\<lparr>up_stats := (up_stats up)\<lparr>us_verify_failures := us_verify_failures (up_stats up) + 1\<rparr>,
             up_note := ''object not found after a successful PUT: '' @ sg_key seg\<rparr>
        else up\<lparr>up_note := ''verified '' @ sg_key seg @ '' ('' @ int_str (a_stored_size a) @ '' bytes)''\<rparr>
      else up)"

text \<open>Success: count it, list it in the manifest, only then clear the spool file.\<close>

definition upload_confirm :: "uploader_config \<Rightarrow> 'h host_ops \<Rightarrow> spooled_segment \<Rightarrow> attempt \<Rightarrow> 'h uploader \<Rightarrow> 'h uploader" where
  "upload_confirm cfg ops seg a up =
     (let up1 = up\<lparr>up_stats := (up_stats up)\<lparr>us_confirmed := us_confirmed (up_stats up) + 1,
                                              us_bytes := us_bytes (up_stats up) + length (sg_data seg)\<rparr>,
                   up_health := Healthy\<rparr>;
          up2 = up1\<lparr>up_host := ho_confirm ops a seg (up_host up1)\<rparr>;
          up3 = up2\<lparr>up_spool := confirm (up_spool up2) (sg_seq seg) (uc_target cfg) (a_now a)\<rparr>
      in up3\<lparr>up_host := ho_confirmed_after ops a seg (up_host up3)\<rparr>)"

text \<open>A request that failed and may be repeated.\<close>

definition upload_retry :: "uploader_config \<Rightarrow> attempt \<Rightarrow> int \<Rightarrow> 'h uploader \<Rightarrow> upload_step \<times> 'h uploader" where
  "upload_retry cfg a n up =
     (let up1 = up\<lparr>up_stats := (up_stats up)\<lparr>us_retries := us_retries (up_stats up) + 1\<rparr>,
                   up_health := (if n \<ge> 2 then Offline else Degraded)\<rparr>
      in if uc_max_attempts cfg > 0 \<and> n \<ge> uc_max_attempts cfg then (Gave_Up, up1)
         else if 0 < backoff_ms cfg n (a_jitter a) \<and> a_deadline_asleep a then (Gave_Up, up1)
         else (Again n, up1))"

text \<open>The rest of the turn, once the request has answered; \<open>n\<close> counts this attempt.\<close>

definition upload_finish :: "uploader_config \<Rightarrow> 'h host_ops \<Rightarrow> spooled_segment \<Rightarrow> attempt \<Rightarrow> int \<Rightarrow> 'h uploader \<Rightarrow> upload_step \<times> 'h uploader" where
  "upload_finish cfg ops seg a n up =
     (let r = a_result a;
          up1 = up\<lparr>up_host := ho_put ops a (sg_key seg) (sg_data seg) (up_host up)\<rparr>;
          up2 = verify_upload cfg seg a up1
      in if pr_success r then (Uploaded, upload_confirm cfg ops seg a up2)
         else if a_stopped a then (Gave_Up, up2)
         else if \<not> pr_retryable r then
           (Gave_Up, up2\<lparr>up_stats := (up_stats up2)\<lparr>us_permanent_failures := us_permanent_failures (up_stats up2) + 1\<rparr>,
                         up_health := Offline\<rparr>)
         else upload_retry cfg a n up2)"

definition upload_attempt :: "uploader_config \<Rightarrow> 'h host_ops \<Rightarrow> spooled_segment \<Rightarrow> attempt \<Rightarrow> int \<Rightarrow> 'h uploader \<Rightarrow> upload_step \<times> 'h uploader" where
  "upload_attempt cfg ops seg a attempt up =
     (if upload_begin seg a up then upload_finish cfg ops seg a (attempt + 1) up else (Gave_Up, up))"

text \<open>Running out of inputs means that the loop is still going.\<close>

fun upload_loop :: "uploader_config \<Rightarrow> 'h host_ops \<Rightarrow> spooled_segment \<Rightarrow> attempt list \<Rightarrow> int \<Rightarrow> 'h uploader \<Rightarrow> (bool \<times> 'h uploader) option" where
  "upload_loop cfg ops seg [] attempt up = None"
| "upload_loop cfg ops seg (a # as) attempt up =
     (case upload_attempt cfg ops seg a attempt up of
        (Uploaded, up') \<Rightarrow> Some (True, up')
      | (Gave_Up, up') \<Rightarrow> Some (False, up')
      | (Again n, up') \<Rightarrow> upload_loop cfg ops seg as n up')"

definition damaged :: "(bytes \<Rightarrow> string) \<Rightarrow> spooled_segment \<Rightarrow> bool" where
  "damaged sha256_hex seg = (sg_checksum seg \<noteq> [] \<and> \<not> verify_sha256 sha256_hex (sg_data seg) (sg_checksum seg))"

definition skip_damaged :: "uploader_config \<Rightarrow> 'h host_ops \<Rightarrow> spooled_segment \<Rightarrow> i64 \<Rightarrow> 'h uploader \<Rightarrow> 'h uploader" where
  "skip_damaged cfg ops seg now up =
     up\<lparr>up_stats := (up_stats up)\<lparr>us_damaged_skipped := us_damaged_skipped (up_stats up) + 1\<rparr>,
        up_spool := confirm (up_spool up) (sg_seq seg) (uc_target cfg) now,
        up_host := ho_skipped ops (sg_seq seg) (up_host up)\<rparr>"

definition upload_one :: "(bytes \<Rightarrow> string) \<Rightarrow> uploader_config \<Rightarrow> 'h host_ops \<Rightarrow> spooled_segment \<Rightarrow> attempt list \<Rightarrow> i64 \<Rightarrow> 'h uploader \<Rightarrow> (bool \<times> 'h uploader) option" where
  "upload_one sha256_hex cfg ops seg as now up =
     (if damaged sha256_hex seg then Some (True, skip_damaged cfg ops seg now up)
      else upload_loop cfg ops seg as 0 up)"


section \<open>Draining\<close>

text \<open>One turn of the background thread or of \<open>drain_blocking\<close>: what it observes.\<close>

record turn =
  tn_go_on :: bool
  tn_may_upload :: bool
  tn_attempts :: "attempt list"
  tn_now :: i64

text \<open>\<open>run\<close>: an empty queue reads as healthy; a yielding mirror leaves everything as it is.\<close>

fun uploader_run :: "(bytes \<Rightarrow> string) \<Rightarrow> uploader_config \<Rightarrow> 'h host_ops \<Rightarrow> turn list \<Rightarrow> 'h uploader \<Rightarrow> 'h uploader option" where
  "uploader_run sha256_hex cfg ops [] up = Some up"
| "uploader_run sha256_hex cfg ops (t # ts) up =
     (if \<not> tn_go_on t then Some up
      else case peek_next (up_spool up) (uc_target cfg) of
             None \<Rightarrow> uploader_run sha256_hex cfg ops ts (up\<lparr>up_health := Healthy\<rparr>)
           | Some seg \<Rightarrow>
               if \<not> tn_may_upload t then uploader_run sha256_hex cfg ops ts up
               else case upload_one sha256_hex cfg ops seg (tn_attempts t) (tn_now t) up of
                      None \<Rightarrow> None
                    | Some (ok, up') \<Rightarrow> uploader_run sha256_hex cfg ops ts up')"

fun drain_blocking :: "(bytes \<Rightarrow> string) \<Rightarrow> uploader_config \<Rightarrow> 'h host_ops \<Rightarrow> turn list \<Rightarrow> 'h uploader \<Rightarrow> (bool \<times> 'h uploader) option" where
  "drain_blocking sha256_hex cfg ops [] up = None"
| "drain_blocking sha256_hex cfg ops (t # ts) up =
     (if \<not> tn_go_on t then Some (pending_count (up_spool up) = 0, up)
      else case peek_next (up_spool up) (uc_target cfg) of
             None \<Rightarrow> Some (True, up)
           | Some seg \<Rightarrow>
               if \<not> tn_may_upload t then Some (pending_count (up_spool up) = 0, up)
               else case upload_one sha256_hex cfg ops seg (tn_attempts t) (tn_now t) up of
                      None \<Rightarrow> None
                    | Some (True, up') \<Rightarrow> drain_blocking sha256_hex cfg ops ts up'
                    | Some (False, up') \<Rightarrow> Some (pending_count (up_spool up') = 0, up'))"


section \<open>Backoff bounds\<close>

lemma llround_mono: "x \<le> y \<Longrightarrow> llround x \<le> llround y"
proof -
  assume le: "x \<le> y"
  consider "0 \<le> x" | "x < 0" "0 \<le> y" | "y < 0" by linarith
  then show ?thesis
  proof cases
    case 1
    then show ?thesis using le by (simp add: llround_def floor_mono)
  next
    case 2
    have "- \<lfloor>- x + 1 / 2\<rfloor> \<le> 0" "0 \<le> \<lfloor>y + 1 / 2\<rfloor>" using 2 by simp_all
    from order_trans [OF this] show ?thesis using 2 by (simp add: llround_def)
  next
    case 3
    then have "\<lfloor>- y + 1 / 2\<rfloor> \<le> \<lfloor>- x + 1 / 2\<rfloor>" using le by (intro floor_mono) simp
    then show ?thesis using 3 le by (simp add: llround_def)
  qed
qed

lemma llround_nonneg: "0 \<le> x \<Longrightarrow> 0 \<le> llround x"
  by (simp add: llround_def)

lemma backoff_range:
  assumes "0 \<le> uc_base_backoff_ms cfg" "0 \<le> uc_max_backoff_ms cfg" "0 \<le> uc_jitter cfg" "uc_jitter cfg \<le> 1"
    "1 - uc_jitter cfg \<le> d" "d \<le> 1 + uc_jitter cfg"
  shows "0 \<le> backoff_ms cfg attempt d"
    "backoff_ms cfg attempt d \<le> llround (real_of_int (uc_max_backoff_ms cfg) * (1 + uc_jitter cfg))"
proof -
  let ?c = "min (real_of_int (uc_base_backoff_ms cfg) * 2 ^ nat (max 0 (attempt - 1))) (real_of_int (uc_max_backoff_ms cfg))"
  have c: "0 \<le> ?c" "?c \<le> real_of_int (uc_max_backoff_ms cfg)" using assms(1,2) by simp_all
  have "0 \<le> d" using assms by linarith
  then show "0 \<le> backoff_ms cfg attempt d"
    using c(1) by (simp only: backoff_ms_def Let_def) (intro llround_nonneg mult_nonneg_nonneg)
  have "?c * d \<le> real_of_int (uc_max_backoff_ms cfg) * (1 + uc_jitter cfg)"
    by (rule mult_mono) (use c assms \<open>0 \<le> d\<close> in auto)
  then show "backoff_ms cfg attempt d \<le> llround (real_of_int (uc_max_backoff_ms cfg) * (1 + uc_jitter cfg))"
    by (simp only: backoff_ms_def Let_def llround_mono)
qed

lemma backoff_attempt_mono:
  assumes "0 \<le> uc_base_backoff_ms cfg" "0 \<le> d" "m \<le> n"
  shows "backoff_ms cfg m d \<le> backoff_ms cfg n d"
proof -
  have "nat (max 0 (m - 1)) \<le> nat (max 0 (n - 1))" using assms(3) by simp
  then have "(2 :: real) ^ nat (max 0 (m - 1)) \<le> 2 ^ nat (max 0 (n - 1))" by (simp add: power_increasing)
  then have "real_of_int (uc_base_backoff_ms cfg) * 2 ^ nat (max 0 (m - 1)) \<le>
             real_of_int (uc_base_backoff_ms cfg) * 2 ^ nat (max 0 (n - 1))"
    using assms(1) by (intro mult_left_mono) auto
  then show ?thesis
    unfolding backoff_ms_def Let_def using assms(2) by (intro llround_mono mult_right_mono min.mono) auto
qed

section \<open>One attempt\<close>

lemma verify_upload_frame [simp]:
  "up_spool (verify_upload cfg seg a up) = up_spool up" "up_host (verify_upload cfg seg a up) = up_host up"
  "up_health (verify_upload cfg seg a up) = up_health up"
  "us_confirmed (up_stats (verify_upload cfg seg a up)) = us_confirmed (up_stats up)"
  "us_bytes (up_stats (verify_upload cfg seg a up)) = us_bytes (up_stats up)"
  "us_retries (up_stats (verify_upload cfg seg a up)) = us_retries (up_stats up)"
  "us_permanent_failures (up_stats (verify_upload cfg seg a up)) = us_permanent_failures (up_stats up)"
  "us_damaged_skipped (up_stats (verify_upload cfg seg a up)) = us_damaged_skipped (up_stats up)"
  by (simp_all add: verify_upload_def)

lemma upload_confirm_frame [simp]:
  "up_spool (upload_confirm cfg ops seg a up) = confirm (up_spool up) (sg_seq seg) (uc_target cfg) (a_now a)"
  "up_host (upload_confirm cfg ops seg a up) = ho_confirmed_after ops a seg (ho_confirm ops a seg (up_host up))"
  "us_confirmed (up_stats (upload_confirm cfg ops seg a up)) = us_confirmed (up_stats up) + 1"
  "us_damaged_skipped (up_stats (upload_confirm cfg ops seg a up)) = us_damaged_skipped (up_stats up)"
  "us_retries (up_stats (upload_confirm cfg ops seg a up)) = us_retries (up_stats up)"
  "up_health (upload_confirm cfg ops seg a up) = Healthy"
  by (simp_all add: upload_confirm_def Let_def)

lemma upload_retry_frame:
  "upload_retry cfg a n up = (s, up') \<Longrightarrow> up_spool up' = up_spool up \<and> up_host up' = up_host up \<and> s \<noteq> Uploaded \<and>
     us_confirmed (up_stats up') = us_confirmed (up_stats up) \<and> us_damaged_skipped (up_stats up') = us_damaged_skipped (up_stats up)"
  by (auto simp: upload_retry_def Let_def split: if_splits)

text \<open>What an attempt does: success confirms in the spool, anything else leaves the spool alone.\<close>

lemma upload_finish_outcome:
  assumes "upload_finish cfg ops seg a n up = (s, up')"
  shows "s = Uploaded \<longleftrightarrow> pr_success (a_result a)"
    "s = Uploaded \<Longrightarrow> up_spool up' = confirm (up_spool up) (sg_seq seg) (uc_target cfg) (a_now a) \<and>
       up_host up' = ho_confirmed_after ops a seg (ho_confirm ops a seg (ho_put ops a (sg_key seg) (sg_data seg) (up_host up))) \<and>
       us_confirmed (up_stats up') = us_confirmed (up_stats up) + 1"
    "s \<noteq> Uploaded \<Longrightarrow> up_spool up' = up_spool up \<and> us_confirmed (up_stats up') = us_confirmed (up_stats up) \<and>
       up_host up' = ho_put ops a (sg_key seg) (sg_data seg) (up_host up)"
    "us_damaged_skipped (up_stats up') = us_damaged_skipped (up_stats up)"
  using assms
  by (auto simp: upload_finish_def Let_def split: if_splits dest!: upload_retry_frame)

lemma upload_attempt_cases:
  assumes "upload_attempt cfg ops seg a k up = (s, up')"
  obtains (refused) "\<not> upload_begin seg a up" "s = Gave_Up" "up' = up"
    | (sent) "upload_begin seg a up" "upload_finish cfg ops seg a (k + 1) up = (s, up')"
  using assms by (auto simp: upload_attempt_def split: if_splits)

lemma upload_attempt_outcome:
  assumes "upload_attempt cfg ops seg a k up = (s, up')"
  shows "s = Uploaded \<longleftrightarrow> upload_begin seg a up \<and> pr_success (a_result a)"
    "s = Uploaded \<Longrightarrow> up_spool up' = confirm (up_spool up) (sg_seq seg) (uc_target cfg) (a_now a) \<and>
       us_confirmed (up_stats up') = us_confirmed (up_stats up) + 1"
    "s \<noteq> Uploaded \<Longrightarrow> up_spool up' = up_spool up \<and> us_confirmed (up_stats up') = us_confirmed (up_stats up)"
    "us_damaged_skipped (up_stats up') = us_damaged_skipped (up_stats up)"
proof -
  show "s = Uploaded \<longleftrightarrow> upload_begin seg a up \<and> pr_success (a_result a)"
    by (rule upload_attempt_cases [OF assms]) (use upload_finish_outcome(1) in blast)+
  show "s = Uploaded \<Longrightarrow> up_spool up' = confirm (up_spool up) (sg_seq seg) (uc_target cfg) (a_now a) \<and>
       us_confirmed (up_stats up') = us_confirmed (up_stats up) + 1"
    by (rule upload_attempt_cases [OF assms]) (use upload_finish_outcome(2) in blast)+
  show "s \<noteq> Uploaded \<Longrightarrow> up_spool up' = up_spool up \<and> us_confirmed (up_stats up') = us_confirmed (up_stats up)"
    by (rule upload_attempt_cases [OF assms]) (simp, meson upload_finish_outcome(3))
  show "us_damaged_skipped (up_stats up') = us_damaged_skipped (up_stats up)"
    by (rule upload_attempt_cases [OF assms]) (simp, meson upload_finish_outcome(4))
qed

lemma confirm_subset: "read_spooled (confirm sp seq t now) x = Some s \<Longrightarrow> read_spooled sp x = Some s"
  by (auto simp: confirm_def Let_def split: if_splits)

section \<open>The contract with the host\<close>

text \<open>
  What a host must provide so that its invariant survives the uploader: \<open>ho_confirm\<close> is only
  ever called for a segment that is intact and whose bytes the store has just accepted under
  its key.
\<close>

locale uploader_host =
  fixes sha256_hex :: "bytes \<Rightarrow> string" and ops :: "'h host_ops" and stored :: "'h \<Rightarrow> string \<Rightarrow> bytes \<Rightarrow> bool"
    and seg_ok :: "spooled_segment \<Rightarrow> bool" and hinv :: "'h \<Rightarrow> bool"
  assumes put_inv: "hinv h \<Longrightarrow> seg_ok s \<Longrightarrow> \<not> damaged sha256_hex s \<Longrightarrow> hinv (ho_put ops a (sg_key s) (sg_data s) h)"
    and put_stored: "hinv h \<Longrightarrow> pr_success (a_result a) \<Longrightarrow> stored (ho_put ops a k b h) k b"
    and confirm_inv: "hinv h \<Longrightarrow> seg_ok s \<Longrightarrow> \<not> damaged sha256_hex s \<Longrightarrow> stored h (sg_key s) (sg_data s) \<Longrightarrow>
                      hinv (ho_confirm ops a s h)"
    and after_inv: "hinv h \<Longrightarrow> hinv (ho_confirmed_after ops a s h)"
    and skipped_inv: "hinv h \<Longrightarrow> hinv (ho_skipped ops n h)"
begin

definition up_ok :: "'h uploader \<Rightarrow> bool" where
  "up_ok up = (hinv (up_host up) \<and> (\<forall>x s. read_spooled (up_spool up) x = Some s \<longrightarrow> seg_ok s))"

lemma peek_seg_ok: "up_ok up \<Longrightarrow> peek_next (up_spool up) t = Some s \<Longrightarrow> seg_ok s"
  by (auto simp: up_ok_def peek_next_queue queue_def set_map_filter split: list.splits dest!: map_filter_ConsD)

lemma upload_finish_ok:
  assumes "up_ok up" "seg_ok seg" "\<not> damaged sha256_hex seg" "upload_finish cfg ops seg a n up = (s, up')"
  shows "up_ok up'"
proof (cases "s = Uploaded")
  case True
  let ?h1 = "ho_put ops a (sg_key seg) (sg_data seg) (up_host up)"
  have "pr_success (a_result a)" using upload_finish_outcome(1) [OF assms(4)] True by simp
  then have "hinv ?h1" "stored ?h1 (sg_key seg) (sg_data seg)"
    using assms put_inv put_stored by (auto simp: up_ok_def)
  then have "hinv (ho_confirmed_after ops a seg (ho_confirm ops a seg ?h1))"
    using assms confirm_inv after_inv by blast
  then show ?thesis
    using upload_finish_outcome(2) [OF assms(4) True] assms(1) by (auto simp: up_ok_def dest: confirm_subset)
next
  case False
  then show ?thesis
    using upload_finish_outcome(3) [OF assms(4) False] assms put_inv by (auto simp: up_ok_def)
qed

lemma upload_attempt_ok:
  "up_ok up \<Longrightarrow> seg_ok seg \<Longrightarrow> \<not> damaged sha256_hex seg \<Longrightarrow> upload_attempt cfg ops seg a k up = (s, up') \<Longrightarrow> up_ok up'"
  by (auto simp: upload_attempt_def split: if_splits intro: upload_finish_ok)

lemma skip_damaged_ok: "up_ok up \<Longrightarrow> up_ok (skip_damaged cfg ops seg now up)"
  using skipped_inv confirm_subset [of "up_spool up"] unfolding up_ok_def skip_damaged_def by simp blast

lemma upload_loop_ok:
  assumes "up_ok up" "seg_ok seg" "\<not> damaged sha256_hex seg" "upload_loop cfg ops seg as k up = Some (b, up')"
  shows "up_ok up'"
  using assms
proof (induction as arbitrary: k up)
  case (Cons a as)
  obtain s up1 where s: "upload_attempt cfg ops seg a k up = (s, up1)" by fastforce
  have "up_ok up1" by (rule upload_attempt_ok [OF Cons.prems(1-3) s])
  then show ?case using Cons.IH [of up1] Cons.prems s by (cases s) auto
qed simp

lemma upload_one_ok:
  assumes "up_ok up" "seg_ok seg" "upload_one sha256_hex cfg ops seg as now up = Some (b, up')"
  shows "up_ok up'"
proof (cases "damaged sha256_hex seg")
  case True
  then show ?thesis using assms skip_damaged_ok by (auto simp: upload_one_def)
next
  case False
  then show ?thesis using assms upload_loop_ok by (simp add: upload_one_def)
qed

lemma uploader_run_ok:
  assumes "up_ok up" "uploader_run sha256_hex cfg ops ts up = Some up'"
  shows "up_ok up'"
  using assms
proof (induction ts arbitrary: up)
  case (Cons t ts)
  have h: "up_ok (up\<lparr>up_health := Healthy\<rparr>)" using Cons.prems(1) by (simp add: up_ok_def)
  show ?case
  proof (cases "peek_next (up_spool up) (uc_target cfg)")
    case None
    then show ?thesis using Cons.prems Cons.IH [OF h] by (simp split: if_splits)
  next
    case (Some seg)
    have "up_ok up1" if "upload_one sha256_hex cfg ops seg (tn_attempts t) (tn_now t) up = Some (b, up1)" for b up1
      by (rule upload_one_ok [OF Cons.prems(1) peek_seg_ok [OF Cons.prems(1) Some] that])
    then show ?thesis using Cons.prems Cons.IH Some by (auto split: if_splits option.splits)
  qed
qed simp

lemma drain_blocking_ok:
  assumes "up_ok up" "drain_blocking sha256_hex cfg ops ts up = Some (b, up')"
  shows "up_ok up'"
  using assms
proof (induction ts arbitrary: up)
  case (Cons t ts)
  show ?case
  proof (cases "peek_next (up_spool up) (uc_target cfg)")
    case None
    then show ?thesis using Cons.prems by (auto split: if_splits)
  next
    case (Some seg)
    have "up_ok up1" if "upload_one sha256_hex cfg ops seg (tn_attempts t) (tn_now t) up = Some (b, up1)" for b up1
      by (rule upload_one_ok [OF Cons.prems(1) peek_seg_ok [OF Cons.prems(1) Some] that])
    then show ?thesis using Cons.prems Cons.IH Some by (auto split: if_splits option.splits bool.splits)
  qed
qed simp

end

section \<open>Draining gets everything through\<close>

fun gets_through :: "attempt list \<Rightarrow> bool" where
  "gets_through [] = False"
| "gets_through (a # as) =
     (a_running a \<and> \<not> a_past_deadline a \<and>
      (pr_success (a_result a) \<or>
       \<not> a_stopped a \<and> pr_retryable (a_result a) \<and> \<not> a_deadline_asleep a \<and> gets_through as))"

lemma upload_loop_gets_through:
  assumes "gets_through as" "uc_max_attempts cfg \<le> 0" "floor_of (up_spool up) \<le> sg_seq seg"
  shows "\<exists>up' now. upload_loop cfg ops seg as k up = Some (True, up') \<and>
     up_spool up' = confirm (up_spool up) (sg_seq seg) (uc_target cfg) now \<and>
     us_confirmed (up_stats up') = us_confirmed (up_stats up) + 1 \<and>
     us_damaged_skipped (up_stats up') = us_damaged_skipped (up_stats up)"
  using assms
proof (induction as arbitrary: k up)
  case (Cons a as)
  obtain s up1 where s: "upload_attempt cfg ops seg a k up = (s, up1)" by fastforce
  have b: "upload_begin seg a up" using Cons.prems by (simp add: upload_begin_def not_less)
  note out = upload_attempt_outcome [OF s]
  show ?case
  proof (cases "pr_success (a_result a)")
    case True
    then have "s = Uploaded" using out(1) b by simp
    then show ?thesis using s out by (intro exI [of _ up1] exI [of _ "a_now a"]) simp
  next
    case False
    then have "s \<noteq> Uploaded" using out(1) by simp
    moreover have "s \<noteq> Gave_Up"
      using s b Cons.prems False
      by (auto simp: upload_attempt_def upload_finish_def upload_retry_def Let_def split: if_splits)
    ultimately obtain n where n: "s = Again n" by (cases s) auto
    have sp: "up_spool up1 = up_spool up" "us_confirmed (up_stats up1) = us_confirmed (up_stats up)"
      "us_damaged_skipped (up_stats up1) = us_damaged_skipped (up_stats up)" using out(3,4) n by auto
    have "gets_through as" using Cons.prems(1) False by simp
    then show ?thesis using Cons.IH [of up1 n] Cons.prems(2,3) s n sp by simp
  qed
qed simp

definition turn_ok :: "turn \<Rightarrow> bool" where
  "turn_ok t = (tn_go_on t \<and> tn_may_upload t \<and> gets_through (tn_attempts t))"

definition floor_ok :: "spool \<Rightarrow> bool" where
  "floor_ok sp = list_all (\<lambda>x. floor_of sp \<le> x) (pending_seqs sp)"

lemma confirm_floor_ok: "floor_ok sp \<Longrightarrow> floor_ok (confirm sp seq t now)"
  by (auto simp: floor_ok_def list_all_iff confirm_pending floor_of_def mark_confirmed_def)

lemma upload_one_gets_through:
  assumes "gets_through as" "uc_max_attempts cfg \<le> 0" "floor_of (up_spool up) \<le> sg_seq seg"
  shows "\<exists>up' now'. upload_one h cfg ops seg as now up = Some (True, up') \<and>
     up_spool up' = confirm (up_spool up) (sg_seq seg) (uc_target cfg) now' \<and>
     us_confirmed (up_stats up') = us_confirmed (up_stats up) + (if damaged h seg then 0 else 1) \<and>
     us_damaged_skipped (up_stats up') = us_damaged_skipped (up_stats up) + (if damaged h seg then 1 else 0)"
  using upload_loop_gets_through [OF assms]
  by (auto simp: upload_one_def skip_damaged_def)

lemma drain_complete:
  assumes "spool_ok (up_spool up) n" "floor_ok (up_spool up)" "at_target (uc_target cfg)" "uc_max_attempts cfg \<le> 0"
    "list_all turn_ok ts" "length (queue (up_spool up) (uc_target cfg)) < length ts"
  shows "\<exists>up'. drain_blocking h cfg ops ts up = Some (True, up') \<and>
     queue (up_spool up') (uc_target cfg) = [] \<and> spool_ok (up_spool up') n \<and>
     us_confirmed (up_stats up') = us_confirmed (up_stats up) +
       length (filter (\<lambda>s. \<not> damaged h s) (queue (up_spool up) (uc_target cfg))) \<and>
     us_damaged_skipped (up_stats up') = us_damaged_skipped (up_stats up) +
       length (filter (damaged h) (queue (up_spool up) (uc_target cfg)))"
  using assms
proof (induction ts arbitrary: up)
  case (Cons t ts)
  let ?sp = "up_spool up" and ?t = "uc_target cfg"
  show ?case
  proof (cases "queue ?sp ?t")
    case Nil
    then show ?thesis using Cons.prems by (simp add: peek_next_queue turn_ok_def)
  next
    case (Cons s rest)
    note q = Cons
    have pk: "peek_next ?sp ?t = Some s" using q by (simp add: peek_next_queue)
    have tk: "?t \<in> {0, 1}" using Cons.prems(3) by (auto simp: at_target_def)
    have "sg_seq s \<in> set (pending_seqs ?sp)"
      using Cons.prems(1) q by (auto simp: spool_ok_def intro: queue_head_pending)
    then have "floor_of ?sp \<le> sg_seq s" using Cons.prems(2) by (auto simp: floor_ok_def list_all_iff)
    moreover have t: "turn_ok t" "list_all turn_ok ts" using Cons.prems(5) by auto
    ultimately obtain up1 now' where u: "upload_one h cfg ops s (tn_attempts t) (tn_now t) up = Some (True, up1)"
      "up_spool up1 = confirm ?sp (sg_seq s) ?t now'"
      "us_confirmed (up_stats up1) = us_confirmed (up_stats up) + (if damaged h s then 0 else 1)"
      "us_damaged_skipped (up_stats up1) = us_damaged_skipped (up_stats up) + (if damaged h s then 1 else 0)"
      using upload_one_gets_through Cons.prems(4) by (metis turn_ok_def)
    have q1: "queue (up_spool up1) ?t = rest" unfolding u(2) by (rule queue_confirm [OF Cons.prems(1) tk q])
    have "spool_ok (up_spool up1) n" "floor_ok (up_spool up1)"
      unfolding u(2) using confirm_peeked_ok [OF Cons.prems(1,3) pk] confirm_floor_ok [OF Cons.prems(2)] by auto
    then obtain up' where "drain_blocking h cfg ops ts up1 = Some (True, up')" "queue (up_spool up') ?t = []"
      "spool_ok (up_spool up') n"
      "us_confirmed (up_stats up') = us_confirmed (up_stats up1) + length (filter (\<lambda>s. \<not> damaged h s) rest)"
      "us_damaged_skipped (up_stats up') = us_damaged_skipped (up_stats up1) + length (filter (damaged h) rest)"
      using Cons.IH [of up1] Cons.prems(3,4,6) t(2) q q1 by auto
    then show ?thesis using t(1) pk u(1,3,4) q by (intro exI [of _ up']) (simp add: turn_ok_def)
  qed
qed simp


section \<open>The floor stays below what is spooled\<close>

lemma evict_locked_floor:
  assumes "pending_seqs sp = victim # pend" "distinct (pending_seqs sp)" "floor_ok sp" "victim < u64_max"
    "evict_locked sp victim = (sp', d, freed)"
  shows "floor_ok (sp'\<lparr>sp_bytes_pending := b\<rparr>)"
proof -
  define st where "st = sp_state sp'"
  have sp': "sp' = (remove_files victim sp)\<lparr>sp_state := st, sp_dropped_count := sp_dropped_count sp + 1\<rparr>"
    and fl: "st_first_seq st = max (victim + 1) (st_first_seq (sp_state sp))"
    using assms(4,5) by (auto simp: evict_locked_def Let_def st_def u64_simps)
  have sf: "same_files (remove_files victim sp) (sp'\<lparr>sp_bytes_pending := b\<rparr>)" by (simp add: same_files_def sp')
  have "pending_seqs (sp'\<lparr>sp_bytes_pending := b\<rparr>) = filter (\<lambda>x. x \<noteq> victim) pend"
    unfolding same_files_views(1) [OF sf] using assms(1) by simp
  moreover have "\<forall>x\<in>set pend. victim + 1 \<le> x"
    using sorted_pending [of sp] assms(1,2) by (auto simp: Suc_le_eq order.strict_iff_order)
  moreover have "\<forall>x\<in>set pend. st_first_seq (sp_state sp) \<le> x" using assms(1,3) by (auto simp: floor_ok_def floor_of_def list_all_iff)
  ultimately show ?thesis using fl by (auto simp: floor_ok_def floor_of_def list_all_iff sp')
qed

lemma evict_loop_floor:
  assumes "evict_loop seq (pending_seqs sp) sp drops = (sp', drops')" "sp_dir sp \<noteq> []"
    "distinct (pending_seqs sp)" "count_pending_bytes sp \<le> sp_bytes_pending sp"
    "floor_ok sp" "\<forall>x\<in>set (pending_seqs sp). x \<le> u64_max"
  shows "floor_ok sp'"
  using assms
proof (induction "pending_seqs sp" arbitrary: sp drops)
  case (Cons victim pend)
  note p = Cons.hyps(2) [symmetric]
  show ?case
  proof (cases "sp_bytes_pending sp > sp_max_bytes sp \<and> pend \<noteq> [] \<and> victim \<noteq> seq")
    case False
    then have "sp' = sp" using Cons.prems(1) [unfolded p] by (auto split: if_splits)
    then show ?thesis using Cons.prems(5) by simp
  next
    case True
    obtain sp1 d freed where e: "evict_locked sp victim = (sp1, d, freed)" by (metis prod_cases3)
    define sp2 where "sp2 = sp1\<lparr>sp_bytes_pending := sp_bytes_pending sp1 - freed\<rparr>"
    note el = evict_locked_evicted [OF p Cons.prems(3) Cons.prems(2) Cons.prems(4) e, folded sp2_def]
    have p2: "pend = pending_seqs sp2" using el(1) p by (simp add: evicted_def)
    obtain y where "y \<in> set pend" using True by (cases pend) auto
    then have "victim \<le> y" "victim \<noteq> y" "y \<le> u64_max"
      using sorted_pending [of sp] Cons.prems(3,6) p by auto
    then have "victim < u64_max" by linarith
    then have f2: "floor_ok sp2"
      unfolding sp2_def by (intro evict_locked_floor [OF p Cons.prems(3,5) _ e])
    have loop: "evict_loop seq (pending_seqs sp2) sp2 (drops @ [d]) = (sp', drops')"
      unfolding p2 [symmetric] using Cons.prems(1) [unfolded p] True e by (simp add: sp2_def)
    show ?thesis
    proof (rule Cons.hyps(1) [OF p2 loop _ _ _ f2])
      show "sp_dir sp2 \<noteq> []" using el(1) Cons.prems(2) by (simp add: evicted_def)
      show "distinct (pending_seqs sp2)" "\<forall>x\<in>set (pending_seqs sp2). x \<le> u64_max"
        using Cons.prems(3,6) p p2 by auto
      show "count_pending_bytes sp2 \<le> sp_bytes_pending sp2" using el(5) by (simp add: sp2_def)
    qed
  qed
qed auto

lemma enqueue_floor_ok:
  assumes "spool_ok sp n" "sg_seq seg = n" "n \<le> u64_max" "floor_ok sp" "floor_of sp \<le> n"
    "enqueue h sp seg now = Inr (sp', ck, drops)"
  shows "floor_ok sp'"
proof -
  let ?sp1 = "spooled (sealed h seg) now sp"
  obtain sp1 where sp1: "sp_dir sp \<noteq> []" "apply_cap n ?sp1 = (sp1, drops)" "sp' = save_state sp1"
    using enqueue_cases [OF assms(6)] assms(2) by metis
  have lt: "\<forall>x\<in>set (pending_seqs sp). x < n" and ex: "cur_exists sp" using assms(1) by (auto simp: spool_ok_def list_all_iff)
  have p: "pending_seqs ?sp1 = pending_seqs sp @ [n]" using spooled_pending [of sp "sealed h seg" now] sp1(1) ex lt assms(2) by simp
  have f: "floor_ok ?sp1" using assms(4,5) p by (auto simp: floor_ok_def floor_of_def list_all_iff)
  have c: "count_pending_bytes ?sp1 \<le> sp_bytes_pending ?sp1"
    using spooled_count [of sp "sealed h seg" now] sp1(1) ex lt assms(1,2) by (simp add: spool_ok_def)
  have d: "distinct (pending_seqs ?sp1)" "\<forall>x\<in>set (pending_seqs ?sp1). x \<le> u64_max"
    using spool_ok_distinct [OF assms(1)] p lt assms(3) by auto
  have "floor_ok sp1"
    using sp1(1,2) evict_loop_floor [OF _ _ d(1) c f d(2)] f by (auto simp: apply_cap_def split: if_splits)
  then show ?thesis by (simp add: sp1(3) floor_ok_def floor_of_def)
qed

lemma begin_floor_ok: "event_id \<noteq> [] \<Longrightarrow> floor_ok (begin_event sp event_id f now)"
  by (simp add: floor_ok_def pending_seqs_def begin_event_state dir_names_def)

section \<open>The properties of the uploader\<close>

text \<open>
  C10: With retryable failures followed by a success for each segment, \<open>drain_blocking\<close> returns
  true with nothing left for its target: every intact segment has been confirmed and every
  damaged one skipped, each once.
\<close>

theorem drain_blocking_complete:
  assumes "spool_ok (up_spool up) n" "floor_ok (up_spool up)" "uc_target cfg = 0 \<or> uc_target cfg = 1"
    "uc_max_attempts cfg \<le> 0" "list_all turn_ok ts" "length (queue (up_spool up) (uc_target cfg)) < length ts"
  shows "\<exists>up'. drain_blocking h cfg ops ts up = Some (True, up') \<and>
     queue (up_spool up') (uc_target cfg) = [] \<and>
     us_confirmed (up_stats up') = us_confirmed (up_stats up) +
       length (filter (\<lambda>s. \<not> damaged h s) (queue (up_spool up) (uc_target cfg))) \<and>
     us_damaged_skipped (up_stats up') = us_damaged_skipped (up_stats up) +
       length (filter (damaged h) (queue (up_spool up) (uc_target cfg)))"
  using drain_complete [OF assms(1,2) _ assms(4-6)] assms(3) unfolding at_target_def by blast

definition ex_ops :: "spooled_segment list host_ops" where
  "ex_ops = \<lparr>ho_put = (\<lambda>a k b h. h), ho_confirm = (\<lambda>a s h. h @ [s]), ho_skipped = (\<lambda>n h. h),
     ho_confirmed_after = (\<lambda>a s h. h)\<rparr>"

definition ex_attempt :: "bool \<Rightarrow> attempt" where
  "ex_attempt ok = \<lparr>a_running = True, a_past_deadline = False,
     a_result = \<lparr>pr_success = ok, pr_http_status = (if ok then 200 else 503), pr_retryable = True, pr_error = []\<rparr>,
     a_landed = False, a_stored_size = 2, a_stopped = False, a_jitter = 1, a_deadline_asleep = False, a_now = 5\<rparr>"

definition ex_turn :: turn where
  "ex_turn = \<lparr>tn_go_on = True, tn_may_upload = True, tn_attempts = [ex_attempt False, ex_attempt True], tn_now = 5\<rparr>"

definition ex_up :: "spool \<Rightarrow> spooled_segment list uploader" where
  "ex_up sp = \<lparr>up_spool = sp, up_stats = uploader_stats_default, up_health = Healthy, up_note = [], up_host = []\<rparr>"

theorem drain_blocking_complete_witness:
  "\<exists>sp1 ck up'. enqueue ex_sum ex_sp0 (ex_seg 0) 2 = Inr (sp1, ck, []) \<and>
     drain_blocking ex_sum uploader_config_default ex_ops [ex_turn, ex_turn] (ex_up sp1) = Some (True, up') \<and>
     us_confirmed (up_stats up') = 1"
proof -
  obtain sp1 ck where e: "enqueue ex_sum ex_sp0 (ex_seg 0) 2 = Inr (sp1, ck, [])" by (rule ex_enqueue)
  have s0: "sg_seq (ex_seg 0) = 0" by (simp add: ex_seg_def)
  have ok: "spool_ok sp1 (Suc 0)" by (rule enqueue_ok [OF ex_sp0_ok s0 e])
  have fl: "floor_ok sp1"
    by (rule enqueue_floor_ok [OF ex_sp0_ok s0 _ _ _ e])
       (simp_all add: ex_sp0_def begin_floor_ok floor_of_def begin_event_state fresh_state_def Let_def)
  have q: "queue sp1 0 = [sealed ex_sum (ex_seg 0)]"
    using enqueue_queue [OF ex_sp0_ok s0 e, of 0] by (simp add: ex_sp0_queue)
  have d: "\<not> damaged ex_sum (sealed ex_sum (ex_seg 0))"
    by (simp add: damaged_def verify_sha256_def)
  have "list_all turn_ok [ex_turn, ex_turn]" by (simp add: turn_ok_def ex_turn_def ex_attempt_def)
  then obtain up' where
    "drain_blocking ex_sum uploader_config_default ex_ops [ex_turn, ex_turn] (ex_up sp1) = Some (True, up')"
    "us_confirmed (up_stats up') = us_confirmed (up_stats (ex_up sp1)) + 1"
    using drain_blocking_complete [of "ex_up sp1" "Suc 0" uploader_config_default "[ex_turn, ex_turn]" ex_sum ex_ops] ok fl q d
    by (auto simp: ex_up_def uploader_config_default_def simp del: drain_blocking.simps)
  then show ?thesis using e by (auto simp: ex_up_def uploader_stats_default_def simp del: drain_blocking.simps)
qed

lemma upload_loop_safe:
  "upload_loop cfg ops seg as k up = Some (b, up') \<Longrightarrow>
   (b \<longrightarrow> (\<exists>a\<in>set as. pr_success (a_result a) \<and> up_spool up' = confirm (up_spool up) (sg_seq seg) (uc_target cfg) (a_now a))) \<and>
   (\<not> b \<longrightarrow> up_spool up' = up_spool up)"
proof (induction as arbitrary: k up)
  case (Cons a as)
  obtain s up1 where s: "upload_attempt cfg ops seg a k up = (s, up1)" by fastforce
  note out = upload_attempt_outcome [OF s]
  show ?case
  proof (cases s)
    case (Again n)
    then show ?thesis using Cons.IH [of n up1] Cons.prems s out by auto
  qed (use Cons.prems s out in auto)
qed simp

text \<open>
  Uploading a segment touches the spool in one way only: it confirms that segment for its
  own target, and only after the store accepted its bytes or they were found damaged. Every
  other outcome (stopped, deadline, evicted, permanent refusal, attempts used up) returns
  false with the spool unchanged, so the segment stays queued.
\<close>

lemma upload_one_safe:
  assumes "upload_one h cfg ops seg as now up = Some (b, up')"
  shows "(b \<longrightarrow> (\<exists>now'. up_spool up' = confirm (up_spool up) (sg_seq seg) (uc_target cfg) now') \<and>
               (damaged h seg \<or> (\<exists>a\<in>set as. pr_success (a_result a)))) \<and>
    (\<not> b \<longrightarrow> up_spool up' = up_spool up) \<and>
    (\<not> damaged h seg \<and> sg_seq seg < floor_of (up_spool up) \<and> as \<noteq> [] \<longrightarrow> \<not> b \<and> up' = up)"
proof (cases "damaged h seg")
  case True
  then show ?thesis using assms by (auto simp: upload_one_def skip_damaged_def)
next
  case False
  then have l: "upload_loop cfg ops seg as 0 up = Some (b, up')" using assms by (simp add: upload_one_def)
  have "sg_seq seg < floor_of (up_spool up) \<Longrightarrow> as \<noteq> [] \<Longrightarrow> \<not> b \<and> up' = up"
    using l by (cases as) (auto simp: upload_attempt_def upload_begin_def)
  then show ?thesis using upload_loop_safe [OF l] False by auto
qed

lemma verify_upload_failed: "\<not> pr_success (a_result a) \<Longrightarrow> verify_upload cfg seg a up = up"
  by (simp add: verify_upload_def)

lemma upload_retry_views:
  "fst (upload_retry cfg a n up) =
     (if uc_max_attempts cfg > 0 \<and> n \<ge> uc_max_attempts cfg \<or> 0 < backoff_ms cfg n (a_jitter a) \<and> a_deadline_asleep a
      then Gave_Up else Again n)"
  "up_spool (snd (upload_retry cfg a n up)) = up_spool up"
  "up_health (snd (upload_retry cfg a n up)) = (if n \<ge> 2 then Offline else Degraded)"
  "us_confirmed (up_stats (snd (upload_retry cfg a n up))) = us_confirmed (up_stats up)"
  "us_retries (up_stats (snd (upload_retry cfg a n up))) = us_retries (up_stats up) + 1"
  by (auto simp: upload_retry_def Let_def)

text \<open>
  The size check after an accepted PUT is a diagnostic: whatever the store answers to it, the
  outcome of the attempt, the spool, the link health and the counts of confirmed and retried
  segments are the same, so it can never cause a segment to be sent again.
\<close>

lemma verification_never_resends:
  "fst (upload_finish cfg ops seg (a\<lparr>a_stored_size := z\<rparr>) n up) = fst (upload_finish cfg ops seg a n up) \<and>
   up_spool (snd (upload_finish cfg ops seg (a\<lparr>a_stored_size := z\<rparr>) n up)) = up_spool (snd (upload_finish cfg ops seg a n up)) \<and>
   up_health (snd (upload_finish cfg ops seg (a\<lparr>a_stored_size := z\<rparr>) n up)) = up_health (snd (upload_finish cfg ops seg a n up)) \<and>
   us_confirmed (up_stats (snd (upload_finish cfg ops seg (a\<lparr>a_stored_size := z\<rparr>) n up))) =
     us_confirmed (up_stats (snd (upload_finish cfg ops seg a n up))) \<and>
   us_retries (up_stats (snd (upload_finish cfg ops seg (a\<lparr>a_stored_size := z\<rparr>) n up))) =
     us_retries (up_stats (snd (upload_finish cfg ops seg a n up)))"
proof (cases "pr_success (a_result a)")
  case True
  then show ?thesis by (simp add: upload_finish_def Let_def)
next
  case False
  then show ?thesis
    by (cases "a_stopped a"; cases "pr_retryable (a_result a)")
       (simp_all add: upload_finish_def Let_def verify_upload_failed upload_retry_views)
qed

text \<open>
  The pause between attempts is never negative, never longer than the configured maximum
  plus its jitter, and never shorter for a later attempt than for an earlier one.
\<close>

lemma backoff_bounded:
  assumes "0 \<le> uc_base_backoff_ms cfg" "0 \<le> uc_max_backoff_ms cfg" "0 \<le> uc_jitter cfg" "uc_jitter cfg \<le> 1"
    "1 - uc_jitter cfg \<le> d" "d \<le> 1 + uc_jitter cfg" "m \<le> n"
  shows "0 \<le> backoff_ms cfg m d \<and> backoff_ms cfg m d \<le> backoff_ms cfg n d \<and>
    backoff_ms cfg n d \<le> llround (real_of_int (uc_max_backoff_ms cfg) * (1 + uc_jitter cfg))"
  using backoff_range [OF assms(1-6)] backoff_attempt_mono [OF assms(1) _ assms(7)] assms(4,5) by simp

end
