(* ===== verification/Session_Model.thy ===== *)
theory Session_Model
  imports Retry_Uploader
begin

text \<open>
  The publishing layer (\<^verbatim>\<open>src/core/session.h\<close>, \<^verbatim>\<open>session.cpp\<close>): muxed fragments go to the durable
  spool, the uploader drains the spool to the bucket, and the manifest lists a segment once
  the bucket has confirmed it.

  A \<open>Session\<close> is the record \<open>session\<close>, the host state of its primary uploader; the state of a
  running encoder is \<open>session uploader\<close>, which adds the spool. The store is \<open>ss_bucket\<close>: every
  PUT takes the answer it got, and whether a failed one landed, as an argument of type
  \<open>answer\<close>. Clock readings and random draws are arguments. The hooks for LAN delivery append to
  \<open>ss_lan\<close> what they were given. Threads are joined and started by \<open>begin_common\<close> and \<open>end\<close> in
  the code; here their turns are operations of their own (\<open>manifest_take\<close> and
  \<open>manifest_put\<close>, \<open>mirror_take\<close> and \<open>mirror_put\<close>, the attempts of the uploader), which the step
  relation of the session interleaves. Log lines are not modelled.
\<close>

section \<open>Event ids\<close>

definition b32_alphabet :: string where
  "b32_alphabet = ''0123456789ABCDEFGHJKMNPQRSTVWXYZ''"

text \<open>Ten digits of the 64-bit time, most significant first, then the sixteen random draws.\<close>

fun b32_time :: "nat \<Rightarrow> nat \<Rightarrow> string" where
  "b32_time 0 ts = []"
| "b32_time (Suc i) ts = b32_time i (ts div 32) @ [b32_alphabet ! (ts mod 32)]"

definition make_event_id :: "i64 \<Rightarrow> nat list \<Rightarrow> string" where
  "make_event_id t draws = b32_time 10 (nat (t mod 2 ^ 64)) @ map (\<lambda>d. b32_alphabet ! d) draws"


section \<open>Data\<close>

record session_config =
  sc_room_id :: string
  sc_event_name :: string
  sc_max_spool_bytes :: u64
  sc_mirror :: bool
  sc_resume_stale_after_ms :: i64
  sc_segment_duration_s :: double
  sc_manifest_window :: nat
  sc_send_expiry_tag :: bool
  sc_expiry_tag_key :: string
  sc_expiry_tag_val :: string
  sc_heartbeat_interval_s :: int
  sc_base_backoff_ms :: int
  sc_max_backoff_ms :: int
  sc_backoff_jitter :: double

definition session_config_default :: session_config where
  "session_config_default = \<lparr>sc_room_id = ''main-auditorium'', sc_event_name = [],
     sc_max_spool_bytes = 4 * 1024 * 1024 * 1024, sc_mirror = False,
     sc_resume_stale_after_ms = 30 * 60 * 1000, sc_segment_duration_s = 6, sc_manifest_window = 50,
     sc_send_expiry_tag = False, sc_expiry_tag_key = ''MultisiteExpiry'', sc_expiry_tag_val = ''7d'',
     sc_heartbeat_interval_s = 10, sc_base_backoff_ms = 250, sc_max_backoff_ms = 15000,
     sc_backoff_jitter = 3 / 10\<rparr>"

text \<open>What the LAN hooks were given.\<close>

datatype lan_event =
    Lan_Event_Started string json bytes
  | Lan_Segment_Confirmed u64 bytes
  | Lan_Manifest_Published json
  | Lan_Live_Published json
  | Lan_Markers_Published json

record session =
  ss_cfg :: session_config
  ss_bucket :: bucket
  ss_mirror_bucket :: bucket
  ss_event_id :: string
  ss_next_seq :: u64
  ss_live_media_ms :: i64
  ss_last_heartbeat_ms :: i64
  ss_author_name :: string
  ss_manifest :: manifest
  ss_markers :: marker_list
  ss_guest_markers :: marker_list
  ss_dropped_total :: u64
  ss_resumed_event_id :: string
  ss_resumed_event_started_ms :: i64
  ss_resumed_already_confirmed :: u64
  ss_last_error :: string
  ss_resume_refused :: bool
  ss_manifest_key :: string
  ss_manifest_pending :: "json option"
  ss_manifest_dirty :: bool
  ss_manifest_queued :: u64
  ss_manifest_done :: u64
  ss_obj_pending :: "(string, body \<times> string) dir"
  ss_lan :: "lan_event list"

text \<open>The answer to a PUT, and whether a failed one reached the store.\<close>

type_synonym answer = "put_result \<times> bool"

definition session_init :: "session_config \<Rightarrow> bucket \<Rightarrow> bucket \<Rightarrow> session" where
  "session_init cfg bkt mirror = \<lparr>ss_cfg = cfg, ss_bucket = bkt, ss_mirror_bucket = mirror, ss_event_id = [],
     ss_next_seq = 0, ss_live_media_ms = 0, ss_last_heartbeat_ms = 0, ss_author_name = [],
     ss_manifest = manifest_default, ss_markers = marker_list_default, ss_guest_markers = marker_list_default,
     ss_dropped_total = 0, ss_resumed_event_id = [], ss_resumed_event_started_ms = 0,
     ss_resumed_already_confirmed = 0, ss_last_error = [], ss_resume_refused = False, ss_manifest_key = [],
     ss_manifest_pending = None, ss_manifest_dirty = False, ss_manifest_queued = 0, ss_manifest_done = 0,
     ss_obj_pending = [], ss_lan = []\<rparr>"

text \<open>The constructor: the spool on its disk, as many targets as are configured.\<close>

definition session_new :: "session_config \<Rightarrow> disk \<Rightarrow> bucket \<Rightarrow> bucket \<Rightarrow> session uploader" where
  "session_new cfg dk bkt mirror =
     \<lparr>up_spool = set_targets (spool_open dk (sc_max_spool_bytes cfg) []) (if sc_mirror cfg then 2 else 1),
      up_stats = uploader_stats_default, up_health = Healthy, up_note = [],
      up_host = session_init cfg bkt mirror\<rparr>"

definition session_uploader_config :: "session_config \<Rightarrow> uploader_config" where
  "session_uploader_config cfg = uploader_config_default\<lparr>
     uc_content_type := ''video/mp4'',
     uc_tags := (if sc_send_expiry_tag cfg then [(sc_expiry_tag_key cfg, sc_expiry_tag_val cfg)] else []),
     uc_base_backoff_ms := sc_base_backoff_ms cfg, uc_max_backoff_ms := sc_max_backoff_ms cfg,
     uc_jitter := sc_backoff_jitter cfg\<rparr>"

definition mirror_uploader_config :: "session_config \<Rightarrow> uploader_config" where
  "mirror_uploader_config cfg = (session_uploader_config cfg)\<lparr>uc_target := 1\<rparr>"


section \<open>Putting objects\<close>

definition event_prefix :: "session \<Rightarrow> string" where
  "event_prefix ss = event_prefix_for (ss_event_id ss)"

definition segment_key :: "session \<Rightarrow> u64 \<Rightarrow> string" where
  "segment_key ss seq = event_prefix ss @ ''segments/'' @ seq_name seq @ ''.m4s''"

definition set_error :: "string \<Rightarrow> session \<Rightarrow> session" where
  "set_error what ss = ss\<lparr>ss_last_error := what\<rparr>"

definition clear_error :: "session \<Rightarrow> session" where
  "clear_error ss = ss\<lparr>ss_last_error := []\<rparr>"

definition lan :: "lan_event \<Rightarrow> session \<Rightarrow> session" where
  "lan e ss = ss\<lparr>ss_lan := ss_lan ss @ [e]\<rparr>"

definition put_bytes :: "answer \<Rightarrow> string \<Rightarrow> body \<Rightarrow> string \<Rightarrow> session \<Rightarrow> session \<times> bool" where
  "put_bytes ans key b content_type ss =
     (let r = fst ans;
          ss1 = ss\<lparr>ss_bucket := store_put r (snd ans) key b (ss_bucket ss)\<rparr>;
          ss2 = (if pr_success r then ss1
                 else set_error (''PUT '' @ key @ '' -> HTTP '' @ int_str (pr_http_status r) @ '' '' @ pr_error r) ss1);
          ss3 = (if sc_mirror (ss_cfg ss) then ss2\<lparr>ss_obj_pending := AList.update key (b, content_type) (ss_obj_pending ss2)\<rparr>
                 else ss2)
      in (ss3, pr_success r))"

definition put_json :: "answer \<Rightarrow> string \<Rightarrow> json \<Rightarrow> session \<Rightarrow> session \<times> bool" where
  "put_json ans key j ss = put_bytes ans key (Doc j) ''application/json'' ss"


section \<open>The second bucket\<close>

definition mirror_may_go :: "session uploader \<Rightarrow> bool" where
  "mirror_may_go up = (up_health up \<noteq> Healthy \<or> caught_up (up_spool up) 0)"

text \<open>
  One pass of \<open>mirror_objects_loop\<close>: take everything that is queued, in key order, then put one
  object after the other; what fails goes back unless its key was rewritten meanwhile.
\<close>

definition mirror_take :: "session \<Rightarrow> (string \<times> (body \<times> string)) list \<times> session" where
  "mirror_take ss =
     (List.map_filter (\<lambda>k. map_option (Pair k) (map_of (ss_obj_pending ss) k)) (dir_names (ss_obj_pending ss)),
      ss\<lparr>ss_obj_pending := []\<rparr>)"

definition mirror_put :: "answer \<Rightarrow> string \<times> (body \<times> string) \<Rightarrow> session \<Rightarrow> session" where
  "mirror_put ans kv ss =
     (let ss1 = ss\<lparr>ss_mirror_bucket := store_put (fst ans) (snd ans) (fst kv) (fst (snd kv)) (ss_mirror_bucket ss)\<rparr>
      in if pr_success (fst ans) \<or> map_of (ss_obj_pending ss1) (fst kv) \<noteq> None then ss1
         else ss1\<lparr>ss_obj_pending := AList.update (fst kv) (snd kv) (ss_obj_pending ss1)\<rparr>)"

fun mirror_put_all :: "answer list \<Rightarrow> (string \<times> (body \<times> string)) list \<Rightarrow> session \<Rightarrow> session" where
  "mirror_put_all (ans # anss) (kv # kvs) ss = mirror_put_all anss kvs (mirror_put ans kv ss)"
| "mirror_put_all _ _ ss = ss"

definition mirror_objects_pass :: "answer list \<Rightarrow> session uploader \<Rightarrow> session uploader" where
  "mirror_objects_pass anss up =
     (if mirror_may_go up
      then let (batch, ss) = mirror_take (up_host up) in up\<lparr>up_host := mirror_put_all anss batch ss\<rparr>
      else up)"


section \<open>Resumable events\<close>

definition apply_staleness :: "resume_info \<Rightarrow> i64 \<Rightarrow> i64 \<Rightarrow> resume_info" where
  "apply_staleness info resume_stale_after_ms now =
     (if ri_resumable info
      then info\<lparr>ri_stale := now - ri_last_activity_ms info > resume_stale_after_ms\<rparr> else info)"

definition check_resumable :: "session uploader \<Rightarrow> i64 \<Rightarrow> resume_info" where
  "check_resumable up now =
     apply_staleness (inspect (up_spool up)) (sc_resume_stale_after_ms (ss_cfg (up_host up))) now"

definition peek_resumable :: "disk \<Rightarrow> i64 \<Rightarrow> i64 \<Rightarrow> resume_info" where
  "peek_resumable dk resume_stale_after_ms now =
     apply_staleness (inspect (spool_open dk 0 [])) resume_stale_after_ms now"


section \<open>Publishing the manifest and the live pointer\<close>

definition queue_manifest_locked :: "session \<Rightarrow> session \<times> json" where
  "queue_manifest_locked ss =
     (let json = manifest_to_json (ss_manifest ss)
      in (ss\<lparr>ss_manifest_key := event_prefix ss @ ''manifest.json'', ss_manifest_pending := Some json,
             ss_manifest_dirty := True, ss_manifest_queued := ss_manifest_queued ss + 1\<rparr>, json))"

text \<open>A turn of the publisher thread: what it takes under its lock, then the PUT.\<close>

definition manifest_take :: "session \<Rightarrow> (string \<times> json \<times> u64) option \<times> session" where
  "manifest_take ss =
     (if \<not> ss_manifest_dirty ss then (None, ss)
      else case ss_manifest_pending ss of
             None \<Rightarrow> (None, ss)
           | Some json \<Rightarrow>
               (Some (ss_manifest_key ss, json, ss_manifest_queued ss),
                ss\<lparr>ss_manifest_pending := None, ss_manifest_dirty := False\<rparr>))"

definition manifest_put :: "answer \<Rightarrow> string \<times> json \<times> u64 \<Rightarrow> session \<Rightarrow> session" where
  "manifest_put ans taken ss =
     (case taken of (key, json, gen) \<Rightarrow>
        let ss1 = fst (put_json ans key json ss)
        in if gen > ss_manifest_done ss1 then ss1\<lparr>ss_manifest_done := gen\<rparr> else ss1)"

definition manifest_publish :: "answer \<Rightarrow> session \<Rightarrow> session" where
  "manifest_publish ans ss =
     (case manifest_take ss of (Some taken, ss1) \<Rightarrow> manifest_put ans taken ss1 | (None, ss1) \<Rightarrow> ss1)"

text \<open>
  \<open>flush_manifest\<close> waits for the publisher: its turn came in time, with the answer \<open>ans\<close>, or the
  wait ran out first (\<open>None\<close>).
\<close>

definition flush_manifest :: "answer option \<Rightarrow> session \<Rightarrow> session \<times> bool" where
  "flush_manifest turn ss =
     (if ss_manifest_done ss \<ge> ss_manifest_queued ss then (ss, True)
      else case turn of Some ans \<Rightarrow> (manifest_publish ans ss, True) | None \<Rightarrow> (ss, False))"

definition publish_live :: "answer \<Rightarrow> string \<Rightarrow> i64 \<Rightarrow> session \<Rightarrow> session" where
  "publish_live ans status now ss =
     (let lp = live_pointer_default\<lparr>lp_room_id := sc_room_id (ss_cfg ss), lp_event_id := ss_event_id ss,
                                     lp_status := status, lp_updated_at_ms := now\<rparr>;
          json = live_pointer_to_json lp;
          ss1 = ss\<lparr>ss_last_heartbeat_ms := now\<rparr>
      in lan (Lan_Live_Published json) (fst (put_json ans (live_pointer_key (sc_room_id (ss_cfg ss))) json ss1)))"

definition heartbeat :: "answer \<Rightarrow> i64 \<Rightarrow> session \<Rightarrow> session" where
  "heartbeat ans now ss = publish_live ans ''live'' now ss"


section \<open>Going live\<close>

text \<open>What a resume found in the bucket: \<open>have_event\<close> and \<open>have_manifest\<close> are the options.\<close>

record continuing =
  ct_event :: "event_info option"
  ct_manifest :: "manifest option"
  ct_init_stored :: bool

definition continuing_none :: continuing where
  "continuing_none = \<lparr>ct_event = None, ct_manifest = None, ct_init_stored = False\<rparr>"

text \<open>The answers to the requests \<open>begin_common\<close> makes, in order, and its clock readings.\<close>

record begin_answers =
  ba_event :: answer
  ba_index :: answer
  ba_init :: answer
  ba_manifest :: "answer option"
  ba_live :: answer
  ba_now_event :: i64
  ba_now_manifest :: i64
  ba_now_live :: i64

definition new_event_info :: "session \<Rightarrow> i64 \<Rightarrow> video_info \<Rightarrow> audio_track list \<Rightarrow> event_info" where
  "new_event_info ss now video tracks =
     \<lparr>ev_protocol_version = kProtocolVersion, ev_event_id = ss_event_id ss, ev_room_id = sc_room_id (ss_cfg ss),
      ev_name = sc_event_name (ss_cfg ss), ev_started_at_ms = now, ev_first_seq = ss_next_seq ss,
      ev_segment_duration_s = sc_segment_duration_s (ss_cfg ss), ev_init = ''init.mp4'', ev_video = video,
      ev_audio_tracks = tracks\<rparr>"

definition seed_manifest :: "continuing \<Rightarrow> event_info \<Rightarrow> video_info \<Rightarrow> audio_track list \<Rightarrow> session \<Rightarrow> manifest" where
  "seed_manifest cont ev video tracks ss =
     (case ct_manifest cont of
        Some m \<Rightarrow> m
      | None \<Rightarrow> manifest_default\<lparr>mf_event_id := ss_event_id ss, mf_name := sc_event_name (ss_cfg ss),
                 mf_init := ''init.mp4'', mf_video := video, mf_audio_tracks := tracks,
                 mf_first_available_seq := ev_first_seq ev, mf_started_at_ms := ev_started_at_ms ev\<rparr>)"

text \<open>The last part of \<open>begin_common\<close>: the first manifest, then the live pointer.\<close>

definition begin_publish :: "begin_answers \<Rightarrow> continuing \<Rightarrow> event_info \<Rightarrow> bytes \<Rightarrow> video_info \<Rightarrow> audio_track list \<Rightarrow> session \<Rightarrow> session" where
  "begin_publish ba cont ev init video tracks ss =
     (let ss1 = lan (Lan_Event_Started (ss_event_id ss) (event_info_to_json ev) init) ss;
          ss2 = ss1\<lparr>ss_manifest := (seed_manifest cont ev video tracks ss1)\<lparr>mf_status := ''live'', mf_updated_at_ms := ba_now_manifest ba\<rparr>\<rparr>;
          (ss3, json) = queue_manifest_locked ss2;
          ss4 = fst (flush_manifest (ba_manifest ba) ss3);
          ss5 = lan (Lan_Manifest_Published json) ss4
      in publish_live (ba_live ba) ''live'' (ba_now_live ba) ss5)"

definition begin_common :: "begin_answers \<Rightarrow> continuing \<Rightarrow> bytes \<Rightarrow> video_info \<Rightarrow> audio_track list \<Rightarrow> session \<Rightarrow> session \<times> bool" where
  "begin_common ba cont init video tracks ss0 =
     (let ss = clear_error ss0;
          ev = (case ct_event cont of Some e \<Rightarrow> e | None \<Rightarrow> new_event_info ss (ba_now_event ba) video tracks);
          (ss1, ok1) = (case ct_event cont of
             Some _ \<Rightarrow> (ss, True)
           | None \<Rightarrow> put_json (ba_event ba) (event_prefix ss @ ''event.json'') (event_info_to_json ev) ss)
      in if \<not> ok1 then (ss1, False)
         else let idx = \<lparr>re_protocol_version = kProtocolVersion, re_event_id = ss_event_id ss1,
                         re_room_id = sc_room_id (ss_cfg ss1), re_name = sc_event_name (ss_cfg ss1),
                         re_started_at_ms = ev_started_at_ms ev\<rparr>;
                  ss2 = (case ct_event cont of
                     Some _ \<Rightarrow> ss1
                   | None \<Rightarrow>
                       let (s, ok) = put_json (ba_index ba) (room_event_key (sc_room_id (ss_cfg ss1)) (ss_event_id ss1))
                                       (room_event_entry_to_json idx) ss1
                       in if ok then s else clear_error s);
                  (ss3, ok3) = (if ct_init_stored cont then (ss2, True)
                                else put_bytes (ba_init ba) (event_prefix ss2 @ ''init.mp4'') (Bytes init) ''video/mp4'' ss2)
              in if \<not> ok3 then (ss3, False)
                 else (begin_publish ba cont ev init video tracks ss3, True))"

definition start_new :: "begin_answers \<Rightarrow> string \<Rightarrow> i64 \<Rightarrow> bytes \<Rightarrow> video_info \<Rightarrow> audio_track list \<Rightarrow> session uploader \<Rightarrow> session uploader \<times> bool" where
  "start_new ba event_id now init video tracks up =
     (let ss = (up_host up)\<lparr>ss_event_id := event_id, ss_next_seq := 0, ss_markers := marker_list_default,
                            ss_guest_markers := marker_list_default\<rparr>;
          (ss', ok) = begin_common ba continuing_none init video tracks ss
      in (up\<lparr>up_spool := begin_event (up_spool up) event_id 0 now, up_host := ss'\<rparr>, ok))"

text \<open>Reading what the bucket holds of the event to resume: the three GETs of \<open>resume\<close>.\<close>

definition event_from_get :: "get_result \<Rightarrow> event_info option" where
  "event_from_get r =
     (if gr_success r then
        case parse_body (gr_body r) of
          Some j \<Rightarrow> (case event_info_from_json j of Inr e \<Rightarrow> Some e | Inl _ \<Rightarrow> None)
        | None \<Rightarrow> None
      else None)"

definition manifest_from_get :: "string \<Rightarrow> get_result \<Rightarrow> manifest option" where
  "manifest_from_get event_id r =
     (if gr_success r then
        case parse_body (gr_body r) of
          Some j \<Rightarrow> (case manifest_from_json j of
                      Inr m \<Rightarrow> if mf_event_id m = event_id then Some m else None
                    | Inl _ \<Rightarrow> None)
        | None \<Rightarrow> None
      else None)"

definition resume :: "begin_answers \<Rightarrow> get_result \<Rightarrow> get_result \<Rightarrow> get_result \<Rightarrow> i64 \<Rightarrow> bytes \<Rightarrow> video_info \<Rightarrow> audio_track list \<Rightarrow> session uploader \<Rightarrow> session uploader \<times> bool" where
  "resume ba get_init get_event get_manifest now init video tracks up0 =
     (let up = up0\<lparr>up_host := (up_host up0)\<lparr>ss_resume_refused := False\<rparr>\<rparr>;
          info = inspect (up_spool up)
      in if \<not> ri_resumable info then (up, False)
         else
           let ss = (up_host up)\<lparr>ss_event_id := ri_event_id info, ss_next_seq := inc64 (ri_last_enqueued info)\<rparr>
           in if gr_success get_init \<and> gr_body get_init \<noteq> Bytes init then
                (up\<lparr>up_host := set_error (''event '' @ ss_event_id ss @ '' cannot be resumed: the encoder's settings have changed since it started (its init segment differs), so the segments before and after would need different inits'')
                                 (ss\<lparr>ss_resume_refused := True\<rparr>)\<rparr>, False)
              else if \<not> gr_success get_init \<and> gr_http_status get_init \<noteq> 404 then
                (up\<lparr>up_host := set_error (''init.mp4: HTTP '' @ int_str (gr_http_status get_init) @ '' '' @ gr_error get_init) ss\<rparr>, False)
              else
                let ev = event_from_get get_event;
                    cont = \<lparr>ct_event = ev, ct_manifest = manifest_from_get (ss_event_id ss) get_manifest,
                            ct_init_stored = gr_success get_init\<rparr>;
                    ss1 = (case ev of
                             Some e \<Rightarrow> if sc_event_name (ss_cfg ss) = [] \<and> ev_name e \<noteq> []
                                       then ss\<lparr>ss_cfg := (ss_cfg ss)\<lparr>sc_event_name := ev_name e\<rparr>\<rparr> else ss
                           | None \<Rightarrow> ss);
                    ss2 = ss1\<lparr>ss_resumed_event_id := ss_event_id ss1,
                              ss_resumed_event_started_ms := (case ev of Some e \<Rightarrow> ev_started_at_ms e | None \<Rightarrow> 0),
                              ss_resumed_already_confirmed := inc64 (ri_last_confirmed info)\<rparr>
                in case resume_event (up_spool up) now of
                     Inl _ \<Rightarrow> (up\<lparr>up_host := ss2\<rparr>, False)
                   | Inr sp \<Rightarrow>
                       let (ss3, ok) = begin_common ba cont init video tracks ss2
                       in (up\<lparr>up_spool := sp, up_host := ss3\<rparr>, ok))"


section \<open>Segments\<close>

text \<open>A dropped segment is a gap in the manifest; nothing is sent.\<close>

definition on_dropped :: "spool_drop \<Rightarrow> session \<Rightarrow> session" where
  "on_dropped d ss =
     set_error (''local spool cap reached: dropped queued segment '' @ nat_str (dr_seq d) @
                '' before it could be uploaded (upload link has been down or overwhelmed for too long)'')
       (ss\<lparr>ss_manifest := add_gap (ss_manifest ss) (dr_seq d), ss_dropped_total := ss_dropped_total ss + 1\<rparr>)"

definition publish_segment :: "(bytes \<Rightarrow> string) \<Rightarrow> i64 \<Rightarrow> bytes \<Rightarrow> double \<Rightarrow> double \<Rightarrow> session uploader \<Rightarrow> session uploader \<times> (spool_error + u64)" where
  "publish_segment sha256_hex now fragment duration_s pts_offset_s up =
     (let ss = up_host up; seq = ss_next_seq ss;
          s = \<lparr>sg_seq = seq, sg_data = fragment, sg_duration_s = duration_s, sg_pts_offset_s = pts_offset_s,
               sg_checksum = [], sg_key = segment_key ss seq\<rparr>;
          ss1 = ss\<lparr>ss_next_seq := inc64 seq, ss_live_media_ms := trunc ((pts_offset_s + duration_s) * 1000)\<rparr>
      in case enqueue sha256_hex (up_spool up) s now of
           Inl e \<Rightarrow> (up\<lparr>up_host := ss1\<rparr>, Inl e)
         | Inr (sp, checksum, drops) \<Rightarrow> (up\<lparr>up_spool := sp, up_host := fold on_dropped drops ss1\<rparr>, Inr seq))"

text \<open>
  The uploader's confirmation: the only place where the manifest gains an entry. \<open>ended_since\<close> is
  the second reading of the manifest status, under the lock of the live pointer.
\<close>

definition on_confirmed :: "answer \<Rightarrow> bool \<Rightarrow> i64 \<Rightarrow> spooled_segment \<Rightarrow> session \<Rightarrow> session" where
  "on_confirmed live_ans ended_since now seg ss =
     (let ms = \<lparr>ms_seq = sg_seq seg, ms_duration_s = sg_duration_s seg, ms_checksum = sg_checksum seg,
                ms_at_ms = mf_started_at_ms (ss_manifest ss) + trunc (sg_pts_offset_s seg * 1000)\<rparr>;
          ss1 = ss\<lparr>ss_manifest := (manifest_push (ss_manifest ss) ms (sc_manifest_window (ss_cfg ss)))\<lparr>mf_updated_at_ms := now\<rparr>\<rparr>;
          (ss2, manifest_json) = queue_manifest_locked ss1;
          due = (mf_status (ss_manifest ss2) \<noteq> ''ended'' \<and>
                 now - ss_last_heartbeat_ms ss2 \<ge> sc_heartbeat_interval_s (ss_cfg ss2) * 1000);
          lp = live_pointer_default\<lparr>lp_room_id := sc_room_id (ss_cfg ss2), lp_event_id := ss_event_id ss2,
                                     lp_status := ''live'', lp_updated_at_ms := now\<rparr>;
          ss3 = (if due then ss2\<lparr>ss_last_heartbeat_ms := now\<rparr> else ss2);
          ss4 = (if due \<and> \<not> ended_since
                 then fst (put_json live_ans (live_pointer_key (sc_room_id (ss_cfg ss3))) (live_pointer_to_json lp) ss3)
                 else ss3)
      in lan (Lan_Manifest_Published manifest_json) (lan (Lan_Segment_Confirmed (sg_seq seg) (sg_data seg)) ss4))"

text \<open>
  The session as the host of its uploader; the live pointer a confirmation may send gets the
  answer \<open>live_ans\<close>.
\<close>

definition session_host :: "answer \<Rightarrow> session host_ops" where
  "session_host live_ans = \<lparr>
     ho_put = (\<lambda>a key b ss. ss\<lparr>ss_bucket := store_put (a_result a) (a_landed a) key (Bytes b) (ss_bucket ss)\<rparr>),
     ho_confirm = (\<lambda>a seg ss. on_confirmed live_ans (mf_status (ss_manifest ss) = ''ended'') (a_now a) seg ss),
     ho_skipped = (\<lambda>seq ss. ss\<lparr>ss_manifest := add_gap (ss_manifest ss) seq\<rparr>),
     ho_confirmed_after = (\<lambda>a seg ss. ss)\<rparr>"


section \<open>Cues\<close>

definition set_author_name :: "string \<Rightarrow> session \<Rightarrow> session" where
  "set_author_name name ss = ss\<lparr>ss_author_name := name\<rparr>"

definition publish_lan_markers :: "session \<Rightarrow> session" where
  "publish_lan_markers ss =
     lan (Lan_Markers_Published (marker_list_to_json (merge_markers [ss_markers ss, ss_guest_markers ss]))) ss"

definition add_marker :: "answer \<Rightarrow> i64 \<Rightarrow> nat list \<Rightarrow> string \<Rightarrow> string \<Rightarrow> session \<Rightarrow> session" where
  "add_marker ans now draws label type ss =
     (let mk = \<lparr>mk_seq = ss_next_seq ss, mk_at_ms = now, mk_at_media_ms = ss_live_media_ms ss, mk_type = type,
                mk_label = label, mk_id = make_event_id now draws, mk_author = ss_author_name ss\<rparr>;
          ss1 = ss\<lparr>ss_markers := (ss_markers ss)\<lparr>ml_markers := ml_markers (ss_markers ss) @ [mk]\<rparr>\<rparr>;
          ss2 = fst (put_json ans (event_prefix ss1 @ ''markers.json'') (marker_list_to_json (ss_markers ss1)) ss1)
      in publish_lan_markers ss2)"

definition markers_from_get :: "get_result \<Rightarrow> marker_list" where
  "markers_from_get r =
     (if gr_success r then
        case parse_body (gr_body r) of
          Some j \<Rightarrow> (case marker_list_from_json j of Inr ml \<Rightarrow> ml | Inl _ \<Rightarrow> marker_list_default)
        | None \<Rightarrow> marker_list_default
      else marker_list_default)"

text \<open>The result is the error text, or nothing.\<close>

definition add_cue_from :: "get_result \<Rightarrow> answer \<Rightarrow> i64 \<Rightarrow> nat list \<Rightarrow> string \<Rightarrow> string \<Rightarrow> session \<Rightarrow> session \<times> string option" where
  "add_cue_from g ans now draws author label ss =
     (if label = [] then (ss, Some ''a cue needs a name'')
      else
        let mk = \<lparr>mk_seq = ss_next_seq ss, mk_at_ms = now, mk_at_media_ms = -1, mk_type = ''cue'', mk_label = label,
                  mk_id = make_event_id now draws, mk_author = author\<rparr>;
            mine = markers_from_get g;
            mine' = mine\<lparr>ml_markers := ml_markers mine @ [mk]\<rparr>;
            (ss1, ok) = put_json ans (cue_object_key (ss_event_id ss) author) (marker_list_to_json mine') ss
        in if \<not> ok then (ss1, Some (if ss_last_error ss1 = [] then ''the cue could not be stored'' else ss_last_error ss1))
           else (publish_lan_markers
                   (ss1\<lparr>ss_guest_markers := (ss_guest_markers ss1)\<lparr>ml_markers := ml_markers (ss_guest_markers ss1) @ [mk]\<rparr>\<rparr>), None))"


section \<open>Ending\<close>

record end_answers =
  ea_turns :: "turn list"
  ea_heartbeat :: answer
  ea_manifest :: "answer option"
  ea_live :: answer
  ea_now_manifest :: i64
  ea_now_live :: i64

text \<open>\<open>None\<close>: the drain is still running when its inputs are used up.\<close>

definition end_session :: "(bytes \<Rightarrow> string) \<Rightarrow> end_answers \<Rightarrow> session uploader \<Rightarrow> (session uploader \<times> bool) option" where
  "end_session sha256_hex ea up =
     (case drain_blocking sha256_hex (session_uploader_config (ss_cfg (up_host up))) (session_host (ea_heartbeat ea)) (ea_turns ea) up of
        None \<Rightarrow> None
      | Some (drained, up1) \<Rightarrow>
          let ss1 = clear_error (up_host up1);
              ss2 = ss1\<lparr>ss_manifest := (ss_manifest ss1)\<lparr>mf_status := ''ended'', mf_updated_at_ms := ea_now_manifest ea\<rparr>\<rparr>;
              (ss3, json) = queue_manifest_locked ss2;
              ss4 = fst (flush_manifest (ea_manifest ea) ss3);
              ss5 = lan (Lan_Manifest_Published json) ss4;
              ss6 = publish_live (ea_live ea) ''ended'' (ea_now_live ea) ss5;
              ok = (ss_last_error ss6 = []);
              sp = fst (remove_if_done (mark_ended (up_spool up1) ok))
          in Some (up1\<lparr>up_spool := sp, up_host := ss6\<rparr>, ok))"


section \<open>Status\<close>

record session_status =
  su_event_id :: string
  su_last_confirmed :: u64
  su_last_enqueued :: u64
  su_pending :: nat
  su_confirmed_total :: u64
  su_bytes_uploaded :: u64
  su_retries :: u64
  su_verify_failures :: u64
  su_verify_note :: string
  su_health :: link_health
  su_dropped_for_disk :: u64
  su_resumed_event_id :: string
  su_resumed_event_started_ms :: i64
  su_resumed_already_confirmed :: u64
  su_mirror_configured :: bool
  su_mirror_behind :: u64
  su_mirror_waiting_on_primary :: bool
  su_mirror_unreachable :: bool
  su_mirror_complete :: bool

definition session_status_of :: "session uploader \<Rightarrow> link_health \<Rightarrow> session_status" where
  "session_status_of up mirror_health =
     (let ss = up_host up; sp = up_spool up; on = sc_mirror (ss_cfg ss)
      in \<lparr>su_event_id = ss_event_id ss, su_last_confirmed = st_last_confirmed (sp_state sp),
          su_last_enqueued = st_last_enqueued (sp_state sp), su_pending = pending_count sp,
          su_confirmed_total = us_confirmed (up_stats up), su_bytes_uploaded = us_bytes (up_stats up),
          su_retries = us_retries (up_stats up), su_verify_failures = us_verify_failures (up_stats up),
          su_verify_note = up_note up, su_health = up_health up, su_dropped_for_disk = ss_dropped_total ss,
          su_resumed_event_id = ss_resumed_event_id ss, su_resumed_event_started_ms = ss_resumed_event_started_ms ss,
          su_resumed_already_confirmed = ss_resumed_already_confirmed ss, su_mirror_configured = on,
          su_mirror_behind = (if on then behind sp 1 else 0),
          su_mirror_waiting_on_primary = (on \<and> \<not> caught_up sp 0),
          su_mirror_unreachable = (on \<and> behind sp 1 > 0 \<and> mirror_health \<noteq> Healthy),
          su_mirror_complete = (on \<and> caught_up sp 1)\<rparr>)"


section \<open>The write-ordering invariant\<close>

text \<open>
  \<open>C\<close> is the checksum each sequence number was given when it was spooled, for the numbers below
  \<open>next\<close>. A manifest is honest when each entry carries that checksum and the bucket holds, under
  the segment's key, bytes with that checksum.
\<close>

definition seq_limit :: u64 where
  "seq_limit = 10 ^ 15"

definition object_ok :: "(bytes \<Rightarrow> string) \<Rightarrow> (u64 \<Rightarrow> string) \<Rightarrow> string \<Rightarrow> bucket \<Rightarrow> u64 \<Rightarrow> bool" where
  "object_ok h C ev bkt x = (\<exists>b. bkt (segment_key_for ev x) = Some (Bytes b) \<and> h b = C x)"

definition listed_ok :: "(bytes \<Rightarrow> string) \<Rightarrow> (u64 \<Rightarrow> string) \<Rightarrow> string \<Rightarrow> u64 \<Rightarrow> bucket \<Rightarrow> manifest \<Rightarrow> bool" where
  "listed_ok h C ev next bkt m =
     (\<forall>s\<in>set (mf_segments m). ms_seq s < next \<and> ms_checksum s = C (ms_seq s) \<and> object_ok h C ev bkt (ms_seq s))"

definition doc_ok :: "(bytes \<Rightarrow> string) \<Rightarrow> (u64 \<Rightarrow> string) \<Rightarrow> string \<Rightarrow> u64 \<Rightarrow> bucket \<Rightarrow> json \<Rightarrow> bool" where
  "doc_ok h C ev next bkt j = (\<exists>m. j = manifest_to_json m \<and> listed_ok h C ev next bkt m)"

definition manifest_key :: "string \<Rightarrow> string" where
  "manifest_key ev = event_prefix_for ev @ ''manifest.json''"

definition session_inv :: "(bytes \<Rightarrow> string) \<Rightarrow> (u64 \<Rightarrow> string) \<Rightarrow> string \<Rightarrow> u64 \<Rightarrow> session \<Rightarrow> bool" where
  "session_inv h C ev next ss =
     (next \<le> seq_limit \<and> (\<forall>x<next. C x \<noteq> []) \<and> ss_event_id ss = ev \<and>
      listed_ok h C ev next (ss_bucket ss) (ss_manifest ss) \<and>
      (\<forall>j. ss_manifest_pending ss = Some j \<longrightarrow> doc_ok h C ev next (ss_bucket ss) j \<and> ss_manifest_key ss = manifest_key ev) \<and>
      (\<forall>j. ss_bucket ss (manifest_key ev) = Some (Doc j) \<longrightarrow> doc_ok h C ev next (ss_bucket ss) j))"

definition seg_good :: "(u64 \<Rightarrow> string) \<Rightarrow> string \<Rightarrow> u64 \<Rightarrow> spooled_segment \<Rightarrow> bool" where
  "seg_good C ev next s = (sg_key s = segment_key_for ev (sg_seq s) \<and> sg_checksum s = C (sg_seq s) \<and> sg_seq s < next)"

subsection \<open>Keys\<close>

lemma segment_key_eq: "segment_key ss seq = segment_key_for (ss_event_id ss) seq"
  by (simp add: segment_key_def event_prefix_def segment_key_for_def)

lemma segment_key_inj_limit:
  "x < next \<Longrightarrow> y < next \<Longrightarrow> next \<le> seq_limit \<Longrightarrow> segment_key_for ev x = segment_key_for ev y \<longleftrightarrow> x = y"
  using segment_key_inj [of x y ev] by (simp add: seq_limit_def)

text \<open>The keys the session uses for documents: none is a segment's, one is the manifest's.\<close>

definition doc_key :: "string \<Rightarrow> string \<Rightarrow> bool" where
  "doc_key ev k = ((\<forall>x. k \<noteq> segment_key_for ev x) \<and> k \<noteq> manifest_key ev)"

lemma manifest_key_not_segment [simp]: "manifest_key ev \<noteq> segment_key_for ev x" "segment_key_for ev x \<noteq> manifest_key ev"
  by (simp_all add: manifest_key_def segment_key_for_def)

lemma doc_keys [simp]:
  "doc_key ev (live_pointer_key room)" "doc_key ev (event_prefix_for ev @ ''markers.json'')"
  "doc_key ev (cue_object_key ev author)"
  by (simp_all add: doc_key_def manifest_key_def segment_key_for_def live_pointer_key_def event_prefix_for_def
      cue_object_key_def cues_prefix_for_def)

subsection \<open>What keeps a manifest honest\<close>

lemma listed_ok_bucket:
  assumes "listed_ok h C ev next bkt m" "\<And>x. x < next \<Longrightarrow> object_ok h C ev bkt x \<Longrightarrow> object_ok h C ev bkt' x"
  shows "listed_ok h C ev next bkt' m"
  using assms by (auto simp: listed_ok_def)

lemma doc_ok_bucket:
  assumes "doc_ok h C ev next bkt j" "\<And>x. x < next \<Longrightarrow> object_ok h C ev bkt x \<Longrightarrow> object_ok h C ev bkt' x"
  shows "doc_ok h C ev next bkt' j"
  using assms listed_ok_bucket unfolding doc_ok_def by blast

lemma object_ok_doc_put:
  "(\<forall>x. k \<noteq> segment_key_for ev x) \<Longrightarrow> object_ok h C ev (store_put r landed k b bkt) x = object_ok h C ev bkt x"
  by (auto simp: object_ok_def store_put_def)

lemma object_ok_segment_put:
  assumes "h b = C y" "y < next" "next \<le> seq_limit" "x < next" "object_ok h C ev bkt x"
  shows "object_ok h C ev (store_put r landed (segment_key_for ev y) (Bytes b) bkt) x"
  using assms segment_key_inj_limit [OF assms(2,4,3), of ev] by (auto simp: object_ok_def store_put_def)

text \<open>Replacing the bucket by one that still holds every good object.\<close>

lemma session_inv_bucket:
  assumes "session_inv h C ev next ss"
    and "\<And>x. x < next \<Longrightarrow> object_ok h C ev (ss_bucket ss) x \<Longrightarrow> object_ok h C ev (ss_bucket ss') x"
    and "ss_event_id ss' = ss_event_id ss" "ss_manifest ss' = ss_manifest ss"
    and "ss_manifest_pending ss' = ss_manifest_pending ss" "ss_manifest_key ss' = ss_manifest_key ss"
    and "\<And>j. ss_bucket ss' (manifest_key ev) = Some (Doc j) \<Longrightarrow>
            ss_bucket ss (manifest_key ev) = Some (Doc j) \<or> doc_ok h C ev next (ss_bucket ss) j"
  shows "session_inv h C ev next ss'"
  using assms(1,3-6) listed_ok_bucket [OF _ assms(2)] doc_ok_bucket [OF _ assms(2)] assms(7)
  unfolding session_inv_def by metis

lemma put_bytes_frame [simp]:
  "ss_event_id (fst (put_bytes ans k b ct ss)) = ss_event_id ss" "ss_manifest (fst (put_bytes ans k b ct ss)) = ss_manifest ss"
  "ss_manifest_pending (fst (put_bytes ans k b ct ss)) = ss_manifest_pending ss"
  "ss_manifest_key (fst (put_bytes ans k b ct ss)) = ss_manifest_key ss"
  "ss_bucket (fst (put_bytes ans k b ct ss)) = store_put (fst ans) (snd ans) k b (ss_bucket ss)"
  "ss_next_seq (fst (put_bytes ans k b ct ss)) = ss_next_seq ss" "ss_cfg (fst (put_bytes ans k b ct ss)) = ss_cfg ss"
  "snd (put_bytes ans k b ct ss) = pr_success (fst ans)"
  by (simp_all add: put_bytes_def Let_def set_error_def)

lemma lan_frame [simp]:
  "ss_event_id (lan e ss) = ss_event_id ss" "ss_manifest (lan e ss) = ss_manifest ss"
  "ss_manifest_pending (lan e ss) = ss_manifest_pending ss" "ss_manifest_key (lan e ss) = ss_manifest_key ss"
  "ss_bucket (lan e ss) = ss_bucket ss" "ss_next_seq (lan e ss) = ss_next_seq ss" "ss_cfg (lan e ss) = ss_cfg ss"
  by (simp_all add: lan_def)

lemma session_inv_lan [simp]: "session_inv h C ev next (lan e ss) = session_inv h C ev next ss"
  by (simp add: session_inv_def)

lemma put_doc_inv:
  assumes "session_inv h C ev next ss" "doc_key ev k"
  shows "session_inv h C ev next (fst (put_json ans k j ss))"
  by (rule session_inv_bucket [OF assms(1)])
     (use assms(2) in \<open>auto simp: put_json_def doc_key_def object_ok_doc_put\<close>)

lemma put_manifest_inv:
  assumes "session_inv h C ev next ss" "doc_ok h C ev next (ss_bucket ss) j"
  shows "session_inv h C ev next (fst (put_json ans (manifest_key ev) j ss))"
  by (rule session_inv_bucket [OF assms(1)])
     (use assms(2) in \<open>auto simp: put_json_def object_ok_def store_put_def split: if_splits\<close>)

lemma session_inv_fields:
  assumes "session_inv h C ev next ss" "ss_event_id ss' = ss_event_id ss" "ss_manifest ss' = ss_manifest ss"
    "ss_manifest_pending ss' = ss_manifest_pending ss" "ss_manifest_key ss' = ss_manifest_key ss" "ss_bucket ss' = ss_bucket ss"
  shows "session_inv h C ev next ss'"
  using assms by (simp add: session_inv_def)

lemma queue_manifest_inv:
  assumes "session_inv h C ev next ss" "listed_ok h C ev next (ss_bucket ss) m"
  shows "session_inv h C ev next (fst (queue_manifest_locked (ss\<lparr>ss_manifest := m\<rparr>)))"
  using assms unfolding session_inv_def doc_ok_def
  by (auto simp: queue_manifest_locked_def Let_def event_prefix_def manifest_key_def)

lemma publish_live_inv: "session_inv h C ev next ss \<Longrightarrow> session_inv h C ev next (publish_live ans status now ss)"
  by (auto simp: publish_live_def Let_def intro!: put_doc_inv elim!: session_inv_fields)

lemma add_gap_segments [simp]: "mf_segments (add_gap m seq) = mf_segments m"
  by (simp add: add_gap_def)

lemma listed_ok_segments: "mf_segments m' = mf_segments m \<Longrightarrow> listed_ok h C ev next bkt m' = listed_ok h C ev next bkt m"
  by (simp add: listed_ok_def)

lemma add_gap_inv:
  "session_inv h C ev next ss \<Longrightarrow> session_inv h C ev next (ss\<lparr>ss_manifest := add_gap (ss_manifest ss) seq\<rparr>)"
  using listed_ok_segments [of "add_gap (ss_manifest ss) seq" "ss_manifest ss"] by (simp add: session_inv_def)

lemma on_dropped_inv: "session_inv h C ev next ss \<Longrightarrow> session_inv h C ev next (on_dropped d ss)"
  by (rule session_inv_fields [OF add_gap_inv [of h C ev "next" ss "dr_seq d"]])
     (simp_all add: on_dropped_def set_error_def)

lemma on_confirmed_inv:
  assumes inv: "session_inv h C ev next ss" and seg: "seg_good C ev next s"
    and st: "ss_bucket ss (sg_key s) = Some (Bytes (sg_data s))" and ck: "h (sg_data s) = C (sg_seq s)"
  shows "session_inv h C ev next (on_confirmed ans ended now s ss)"
proof -
  let ?ms = "\<lparr>ms_seq = sg_seq s, ms_duration_s = sg_duration_s s, ms_checksum = sg_checksum s,
                ms_at_ms = mf_started_at_ms (ss_manifest ss) + trunc (sg_pts_offset_s s * 1000)\<rparr>"
  let ?m = "(manifest_push (ss_manifest ss) ?ms (sc_manifest_window (ss_cfg ss)))\<lparr>mf_updated_at_ms := now\<rparr>"
  have "object_ok h C ev (ss_bucket ss) (sg_seq s)" using st ck seg by (auto simp: object_ok_def seg_good_def)
  then have "listed_ok h C ev next (ss_bucket ss) ?m"
    using inv seg manifest_push_segments [of "ss_manifest ss" ?ms "sc_manifest_window (ss_cfg ss)"]
    by (auto simp: listed_ok_def session_inv_def seg_good_def)
  then have q: "session_inv h C ev next (fst (queue_manifest_locked (ss\<lparr>ss_manifest := ?m\<rparr>)))"
    by (rule queue_manifest_inv [OF inv])
  then show ?thesis
    by (auto simp: on_confirmed_def Let_def split: prod.split intro!: put_doc_inv elim!: session_inv_fields)
qed

text \<open>The session keeps the contract of its uploader.\<close>

lemma good_intact:
  "session_inv h C ev next ss \<Longrightarrow> seg_good C ev next s \<Longrightarrow> \<not> damaged h s \<Longrightarrow> h (sg_data s) = C (sg_seq s)"
  by (auto simp: session_inv_def seg_good_def damaged_def verify_sha256_def)

interpretation session_uploads: uploader_host h "session_host live_ans" "\<lambda>ss k b. ss_bucket ss k = Some (Bytes b)"
    "seg_good C ev next" "session_inv h C ev next"
proof
  fix ss s a k b n
  show "session_inv h C ev next (ho_put (session_host live_ans) a (sg_key s) (sg_data s) ss)"
    if "session_inv h C ev next ss" "seg_good C ev next s" "\<not> damaged h s"
  proof (rule session_inv_bucket [OF that(1)], goal_cases)
    case (1 x)
    then show ?case
      using that good_intact [OF that]
      by (auto simp: session_host_def seg_good_def session_inv_def intro: object_ok_segment_put)
  qed (use that in \<open>auto simp: session_host_def seg_good_def\<close>)
  show "ss_bucket (ho_put (session_host live_ans) a k b ss) k = Some (Bytes b)" if "pr_success (a_result a)"
    using that by (simp add: session_host_def)
  show "session_inv h C ev next (ho_confirm (session_host live_ans) a s ss)"
    if "session_inv h C ev next ss" "seg_good C ev next s" "\<not> damaged h s" "ss_bucket ss (sg_key s) = Some (Bytes (sg_data s))"
    using on_confirmed_inv [OF that(1,2,4) good_intact [OF that(1-3)]] by (simp add: session_host_def)
  show "session_inv h C ev next ss \<Longrightarrow> session_inv h C ev next (ho_confirmed_after (session_host live_ans) a s ss)"
    by (simp add: session_host_def)
  show "session_inv h C ev next ss \<Longrightarrow> session_inv h C ev next (ho_skipped (session_host live_ans) n ss)"
    by (simp add: session_host_def add_gap_inv)
qed


section \<open>The threads of a broadcast, interleaved\<close>

text \<open>
  Where the upload thread stands: idle, about to send an attempt of a segment it holds in
  memory, or waiting for the answer to one.
\<close>

datatype upload_phase = Idle | Trying spooled_segment int | Sent spooled_segment int

record encoder =
  en_up :: "session uploader"
  en_phase :: upload_phase
  en_publishing :: "(string \<times> json \<times> u64) option"

text \<open>A spooled file whose bytes the disk has changed.\<close>

definition disk_damage :: "u64 \<Rightarrow> bytes \<Rightarrow> spool \<Rightarrow> spool" where
  "disk_damage seq b = upd_folder (\<lambda>fd. fd\<lparr>fd_segs := AList.map_entry seq (\<lambda>_. b) (fd_segs fd)\<rparr>)"

abbreviation en_cfg :: "encoder \<Rightarrow> uploader_config" where
  "en_cfg e \<equiv> session_uploader_config (ss_cfg (up_host (en_up e)))"

definition on_session :: "(session \<Rightarrow> session) \<Rightarrow> encoder \<Rightarrow> encoder" where
  "on_session f e = e\<lparr>en_up := (en_up e)\<lparr>up_host := f (up_host (en_up e))\<rparr>\<rparr>"

definition on_spool :: "(spool \<Rightarrow> spool) \<Rightarrow> encoder \<Rightarrow> encoder" where
  "on_spool f e = e\<lparr>en_up := (en_up e)\<lparr>up_spool := f (up_spool (en_up e))\<rparr>\<rparr>"

inductive encoder_step :: "(bytes \<Rightarrow> string) \<Rightarrow> encoder \<Rightarrow> encoder \<Rightarrow> bool" for h :: "bytes \<Rightarrow> string" where
  step_publish_segment: "publish_segment h now fragment dur pts (en_up e) = (up', Inr seq) \<Longrightarrow> seq + 1 < seq_limit \<Longrightarrow>
     encoder_step h e (e\<lparr>en_up := up'\<rparr>)"
| step_upload_peek: "en_phase e = Idle \<Longrightarrow> peek_next (up_spool (en_up e)) 0 = Some seg \<Longrightarrow> \<not> damaged h seg \<Longrightarrow>
     encoder_step h e (e\<lparr>en_phase := Trying seg 0\<rparr>)"
| step_upload_skip: "en_phase e = Idle \<Longrightarrow> peek_next (up_spool (en_up e)) 0 = Some seg \<Longrightarrow> damaged h seg \<Longrightarrow>
     encoder_step h e (e\<lparr>en_up := skip_damaged (en_cfg e) (session_host live_ans) seg now (en_up e)\<rparr>)"
| step_upload_send: "en_phase e = Trying seg n \<Longrightarrow> upload_begin seg a (en_up e) \<Longrightarrow>
     encoder_step h e (e\<lparr>en_phase := Sent seg (n + 1)\<rparr>)"
| step_upload_abandon: "en_phase e = Trying seg n \<Longrightarrow> \<not> upload_begin seg a (en_up e) \<Longrightarrow>
     encoder_step h e (e\<lparr>en_phase := Idle\<rparr>)"
| step_upload_answer: "en_phase e = Sent seg n \<Longrightarrow>
     upload_finish (en_cfg e) (session_host live_ans) seg a n (en_up e) = (s, up') \<Longrightarrow>
     encoder_step h e (e\<lparr>en_up := up', en_phase := (case s of Again k \<Rightarrow> Trying seg k | _ \<Rightarrow> Idle)\<rparr>)"
| step_manifest_take: "en_publishing e = None \<Longrightarrow> manifest_take (up_host (en_up e)) = (Some taken, ss') \<Longrightarrow>
     encoder_step h e (on_session (\<lambda>_. ss') (e\<lparr>en_publishing := Some taken\<rparr>))"
| step_manifest_put: "en_publishing e = Some taken \<Longrightarrow>
     encoder_step h e (on_session (manifest_put ans taken) (e\<lparr>en_publishing := None\<rparr>))"
| step_heartbeat: "encoder_step h e (on_session (heartbeat ans now) e)"
| step_add_marker: "encoder_step h e (on_session (add_marker ans now draws label type) e)"
| step_add_cue_from: "encoder_step h e (on_session (\<lambda>ss. fst (add_cue_from g ans now draws author label ss)) e)"
| step_mirror_objects: "encoder_step h e (e\<lparr>en_up := mirror_objects_pass anss (en_up e)\<rparr>)"
| step_mirror_segment: "peek_next (up_spool (en_up e)) 1 = Some seg \<Longrightarrow>
     encoder_step h e (on_spool (\<lambda>sp. confirm sp (sg_seq seg) 1 now) e)"
| step_disk_damage: "encoder_step h e (on_spool (disk_damage seq b) e)"

inductive encoder_run :: "(bytes \<Rightarrow> string) \<Rightarrow> encoder \<Rightarrow> encoder \<Rightarrow> bool" for h :: "bytes \<Rightarrow> string" where
  run_refl: "encoder_run h e e"
| run_step: "encoder_run h e e' \<Longrightarrow> encoder_step h e' e'' \<Longrightarrow> encoder_run h e e''"

inductive_cases encoder_stepE: "encoder_step h e e'"

definition phase_ok :: "(bytes \<Rightarrow> string) \<Rightarrow> (u64 \<Rightarrow> string) \<Rightarrow> string \<Rightarrow> u64 \<Rightarrow> upload_phase \<Rightarrow> bool" where
  "phase_ok h C ev next p = (case p of Idle \<Rightarrow> True
     | Trying s n \<Rightarrow> seg_good C ev next s \<and> \<not> damaged h s | Sent s n \<Rightarrow> seg_good C ev next s \<and> \<not> damaged h s)"

definition encoder_inv :: "(bytes \<Rightarrow> string) \<Rightarrow> (u64 \<Rightarrow> string) \<Rightarrow> string \<Rightarrow> encoder \<Rightarrow> bool" where
  "encoder_inv h C ev e =
     (let next = ss_next_seq (up_host (en_up e)); bkt = ss_bucket (up_host (en_up e))
      in session_inv h C ev next (up_host (en_up e)) \<and>
         (\<forall>x s. read_spooled (up_spool (en_up e)) x = Some s \<longrightarrow> seg_good C ev next s) \<and>
         phase_ok h C ev next (en_phase e) \<and>
         (\<forall>k j g. en_publishing e = Some (k, j, g) \<longrightarrow> k = manifest_key ev \<and> doc_ok h C ev next bkt j))"


subsection \<open>Every step keeps the invariant\<close>

definition bucket_keeps :: "(bytes \<Rightarrow> string) \<Rightarrow> (u64 \<Rightarrow> string) \<Rightarrow> string \<Rightarrow> u64 \<Rightarrow> bucket \<Rightarrow> bucket \<Rightarrow> bool" where
  "bucket_keeps h C ev next bkt bkt' = (\<forall>x<next. object_ok h C ev bkt x \<longrightarrow> object_ok h C ev bkt' x)"

lemma bucket_keeps_refl [simp]: "bucket_keeps h C ev next bkt bkt"
  by (simp add: bucket_keeps_def)

lemma bucket_keeps_doc:
  "doc_key ev k \<Longrightarrow> bucket_keeps h C ev next bkt (store_put r landed k b bkt)"
  "bucket_keeps h C ev next bkt (store_put r landed (manifest_key ev) (Doc j) bkt)"
  by (simp_all add: bucket_keeps_def object_ok_doc_put doc_key_def)

lemma doc_ok_keeps: "bucket_keeps h C ev next bkt bkt' \<Longrightarrow> doc_ok h C ev next bkt j \<Longrightarrow> doc_ok h C ev next bkt' j"
  using doc_ok_bucket [of h C ev "next" bkt j bkt'] by (simp add: bucket_keeps_def)

text \<open>An operation on the session that the invariant survives.\<close>

definition op_ok :: "(bytes \<Rightarrow> string) \<Rightarrow> (session \<Rightarrow> session) \<Rightarrow> bool" where
  "op_ok h f = (\<forall>C ev next ss. session_inv h C ev next ss \<longrightarrow>
     session_inv h C ev next (f ss) \<and> bucket_keeps h C ev next (ss_bucket ss) (ss_bucket (f ss)) \<and>
     ss_next_seq (f ss) = ss_next_seq ss)"

lemma inv_event_id: "session_inv h C ev next ss \<Longrightarrow> ss_event_id ss = ev"
  by (simp add: session_inv_def)

lemma op_ok_heartbeat: "op_ok h (heartbeat ans now)"
  by (auto simp: op_ok_def heartbeat_def publish_live_inv)
     (auto simp: publish_live_def Let_def put_json_def bucket_keeps_doc)

lemma publish_lan_markers_frame [simp]:
  "session_inv h C ev next (publish_lan_markers ss) = session_inv h C ev next ss"
  "ss_bucket (publish_lan_markers ss) = ss_bucket ss" "ss_next_seq (publish_lan_markers ss) = ss_next_seq ss"
  by (simp_all add: publish_lan_markers_def)

lemma op_ok_add_marker: "op_ok h (add_marker ans now draws label type)"
proof -
  have "session_inv h C ev next (add_marker ans now draws label type ss) \<and>
    bucket_keeps h C ev next (ss_bucket ss) (ss_bucket (add_marker ans now draws label type ss)) \<and>
    ss_next_seq (add_marker ans now draws label type ss) = ss_next_seq ss"
    if inv: "session_inv h C ev next ss" for C ev "next" ss
  proof -
    define mks where "mks = (ss_markers ss)\<lparr>ml_markers := ml_markers (ss_markers ss) @
      [\<lparr>mk_seq = ss_next_seq ss, mk_at_ms = now, mk_at_media_ms = ss_live_media_ms ss, mk_type = type,
        mk_label = label, mk_id = make_event_id now draws, mk_author = ss_author_name ss\<rparr>]\<rparr>"
    have i1: "session_inv h C ev next (ss\<lparr>ss_markers := mks\<rparr>)" by (rule session_inv_fields [OF inv]) simp_all
    have "add_marker ans now draws label type ss = publish_lan_markers
        (fst (put_json ans (event_prefix_for ev @ ''markers.json'') (marker_list_to_json mks) (ss\<lparr>ss_markers := mks\<rparr>)))"
      using inv_event_id [OF inv] by (simp add: add_marker_def Let_def event_prefix_def mks_def)
    then show ?thesis using put_doc_inv [OF i1, of "event_prefix_for ev @ ''markers.json''"]
      by (simp add: put_json_def bucket_keeps_doc)
  qed
  then show ?thesis by (simp add: op_ok_def)
qed

lemma op_ok_add_cue_from: "op_ok h (\<lambda>ss. fst (add_cue_from g ans now draws author label ss))"
proof -
  let ?f = "\<lambda>ss. fst (add_cue_from g ans now draws author label ss)"
  have "session_inv h C ev next (?f ss) \<and> bucket_keeps h C ev next (ss_bucket ss) (ss_bucket (?f ss)) \<and>
    ss_next_seq (?f ss) = ss_next_seq ss" if inv: "session_inv h C ev next ss" for C ev "next" ss
  proof -
    define mk where "mk = \<lparr>mk_seq = ss_next_seq ss, mk_at_ms = now, mk_at_media_ms = -1, mk_type = ''cue'', mk_label = label,
                  mk_id = make_event_id now draws, mk_author = author\<rparr>"
    let ?j = "marker_list_to_json ((markers_from_get g)\<lparr>ml_markers := ml_markers (markers_from_get g) @ [mk]\<rparr>)"
    let ?ss1 = "fst (put_json ans (cue_object_key ev author) ?j ss)"
    have ev: "ss_event_id ss = ev" by (rule inv_event_id [OF inv])
    have i1: "session_inv h C ev next ?ss1" by (rule put_doc_inv [OF inv]) simp
    have b: "bucket_keeps h C ev next (ss_bucket ss) (ss_bucket ?ss1)" "ss_next_seq ?ss1 = ss_next_seq ss"
      by (simp_all add: put_json_def bucket_keeps_doc)
    have "?f ss = ss \<or> ?f ss = ?ss1 \<or>
      ?f ss = publish_lan_markers (?ss1\<lparr>ss_guest_markers := (ss_guest_markers ?ss1)\<lparr>ml_markers := ml_markers (ss_guest_markers ?ss1) @ [mk]\<rparr>\<rparr>)"
      by (simp add: add_cue_from_def Let_def ev mk_def split: prod.split)
    then show ?thesis using inv i1 b session_inv_fields [OF i1] by auto
  qed
  then show ?thesis by (simp add: op_ok_def)
qed

lemma mirror_put_all_frame [simp]:
  "ss_event_id (mirror_put_all anss kvs ss) = ss_event_id ss" "ss_manifest (mirror_put_all anss kvs ss) = ss_manifest ss"
  "ss_manifest_pending (mirror_put_all anss kvs ss) = ss_manifest_pending ss"
  "ss_manifest_key (mirror_put_all anss kvs ss) = ss_manifest_key ss" "ss_bucket (mirror_put_all anss kvs ss) = ss_bucket ss"
  "ss_next_seq (mirror_put_all anss kvs ss) = ss_next_seq ss" "ss_cfg (mirror_put_all anss kvs ss) = ss_cfg ss"
  by (induction anss kvs ss rule: mirror_put_all.induct) (simp_all add: mirror_put_def Let_def)

lemma mirror_pass_frame:
  "\<exists>ss'. mirror_objects_pass anss up = up\<lparr>up_host := ss'\<rparr> \<and> ss_event_id ss' = ss_event_id (up_host up) \<and>
     ss_manifest ss' = ss_manifest (up_host up) \<and> ss_manifest_pending ss' = ss_manifest_pending (up_host up) \<and>
     ss_manifest_key ss' = ss_manifest_key (up_host up) \<and> ss_bucket ss' = ss_bucket (up_host up) \<and>
     ss_next_seq ss' = ss_next_seq (up_host up)"
proof (cases "mirror_may_go up")
  case True
  then show ?thesis
    by (intro exI [of _ "mirror_put_all anss (fst (mirror_take (up_host up))) (snd (mirror_take (up_host up)))"])
       (simp add: mirror_objects_pass_def mirror_take_def)
next
  case False
  then show ?thesis by (intro exI [of _ "up_host up"]) (simp add: mirror_objects_pass_def)
qed

subsection \<open>Reading the spool after its operations\<close>

lemma evict_loop_reads:
  "evict_loop seq pend sp drops = (sp', drops') \<Longrightarrow> read_spooled sp' x = Some s \<Longrightarrow> read_spooled sp x = Some s"
proof (induction seq pend sp drops rule: evict_loop.induct)
  case (2 seq victim pend sp drops)
  show ?case
  proof (cases "sp_bytes_pending sp > sp_max_bytes sp \<and> pend \<noteq> [] \<and> victim \<noteq> seq")
    case True
    obtain sp1 d freed where e: "evict_locked sp victim = (sp1, d, freed)" by (metis prod_cases3)
    have "same_files (remove_files victim sp) (sp1\<lparr>sp_bytes_pending := sp_bytes_pending sp1 - freed\<rparr>)"
      using e by (auto simp: evict_locked_def Let_def same_files_def)
    note v = same_files_views(2) [OF this]
    have "read_spooled (sp1\<lparr>sp_bytes_pending := sp_bytes_pending sp1 - freed\<rparr>) x = Some s"
      using 2 True e by simp
    then show ?thesis unfolding v by (simp split: if_splits)
  next
    case False
    then have "sp' = sp" using "2.prems"(1) by (auto split: if_splits)
    then show ?thesis using "2.prems"(2) by simp
  qed
qed simp

lemma no_folder_reads: "\<not> cur_exists sp \<Longrightarrow> read_spooled sp x = None"
  by (simp add: read_spooled_def cur_folder_none empty_folder_def)

lemma enqueue_reads:
  assumes "enqueue h sp seg now = Inr (sp', ck, drops)" "read_spooled sp' x = Some s"
  shows "s = sealed h seg \<or> read_spooled sp x = Some s"
proof -
  let ?sp1 = "spooled (sealed h seg) now sp"
  obtain sp1 where sp1: "apply_cap (sg_seq seg) ?sp1 = (sp1, drops)" "sp' = save_state sp1"
    using assms(1) by (rule enqueue_cases)
  have "read_spooled ?sp1 x = Some s"
    using sp1 assms(2) evict_loop_reads [of "sg_seq seg" "pending_seqs ?sp1" ?sp1 "[]" sp1 drops]
    by (auto simp: apply_cap_def split: if_splits)
  then show ?thesis
    using no_folder_reads [of ?sp1 x] by (cases "cur_exists sp") (auto simp: spooled_read split: if_splits)
qed

lemma damage_reads:
  assumes "read_spooled (disk_damage seq b sp) x = Some s"
  shows "\<exists>d. read_spooled sp x = Some (s\<lparr>sg_data := d\<rparr>)"
proof -
  have ex: "cur_exists sp" using assms no_folder_reads [of "disk_damage seq b sp" x] by (auto simp: disk_damage_def)
  then show ?thesis using assms
    by (auto simp: read_spooled_def disk_damage_def cur_folder_upd map_of_map_entry split: option.splits jfile.splits if_splits)
qed

subsection \<open>A new segment\<close>

lemma seg_good_data [simp]: "seg_good C ev next (s\<lparr>sg_data := d\<rparr>) = seg_good C ev next s"
  by (simp add: seg_good_def)

lemma listed_ok_extend: "listed_ok h C ev n bkt m \<Longrightarrow> listed_ok h (C(n := c)) ev (Suc n) bkt m"
  by (auto simp: listed_ok_def object_ok_def)

lemma doc_ok_extend: "doc_ok h C ev n bkt j \<Longrightarrow> doc_ok h (C(n := c)) ev (Suc n) bkt j"
  using listed_ok_extend by (auto simp: doc_ok_def)

lemma session_inv_extend:
  "session_inv h C ev n ss \<Longrightarrow> c \<noteq> [] \<Longrightarrow> Suc n \<le> seq_limit \<Longrightarrow> session_inv h (C(n := c)) ev (Suc n) ss"
  by (auto simp: session_inv_def listed_ok_extend doc_ok_extend less_Suc_eq)

lemma seg_good_extend: "seg_good C ev n s \<Longrightarrow> seg_good (C(n := c)) ev (Suc n) s"
  by (auto simp: seg_good_def)

lemma phase_ok_extend: "phase_ok h C ev n p \<Longrightarrow> phase_ok h (C(n := c)) ev (Suc n) p"
  by (auto simp: phase_ok_def seg_good_extend split: upload_phase.splits)

lemma fold_dropped_inv: "session_inv h C ev n ss \<Longrightarrow> session_inv h C ev n (fold on_dropped ds ss)"
  by (induction ds arbitrary: ss) (simp_all add: on_dropped_inv)

lemma fold_dropped_frame [simp]:
  "ss_bucket (fold on_dropped ds ss) = ss_bucket ss" "ss_next_seq (fold on_dropped ds ss) = ss_next_seq ss"
  by (induction ds arbitrary: ss) (simp_all add: on_dropped_def set_error_def)

lemma publish_segment_inv:
  assumes inv: "encoder_inv h C ev e" and h: "\<And>b. h b \<noteq> []"
    and pub: "publish_segment h now fragment dur pts (en_up e) = (up', Inr seq)" and lim: "seq + 1 < seq_limit"
  shows "encoder_inv h (C(seq := h fragment)) ev (e\<lparr>en_up := up'\<rparr>)"
proof -
  let ?ss = "up_host (en_up e)" and ?C = "C(seq := h fragment)"
  let ?seg = "\<lparr>sg_seq = seq, sg_data = fragment, sg_duration_s = dur, sg_pts_offset_s = pts,
               sg_checksum = [], sg_key = segment_key ?ss seq\<rparr>"
  let ?ss1 = "?ss\<lparr>ss_next_seq := inc64 seq, ss_live_media_ms := trunc ((pts + dur) * 1000)\<rparr>"
  obtain sp ck drops where seq: "seq = ss_next_seq ?ss" and enq: "enqueue h (up_spool (en_up e)) ?seg now = Inr (sp, ck, drops)"
    and up': "up' = (en_up e)\<lparr>up_spool := sp, up_host := fold on_dropped drops ?ss1\<rparr>"
    using pub by (auto simp: publish_segment_def Let_def split: sum.splits prod.splits)
  have nx: "inc64 seq = Suc seq" using lim by (simp add: u64_simps u64_max_def seq_limit_def)
  have i: "session_inv h C ev seq ?ss" "\<forall>x s. read_spooled (up_spool (en_up e)) x = Some s \<longrightarrow> seg_good C ev seq s"
    "phase_ok h C ev seq (en_phase e)"
    "\<forall>k j g. en_publishing e = Some (k, j, g) \<longrightarrow> k = manifest_key ev \<and> doc_ok h C ev seq (ss_bucket ?ss) j"
    using inv by (auto simp: encoder_inv_def Let_def seq)
  have s1: "session_inv h ?C ev (Suc seq) ?ss1"
    by (rule session_inv_fields [OF session_inv_extend [OF i(1) h]]) (use lim in simp_all)
  have "seg_good ?C ev (Suc seq) (sealed h ?seg)"
    using inv_event_id [OF i(1)] by (simp add: seg_good_def segment_key_eq sealed_def)
  then have "\<forall>x s. read_spooled sp x = Some s \<longrightarrow> seg_good ?C ev (Suc seq) s"
    using enqueue_reads [OF enq] i(2) seg_good_extend by blast
  then show ?thesis
    using fold_dropped_inv [OF s1] phase_ok_extend [OF i(3)] i(4) doc_ok_extend
    by (auto simp: encoder_inv_def Let_def up' nx)
qed


subsection \<open>Steps and runs\<close>

lemma on_session_inv:
  assumes "encoder_inv h C ev e" "op_ok h f"
  shows "encoder_inv h C ev (on_session f e)"
  using assms doc_ok_keeps by (auto simp: encoder_inv_def on_session_def op_ok_def Let_def) metis+

lemma on_spool_inv:
  assumes "encoder_inv h C ev e"
    "\<And>x s. read_spooled (f (up_spool (en_up e))) x = Some s \<Longrightarrow> \<exists>d. read_spooled (up_spool (en_up e)) x = Some (s\<lparr>sg_data := d\<rparr>)"
  shows "encoder_inv h C ev (on_spool f e)"
proof -
  have "seg_good C ev (ss_next_seq (up_host (en_up e))) s" if "read_spooled (f (up_spool (en_up e))) x = Some s" for x s
    using assms(1) assms(2) [OF that] by (auto simp: encoder_inv_def Let_def) (metis seg_good_data)
  then show ?thesis using assms(1) by (simp add: encoder_inv_def on_spool_def Let_def)
qed

lemma confirm_reads_data: "read_spooled (confirm sp seq t now) x = Some s \<Longrightarrow> \<exists>d. read_spooled sp x = Some (s\<lparr>sg_data := d\<rparr>)"
  by (rule exI [of _ "sg_data s"]) (auto dest: confirm_subset)

lemma session_host_next [simp]:
  "ss_next_seq (ho_put (session_host l) a k b ss) = ss_next_seq ss"
  "ss_next_seq (ho_confirm (session_host l) a s ss) = ss_next_seq ss"
  "ss_next_seq (ho_confirmed_after (session_host l) a s ss) = ss_next_seq ss"
  "ss_next_seq (ho_skipped (session_host l) n ss) = ss_next_seq ss"
  by (simp_all add: session_host_def on_confirmed_def queue_manifest_locked_def put_json_def Let_def)

lemma session_host_keeps:
  assumes "session_inv h C ev n ss" "seg_good C ev n s" "\<not> damaged h s"
  shows "bucket_keeps h C ev n (ss_bucket ss) (ss_bucket (ho_put (session_host l) a (sg_key s) (sg_data s) ss))"
  using assms good_intact [OF assms]
  by (auto simp: bucket_keeps_def session_host_def seg_good_def session_inv_def intro: object_ok_segment_put)

lemma on_confirmed_keeps: "ss_event_id ss = ev \<Longrightarrow> bucket_keeps h C ev n (ss_bucket ss) (ss_bucket (on_confirmed ans ended now s ss))"
  by (simp add: on_confirmed_def queue_manifest_locked_def put_json_def Let_def bucket_keeps_doc)

lemma bucket_keeps_trans: "bucket_keeps h C ev n a b \<Longrightarrow> bucket_keeps h C ev n b c \<Longrightarrow> bucket_keeps h C ev n a c"
  by (auto simp: bucket_keeps_def)

lemma upload_finish_keeps:
  assumes "session_inv h C ev n (up_host up)" "seg_good C ev n seg" "\<not> damaged h seg"
    "upload_finish cfg (session_host l) seg a k up = (s, up')"
  shows "bucket_keeps h C ev n (ss_bucket (up_host up)) (ss_bucket (up_host up')) \<and> ss_next_seq (up_host up') = ss_next_seq (up_host up)"
proof -
  let ?ss1 = "ho_put (session_host l) a (sg_key seg) (sg_data seg) (up_host up)"
  have k1: "bucket_keeps h C ev n (ss_bucket (up_host up)) (ss_bucket ?ss1)" by (rule session_host_keeps [OF assms(1-3)])
  have ev: "ss_event_id ?ss1 = ev" using inv_event_id [OF assms(1)] by (simp add: session_host_def)
  have k2: "bucket_keeps h C ev n (ss_bucket ?ss1) (ss_bucket (ho_confirmed_after (session_host l) a seg (ho_confirm (session_host l) a seg ?ss1)))"
    using on_confirmed_keeps [OF ev] by (simp add: session_host_def)
  show ?thesis
  proof (cases "s = Uploaded")
    case True
    then show ?thesis using upload_finish_outcome(2) [OF assms(4)] bucket_keeps_trans [OF k1 k2] by simp
  next
    case False
    then show ?thesis using upload_finish_outcome(3) [OF assms(4)] k1 by simp
  qed
qed

text \<open>The upload thread's steps, through the contract of the uploader's host.\<close>

lemma upload_answer_inv:
  assumes inv: "encoder_inv h C ev e" and ph: "en_phase e = Sent seg n"
    and fin: "upload_finish cfg (session_host l) seg a n (en_up e) = (s, up')"
    and p': "phase_ok h C ev (ss_next_seq (up_host (en_up e))) p'"
  shows "encoder_inv h C ev (e\<lparr>en_up := up', en_phase := p'\<rparr>)"
proof -
  let ?n = "ss_next_seq (up_host (en_up e))"
  have i: "session_inv h C ev ?n (up_host (en_up e))" "seg_good C ev ?n seg" "\<not> damaged h seg"
    using inv ph by (auto simp: encoder_inv_def Let_def phase_ok_def)
  have "session_uploads.up_ok C ev ?n h (en_up e)" using inv by (simp add: session_uploads.up_ok_def encoder_inv_def Let_def)
  then have ok: "session_uploads.up_ok C ev ?n h up'" by (rule session_uploads.upload_finish_ok [OF _ i(2,3) fin])
  note k = upload_finish_keeps [OF i fin]
  show ?thesis
    using inv ok k p' doc_ok_keeps [OF conjunct1 [OF k]]
    by (auto simp: encoder_inv_def Let_def session_uploads.up_ok_def)
qed

lemma upload_skip_inv:
  assumes "encoder_inv h C ev e"
  shows "encoder_inv h C ev (e\<lparr>en_up := skip_damaged cfg (session_host l) seg now (en_up e)\<rparr>)"
proof -
  let ?n = "ss_next_seq (up_host (en_up e))"
  have "session_uploads.up_ok C ev ?n h (en_up e)" using assms by (simp add: session_uploads.up_ok_def encoder_inv_def Let_def)
  then have "session_uploads.up_ok C ev ?n h (skip_damaged cfg (session_host l) seg now (en_up e))"
    by (rule session_uploads.skip_damaged_ok)
  then show ?thesis using assms
    by (auto simp: encoder_inv_def Let_def session_uploads.up_ok_def skip_damaged_def) (auto simp: session_host_def)
qed

lemma manifest_take_inv:
  assumes "encoder_inv h C ev e" "manifest_take (up_host (en_up e)) = (Some taken, ss')"
  shows "encoder_inv h C ev (on_session (\<lambda>_. ss') (e\<lparr>en_publishing := Some taken\<rparr>))"
proof -
  let ?ss = "up_host (en_up e)"
  obtain j where j: "ss_manifest_pending ?ss = Some j" "taken = (ss_manifest_key ?ss, j, ss_manifest_queued ?ss)"
    "ss' = ?ss\<lparr>ss_manifest_pending := None, ss_manifest_dirty := False\<rparr>"
    using assms(2) by (auto simp: manifest_take_def split: if_splits option.splits)
  then show ?thesis using assms(1) by (auto simp: encoder_inv_def on_session_def session_inv_def Let_def)
qed

lemma manifest_put_inv:
  assumes "encoder_inv h C ev e" "en_publishing e = Some taken"
  shows "encoder_inv h C ev (on_session (manifest_put ans taken) (e\<lparr>en_publishing := None\<rparr>))"
proof -
  let ?ss = "up_host (en_up e)" and ?n = "ss_next_seq (up_host (en_up e))"
  obtain k j g where t: "taken = (k, j, g)" by (cases taken)
  have k: "k = manifest_key ev" "doc_ok h C ev ?n (ss_bucket ?ss) j" "session_inv h C ev ?n ?ss"
    using assms t by (auto simp: encoder_inv_def Let_def)
  have "session_inv h C ev ?n (fst (put_json ans k j ?ss))" unfolding k(1) by (rule put_manifest_inv [OF k(3,2)])
  then have "session_inv h C ev ?n (manifest_put ans taken ?ss)"
    by (rule session_inv_fields) (simp_all add: manifest_put_def t Let_def)
  then show ?thesis
    using assms(1) by (auto simp: encoder_inv_def on_session_def Let_def) (auto simp: manifest_put_def t Let_def put_json_def)
qed

lemma peeked_good:
  assumes "encoder_inv h C ev e" "peek_next (up_spool (en_up e)) t = Some seg"
  shows "seg_good C ev (ss_next_seq (up_host (en_up e))) seg"
proof -
  have "session_uploads.up_ok C ev (ss_next_seq (up_host (en_up e))) h (en_up e)"
    using assms(1) by (simp add: session_uploads.up_ok_def encoder_inv_def Let_def)
  then show ?thesis using assms(2) by (rule session_uploads.peek_seg_ok)
qed

lemma phase_inv: "encoder_inv h C ev e \<Longrightarrow> phase_ok h C ev (ss_next_seq (up_host (en_up e))) p \<Longrightarrow> encoder_inv h C ev (e\<lparr>en_phase := p\<rparr>)"
  by (simp add: encoder_inv_def Let_def)

lemma mirror_pass_inv:
  assumes "encoder_inv h C ev e"
  shows "encoder_inv h C ev (e\<lparr>en_up := mirror_objects_pass anss (en_up e)\<rparr>)"
proof -
  obtain ss' where "mirror_objects_pass anss (en_up e) = (en_up e)\<lparr>up_host := ss'\<rparr>"
    "ss_event_id ss' = ss_event_id (up_host (en_up e))" "ss_manifest ss' = ss_manifest (up_host (en_up e))"
    "ss_manifest_pending ss' = ss_manifest_pending (up_host (en_up e))"
    "ss_manifest_key ss' = ss_manifest_key (up_host (en_up e))" "ss_bucket ss' = ss_bucket (up_host (en_up e))"
    "ss_next_seq ss' = ss_next_seq (up_host (en_up e))"
    using mirror_pass_frame [of anss "en_up e"] by blast
  then show ?thesis using assms by (simp add: encoder_inv_def session_inv_def Let_def)
qed

lemma encoder_step_inv:
  assumes "encoder_step h e e'" "encoder_inv h C ev e" "\<And>b. h b \<noteq> []"
  shows "\<exists>C'. encoder_inv h C' ev e'"
  using assms(1)
proof cases
  case (step_publish_segment now fragment dur pts up' seq)
  then show ?thesis using publish_segment_inv [OF assms(2,3)] by blast
next
  case (step_upload_peek seg)
  have "seg_good C ev (ss_next_seq (up_host (en_up e))) seg" by (rule peeked_good [OF assms(2) step_upload_peek(3)])
  then show ?thesis using step_upload_peek phase_inv [OF assms(2), of "Trying seg 0"] by (auto simp: phase_ok_def)
next
  case (step_upload_send seg n a)
  then show ?thesis using phase_inv [OF assms(2), of "Sent seg (n + 1)"] assms(2)
    by (auto simp: phase_ok_def encoder_inv_def Let_def)
next
  case (step_upload_abandon seg n a)
  then show ?thesis using phase_inv [OF assms(2), of Idle] by (auto simp: phase_ok_def)
next
  case (step_upload_answer seg n live_ans a s up')
  have "phase_ok h C ev (ss_next_seq (up_host (en_up e))) (case s of Again k \<Rightarrow> Trying seg k | _ \<Rightarrow> Idle)"
    using assms(2) step_upload_answer(2) by (auto simp: phase_ok_def encoder_inv_def Let_def split: upload_step.splits)
  then show ?thesis using upload_answer_inv [OF assms(2) step_upload_answer(2,3)] step_upload_answer(1) by blast
next
  case (step_mirror_segment seg now)
  then show ?thesis using on_spool_inv [OF assms(2)] confirm_reads_data by metis
next
  case (step_disk_damage seq b)
  then show ?thesis using on_spool_inv [OF assms(2)] damage_reads by metis
next
  case step_heartbeat
  then show ?thesis using on_session_inv [OF assms(2) op_ok_heartbeat] by blast
next
  case step_add_marker
  then show ?thesis using on_session_inv [OF assms(2) op_ok_add_marker] by blast
next
  case step_add_cue_from
  then show ?thesis using on_session_inv [OF assms(2) op_ok_add_cue_from] by blast
next
  case step_manifest_take
  then show ?thesis using manifest_take_inv [OF assms(2)] by blast
next
  case step_manifest_put
  then show ?thesis using manifest_put_inv [OF assms(2)] by blast
next
  case step_upload_skip
  then show ?thesis using upload_skip_inv [OF assms(2)] by blast
next
  case step_mirror_objects
  then show ?thesis using mirror_pass_inv [OF assms(2)] by blast
qed

lemma encoder_run_inv:
  assumes "encoder_run h e e'" "encoder_inv h C ev e" "\<And>b. h b \<noteq> []"
  shows "\<exists>C'. encoder_inv h C' ev e'"
  using assms
proof (induction rule: encoder_run.induct)
  case (run_step e e' e'')
  then show ?case using encoder_step_inv by blast
qed blast


subsection \<open>Going live establishes the invariant\<close>

lemma fresh_queue_inv:
  assumes "ss_event_id ss = ev" "mf_segments m = []" "ss_bucket ss (manifest_key ev) = None"
  shows "session_inv h C ev 0 (fst (queue_manifest_locked (ss\<lparr>ss_manifest := m\<rparr>)))"
  using assms unfolding session_inv_def doc_ok_def listed_ok_def
  by (auto simp: queue_manifest_locked_def Let_def event_prefix_def manifest_key_def)

lemma manifest_publish_inv:
  assumes "session_inv h C ev n ss"
  shows "session_inv h C ev n (manifest_publish ans ss)"
proof (cases "manifest_take ss")
  case (Pair t ss1)
  show ?thesis
  proof (cases t)
    case None
    then show ?thesis using assms Pair by (auto simp: manifest_publish_def manifest_take_def split: if_splits option.splits)
  next
    case (Some taken)
    then obtain j where j: "ss_manifest_pending ss = Some j" "taken = (ss_manifest_key ss, j, ss_manifest_queued ss)"
      "ss1 = ss\<lparr>ss_manifest_pending := None, ss_manifest_dirty := False\<rparr>"
      using Pair by (auto simp: manifest_take_def split: if_splits option.splits)
    have i1: "session_inv h C ev n ss1" "doc_ok h C ev n (ss_bucket ss1) j" "ss_manifest_key ss = manifest_key ev"
      using assms j by (auto simp: session_inv_def)
    have "session_inv h C ev n (fst (put_json ans (manifest_key ev) j ss1))" by (rule put_manifest_inv [OF i1(1,2)])
    then show ?thesis
      by (rule session_inv_fields) (simp_all add: manifest_publish_def Pair Some manifest_put_def j(2) i1(3) Let_def)
  qed
qed

lemma flush_manifest_inv: "session_inv h C ev n ss \<Longrightarrow> session_inv h C ev n (fst (flush_manifest t ss))"
  by (auto simp: flush_manifest_def manifest_publish_inv split: option.split)

lemma put_json_frame [simp]:
  "ss_event_id (fst (put_json ans k j ss)) = ss_event_id ss" "ss_manifest (fst (put_json ans k j ss)) = ss_manifest ss"
  "ss_bucket (fst (put_json ans k j ss)) = store_put (fst ans) (snd ans) k (Doc j) (ss_bucket ss)"
  "ss_next_seq (fst (put_json ans k j ss)) = ss_next_seq ss" "ss_cfg (fst (put_json ans k j ss)) = ss_cfg ss"
  "snd (put_json ans k j ss) = pr_success (fst ans)"
  by (simp_all add: put_json_def)

lemma publish_next [simp]:
  "ss_next_seq (fst (queue_manifest_locked ss)) = ss_next_seq ss" "ss_next_seq (publish_live ans st now ss) = ss_next_seq ss"
  "ss_next_seq (manifest_put ans taken ss) = ss_next_seq ss" "ss_next_seq (manifest_publish ans ss) = ss_next_seq ss"
  "ss_next_seq (fst (flush_manifest t ss)) = ss_next_seq ss"
proof -
  show "ss_next_seq (fst (queue_manifest_locked ss)) = ss_next_seq ss" by (simp add: queue_manifest_locked_def Let_def)
  show "ss_next_seq (publish_live ans st now ss) = ss_next_seq ss" by (simp add: publish_live_def Let_def)
  have p: "ss_next_seq (manifest_put ans taken ss) = ss_next_seq ss" for ans taken ss
    by (cases taken) (simp add: manifest_put_def Let_def)
  have q: "ss_next_seq (manifest_publish ans ss) = ss_next_seq ss" for ans
    by (auto simp: manifest_publish_def manifest_take_def p split: option.split)
  show "ss_next_seq (manifest_put ans taken ss) = ss_next_seq ss" "ss_next_seq (manifest_publish ans ss) = ss_next_seq ss"
    by (rule p, rule q)
  show "ss_next_seq (fst (flush_manifest t ss)) = ss_next_seq ss"
    by (auto simp: flush_manifest_def q split: option.split)
qed

lemma begin_publish_inv:
  assumes "ss_event_id ss = ev" "ct_manifest cont = None" "ss_bucket ss (manifest_key ev) = None" "ss_next_seq ss = 0"
  shows "session_inv h C ev 0 (begin_publish ba cont evi init video tracks ss) \<and>
         ss_next_seq (begin_publish ba cont evi init video tracks ss) = 0"
proof -
  let ?ss1 = "lan (Lan_Event_Started (ss_event_id ss) (event_info_to_json evi) init) ss"
  let ?m = "(seed_manifest cont evi video tracks ?ss1)\<lparr>mf_status := ''live'', mf_updated_at_ms := ba_now_manifest ba\<rparr>"
  have "session_inv h C ev 0 (fst (queue_manifest_locked (?ss1\<lparr>ss_manifest := ?m\<rparr>)))"
    by (rule fresh_queue_inv) (simp_all add: assms seed_manifest_def manifest_default_def)
  from flush_manifest_inv [OF this] show ?thesis
    using assms(4) by (simp add: begin_publish_def Let_def publish_live_inv case_prod_beta)
qed

lemma begin_common_new:
  assumes "begin_common ba continuing_none init video tracks ss = (ss', True)"
    "ss_event_id ss = ev" "ss_bucket ss (manifest_key ev) = None" "ss_next_seq ss = 0"
  shows "session_inv h C ev 0 ss' \<and> ss_next_seq ss' = 0"
proof -
  obtain ss3 evi where "ss' = begin_publish ba continuing_none evi init video tracks ss3" "ss_event_id ss3 = ev"
    "ss_bucket ss3 (manifest_key ev) = None" "ss_next_seq ss3 = 0"
    using assms
    by (auto simp: begin_common_def continuing_none_def clear_error_def case_prod_beta Let_def event_prefix_def manifest_key_def
        room_event_key_def room_events_prefix_def event_prefix_for_def split: if_splits)
  then show ?thesis using begin_publish_inv [of ss3 ev continuing_none] by (simp add: continuing_none_def)
qed

definition broadcast :: "session uploader \<Rightarrow> encoder" where
  "broadcast up = \<lparr>en_up = up, en_phase = Idle, en_publishing = None\<rparr>"

lemma start_new_inv:
  assumes "start_new ba ev now init video tracks up = (up', True)" "ev \<noteq> []" "ss_bucket (up_host up) (manifest_key ev) = None"
  shows "encoder_inv h C ev (broadcast up')"
proof -
  let ?ss = "(up_host up)\<lparr>ss_event_id := ev, ss_next_seq := 0, ss_markers := marker_list_default, ss_guest_markers := marker_list_default\<rparr>"
  obtain ss' where b: "begin_common ba continuing_none init video tracks ?ss = (ss', True)"
    and up': "up' = up\<lparr>up_spool := begin_event (up_spool up) ev 0 now, up_host := ss'\<rparr>"
    using assms(1) by (auto simp: start_new_def Let_def split: prod.splits)
  have s: "session_inv h C ev 0 ss' \<and> ss_next_seq ss' = 0" by (rule begin_common_new [OF b]) (use assms(3) in simp_all)
  have "read_spooled (begin_event (up_spool up) ev 0 now) x = None" for x
    using assms(2) by (simp add: read_spooled_def begin_event_state)
  then show ?thesis using s by (simp add: encoder_inv_def broadcast_def up' phase_ok_def)
qed

subsection \<open>What a decoder reads back\<close>

lemma jmap_Inr_in: "jmap f xs = Inr ys \<Longrightarrow> y \<in> set ys \<Longrightarrow> \<exists>x\<in>set xs. f x = Inr y"
  by (induction xs arbitrary: ys) (auto simp: jbind_Inr)

lemma decoded_segment:
  assumes "manifest_segment_from_json (manifest_segment_to_json s0) = Inr s" "ms_seq s0 < 2 ^ 64"
  shows "ms_seq s = ms_seq s0 \<and> ms_checksum s = ms_checksum s0"
  using assms by (auto simp: manifest_segment_from_json_def manifest_segment_to_json_def jbind_Inr nat_mod_as_int)

lemma decoded_segments:
  assumes "manifest_from_json (manifest_to_json m0) = Inr m" "s \<in> set (mf_segments m)" "\<forall>s0\<in>set (mf_segments m0). ms_seq s0 < 2 ^ 64"
  shows "\<exists>s0\<in>set (mf_segments m0). ms_seq s0 = ms_seq s \<and> ms_checksum s0 = ms_checksum s"
proof -
  have "jmap manifest_segment_from_json (map manifest_segment_to_json (mf_segments m0)) = Inr (mf_segments m)"
    using assms(1) unfolding manifest_from_json_def manifest_to_json_def by (auto simp: jbind_Inr)
  from jmap_Inr_in [OF this assms(2)] obtain s0 where "s0 \<in> set (mf_segments m0)"
    "manifest_segment_from_json (manifest_segment_to_json s0) = Inr s" by auto
  then show ?thesis using decoded_segment assms(3) by metis
qed

text \<open>
  C1: The write-ordering rule. However the threads of a broadcast interleave, and whatever the store
  and the disk do to them, a segment listed in the \<^verbatim>\<open>manifest.json\<close> the bucket holds is itself in
  the bucket, and its bytes have the checksum the manifest gives.
\<close>

theorem manifest_lists_only_stored:
  assumes "start_new ba ev now init video tracks up = (up', True)" and "ev \<noteq> []"
    and "ss_bucket (up_host up) (manifest_key ev) = None" and "\<And>b. h b \<noteq> []"
    and "encoder_run h (broadcast up') e"
    and "ss_bucket (up_host (en_up e)) (manifest_key ev) = Some (Doc j)" and "manifest_from_json j = Inr m"
  shows "\<forall>s\<in>set (mf_segments m). \<exists>b. ss_bucket (up_host (en_up e)) (segment_key_for ev (ms_seq s)) = Some (Bytes b) \<and>
     h b = ms_checksum s"
proof
  fix s assume s: "s \<in> set (mf_segments m)"
  let ?ss = "up_host (en_up e)"
  obtain C where "encoder_inv h C ev e"
    using encoder_run_inv [OF assms(5) start_new_inv [OF assms(1-3)] assms(4)] by blast
  then have inv: "session_inv h C ev (ss_next_seq ?ss) ?ss" by (simp add: encoder_inv_def Let_def)
  then obtain m0 where m0: "j = manifest_to_json m0" "listed_ok h C ev (ss_next_seq ?ss) (ss_bucket ?ss) m0"
    using assms(6) by (auto simp: session_inv_def doc_ok_def)
  have "\<forall>s0\<in>set (mf_segments m0). ms_seq s0 < 2 ^ 64"
    using m0(2) inv by (force simp: listed_ok_def session_inv_def seq_limit_def)
  then obtain s0 where "s0 \<in> set (mf_segments m0)" "ms_seq s0 = ms_seq s" "ms_checksum s0 = ms_checksum s"
    using decoded_segments s assms(7) m0(1) by blast
  then show "\<exists>b. ss_bucket ?ss (segment_key_for ev (ms_seq s)) = Some (Bytes b) \<and> h b = ms_checksum s"
    using m0(2) by (auto simp: listed_ok_def object_ok_def)
qed


section \<open>Other properties of the session\<close>

subsection \<open>Event ids sort by time\<close>

lemma b32_time_length [simp]: "length (b32_time n ts) = n"
  by (induction n arbitrary: ts) simp_all

lemma lex_append_same_length:
  fixes xs ys :: "'a :: linorder list"
  shows "length xs = length ys \<Longrightarrow> xs < ys \<Longrightarrow> xs @ us < ys @ vs"
  by (induction xs ys rule: list_induct2) auto

lemma lex_append_left: "(us :: 'a :: linorder list) < vs \<Longrightarrow> xs @ us < xs @ vs"
  by (induction xs) auto

lemma b32_alphabet_increasing: "i < j \<Longrightarrow> j < 32 \<Longrightarrow> b32_alphabet ! i < b32_alphabet ! j"
proof -
  have "sorted_wrt (<) b32_alphabet" "length b32_alphabet = 32"
    by (simp_all add: b32_alphabet_def less_char_def)
  then show "i < j \<Longrightarrow> j < 32 \<Longrightarrow> b32_alphabet ! i < b32_alphabet ! j"
    by (simp add: sorted_wrt_iff_nth_less)
qed

lemma b32_time_mono: "ts < ts' \<Longrightarrow> ts' < 32 ^ n \<Longrightarrow> b32_time n ts < b32_time n ts'"
proof (induction n arbitrary: ts ts')
  case (Suc n)
  have le: "ts div 32 \<le> ts' div 32" using Suc.prems(1) by (simp add: div_le_mono)
  have lim: "ts' div 32 < 32 ^ n" using Suc.prems(2) by (simp add: div_less_iff_less_mult mult.commute)
  show ?case
  proof (cases "ts div 32 = ts' div 32")
    case True
    then have "ts mod 32 < ts' mod 32" using Suc.prems(1) by (metis div_mod_decomp nat_add_left_cancel_less)
    then show ?thesis using True b32_alphabet_increasing [of "ts mod 32" "ts' mod 32"] by (simp add: lex_append_left)
  next
    case False
    then have "b32_time n (ts div 32) < b32_time n (ts' div 32)" using Suc.IH le lim by simp
    then show ?thesis by (simp add: lex_append_same_length)
  qed
qed simp

text \<open>Event ids made at later times sort after earlier ones, whatever their random parts.\<close>

lemma event_ids_sort_by_time:
  assumes "0 \<le> t" "t < t'" "t' < 2 ^ 50"
  shows "make_event_id t draws < make_event_id t' draws'"
proof -
  have "nat t < nat t'" "nat t' < 32 ^ 10" using assms by (auto simp: nat_less_iff)
  from b32_time_mono [OF this] show ?thesis using assms by (simp add: make_event_id_def lex_append_same_length)
qed

subsection \<open>Publishing a segment\<close>

lemma fold_dropped_gaps:
  assumes "gaps_ok (mf_gaps (ss_manifest ss))" "\<forall>d\<in>set ds. dr_seq d \<le> u64_max"
  shows "gap_set (mf_gaps (ss_manifest (fold on_dropped ds ss))) = gap_set (mf_gaps (ss_manifest ss)) \<union> dr_seq ` set ds"
  using assms
proof (induction ds arbitrary: ss)
  case (Cons d ds)
  let ?ss = "on_dropped d ss"
  have g: "mf_gaps (ss_manifest ?ss) = add_gap_in (mf_gaps (ss_manifest ss)) (dr_seq d)"
    by (simp add: on_dropped_def set_error_def add_gap_def)
  have "gaps_ok (mf_gaps (ss_manifest ?ss))" "gap_set (mf_gaps (ss_manifest ?ss)) = insert (dr_seq d) (gap_set (mf_gaps (ss_manifest ss)))"
    unfolding g using add_gap_in_facts Cons.prems by auto
  then show ?case using Cons.IH [of ?ss] Cons.prems(2) by auto
qed simp

text \<open>
  C13: \<open>publish_segment\<close> hands out consecutive sequence numbers, makes the fragment durable under its
  segment key with the checksum of its bytes before it returns, never touches the bucket, and
  records every segment the disk cap dropped as a gap of the manifest.
\<close>

theorem publish_segment_durable:
  assumes ok: "spool_ok (up_spool up) (ss_next_seq (up_host up))" and lim: "ss_next_seq (up_host up) < u64_max"
    and gaps: "gaps_ok (mf_gaps (ss_manifest (up_host up)))"
    and pub: "publish_segment h now fragment dur pts up = (up', r)"
  shows "r = Inr (ss_next_seq (up_host up)) \<and> ss_next_seq (up_host up') = ss_next_seq (up_host up) + 1 \<and>
    ss_bucket (up_host up') = ss_bucket (up_host up) \<and>
    read_spooled (up_spool up') (ss_next_seq (up_host up)) =
      Some \<lparr>sg_seq = ss_next_seq (up_host up), sg_data = fragment, sg_duration_s = dur, sg_pts_offset_s = pts,
            sg_checksum = h fragment, sg_key = segment_key_for (ss_event_id (up_host up)) (ss_next_seq (up_host up))\<rparr> \<and>
    spool_ok (up_spool up') (ss_next_seq (up_host up')) \<and>
    gap_set (mf_gaps (ss_manifest (up_host up'))) = gap_set (mf_gaps (ss_manifest (up_host up))) \<union>
      (set (pending_seqs (up_spool up)) - set (pending_seqs (up_spool up')))"
proof -
  let ?ss = "up_host up" and ?n = "ss_next_seq (up_host up)"
  let ?seg = "\<lparr>sg_seq = ?n, sg_data = fragment, sg_duration_s = dur, sg_pts_offset_s = pts,
               sg_checksum = [], sg_key = segment_key ?ss ?n\<rparr>"
  let ?ss1 = "?ss\<lparr>ss_next_seq := inc64 ?n, ss_live_media_ms := trunc ((pts + dur) * 1000)\<rparr>"
  obtain sp drops where enq: "enqueue h (up_spool up) ?seg now = Inr (sp, h fragment, drops)"
    using enqueue_total [OF ok, of h ?seg now] by auto
  then have r: "r = Inr ?n" "up' = up\<lparr>up_spool := sp, up_host := fold on_dropped drops ?ss1\<rparr>"
    using pub by (auto simp: publish_segment_def Let_def)
  obtain k where k: "k \<le> length (pending_seqs (up_spool up))" "pending_seqs sp = drop k (pending_seqs (up_spool up)) @ [?n]"
    "map dr_seq drops = take k (pending_seqs (up_spool up))" "read_spooled sp ?n = Some (sealed h ?seg)" "spool_ok sp (?n + 1)"
    using enqueue_facts [OF ok _ enq] by auto
  let ?p = "pending_seqs (up_spool up)"
  have ds: "dr_seq ` set drops = set (take k ?p)" using arg_cong [OF k(3), of set] by simp
  have lt: "\<forall>x\<in>set ?p. x < ?n" using ok by (simp add: spool_ok_def list_all_iff)
  have dis: "set (take k ?p) \<inter> set (drop k ?p) = {}"
    using spool_ok_distinct [OF ok] by (metis append_take_drop_id distinct_append)
  have "set ?p = set (take k ?p) \<union> set (drop k ?p)" by (metis append_take_drop_id set_append)
  then have drop_eq: "set ?p - set (pending_seqs sp) = set (take k ?p)" using k(2) dis lt by auto
  have "dr_seq d < ?n" if "d \<in> set drops" for d using that ds lt by (metis imageI in_set_takeD)
  then have "\<forall>d\<in>set drops. dr_seq d \<le> u64_max" using lim by (metis less_imp_le less_trans)
  with gaps have g: "gap_set (mf_gaps (ss_manifest (fold on_dropped drops ?ss1))) = gap_set (mf_gaps (ss_manifest ?ss)) \<union> dr_seq ` set drops"
    using fold_dropped_gaps [of ?ss1 drops] by simp
  show ?thesis using r k(4,5) g ds drop_eq lim by (simp add: sealed_def segment_key_eq u64_simps)
qed

subsection \<open>Ending\<close>

text \<open>The publisher's counters: what is done was queued.\<close>

interpretation publisher_counts: uploader_host h "session_host live_ans" "\<lambda>ss k b. ss_bucket ss k = Some (Bytes b)"
    "\<lambda>s. True" "\<lambda>ss. ss_manifest_done ss \<le> ss_manifest_queued ss"
  by unfold_locales
     (auto simp: session_host_def on_confirmed_def queue_manifest_locked_def put_json_def put_bytes_def lan_def set_error_def Let_def)

definition owes_ending :: "spool \<Rightarrow> bool" where
  "owes_ending sp = (st_ended (sp_state sp) \<and> st_end_unpublished (sp_state sp))"

lemma remove_if_done_state: "sp_state (fst (remove_if_done sp)) = sp_state sp"
  by (simp add: remove_if_done_def)

lemma mark_ended_state [simp]:
  "sp_state (mark_ended sp published) = (sp_state sp)\<lparr>st_ended := True, st_end_unpublished := \<not> published\<rparr>"
  by (simp add: mark_ended_def)

lemma put_json_error:
  "ss_last_error (fst (put_json ans k j ss)) =
     (if pr_success (fst ans) then ss_last_error ss
      else ''PUT '' @ k @ '' -> HTTP '' @ int_str (pr_http_status (fst ans)) @ '' '' @ pr_error (fst ans))"
  by (simp add: put_json_def put_bytes_def Let_def set_error_def)

lemma live_key_not_manifest: "live_pointer_key room \<noteq> manifest_key ev" "manifest_key ev \<noteq> live_pointer_key room"
  by (simp_all add: live_pointer_key_def manifest_key_def event_prefix_for_def)

text \<open>The last writes of \<open>end\<close>, on the session the drain left behind.\<close>

definition end_publish :: "end_answers \<Rightarrow> session \<Rightarrow> session" where
  "end_publish ea ss =
     (let ss1 = clear_error ss;
          ss2 = ss1\<lparr>ss_manifest := (ss_manifest ss1)\<lparr>mf_status := ''ended'', mf_updated_at_ms := ea_now_manifest ea\<rparr>\<rparr>;
          (ss3, json) = queue_manifest_locked ss2
      in publish_live (ea_live ea) ''ended'' (ea_now_live ea)
           (lan (Lan_Manifest_Published json) (fst (flush_manifest (ea_manifest ea) ss3))))"

lemma end_session_eq:
  "end_session h ea up =
     map_option (\<lambda>(drained, up1).
       let ss = end_publish ea (up_host up1); ok = (ss_last_error ss = [])
       in (up1\<lparr>up_spool := fst (remove_if_done (mark_ended (up_spool up1) ok)), up_host := ss\<rparr>, ok))
     (drain_blocking h (session_uploader_config (ss_cfg (up_host up))) (session_host (ea_heartbeat ea)) (ea_turns ea) up)"
  by (simp add: end_session_def end_publish_def Let_def case_prod_beta split: option.split)

definition ended_manifest :: "end_answers \<Rightarrow> session \<Rightarrow> json" where
  "ended_manifest ea ss =
     manifest_to_json ((ss_manifest ss)\<lparr>mf_status := ''ended'', mf_updated_at_ms := ea_now_manifest ea\<rparr>)"

lemma end_publish_in_time:
  assumes "ea_manifest ea = Some ans" "ss_manifest_done ss \<le> ss_manifest_queued ss"
  shows "ss_last_error (end_publish ea ss) = [] \<longleftrightarrow> pr_success (fst ans) \<and> pr_success (fst (ea_live ea))"
    "pr_success (fst ans) \<Longrightarrow> ss_bucket (end_publish ea ss) (manifest_key (ss_event_id ss)) = Some (Doc (ended_manifest ea ss))"
  using assms live_key_not_manifest
  by (auto simp: end_publish_def ended_manifest_def clear_error_def queue_manifest_locked_def flush_manifest_def manifest_publish_def
      manifest_take_def manifest_put_def publish_live_def put_json_error Let_def event_prefix_def manifest_key_def [symmetric]
      lan_def)

lemma end_publish_too_late:
  assumes "ea_manifest ea = None" "ss_manifest_done ss \<le> ss_manifest_queued ss"
  shows "ss_last_error (end_publish ea ss) = [] \<longleftrightarrow> pr_success (fst (ea_live ea))"
    "ss_bucket (end_publish ea ss) (manifest_key (ss_event_id ss)) = ss_bucket ss (manifest_key (ss_event_id ss))"
  using assms live_key_not_manifest
  by (auto simp: end_publish_def clear_error_def queue_manifest_locked_def flush_manifest_def publish_live_def put_json_error
      Let_def lan_def)


lemma end_publish_manifest:
  "ss_event_id (end_publish ea ss) = ss_event_id ss"
  "ss_manifest (end_publish ea ss) = (ss_manifest ss)\<lparr>mf_status := ''ended'', mf_updated_at_ms := ea_now_manifest ea\<rparr>"
proof -
  have m: "ss_manifest (manifest_publish a s) = ss_manifest s" "ss_event_id (manifest_publish a s) = ss_event_id s" for a s
    by (auto simp: manifest_publish_def manifest_take_def manifest_put_def Let_def split: option.split)
  have f: "ss_manifest (fst (flush_manifest t s)) = ss_manifest s" "ss_event_id (fst (flush_manifest t s)) = ss_event_id s" for t s
    by (auto simp: flush_manifest_def m split: option.split)
  show "ss_event_id (end_publish ea ss) = ss_event_id ss"
    "ss_manifest (end_publish ea ss) = (ss_manifest ss)\<lparr>mf_status := ''ended'', mf_updated_at_ms := ea_now_manifest ea\<rparr>"
    by (simp_all add: end_publish_def clear_error_def queue_manifest_locked_def publish_live_def f Let_def)
qed

lemma end_publish_live:
  "pr_success (fst (ea_live ea)) \<Longrightarrow>
   ss_bucket (end_publish ea ss) (live_pointer_key (sc_room_id (ss_cfg (end_publish ea ss)))) =
     Some (Doc (live_pointer_to_json (live_pointer_default\<lparr>lp_room_id := sc_room_id (ss_cfg (end_publish ea ss)),
       lp_event_id := ss_event_id (end_publish ea ss), lp_status := ''ended'', lp_updated_at_ms := ea_now_live ea\<rparr>)))"
  by (simp add: end_publish_def publish_live_def Let_def case_prod_beta)

lemma drain_counts:
  assumes "drain_blocking h cfg (session_host l) ts up = Some (b, up1)"
    "ss_manifest_done (up_host up) \<le> ss_manifest_queued (up_host up)"
  shows "ss_manifest_done (up_host up1) \<le> ss_manifest_queued (up_host up1)"
proof -
  have "publisher_counts.up_ok up1"
    by (rule publisher_counts.drain_blocking_ok [OF _ assms(1)]) (simp add: publisher_counts.up_ok_def assms(2))
  then show ?thesis by (simp add: publisher_counts.up_ok_def)
qed

lemma end_session_cases:
  assumes "end_session h ea up = Some (up', ok)"
  obtains b up1 where
    "drain_blocking h (session_uploader_config (ss_cfg (up_host up))) (session_host (ea_heartbeat ea)) (ea_turns ea) up = Some (b, up1)"
    "up_host up' = end_publish ea (up_host up1)" "ok = (ss_last_error (up_host up') = [])"
    "up_spool up' = fst (remove_if_done (mark_ended (up_spool up1) ok))"
  using assms by (auto simp: end_session_eq Let_def)


text \<open>
  When the wait for the publisher runs out instead, the closing manifest is never sent, and \<open>end\<close>
  reports success all the same as soon as the live pointer lands: the bucket keeps the manifest
  it had and nothing is recorded as owed.
\<close>

lemma end_success_without_manifest:
  assumes "end_session h ea up = Some (up', ok)" "ea_manifest ea = None" "pr_success (fst (ea_live ea))"
    "ss_manifest_done (up_host up) \<le> ss_manifest_queued (up_host up)"
    "ea_turns ea = t # ts" "tn_go_on t" "peek_next (up_spool up) 0 = None"
  shows "ok \<and> \<not> owes_ending (up_spool up') \<and>
    ss_bucket (up_host up') (manifest_key (ss_event_id (up_host up))) = ss_bucket (up_host up) (manifest_key (ss_event_id (up_host up)))"
proof -
  have tg: "uc_target (session_uploader_config c) = 0" for c
    by (simp add: session_uploader_config_def uploader_config_default_def)
  obtain b up1 where d: "drain_blocking h (session_uploader_config (ss_cfg (up_host up))) (session_host (ea_heartbeat ea)) (ea_turns ea) up = Some (b, up1)"
    and host: "up_host up' = end_publish ea (up_host up1)" and ok: "ok = (ss_last_error (up_host up') = [])"
    and sp: "up_spool up' = fst (remove_if_done (mark_ended (up_spool up1) ok))"
    using assms(1) by (rule end_session_cases)
  have up1: "up1 = up" using d assms(5-7) tg by simp
  note e = end_publish_too_late [OF assms(2,4)]
  have "ok" using e(1) ok host assms(3) up1 by simp
  then show ?thesis using e(2) sp by (simp add: host up1 owes_ending_def remove_if_done_state)
qed

subsection \<open>Resuming\<close>

lemma markers_frame [simp]:
  "ss_markers (fst (put_json ans k j ss)) = ss_markers ss" "ss_markers (lan e ss) = ss_markers ss"
  "ss_markers (publish_live ans st now ss) = ss_markers ss" "ss_markers (manifest_publish ans ss) = ss_markers ss"
  "ss_markers (fst (flush_manifest t ss)) = ss_markers ss" "ss_markers (fst (queue_manifest_locked ss)) = ss_markers ss"
  "ss_markers (fst (put_bytes ans k b ct ss)) = ss_markers ss" "ss_markers (clear_error ss) = ss_markers ss"
proof -
  have b: "ss_markers (fst (put_bytes ans k b ct ss)) = ss_markers ss" for ans k b ct ss
    by (simp add: put_bytes_def set_error_def Let_def)
  have j: "ss_markers (fst (put_json ans k j ss)) = ss_markers ss" for ans k j ss by (simp add: put_json_def b)
  have p: "ss_markers (manifest_publish ans ss) = ss_markers ss" for ans ss
    by (auto simp: manifest_publish_def manifest_take_def manifest_put_def j Let_def split: option.split)
  show "ss_markers (fst (put_json ans k j ss)) = ss_markers ss" "ss_markers (lan e ss) = ss_markers ss"
    "ss_markers (publish_live ans st now ss) = ss_markers ss" "ss_markers (manifest_publish ans ss) = ss_markers ss"
    "ss_markers (fst (flush_manifest t ss)) = ss_markers ss" "ss_markers (fst (queue_manifest_locked ss)) = ss_markers ss"
    "ss_markers (fst (put_bytes ans k b ct ss)) = ss_markers ss" "ss_markers (clear_error ss) = ss_markers ss"
    by (auto simp: lan_def publish_live_def flush_manifest_def queue_manifest_locked_def clear_error_def j b p Let_def split: option.split)
qed

lemma begin_common_markers: "ss_markers (fst (begin_common ba cont init video tracks ss)) = ss_markers ss"
  by (simp add: begin_common_def begin_publish_def case_prod_beta Let_def split: option.split)

lemma begin_common_next: "ss_next_seq (fst (begin_common ba cont init video tracks ss)) = ss_next_seq ss"
  by (simp add: begin_common_def begin_publish_def case_prod_beta clear_error_def Let_def split: option.split)

lemma resume_success:
  assumes "resume ba gi ge gm now init video tracks up = (up', True)"
  obtains ss sp cont where "resume_event (up_spool up) now = Inr sp" "up_spool up' = sp"
    "begin_common ba cont init video tracks ss = (up_host up', True)"
    "st_valid (sp_state (up_spool up))" "\<not> st_ended (sp_state (up_spool up))"
    "ss_markers ss = ss_markers (up_host up)" "ss_next_seq ss = inc64 (st_last_enqueued (sp_state (up_spool up)))"
    "ss_event_id ss = st_event_id (sp_state (up_spool up))" "ss_bucket ss = ss_bucket (up_host up)"
    "cont = \<lparr>ct_event = event_from_get ge, ct_manifest = manifest_from_get (st_event_id (sp_state (up_spool up))) gm,
             ct_init_stored = gr_success gi\<rparr>" "gr_success gi \<longrightarrow> gr_body gi = Bytes init"
  using assms
  by (auto simp: resume_def inspect_def resume_info_default_def Let_def split: if_splits sum.splits prod.splits option.splits)

text \<open>
  A resumed event forgets its cues. After a restart the session's cue list is empty, so the next
  cue replaces \<^verbatim>\<open>markers.json\<close>, whatever it held, by a list of that cue alone.
\<close>

lemma resume_forgets_cues:
  assumes "resume ba gi ge gm now init video tracks (session_new cfg dk bkt mirror) = (up', True)" "pr_success (fst ans)"
  shows "\<exists>mk. mk_label mk = label \<and>
    ss_bucket (add_marker ans t draws label type (up_host up')) (event_prefix_for (ss_event_id (up_host up')) @ ''markers.json'') =
      Some (Doc (marker_list_to_json (marker_list_default\<lparr>ml_markers := [mk]\<rparr>)))"
proof -
  obtain ss sp cont where "begin_common ba cont init video tracks ss = (up_host up', True)"
    "ss_markers ss = ss_markers (up_host (session_new cfg dk bkt mirror))"
    using assms(1) by (rule resume_success)
  then have m: "ss_markers (up_host up') = marker_list_default"
    using begin_common_markers [of ba cont init video tracks ss] by (simp add: session_new_def session_init_def)
  show ?thesis
    by (rule exI [of _ "\<lparr>mk_seq = ss_next_seq (up_host up'), mk_at_ms = t, mk_at_media_ms = ss_live_media_ms (up_host up'),
          mk_type = type, mk_label = label, mk_id = make_event_id t draws, mk_author = ss_author_name (up_host up')\<rparr>"])
       (use assms(2) m in \<open>simp add: add_marker_def publish_lan_markers_def event_prefix_def Let_def marker_list_default_def\<close>)
qed


text \<open>
  An event that had spooled nothing when the encoder stopped is resumed at sequence number 1: the
  record of the last enqueued number starts at 0, which also stands for \<open>segment 0\<close>, and segment
  0 will never exist.
\<close>

lemma resume_skips_segment_zero:
  assumes "resume ba gi ge gm now init video tracks up = (up', True)"
    "up_spool up = begin_event sp ev 0 t" "ev \<noteq> []"
  shows "pending_seqs (up_spool up) = [] \<and> st_first_seq (sp_state (up_spool up)) = 0 \<and> ss_next_seq (up_host up') = 1"
proof -
  obtain ss sp1 cont where "begin_common ba cont init video tracks ss = (up_host up', True)"
    "ss_next_seq ss = inc64 (st_last_enqueued (sp_state (up_spool up)))"
    using assms(1) by (rule resume_success)
  then have "ss_next_seq (up_host up') = inc64 (st_last_enqueued (sp_state (up_spool up)))"
    using begin_common_next [of ba cont init video tracks ss] by simp
  then show ?thesis
    using assms(3) by (simp add: assms(2) pending_seqs_def begin_event_state fresh_state_def spool_state_default_def Let_def
        dir_names_def inc64_def)
qed

lemma publish_bucket:
  "k \<noteq> ss_manifest_key ss \<Longrightarrow> ss_bucket (manifest_publish a ss) k = ss_bucket ss k"
  "k \<noteq> ss_manifest_key ss \<Longrightarrow> ss_bucket (fst (flush_manifest t ss)) k = ss_bucket ss k"
  "k \<noteq> live_pointer_key (sc_room_id (ss_cfg ss)) \<Longrightarrow> ss_bucket (publish_live a st now ss) k = ss_bucket ss k"
proof -
  have p: "k \<noteq> ss_manifest_key ss \<Longrightarrow> ss_bucket (manifest_publish a ss) k = ss_bucket ss k" for a
    by (auto simp: manifest_publish_def manifest_take_def manifest_put_def Let_def split: option.split)
  show "k \<noteq> ss_manifest_key ss \<Longrightarrow> ss_bucket (manifest_publish a ss) k = ss_bucket ss k"
    "k \<noteq> ss_manifest_key ss \<Longrightarrow> ss_bucket (fst (flush_manifest t ss)) k = ss_bucket ss k"
    by (auto simp: p flush_manifest_def split: option.split)
  show "k \<noteq> live_pointer_key (sc_room_id (ss_cfg ss)) \<Longrightarrow> ss_bucket (publish_live a st now ss) k = ss_bucket ss k"
    by (simp add: publish_live_def Let_def)
qed

lemma publish_fields:
  "ss_manifest (manifest_publish a ss) = ss_manifest ss" "ss_cfg (manifest_publish a ss) = ss_cfg ss"
  "ss_manifest (fst (flush_manifest t ss)) = ss_manifest ss" "ss_cfg (fst (flush_manifest t ss)) = ss_cfg ss"
  "ss_manifest (publish_live a st now ss) = ss_manifest ss"
proof -
  have p: "ss_manifest (manifest_publish a ss) = ss_manifest ss" "ss_cfg (manifest_publish a ss) = ss_cfg ss" for a
    by (auto simp: manifest_publish_def manifest_take_def manifest_put_def Let_def split: option.split)
  show "ss_manifest (manifest_publish a ss) = ss_manifest ss" "ss_cfg (manifest_publish a ss) = ss_cfg ss"
    "ss_manifest (fst (flush_manifest t ss)) = ss_manifest ss" "ss_cfg (fst (flush_manifest t ss)) = ss_cfg ss"
    "ss_manifest (publish_live a st now ss) = ss_manifest ss"
    by (auto simp: p flush_manifest_def publish_live_def Let_def split: option.split)
qed

lemma begin_publish_bucket:
  assumes "k \<noteq> manifest_key (ss_event_id ss)" "\<And>room. k \<noteq> live_pointer_key room"
  shows "ss_bucket (begin_publish ba cont evi init video tracks ss) k = ss_bucket ss k"
  using assms by (simp add: begin_publish_def publish_bucket queue_manifest_locked_def event_prefix_def manifest_key_def Let_def)

lemma begin_publish_manifest:
  "ss_manifest (begin_publish ba cont evi init video tracks ss) =
     (seed_manifest cont evi video tracks (lan (Lan_Event_Started (ss_event_id ss) (event_info_to_json evi) init) ss))
       \<lparr>mf_status := ''live'', mf_updated_at_ms := ba_now_manifest ba\<rparr>"
  by (simp add: begin_publish_def publish_fields queue_manifest_locked_def Let_def)


section \<open>Witnesses\<close>

definition yes :: answer where
  "yes = (\<lparr>pr_success = True, pr_http_status = 200, pr_retryable = True, pr_error = []\<rparr>, False)"

definition ex_begin :: begin_answers where
  "ex_begin = \<lparr>ba_event = yes, ba_index = yes, ba_init = yes, ba_manifest = Some yes, ba_live = yes,
     ba_now_event = 1, ba_now_manifest = 2, ba_now_live = 3\<rparr>"

definition ex_hash :: "bytes \<Rightarrow> string" where
  "ex_hash b = CHR ''h'' # nat_str (length b)"

definition ex_new :: "session uploader" where
  "ex_new = session_new session_config_default \<lparr>dk_root_files = empty_folder, dk_events = []\<rparr> (\<lambda>_. None) (\<lambda>_. None)"

definition ex_live :: "session uploader" where
  "ex_live = fst (start_new ex_begin ''E'' 1 [7] video_info_default [] ex_new)"

lemma begin_common_success:
  "pr_success (fst (ba_event ba)) \<Longrightarrow> pr_success (fst (ba_init ba)) \<Longrightarrow> snd (begin_common ba cont init video tracks ss)"
  by (simp add: begin_common_def Let_def case_prod_beta split: option.split)

lemma ex_live_started: "start_new ex_begin ''E'' 1 [7] video_info_default [] ex_new = (ex_live, True)"
proof -
  have "snd (start_new ex_begin ''E'' 1 [7] video_info_default [] ex_new)"
    by (simp add: start_new_def Let_def case_prod_beta begin_common_success ex_begin_def yes_def)
  then show ?thesis by (simp add: ex_live_def prod_eq_iff)
qed

lemma ex_live_spool: "up_spool ex_live = begin_event (up_spool ex_new) ''E'' 0 1"
  by (simp add: ex_live_def start_new_def Let_def case_prod_beta)

lemma ex_new_bucket: "ss_bucket (up_host ex_new) = (\<lambda>_. None)"
  by (simp add: ex_new_def session_new_def session_init_def)

lemma ex_live_ok: "spool_ok (up_spool ex_live) 0" "queue (up_spool ex_live) 0 = []" "floor_ok (up_spool ex_live)" "floor_of (up_spool ex_live) = 0"
  by (simp_all add: ex_live_spool begin_event_ok begin_floor_ok floor_of_def begin_event_state fresh_state_def Let_def)

lemma begin_common_new_eq:
  assumes "pr_success (fst (ba_event ba))" "pr_success (fst (ba_index ba))" "pr_success (fst (ba_init ba))"
  obtains ss3 where "begin_common ba continuing_none init video tracks ss =
      (begin_publish ba continuing_none (new_event_info (clear_error ss) (ba_now_event ba) video tracks) init video tracks ss3, True)"
    "ss_event_id ss3 = ss_event_id ss" "ss_cfg ss3 = ss_cfg ss" "ss_next_seq ss3 = ss_next_seq ss"
  using assms that
  by (simp add: begin_common_def continuing_none_def Let_def case_prod_beta) (simp add: clear_error_def)

lemma publish_ids:
  "ss_event_id (manifest_publish a ss) = ss_event_id ss" "ss_event_id (fst (flush_manifest t ss)) = ss_event_id ss"
  "ss_event_id (publish_live a st now ss) = ss_event_id ss" "ss_cfg (publish_live a st now ss) = ss_cfg ss"
proof -
  have p: "ss_event_id (manifest_publish a ss) = ss_event_id ss" for a
    by (auto simp: manifest_publish_def manifest_take_def manifest_put_def Let_def split: option.split)
  show "ss_event_id (manifest_publish a ss) = ss_event_id ss" "ss_event_id (fst (flush_manifest t ss)) = ss_event_id ss"
    "ss_event_id (publish_live a st now ss) = ss_event_id ss" "ss_cfg (publish_live a st now ss) = ss_cfg ss"
    by (auto simp: p flush_manifest_def publish_live_def Let_def split: option.split)
qed

lemma begin_publish_ids:
  "ss_event_id (begin_publish ba cont evi init video tracks ss) = ss_event_id ss"
  "ss_cfg (begin_publish ba cont evi init video tracks ss) = ss_cfg ss"
  by (simp_all add: begin_publish_def publish_ids publish_fields queue_manifest_locked_def Let_def)

lemma ex_live_host:
  "ss_event_id (up_host ex_live) = ''E''" "ss_next_seq (up_host ex_live) = 0"
  "ss_cfg (up_host ex_live) = session_config_default"
  "ss_manifest (up_host ex_live) = manifest_default\<lparr>mf_event_id := ''E'', mf_started_at_ms := 1, mf_updated_at_ms := 2\<rparr>"
proof -
  let ?ss = "(up_host ex_new)\<lparr>ss_event_id := ''E'', ss_next_seq := 0, ss_markers := marker_list_default, ss_guest_markers := marker_list_default\<rparr>"
  let ?evi = "new_event_info (clear_error ?ss) 1 video_info_default []"
  obtain ss3 where b: "begin_common ex_begin continuing_none [7] video_info_default [] ?ss =
      (begin_publish ex_begin continuing_none ?evi [7] video_info_default [] ss3, True)"
    "ss_event_id ss3 = ''E''" "ss_cfg ss3 = session_config_default" "ss_next_seq ss3 = 0"
    by (rule begin_common_new_eq [of ex_begin "[7]" video_info_default "[]" ?ss])
       (simp_all add: ex_begin_def yes_def ex_new_def session_new_def session_init_def)
  have "up_host ex_live = fst (begin_common ex_begin continuing_none [7] video_info_default [] ?ss)"
    by (simp add: ex_live_def start_new_def Let_def case_prod_beta)
  then have host: "up_host ex_live = begin_publish ex_begin continuing_none ?evi [7] video_info_default [] ss3"
    using b(1) by simp
  show "ss_event_id (up_host ex_live) = ''E''" "ss_cfg (up_host ex_live) = session_config_default"
    using b by (simp_all add: host begin_publish_ids)
  show "ss_next_seq (up_host ex_live) = 0"
    using start_new_inv [OF ex_live_started] b(4) by (simp add: host begin_publish_def case_prod_beta Let_def)
  show "ss_manifest (up_host ex_live) = manifest_default\<lparr>mf_event_id := ''E'', mf_started_at_ms := 1, mf_updated_at_ms := 2\<rparr>"
    using b(2,3) by (simp add: host begin_publish_manifest seed_manifest_def continuing_none_def new_event_info_def
        clear_error_def manifest_default_def session_config_default_def ex_begin_def)
qed


subsection \<open>A broadcast of one segment\<close>

definition ex_first :: spooled_segment where
  "ex_first = \<lparr>sg_seq = 0, sg_data = [1, 2], sg_duration_s = 6, sg_pts_offset_s = 0,
     sg_checksum = ex_hash [1, 2], sg_key = segment_key_for ''E'' 0\<rparr>"

lemma ex_first_intact: "\<not> damaged ex_hash ex_first"
  by (simp add: damaged_def verify_sha256_def ex_first_def)

lemma ex_publish:
  obtains up where "publish_segment ex_hash 2 [1, 2] 6 0 ex_live = (up, Inr 0)" "peek_next (up_spool up) 0 = Some ex_first"
    "floor_of (up_spool up) = 0" "ss_manifest (up_host up) = ss_manifest (up_host ex_live)"
    "ss_cfg (up_host up) = session_config_default" "ss_event_id (up_host up) = ''E''"
proof -
  let ?seg = "\<lparr>sg_seq = 0, sg_data = [1, 2], sg_duration_s = 6, sg_pts_offset_s = 0, sg_checksum = [], sg_key = segment_key_for ''E'' 0\<rparr>"
  obtain sp drops where enq: "enqueue ex_hash (up_spool ex_live) ?seg 2 = Inr (sp, ex_hash [1, 2], drops)"
    using enqueue_total [OF ex_live_ok(1), of ex_hash ?seg 2] by auto
  have p: "pending_seqs (up_spool ex_live) = []" by (simp add: ex_live_spool pending_seqs_def begin_event_state dir_names_def)
  obtain k where "pending_seqs sp = [0]" "map dr_seq drops = take k []"
    using enqueue_facts [OF ex_live_ok(1) _ enq] p by auto
  then have d: "drops = []" and p1: "pending_seqs sp = [0]" by simp_all
  have q: "queue sp 0 = [ex_first]"
    using enqueue_queue [OF ex_live_ok(1) _ enq, of 0] ex_live_ok(2) by (simp add: sealed_def ex_first_def)
  have "floor_ok sp" by (rule enqueue_floor_ok [OF ex_live_ok(1) _ _ ex_live_ok(3) _ enq]) (simp_all add: ex_live_ok)
  then have f: "floor_of sp = 0" using p1 by (simp add: floor_ok_def)
  have seg: "segment_key (up_host ex_live) 0 = segment_key_for ''E'' 0" by (simp add: segment_key_eq ex_live_host)
  show thesis
    by (rule that [of "ex_live\<lparr>up_spool := sp, up_host := (up_host ex_live)\<lparr>ss_next_seq := 1, ss_live_media_ms := 6000\<rparr>\<rparr>"])
       (use enq d q f in \<open>simp_all add: publish_segment_def seg ex_live_host inc64_def peek_next_queue Let_def trunc_def\<close>)
qed

definition ex_listed :: manifest where
  "ex_listed = (ss_manifest (up_host ex_live))\<lparr>mf_segments := [\<lparr>ms_seq = 0, ms_duration_s = 6, ms_checksum = ex_hash [1, 2], ms_at_ms = 1\<rparr>],
     mf_updated_at_ms := 5\<rparr>"

lemma ex_listed_roundtrip: "manifest_from_json (manifest_to_json ex_listed) = Inr ex_listed"
proof -
  have "manifest_wire_ok ex_listed" "mf_audio_tracks ex_listed = []"
    by (simp_all add: ex_listed_def ex_live_host manifest_wire_ok_def manifest_default_def version_ok_def kProtocolVersion_def
        int64_ok_def video_ok_def video_info_default_def int32_ok_def layout_valid_def tile_layout_default_def segment_ok_def)
  then show ?thesis using manifest_roundtrip [of ex_listed] by simp
qed

lemma ex_confirmed:
  assumes "ss_manifest ss = ss_manifest (up_host ex_live)" "ss_cfg ss = session_config_default" "ss_event_id ss = ''E''"
  shows "ss_manifest (on_confirmed yes ended 5 ex_first ss) = ex_listed"
    "ss_manifest_pending (on_confirmed yes ended 5 ex_first ss) = Some (manifest_to_json ex_listed)"
    "ss_manifest_dirty (on_confirmed yes ended 5 ex_first ss)"
    "ss_manifest_key (on_confirmed yes ended 5 ex_first ss) = manifest_key ''E''"
proof -
  let ?ms = "\<lparr>ms_seq = 0, ms_duration_s = 6, ms_checksum = ex_hash [1, 2], ms_at_ms = 1\<rparr>"
  have m: "(manifest_push (ss_manifest ss) ?ms 50)\<lparr>mf_updated_at_ms := 5\<rparr> = ex_listed"
    by (simp add: manifest_push_def assms(1) ex_live_host manifest_default_def ex_listed_def Let_def)
  show "ss_manifest (on_confirmed yes ended 5 ex_first ss) = ex_listed"
    "ss_manifest_pending (on_confirmed yes ended 5 ex_first ss) = Some (manifest_to_json ex_listed)"
    "ss_manifest_dirty (on_confirmed yes ended 5 ex_first ss)"
    "ss_manifest_key (on_confirmed yes ended 5 ex_first ss) = manifest_key ''E''"
    using m assms
    by (simp_all add: on_confirmed_def ex_first_def queue_manifest_locked_def put_json_def put_bytes_def lan_def set_error_def Let_def
        event_prefix_def manifest_key_def ex_live_host manifest_default_def session_config_default_def trunc_def)
qed

lemma ex_broadcast:
  obtains e where "encoder_run ex_hash (broadcast ex_live) e"
    "ss_bucket (up_host (en_up e)) (manifest_key ''E'') = Some (Doc (manifest_to_json ex_listed))"
proof -
  obtain up where p: "publish_segment ex_hash 2 [1, 2] 6 0 ex_live = (up, Inr 0)" "peek_next (up_spool up) 0 = Some ex_first"
    "floor_of (up_spool up) = 0" "ss_manifest (up_host up) = ss_manifest (up_host ex_live)"
    "ss_cfg (up_host up) = session_config_default" "ss_event_id (up_host up) = ''E''" by (rule ex_publish)
  let ?a = "ex_attempt True" and ?b = "broadcast ex_live"
  let ?e1 = "?b\<lparr>en_up := up\<rparr>"
  let ?e2 = "?e1\<lparr>en_phase := Trying ex_first 0\<rparr>"
  let ?e3 = "?e2\<lparr>en_phase := Sent ex_first (0 + 1)\<rparr>"
  have "encoder_step ex_hash ?b ?e1"
    using step_publish_segment [of ex_hash 2 "[1, 2]" 6 0 ?b up 0] p(1) by (simp add: broadcast_def seq_limit_def)
  then have r1: "encoder_run ex_hash ?b ?e1" by (rule run_step [OF run_refl])
  have "encoder_step ex_hash ?e1 ?e2" by (rule step_upload_peek) (simp_all add: broadcast_def p(2) ex_first_intact)
  then have r2: "encoder_run ex_hash ?b ?e2" by (rule run_step [OF r1])
  have "encoder_step ex_hash ?e2 ?e3"
    by (rule step_upload_send [of _ _ _ ?a]) (simp_all add: upload_begin_def ex_attempt_def p(3))
  then have r3: "encoder_run ex_hash ?b ?e3" by (rule run_step [OF r2])
  obtain s up3 where fin: "upload_finish (en_cfg ?e3) (session_host yes) ex_first ?a 1 (en_up ?e3) = (s, up3)" by fastforce
  have s: "s = Uploaded" using upload_finish_outcome(1) [OF fin] by (simp add: ex_attempt_def)
  define ss1 where "ss1 = ho_put (session_host yes) ?a (sg_key ex_first) (sg_data ex_first) (up_host up)"
  have h1: "ss_manifest ss1 = ss_manifest (up_host ex_live)" "ss_cfg ss1 = session_config_default" "ss_event_id ss1 = ''E''"
    by (simp_all add: ss1_def session_host_def p)
  have host3: "up_host up3 = on_confirmed yes (mf_status (ss_manifest ss1) = ''ended'') 5 ex_first ss1"
    using conjunct1 [OF conjunct2 [OF upload_finish_outcome(2) [OF fin s]]]
    by (simp add: ss1_def session_host_def) (simp add: ex_attempt_def)
  note c = ex_confirmed [OF h1, of "mf_status (ss_manifest ss1) = ''ended''", folded host3]
  let ?e4 = "?e3\<lparr>en_up := up3, en_phase := Idle\<rparr>"
  have "encoder_step ex_hash ?e3 ?e4"
    using step_upload_answer [of ?e3 ex_first 1 yes ?a s up3 ex_hash] fin s by simp
  then have r4: "encoder_run ex_hash ?b ?e4" by (rule run_step [OF r3])
  let ?taken = "(manifest_key ''E'', manifest_to_json ex_listed, ss_manifest_queued (up_host up3))"
  let ?ss5 = "(up_host up3)\<lparr>ss_manifest_pending := None, ss_manifest_dirty := False\<rparr>"
  let ?e5 = "on_session (\<lambda>_. ?ss5) (?e4\<lparr>en_publishing := Some ?taken\<rparr>)"
  have "encoder_step ex_hash ?e4 ?e5"
    by (rule step_manifest_take) (simp_all add: broadcast_def manifest_take_def c)
  then have r5: "encoder_run ex_hash ?b ?e5" by (rule run_step [OF r4])
  let ?e6 = "on_session (manifest_put yes ?taken) (?e5\<lparr>en_publishing := None\<rparr>)"
  have "encoder_step ex_hash ?e5 ?e6" by (rule step_manifest_put) (simp add: on_session_def)
  then have r6: "encoder_run ex_hash ?b ?e6" by (rule run_step [OF r5])
  show thesis by (rule that [OF r6]) (simp add: on_session_def manifest_put_def yes_def Let_def)
qed

theorem manifest_lists_only_stored_witness:
  "\<exists>e b. encoder_run ex_hash (broadcast ex_live) e \<and>
     ss_bucket (up_host (en_up e)) (manifest_key ''E'') = Some (Doc (manifest_to_json ex_listed)) \<and>
     ss_bucket (up_host (en_up e)) (segment_key_for ''E'' 0) = Some (Bytes b) \<and> ex_hash b = ex_hash [1, 2]"
proof -
  obtain e where e: "encoder_run ex_hash (broadcast ex_live) e"
    "ss_bucket (up_host (en_up e)) (manifest_key ''E'') = Some (Doc (manifest_to_json ex_listed))" by (rule ex_broadcast)
  have "\<forall>s\<in>set (mf_segments ex_listed). \<exists>b. ss_bucket (up_host (en_up e)) (segment_key_for ''E'' (ms_seq s)) = Some (Bytes b) \<and>
     ex_hash b = ms_checksum s"
    by (rule manifest_lists_only_stored [OF ex_live_started _ _ _ e ex_listed_roundtrip]) (simp_all add: ex_new_bucket ex_hash_def)
  then show ?thesis using e by (auto simp: ex_listed_def)
qed

theorem publish_segment_durable_witness:
  "\<exists>up'. publish_segment ex_hash 2 [1, 2] 6 0 ex_live = (up', Inr 0) \<and> read_spooled (up_spool up') 0 = Some ex_first"
proof -
  obtain up where p: "publish_segment ex_hash 2 [1, 2] 6 0 ex_live = (up, Inr 0)" by (rule ex_publish)
  have "spool_ok (up_spool ex_live) (ss_next_seq (up_host ex_live))" using ex_live_ok(1) by (simp add: ex_live_host)
  from publish_segment_durable [OF this _ _ p] show ?thesis
    using p by (simp add: ex_live_host manifest_default_def u64_max_def ex_first_def)
qed


subsection \<open>Ending and resuming it\<close>

definition counts_ok :: "session \<Rightarrow> bool" where
  "counts_ok ss = (ss_manifest_done ss \<le> ss_manifest_queued ss)"

lemma counts_publish:
  "counts_ok ss \<Longrightarrow> counts_ok (manifest_publish a ss)" "counts_ok ss \<Longrightarrow> counts_ok (fst (flush_manifest t ss))"
  "counts_ok ss \<Longrightarrow> counts_ok (publish_live a st now ss)" "counts_ok ss \<Longrightarrow> counts_ok (fst (put_json a k j ss))"
  "counts_ok ss \<Longrightarrow> counts_ok (fst (put_bytes a k b ct ss))" "counts_ok ss \<Longrightarrow> counts_ok (lan e ss)"
proof -
  have p: "counts_ok ss \<Longrightarrow> counts_ok (manifest_publish a ss)" for a
    by (auto simp: counts_ok_def manifest_publish_def manifest_take_def manifest_put_def put_json_def put_bytes_def set_error_def Let_def
        split: option.split)
  show "counts_ok ss \<Longrightarrow> counts_ok (manifest_publish a ss)" "counts_ok ss \<Longrightarrow> counts_ok (fst (flush_manifest t ss))"
    "counts_ok ss \<Longrightarrow> counts_ok (publish_live a st now ss)" "counts_ok ss \<Longrightarrow> counts_ok (fst (put_json a k j ss))"
    "counts_ok ss \<Longrightarrow> counts_ok (fst (put_bytes a k b ct ss))" "counts_ok ss \<Longrightarrow> counts_ok (lan e ss)"
    by (auto simp: p flush_manifest_def split: option.split)
       (auto simp: counts_ok_def publish_live_def put_json_def put_bytes_def set_error_def lan_def Let_def)
qed

lemma counts_begin_publish: "counts_ok ss \<Longrightarrow> counts_ok (begin_publish ba cont evi init video tracks ss)"
  unfolding begin_publish_def Let_def case_prod_beta
  by (intro counts_publish) (simp add: counts_ok_def queue_manifest_locked_def lan_def Let_def)

lemma ex_live_counts: "ss_manifest_done (up_host ex_live) \<le> ss_manifest_queued (up_host ex_live)"
proof -
  let ?ss = "(up_host ex_new)\<lparr>ss_event_id := ''E'', ss_next_seq := 0, ss_markers := marker_list_default, ss_guest_markers := marker_list_default\<rparr>"
  have c: "counts_ok (clear_error ?ss)" by (simp add: counts_ok_def clear_error_def ex_new_def session_new_def session_init_def)
  have "counts_ok (fst (begin_common ex_begin continuing_none [7] video_info_default [] ?ss))"
    by (simp add: begin_common_def continuing_none_def Let_def case_prod_beta ex_begin_def yes_def)
       (intro counts_begin_publish counts_publish c)
  then show ?thesis by (simp add: counts_ok_def ex_live_def start_new_def Let_def case_prod_beta)
qed

definition ex_end :: "answer option \<Rightarrow> end_answers" where
  "ex_end m = \<lparr>ea_turns = [ex_turn], ea_heartbeat = yes, ea_manifest = m, ea_live = yes, ea_now_manifest = 8, ea_now_live = 9\<rparr>"

lemma ex_live_idle: "peek_next (up_spool ex_live) 0 = None"
  by (simp add: peek_next_queue ex_live_ok)

lemma ex_end_returns: "\<exists>up' ok. end_session ex_hash (ex_end m) ex_live = Some (up', ok)"
proof -
  have "drain_blocking ex_hash (session_uploader_config (ss_cfg (up_host ex_live))) (session_host yes) [ex_turn] ex_live = Some (True, ex_live)"
    by (simp add: ex_turn_def session_uploader_config_def uploader_config_default_def ex_live_idle)
  then show ?thesis by (simp add: end_session_eq ex_end_def Let_def)
qed


definition ex_got :: "body \<Rightarrow> get_result" where
  "ex_got b = \<lparr>gr_success = True, gr_http_status = 200, gr_retryable = True, gr_error = [], gr_body = b\<rparr>"

lemma resume_returns:
  assumes "st_valid (sp_state (up_spool up))" "\<not> st_ended (sp_state (up_spool up))"
  shows "snd (resume ex_begin (ex_got (Bytes init)) ge gm now init video tracks up)"
proof -
  have "snd (begin_common ex_begin cont init video tracks ss)" for cont ss
    by (rule begin_common_success) (simp_all add: ex_begin_def yes_def)
  then show ?thesis using assms by (simp add: resume_def inspect_def resume_event_def ex_got_def Let_def case_prod_beta)
qed

lemma ex_live_valid: "st_valid (sp_state (up_spool ex_live))" "\<not> st_ended (sp_state (up_spool ex_live))"
  "st_event_id (sp_state (up_spool ex_live)) = ''E''"
  by (simp_all add: ex_live_spool begin_event_state fresh_state_def spool_state_default_def Let_def)


end
