(* ===== verification/Segment_Cache.thy ===== *)
theory Segment_Cache
  imports Retry_Uploader
begin

text \<open>
  The decoder's segment cache (\<^verbatim>\<open>src/core/segment_cache.h\<close>, \<^verbatim>\<open>segment_cache.cpp\<close>): one folder per
  event under the cache root, and an in-memory index of the current event's segments that
  answers every query. The index is a \<^verbatim>\<open>std::set\<close>, here its elements in increasing order. Whether the
  disk takes a write (\<^verbatim>\<open>write_atomic\<close>) is the argument \<^verbatim>\<open>disk_ok\<close>. The lemmas show that index and folder agree after
  every operation, that a segment whose bytes do not match its checksum never enters the
  cache, and what pruning and changing the event leave.
\<close>

section \<open>Data\<close>

record cache_folder =
  cf_init :: "bytes option"
  cf_segs :: "(u64, bytes) dir"

definition empty_cache_folder :: cache_folder where
  "empty_cache_folder = \<lparr>cf_init = None, cf_segs = []\<rparr>"

record segment_cache =
  ca_root :: "(string, cache_folder) dir"
  ca_event_id :: string
  ca_index :: "u64 list"


section \<open>Operations\<close>

definition event_folder :: "segment_cache \<Rightarrow> cache_folder option" where
  "event_folder c = map_of (ca_root c) (ca_event_id c)"

definition ensure_dir :: "segment_cache \<Rightarrow> segment_cache" where
  "ensure_dir c = (case event_folder c of
      Some _ \<Rightarrow> c
    | None \<Rightarrow> c\<lparr>ca_root := AList.update (ca_event_id c) empty_cache_folder (ca_root c)\<rparr>)"

definition build_index :: "segment_cache \<Rightarrow> segment_cache" where
  "build_index c = c\<lparr>ca_index := (case event_folder c of Some fd \<Rightarrow> remdups (dir_names (cf_segs fd)) | None \<Rightarrow> [])\<rparr>"

definition cache_open :: "(string, cache_folder) dir \<Rightarrow> string \<Rightarrow> segment_cache" where
  "cache_open rt event_id = build_index (ensure_dir \<lparr>ca_root = rt, ca_event_id = event_id, ca_index = []\<rparr>)"

definition sweep_orphans :: "segment_cache \<Rightarrow> segment_cache" where
  "sweep_orphans c = c\<lparr>ca_root := filter (\<lambda>(d, fd). d = ca_event_id c) (ca_root c)\<rparr>"

definition set_event :: "string \<Rightarrow> segment_cache \<Rightarrow> segment_cache" where
  "set_event event_id c =
     (if event_id = ca_event_id c then c
      else build_index (ensure_dir (sweep_orphans (c\<lparr>ca_event_id := event_id\<rparr>))))"

definition write_folder :: "(cache_folder \<Rightarrow> cache_folder) \<Rightarrow> segment_cache \<Rightarrow> segment_cache" where
  "write_folder f c = c\<lparr>ca_root := AList.map_entry (ca_event_id c) f (ca_root c)\<rparr>"

definition store_init :: "bool \<Rightarrow> bytes \<Rightarrow> segment_cache \<Rightarrow> segment_cache \<times> bool" where
  "store_init disk_ok bytes c =
     (if bytes = [] then (c, False)
      else if \<not> disk_ok then (ensure_dir c, False)
      else (write_folder (\<lambda>fd. fd\<lparr>cf_init := Some bytes\<rparr>) (ensure_dir c), True))"

definition load_init :: "segment_cache \<Rightarrow> bytes option" where
  "load_init c = (case event_folder c of Some fd \<Rightarrow> cf_init fd | None \<Rightarrow> None)"

definition has_init :: "segment_cache \<Rightarrow> bool" where
  "has_init c = (case load_init c of Some b \<Rightarrow> length b > 0 | None \<Rightarrow> False)"

definition cache_store :: "(bytes \<Rightarrow> string) \<Rightarrow> bool \<Rightarrow> u64 \<Rightarrow> bytes \<Rightarrow> string \<Rightarrow> segment_cache \<Rightarrow> segment_cache \<times> bool" where
  "cache_store sha256_hex disk_ok seq bytes expected_checksum c =
     (if expected_checksum \<noteq> [] \<and> \<not> verify_sha256 sha256_hex bytes expected_checksum then (c, False)
      else if \<not> disk_ok then (ensure_dir c, False)
      else let c1 = write_folder (\<lambda>fd. fd\<lparr>cf_segs := AList.update seq bytes (cf_segs fd)\<rparr>) (ensure_dir c)
           in (c1\<lparr>ca_index := (if seq \<in> set (ca_index c1) then ca_index c1 else insort seq (ca_index c1))\<rparr>, True))"

definition cache_load :: "segment_cache \<Rightarrow> u64 \<Rightarrow> bytes option" where
  "cache_load c seq = (case event_folder c of Some fd \<Rightarrow> map_of (cf_segs fd) seq | None \<Rightarrow> None)"

definition cache_has :: "segment_cache \<Rightarrow> u64 \<Rightarrow> bool" where
  "cache_has c seq = (seq \<in> set (ca_index c))"

definition cached_seqs :: "segment_cache \<Rightarrow> u64 list" where
  "cached_seqs c = ca_index c"

definition cache_count :: "segment_cache \<Rightarrow> nat" where
  "cache_count c = length (ca_index c)"

definition lowest_seq :: "segment_cache \<Rightarrow> u64" where
  "lowest_seq c = (if ca_index c = [] then 0 else hd (ca_index c))"

definition highest_seq :: "segment_cache \<Rightarrow> u64" where
  "highest_seq c = (if ca_index c = [] then 0 else last (ca_index c))"

text \<open>The files to delete are collected from the index; the count is of those that were there.\<close>

definition prune_below :: "u64 \<Rightarrow> segment_cache \<Rightarrow> segment_cache \<times> nat" where
  "prune_below keep_from c =
     (let gone = takeWhile (\<lambda>s. s < keep_from) (ca_index c);
          c1 = c\<lparr>ca_index := dropWhile (\<lambda>s. s < keep_from) (ca_index c)\<rparr>
      in (write_folder (\<lambda>fd. fd\<lparr>cf_segs := filter (\<lambda>(s, b). s \<notin> set gone) (cf_segs fd)\<rparr>) c1,
          length (filter (\<lambda>s. cache_load c s \<noteq> None) gone)))"

definition cache_clear :: "segment_cache \<Rightarrow> segment_cache" where
  "cache_clear c =
     (ensure_dir (c\<lparr>ca_root := AList.delete (ca_event_id c) (ca_root c)\<rparr>))\<lparr>ca_index := []\<rparr>"


section \<open>Index and folder agree\<close>

definition cache_ok :: "segment_cache \<Rightarrow> bool" where
  "cache_ok c = (sorted (ca_index c) \<and> distinct (ca_index c) \<and> event_folder c \<noteq> None \<and>
     (\<forall>s. s \<in> set (ca_index c) \<longleftrightarrow> cache_load c s \<noteq> None))"

lemma event_folder_simps [simp]:
  "event_folder (c\<lparr>ca_index := i\<rparr>) = event_folder c"
  "event_folder (write_folder f c) = map_option f (event_folder c)"
  "ca_index (write_folder f c) = ca_index c" "ca_event_id (write_folder f c) = ca_event_id c"
  by (simp_all add: event_folder_def write_folder_def map_of_map_entry split: option.split)

lemma ensure_dir_folder [simp]:
  "event_folder (ensure_dir c) = Some (case event_folder c of Some fd \<Rightarrow> fd | None \<Rightarrow> empty_cache_folder)"
  "ca_index (ensure_dir c) = ca_index c" "ca_event_id (ensure_dir c) = ca_event_id c"
  by (auto simp: ensure_dir_def event_folder_def dir_simps split: option.split)

lemma cache_load_index [simp]: "cache_load (c\<lparr>ca_index := i\<rparr>) = cache_load c"
  by (simp add: cache_load_def fun_eq_iff)

lemma build_index_ok: "event_folder c \<noteq> None \<Longrightarrow> cache_ok (build_index c)"
  by (auto simp: cache_ok_def build_index_def cache_load_def sorted_remdups map_of_eq_None_iff split: option.split)
     (metis map_of_eq_None_iff option.distinct(1) weak_map_of_SomeI image_eqI fst_conv)+

lemma cache_open_ok: "cache_ok (cache_open rt event_id)"
  unfolding cache_open_def by (rule build_index_ok) simp

lemma set_event_ok: "cache_ok c \<Longrightarrow> cache_ok (set_event event_id c)"
  by (auto simp: set_event_def intro: build_index_ok)

lemma store_init_ok: "cache_ok c \<Longrightarrow> cache_ok (fst (store_init w b c))"
  by (auto simp: store_init_def cache_ok_def cache_load_def split: option.splits)

lemma cache_store_load:
  assumes "cache_store h w seq b ck c = (c', True)" "cache_ok c"
  shows "cache_load c' = (cache_load c)(seq \<mapsto> b)" "cache_ok c'" "ca_event_id c' = ca_event_id c"
    "ck = [] \<or> h b = ck" "set (ca_index c') = insert seq (set (ca_index c))"
proof -
  have c': "c' = (write_folder (\<lambda>fd. fd\<lparr>cf_segs := AList.update seq b (cf_segs fd)\<rparr>) (ensure_dir c))
      \<lparr>ca_index := (if seq \<in> set (ca_index c) then ca_index c else insort seq (ca_index c))\<rparr>"
    and ckh: "ck = [] \<or> h b = ck"
    using assms(1) by (auto simp: cache_store_def verify_sha256_def Let_def split: if_splits)
  have ld: "cache_load c' = (cache_load c)(seq \<mapsto> b)"
    using assms(2) by (auto simp: c' cache_load_def cache_ok_def fun_eq_iff dir_simps split: option.splits)
  have ix: "set (ca_index c') = insert seq (set (ca_index c))" by (auto simp: c' set_insort_key)
  show "cache_load c' = (cache_load c)(seq \<mapsto> b)" by (rule ld)
  show "set (ca_index c') = insert seq (set (ca_index c))" by (rule ix)
  show "cache_ok c'"
    using assms(2) unfolding cache_ok_def ix ld
    by (auto simp: c' sorted_insort distinct_insort split: if_splits)
  show "ca_event_id c' = ca_event_id c" by (simp add: c')
  show "ck = [] \<or> h b = ck" by (rule ckh)
qed

lemma cache_store_refused:
  assumes "cache_store h w seq b ck c = (c', False)"
  shows "c' = c \<or> c' = ensure_dir c" "ck \<noteq> [] \<and> h b \<noteq> ck \<or> \<not> w"
  using assms by (auto simp: cache_store_def verify_sha256_def Let_def split: if_splits)

lemma takeWhile_less: "sorted xs \<Longrightarrow> set (takeWhile (\<lambda>s. s < (k :: 'a :: linorder)) xs) = {s \<in> set xs. s < k}"
  by (induction xs) auto

lemma takeWhile_less_filter: "sorted xs \<Longrightarrow> takeWhile (\<lambda>s. s < (k :: 'a :: linorder)) xs = filter (\<lambda>s. s < k) xs"
  by (induction xs) (auto intro!: filter_False [symmetric] dest!: bspec dest: le_less_trans)

lemma dropWhile_less: "sorted xs \<Longrightarrow> dropWhile (\<lambda>s. s < (k :: 'a :: linorder)) xs = filter (\<lambda>s. \<not> s < k) xs"
  by (induction xs) (auto intro!: filter_True [symmetric])

lemma prune_below_load:
  assumes "cache_ok c"
  shows "cache_load (fst (prune_below k c)) s = (if s < k then None else cache_load c s)"
    "ca_index (fst (prune_below k c)) = filter (\<lambda>s. \<not> s < k) (ca_index c)" "cache_ok (fst (prune_below k c))"
    "ca_event_id (fst (prune_below k c)) = ca_event_id c"
    "snd (prune_below k c) = length (filter (\<lambda>s. s < k) (ca_index c))"
proof -
  have so: "sorted (ca_index c)" and ix: "\<And>s. s \<in> set (ca_index c) \<longleftrightarrow> cache_load c s \<noteq> None"
    using assms by (auto simp: cache_ok_def)
  have gone: "set (takeWhile (\<lambda>s. s < k) (ca_index c)) = {s \<in> set (ca_index c). s < k}" by (rule takeWhile_less [OF so])
  show ld: "cache_load (fst (prune_below k c)) s = (if s < k then None else cache_load c s)" for s
  proof (cases "event_folder c")
    case (Some fd)
    have "s < k \<Longrightarrow> s \<notin> set (ca_index c) \<Longrightarrow> map_of (cf_segs fd) s = None"
      using ix [of s] Some by (simp add: cache_load_def)
    then show ?thesis using Some by (auto simp: prune_below_def Let_def cache_load_def gone dir_simps)
  qed (simp add: prune_below_def Let_def cache_load_def)
  show i: "ca_index (fst (prune_below k c)) = filter (\<lambda>s. \<not> s < k) (ca_index c)"
    by (simp add: prune_below_def Let_def dropWhile_less [OF so])
  have "event_folder (fst (prune_below k c)) \<noteq> None" using assms by (auto simp: prune_below_def Let_def cache_ok_def)
  then show "cache_ok (fst (prune_below k c))"
    using assms ix unfolding cache_ok_def i ld by (auto intro: sorted_wrt_filter)
  show "ca_event_id (fst (prune_below k c)) = ca_event_id c" by (simp add: prune_below_def Let_def)
  have "filter (\<lambda>s. cache_load c s \<noteq> None) (takeWhile (\<lambda>s. s < k) (ca_index c)) = takeWhile (\<lambda>s. s < k) (ca_index c)"
    using gone ix by (intro filter_True) auto
  moreover have "takeWhile (\<lambda>s. s < k) (ca_index c) = filter (\<lambda>s. s < k) (ca_index c)"
    by (rule takeWhile_less_filter [OF so])
  ultimately show "snd (prune_below k c) = length (filter (\<lambda>s. s < k) (ca_index c))"
    by (simp add: prune_below_def Let_def)
qed

lemma ensure_dir_load [simp]: "cache_load (ensure_dir c) = cache_load c"
  by (auto simp: cache_load_def fun_eq_iff empty_cache_folder_def split: option.split)

lemma ensure_dir_ok: "cache_ok c \<Longrightarrow> cache_ok (ensure_dir c)"
  unfolding cache_ok_def by simp

lemma cache_clear_ok: "cache_ok (cache_clear c)"
  and cache_clear_load: "cache_load (cache_clear c) s = None"
  by (auto simp: cache_ok_def cache_clear_def cache_load_def event_folder_def ensure_dir_def dir_simps
      empty_cache_folder_def split: option.split)

lemma store_init_load [simp]: "cache_load (fst (store_init w b c)) = cache_load c"
  "ca_event_id (fst (store_init w b c)) = ca_event_id c"
  by (auto simp: store_init_def cache_load_def fun_eq_iff empty_cache_folder_def split: option.split)

lemma store_init_has:
  "store_init w b c = (c', True) \<Longrightarrow> load_init c' = Some b \<and> has_init c'"
  by (auto simp: store_init_def load_init_def has_init_def split: if_splits)

lemma set_event_folder:
  "event_id \<noteq> ca_event_id c \<Longrightarrow> cache_load (set_event event_id c) s =
     (case map_of (ca_root c) event_id of Some fd \<Rightarrow> map_of (cf_segs fd) s | None \<Rightarrow> None)"
  by (auto simp: set_event_def build_index_def cache_load_def ensure_dir_def event_folder_def
      sweep_orphans_def dir_simps empty_cache_folder_def split: option.split)

lemma set_event_only:
  assumes "event_id \<noteq> ca_event_id c"
  shows "fst ` set (ca_root (set_event event_id c)) = {event_id}" "ca_event_id (set_event event_id c) = event_id"
  using assms
  by (auto simp: set_event_def build_index_def ensure_dir_def event_folder_def sweep_orphans_def dir_simps
      map_of_eq_None_iff split: option.split dest!: map_of_SomeD) force+


section \<open>What the decoder relies on\<close>

text \<open>
  The contract of a segment store as the decoder uses it: every query is answered from what
  was stored, a store that is refused changes nothing that can be loaded, and what does not
  match its checksum is refused. \<open>fill\<close> is a pass of downloads.
\<close>

locale verified_store =
  fixes good :: "'s \<Rightarrow> bool"
    and hash :: "bytes \<Rightarrow> string"
    and put :: "bool \<Rightarrow> u64 \<Rightarrow> bytes \<Rightarrow> string \<Rightarrow> 's \<Rightarrow> 's \<times> bool"
    and get :: "'s \<Rightarrow> u64 \<Rightarrow> bytes option"
    and has :: "'s \<Rightarrow> u64 \<Rightarrow> bool"
    and prune :: "u64 \<Rightarrow> 's \<Rightarrow> 's \<times> nat"
  assumes has_get: "good s \<Longrightarrow> has s n \<longleftrightarrow> get s n \<noteq> None"
    and put_stored: "good s \<Longrightarrow> put w n b ck s = (s', True) \<Longrightarrow>
          good s' \<and> get s' = (get s)(n \<mapsto> b) \<and> (ck = [] \<or> hash b = ck)"
    and put_refused: "good s \<Longrightarrow> put w n b ck s = (s', False) \<Longrightarrow> good s' \<and> get s' = get s"
    and prune_get: "good s \<Longrightarrow> good (fst (prune k s)) \<and> get (fst (prune k s)) = (\<lambda>n. if n < k then None else get s n)"
begin

definition verified :: "(u64 \<Rightarrow> string) \<Rightarrow> 's \<Rightarrow> bool" where
  "verified cks s = (\<forall>n b. get s n = Some b \<and> cks n \<noteq> [] \<longrightarrow> hash b = cks n)"

lemma put_cases:
  assumes "good s"
  shows "(\<exists>s'. put w n b ck s = (s', True) \<and> good s' \<and> get s' = (get s)(n \<mapsto> b) \<and> (ck = [] \<or> hash b = ck)) \<or>
    (\<exists>s'. put w n b ck s = (s', False) \<and> good s' \<and> get s' = get s)"
proof -
  obtain s' r where r: "put w n b ck s = (s', r)" by fastforce
  then show ?thesis
  proof (cases r)
    case True
    with r show ?thesis using put_stored [OF assms, of w n b ck s'] by auto
  next
    case False
    with r show ?thesis using put_refused [OF assms, of w n b ck s'] by auto
  qed
qed

lemma put_good: "good s \<Longrightarrow> good (fst (put w n b ck s))"
  using put_cases [of s w n b ck] by auto

lemma put_verified: "good s \<Longrightarrow> verified cks s \<Longrightarrow> verified cks (fst (put w n b (cks n) s))"
  using put_cases [of s w n b "cks n"] unfolding verified_def by (auto split: if_splits)

lemma put_keeps: "good s \<Longrightarrow> has s m \<Longrightarrow> has (fst (put w n b ck s)) m"
  using put_cases [of s w n b ck] has_get by auto

lemma put_only: "good s \<Longrightarrow> has (fst (put w n b ck s)) m \<Longrightarrow> has s m \<or> m = n"
  using put_cases [of s w n b ck] has_get by (auto split: if_splits)

lemma prune_verified: "good s \<Longrightarrow> verified cks s \<Longrightarrow> verified cks (fst (prune k s))"
  using prune_get [of s k] by (auto simp: verified_def)

fun fill :: "(bool \<times> u64 \<times> bytes) list \<Rightarrow> (u64 \<Rightarrow> string) \<Rightarrow> 's \<Rightarrow> 's" where
  "fill [] cks s = s"
| "fill ((w, n, b) # ds) cks s = fill ds cks (fst (put w n b (cks n) s))"

lemma fill_verified:
  "good s \<Longrightarrow> verified cks s \<Longrightarrow> good (fill ds cks s) \<and> verified cks (fill ds cks s)"
  by (induction ds cks s rule: fill.induct) (simp_all add: put_good put_verified)

lemma fill_good: "good s \<Longrightarrow> good (fill ds cks s)"
  by (induction ds cks s rule: fill.induct) (simp_all add: put_good)

lemma fill_keeps: "good s \<Longrightarrow> has s m \<Longrightarrow> has (fill ds cks s) m"
  by (induction ds cks s rule: fill.induct) (simp_all add: put_good put_keeps)

lemma fill_get:
  "good s \<Longrightarrow> get (fill ds cks s) n = Some b \<Longrightarrow>
   get s n = Some b \<or> (\<exists>w. (w, n, b) \<in> set ds) \<and> (cks n = [] \<or> hash b = cks n)"
proof (induction ds cks s rule: fill.induct)
  case (2 w m x ds cks s)
  then have "get (fst (put w m x (cks m) s)) n = Some b \<or> (\<exists>w. (w, n, b) \<in> set ds) \<and> (cks n = [] \<or> hash b = cks n)"
    by (simp add: put_good)
  moreover have "get s n = Some b \<or> n = m \<and> b = x \<and> (cks m = [] \<or> hash x = cks m)"
    if "get (fst (put w m x (cks m) s)) n = Some b"
    using put_cases [OF "2.prems"(1), of w m x "cks m"] that by (elim disjE exE) (auto split: if_splits)
  ultimately show ?case by (metis list.set_intros(1) list.set_intros(2))
qed simp

lemma fill_only: "good s \<Longrightarrow> has (fill ds cks s) m \<Longrightarrow> has s m \<or> (\<exists>w b. (w, m, b) \<in> set ds)"
proof (induction ds cks s rule: fill.induct)
  case (2 w n b ds cks s)
  then have "has (fst (put w n b (cks n) s)) m \<or> (\<exists>w b. (w, m, b) \<in> set ds)" by (simp add: put_good)
  then show ?case using put_only [OF "2.prems"(1), of w n b "cks n" m] by auto
qed simp

end

interpretation cache_store: verified_store cache_ok h "cache_store h" cache_load cache_has prune_below
proof
  fix c :: segment_cache and n w b ck and c' k
  assume ok: "cache_ok c"
  show "cache_has c n \<longleftrightarrow> cache_load c n \<noteq> None" using ok by (auto simp: cache_ok_def cache_has_def)
  show "cache_store h w n b ck c = (c', True) \<Longrightarrow>
      cache_ok c' \<and> cache_load c' = (cache_load c)(n \<mapsto> b) \<and> (ck = [] \<or> h b = ck)"
    using cache_store_load(1,2,4) [OF _ ok] by simp
  show "cache_store h w n b ck c = (c', False) \<Longrightarrow> cache_ok c' \<and> cache_load c' = cache_load c"
    using cache_store_refused(1) ok ensure_dir_ok by fastforce
  show "cache_ok (fst (prune_below k c)) \<and> cache_load (fst (prune_below k c)) = (\<lambda>n. if n < k then None else cache_load c n)"
    using prune_below_load [OF ok] by (auto simp: fun_eq_iff)
qed

section \<open>Every history of the cache\<close>

datatype cache_op = Op_Store bool u64 bytes string | Op_Init bool bytes | Op_Prune u64 | Op_Event string | Op_Clear

fun cache_apply :: "(bytes \<Rightarrow> string) \<Rightarrow> cache_op \<Rightarrow> segment_cache \<Rightarrow> segment_cache" where
  "cache_apply h (Op_Store w s b ck) c = fst (cache_store h w s b ck c)"
| "cache_apply h (Op_Init w b) c = fst (store_init w b c)"
| "cache_apply h (Op_Prune k) c = fst (prune_below k c)"
| "cache_apply h (Op_Event e) c = set_event e c"
| "cache_apply h Op_Clear c = cache_clear c"

definition cache_run :: "(bytes \<Rightarrow> string) \<Rightarrow> (string, cache_folder) dir \<Rightarrow> string \<Rightarrow> cache_op list \<Rightarrow> segment_cache" where
  "cache_run h rt event_id ops = fold (cache_apply h) ops (cache_open rt event_id)"

definition on_disk :: "(string, cache_folder) dir \<Rightarrow> string \<Rightarrow> u64 \<Rightarrow> bytes \<Rightarrow> bool" where
  "on_disk rt d s b = (\<exists>fd. map_of rt d = Some fd \<and> map_of (cf_segs fd) s = Some b)"

text \<open>Stored during \<open>ops\<close> while \<open>d\<close> was the current event, with bytes that match the given checksum.\<close>

definition accepted :: "(bytes \<Rightarrow> string) \<Rightarrow> (string, cache_folder) dir \<Rightarrow> string \<Rightarrow> cache_op list \<Rightarrow> string \<Rightarrow> u64 \<Rightarrow> bytes \<Rightarrow> bool" where
  "accepted h rt e ops d s b = (\<exists>ops1 w ck ops2. ops = ops1 @ Op_Store w s b ck # ops2 \<and>
     ca_event_id (cache_run h rt e ops1) = d \<and> (ck = [] \<or> h b = ck))"

lemma cache_run_snoc [simp]: "cache_run h rt e (ops @ [x]) = cache_apply h x (cache_run h rt e ops)"
  by (simp add: cache_run_def)

lemma accepted_snoc: "accepted h rt e ops d s b \<Longrightarrow> accepted h rt e (ops @ [x]) d s b"
  unfolding accepted_def by (metis append_Cons append_assoc)

lemma cache_apply_ok: "cache_ok c \<Longrightarrow> cache_ok (cache_apply h x c)"
  by (cases x) (simp_all add: cache_store.put_good store_init_ok cache_store.prune_get set_event_ok cache_clear_ok)

lemma cache_run_ok: "cache_ok (cache_run h rt e ops)"
proof (induction ops rule: rev_induct)
  case Nil
  show ?case by (simp add: cache_run_def cache_open_ok)
qed (simp add: cache_apply_ok)

text \<open>Only the current folder is written, and only \<open>store\<close> adds to it.\<close>

lemma on_disk_ensure_dir [simp]: "on_disk (ca_root (ensure_dir c)) = on_disk (ca_root c)"
  by (auto simp: on_disk_def fun_eq_iff ensure_dir_def event_folder_def dir_simps empty_cache_folder_def split: option.split)

lemma on_disk_build_index [simp]: "ca_root (build_index c) = ca_root c"
  by (simp add: build_index_def)

lemma on_disk_write_folder:
  "on_disk (ca_root (write_folder f c)) d s b \<Longrightarrow> (\<And>fd. cf_segs (f fd) = cf_segs fd) \<Longrightarrow> on_disk (ca_root c) d s b"
  by (auto simp: on_disk_def write_folder_def map_of_map_entry split: if_splits option.splits)

lemma on_disk_write_seg:
  "on_disk (ca_root (write_folder (\<lambda>fd. fd\<lparr>cf_segs := AList.update n x (cf_segs fd)\<rparr>) c)) d s b \<Longrightarrow>
   on_disk (ca_root c) d s b \<or> d = ca_event_id c \<and> s = n \<and> b = x"
  by (auto simp: on_disk_def write_folder_def map_of_map_entry dir_simps split: if_splits option.splits)

lemma on_disk_filter: "on_disk (filter (\<lambda>(d, fd). P d) rt) d s b \<Longrightarrow> on_disk rt d s b"
  by (auto simp: on_disk_def dir_simps split: if_splits)

lemma on_disk_delete: "on_disk (AList.delete k rt) d s b \<Longrightarrow> on_disk rt d s b"
  by (auto simp: on_disk_def dir_simps split: if_splits)

lemma on_disk_store:
  assumes "on_disk (ca_root (fst (cache_store h w n x ck c))) d s b"
  shows "on_disk (ca_root c) d s b \<or> d = ca_event_id c \<and> s = n \<and> b = x \<and> (ck = [] \<or> h x = ck)"
proof (cases "ck \<noteq> [] \<and> \<not> verify_sha256 h x ck \<or> \<not> w")
  case True
  then show ?thesis using assms by (auto simp: cache_store_def Let_def split: if_splits)
next
  case False
  then have "on_disk (ca_root (write_folder (\<lambda>fd. fd\<lparr>cf_segs := AList.update n x (cf_segs fd)\<rparr>) (ensure_dir c))) d s b"
    using assms by (auto simp: cache_store_def Let_def)
  from on_disk_write_seg [OF this] show ?thesis using False by (auto simp: verify_sha256_def)
qed

lemma on_disk_prune: "on_disk (ca_root (fst (prune_below k c))) d s b \<Longrightarrow> on_disk (ca_root c) d s b"
  by (auto simp: on_disk_def prune_below_def Let_def write_folder_def map_of_map_entry dir_simps
      split: if_splits option.splits)

lemma on_disk_set_event: "on_disk (ca_root (set_event e c)) d s b \<Longrightarrow> on_disk (ca_root c) d s b"
  using on_disk_filter [of "\<lambda>d. d = e" "ca_root c" d s b]
  by (auto simp: set_event_def sweep_orphans_def split: if_splits)

lemma on_disk_store_init: "on_disk (ca_root (fst (store_init w x c))) d s b \<Longrightarrow> on_disk (ca_root c) d s b"
  using on_disk_write_folder [of "\<lambda>fd. fd\<lparr>cf_init := Some x\<rparr>" "ensure_dir c" d s b]
  by (auto simp: store_init_def split: if_splits)

lemma on_disk_clear: "on_disk (ca_root (cache_clear c)) d s b \<Longrightarrow> on_disk (ca_root c) d s b"
  using on_disk_delete [of "ca_event_id c" "ca_root c" d s b] by (simp add: cache_clear_def)

lemma cache_run_on_disk:
  "on_disk (ca_root (cache_run h rt e ops)) d s b \<Longrightarrow> on_disk rt d s b \<or> accepted h rt e ops d s b"
proof (induction ops arbitrary: d s b rule: rev_induct)
  case Nil
  then show ?case by (simp add: cache_run_def cache_open_def)
next
  case (snoc x ops)
  have new: "accepted h rt e (ops @ [Op_Store w n y ck]) (ca_event_id (cache_run h rt e ops)) n y"
    if "ck = [] \<or> h y = ck" for w n y ck
    unfolding accepted_def using that by blast
  have "on_disk (ca_root (cache_run h rt e ops)) d s b \<or> accepted h rt e (ops @ [x]) d s b"
    using snoc.prems new
    by (cases x) (auto dest: on_disk_store on_disk_store_init on_disk_prune on_disk_set_event on_disk_clear)
  then show ?case using snoc.IH accepted_snoc by blast
qed


section \<open>Properties\<close>

text \<open>
  C22: Whatever the cache is asked to do, its index and its folder agree, and every segment it
  can load was either on the disk for the current event when the program started or was stored
  for that event with bytes that match the checksum given: a corrupt download or another
  event's segment never becomes playable.
\<close>

theorem cache_history:
  "cache_ok (cache_run h rt e ops) \<and>
   (\<forall>s b. cache_load (cache_run h rt e ops) s = Some b \<longrightarrow>
      on_disk rt (ca_event_id (cache_run h rt e ops)) s b \<or>
      accepted h rt e ops (ca_event_id (cache_run h rt e ops)) s b)"
proof -
  have "on_disk (ca_root c) (ca_event_id c) s b" if "cache_load c s = Some b" for c s b
    using that by (auto simp: cache_load_def event_folder_def on_disk_def split: option.splits)
  then show ?thesis using cache_run_ok cache_run_on_disk by blast
qed

text \<open>
  Changing the event leaves one folder on the disk, that of the new event, and the index is
  exactly what that folder already held: nothing of the event left, or of any other, remains.
\<close>

lemma set_event_sweeps:
  assumes "cache_ok c" "e \<noteq> ca_event_id c"
  shows "ca_event_id (set_event e c) = e \<and> fst ` set (ca_root (set_event e c)) = {e} \<and>
    (\<forall>s b. cache_load (set_event e c) s = Some b \<longleftrightarrow> on_disk (ca_root c) e s b) \<and>
    (\<forall>s. cache_has (set_event e c) s \<longleftrightarrow> cache_load (set_event e c) s \<noteq> None)"
  using set_event_only [OF assms(2)] set_event_folder [OF assms(2)] set_event_ok [OF assms(1), of e]
    cache_store.has_get
  by (auto simp: on_disk_def split: option.splits)

theorem cache_history_witness:
  "cache_load (cache_run (\<lambda>b. ''sum'') [] ''e'' [Op_Store True 5 [1, 2] ''sum'']) 5 = Some [1, 2] \<and>
   accepted (\<lambda>b. ''sum'') [] ''e'' [Op_Store True 5 [1, 2] ''sum''] ''e'' 5 [1, 2]"
proof -
  have c: "ca_event_id (cache_run (\<lambda>b. ''sum'') [] ''e'' [Op_Store True 5 [1, 2] ''sum'']) = ''e''"
    "cache_load (cache_run (\<lambda>b. ''sum'') [] ''e'' [Op_Store True 5 [1, 2] ''sum'']) 5 = Some [1, 2]"
    by code_simp+
  have d: "\<not> on_disk [] ''e'' 5 [1, 2]" by (simp add: on_disk_def)
  show ?thesis
    using c d cache_history [of "\<lambda>b. ''sum''" "[]" "''e''" "[Op_Store True 5 [1, 2] ''sum'']"] by auto
qed

end
