(* ===== verification/Decoder_Model.thy ===== *)
theory Decoder_Model
  imports Session_Model Segment_Cache
begin

text \<open>
  The decoder session (\<^verbatim>\<open>src/core/decoder_session.h\<close>, \<^verbatim>\<open>decoder_session.cpp\<close>): following a room,
  downloading segments into the cache, the gate before playback starts, the playhead, seeking,
  cues and the readouts of the user interface.

  One definition per member function, on the record \<open>decoder\<close> of the members. What the
  environment answers is an input: the results of requests with whether the request was
  cancelled, the clock, and whether the disk takes a write. Functions that release the lock
  are split where they do (\<open>next_begin\<close>, \<open>next_read\<close>, \<open>next_commit\<close>), so that other operations
  can come between. Products of signed 64-bit values are exact: an overflow there is undefined
  behaviour in the code. Log lines are not modelled.
\<close>

section \<open>Data\<close>

datatype room_state = R_Unknown | R_Offline | R_Live | R_Ended | R_Interrupted

definition is_vod :: "room_state \<Rightarrow> bool" where
  "is_vod s = (s = R_Ended \<or> s = R_Interrupted)"

datatype play_state = Stopped | Playing | Paused

record decoder_config =
  dc_room_id :: string
  dc_author_name :: string
  dc_can_author_cues :: bool
  dc_prebuffer_segments :: int
  dc_start_buffer_seconds :: int
  dc_buffer_minutes :: int
  dc_max_cached_segments :: int
  dc_keep_behind_segments :: int
  dc_stale_after_ms :: int
  dc_hold_finished_event :: bool
  dc_pinned_event_id :: string

definition decoder_config_default :: decoder_config where
  "decoder_config_default = \<lparr>dc_room_id = ''main-auditorium'', dc_author_name = [], dc_can_author_cues = False,
     dc_prebuffer_segments = 2, dc_start_buffer_seconds = 60, dc_buffer_minutes = 10, dc_max_cached_segments = 2000,
     dc_keep_behind_segments = 200, dc_stale_after_ms = 600000, dc_hold_finished_event = True, dc_pinned_event_id = []\<rparr>"

record playable_segment =
  ps_seq :: u64
  ps_duration_s :: double
  ps_init :: bytes
  ps_media :: bytes
  ps_starts_at_ms :: i64
  ps_starts_at_estimated :: bool
  ps_event_started_at_ms :: i64
  ps_skip_to_ms :: i64

record start_plan =
  pl_known :: bool
  pl_has_init :: bool
  pl_want :: u64
  pl_need :: u64
  pl_have :: u64

definition start_plan_default :: start_plan where
  "start_plan_default = \<lparr>pl_known = False, pl_has_init = False, pl_want = 0, pl_need = 0, pl_have = 0\<rparr>"

definition plan_ready :: "start_plan \<Rightarrow> bool" where
  "plan_ready p = (pl_known p \<and> pl_has_init p \<and> pl_have p \<ge> pl_need p)"

record decoder_stats =
  ds_downloaded :: u64
  ds_download_failures :: u64
  ds_checksum_failures :: u64
  ds_served :: u64
  ds_gaps_waited :: u64
  ds_gap_skips :: u64

record decoder =
  dd_cfg :: decoder_config
  dd_cache :: segment_cache
  dd_event_id :: string
  dd_pinned_event_id :: string
  dd_measured_segment_ms :: i64
  dd_end_hold_done :: bool
  dd_live_event_id :: string
  dd_room_is_live :: bool
  dd_room :: room_state
  dd_play :: play_state
  dd_last_error :: string
  dd_manifest :: manifest
  dd_markers :: marker_list
  dd_markers_checked_ms :: i64
  dd_manifest_updated_ms :: i64
  dd_latest_seq :: u64
  dd_first_available_seq :: u64
  dd_segment_duration_s :: double
  dd_started_at_ms :: i64
  dd_saw_live :: bool
  dd_manifest_stalled :: bool
  dd_switched_target :: bool
  dd_head :: u64
  dd_head_set :: bool
  dd_init_sent :: bool
  dd_discontinuity :: u64
  dd_pending_skip_ms :: i64
  dd_unavailable :: "(u64, int) dir"
  dd_stats :: decoder_stats
  dd_link :: link_tracker
  dd_prefers_secondary :: bool

definition kGapAttempts :: int where
  "kGapAttempts = 3"

definition decoder_new :: "decoder_config \<Rightarrow> (string, cache_folder) dir \<Rightarrow> decoder" where
  "decoder_new cfg rt = \<lparr>dd_cfg = cfg, dd_cache = cache_open rt ''pending'', dd_event_id = [],
     dd_pinned_event_id = dc_pinned_event_id cfg, dd_measured_segment_ms = 0, dd_end_hold_done = False,
     dd_live_event_id = [], dd_room_is_live = False, dd_room = R_Unknown, dd_play = Stopped, dd_last_error = [],
     dd_manifest = manifest_default, dd_markers = marker_list_default, dd_markers_checked_ms = 0,
     dd_manifest_updated_ms = 0, dd_latest_seq = 0, dd_first_available_seq = 0, dd_segment_duration_s = 6,
     dd_started_at_ms = 0, dd_saw_live = False, dd_manifest_stalled = False, dd_switched_target = False,
     dd_head = 0, dd_head_set = False, dd_init_sent = False, dd_discontinuity = 0, dd_pending_skip_ms = 0,
     dd_unavailable = [], dd_stats = \<lparr>ds_downloaded = 0, ds_download_failures = 0, ds_checksum_failures = 0,
       ds_served = 0, ds_gaps_waited = 0, ds_gap_skips = 0\<rparr>, dd_link = link_tracker_init, dd_prefers_secondary = False\<rparr>"

definition dec_error :: "string \<Rightarrow> decoder \<Rightarrow> decoder" where
  "dec_error what d = d\<lparr>dd_last_error := what\<rparr>"

definition gap_waited :: "decoder \<Rightarrow> decoder" where
  "gap_waited d = d\<lparr>dd_stats := (dd_stats d)\<lparr>ds_gaps_waited := ds_gaps_waited (dd_stats d) + 1\<rparr>\<rparr>"

text \<open>\<^verbatim>\<open>(uint64_t)i\<close> of an \<^verbatim>\<open>int\<close>.\<close>

definition u64_of_int :: "int \<Rightarrow> u64" where
  "u64_of_int i = nat (i mod 2 ^ 64)"


section \<open>Pinning\<close>

definition pin_event :: "string \<Rightarrow> decoder \<Rightarrow> decoder" where
  "pin_event event_id d = d\<lparr>dd_pinned_event_id := event_id\<rparr>"

definition unpin :: "decoder \<Rightarrow> decoder" where
  "unpin d = d\<lparr>dd_pinned_event_id := [], dd_end_hold_done := True\<rparr>"

definition is_pinned :: "decoder \<Rightarrow> bool" where
  "is_pinned d = (dd_pinned_event_id d \<noteq> [])"

definition live_elsewhere :: "decoder \<Rightarrow> bool" where
  "live_elsewhere d = (dd_room_is_live d \<and> dd_live_event_id d \<noteq> [] \<and> dd_live_event_id d \<noteq> dd_event_id d)"


section \<open>Timing\<close>

definition segment_duration_s :: "decoder \<Rightarrow> double" where
  "segment_duration_s d = (if dd_segment_duration_s d > 1 / 10 then dd_segment_duration_s d else 6)"

definition segment_ms :: "decoder \<Rightarrow> i64" where
  "segment_ms d = (if dd_measured_segment_ms d > 0 then dd_measured_segment_ms d
                   else trunc (segment_duration_s d * 1000))"

definition media_ms_for_seq :: "decoder \<Rightarrow> u64 \<Rightarrow> i64" where
  "media_ms_for_seq d seq = int seq * segment_ms d"

text \<open>\<open>owns\<close>: the lock was free, so the manifest could be read.\<close>

definition wall_clock_ms :: "bool \<Rightarrow> u64 \<Rightarrow> decoder \<Rightarrow> i64" where
  "wall_clock_ms owns seq d =
     (case (if owns then find (\<lambda>s. ms_seq s = seq \<and> ms_at_ms s > 0) (mf_segments (dd_manifest d)) else None) of
        Some s \<Rightarrow> ms_at_ms s
      | None \<Rightarrow> if dd_started_at_ms d \<le> 0 then 0 else dd_started_at_ms d + int seq * segment_ms d)"

definition at_end :: "decoder \<Rightarrow> bool" where
  "at_end d = (dd_head_set d \<and> dd_head d > dd_latest_seq d)"

definition live_media_ms :: "decoder \<Rightarrow> i64" where
  "live_media_ms d = media_ms_for_seq d (dd_latest_seq d)"

definition earliest_media_ms :: "decoder \<Rightarrow> i64" where
  "earliest_media_ms d = media_ms_for_seq d (dd_first_available_seq d)"

definition end_media_ms :: "decoder \<Rightarrow> i64" where
  "end_media_ms d = media_ms_for_seq d (dd_latest_seq d) + segment_ms d"

definition playhead_media_ms :: "decoder \<Rightarrow> i64" where
  "playhead_media_ms d =
     (if \<not> dd_head_set d then 0
      else let t = media_ms_for_seq d (dd_head d); e = end_media_ms d
           in if e > 0 \<and> t > e then e else t)"

definition behind_live_s :: "decoder \<Rightarrow> double" where
  "behind_live_s d =
     (if \<not> dd_head_set d then 0
      else if dd_latest_seq d < dd_head d then 0
      else real (dd_latest_seq d - dd_head d) * real_of_int (segment_ms d) / 1000)"

definition add_range :: "(u64 \<times> u64) list \<Rightarrow> u64 \<Rightarrow> (u64 \<times> u64) list" where
  "add_range out s = (if out \<noteq> [] \<and> s = inc64 (snd (last out))
                      then butlast out @ [(fst (last out), s)] else out @ [(s, s)])"

definition cached_ranges :: "decoder \<Rightarrow> (u64 \<times> u64) list" where
  "cached_ranges d = foldl add_range [] (cached_seqs (dd_cache d))"

text \<open>
  \<^verbatim>\<open>for (s = from; idx.count(s); ++s) ++n\<close>. The number of indexed segments bounds the number of
  turns, unless the index held every 64-bit number.
\<close>

fun contiguous :: "nat \<Rightarrow> u64 list \<Rightarrow> u64 \<Rightarrow> nat" where
  "contiguous 0 idx s = 0"
| "contiguous (Suc f) idx s = (if s \<in> set idx then Suc (contiguous f idx (inc64 s)) else 0)"

definition contiguous_from :: "decoder \<Rightarrow> u64 \<Rightarrow> nat" where
  "contiguous_from d s = contiguous (cache_count (dd_cache d)) (cached_seqs (dd_cache d)) s"

definition buffered_ahead_s :: "decoder \<Rightarrow> double" where
  "buffered_ahead_s d =
     (if \<not> dd_head_set d then 0 else real (contiguous_from d (dd_head d)) * segment_duration_s d)"


section \<open>Discovery\<close>

text \<open>A GET: its result, and whether the request was cancelled by this side.\<close>

type_synonym get_answer = "get_result \<times> bool"

record poll_answers =
  pa_now :: i64
  pa_preferring_secondary :: bool
  pa_live :: get_answer
  pa_manifest :: get_answer
  pa_markers :: get_answer
  pa_cue_list :: "(string \<times> get_result) list option"
  pa_event :: get_answer

definition observed :: "get_answer \<Rightarrow> i64 \<Rightarrow> decoder \<Rightarrow> decoder" where
  "observed a now d =
     (if snd a then d
      else d\<lparr>dd_link := observe (dd_link d) (link_reachable_result (gr_success (fst a)) (gr_http_status (fst a))) now\<rparr>)"

definition http_error :: "string \<Rightarrow> get_result \<Rightarrow> string" where
  "http_error what r = what @ '': HTTP '' @ int_str (gr_http_status r) @ '' '' @ gr_error r"

definition poll_failover :: "poll_answers \<Rightarrow> decoder \<Rightarrow> decoder" where
  "poll_failover pa d =
     (if dd_manifest_stalled d \<and> \<not> dd_switched_target d \<and> \<not> pa_preferring_secondary pa
      then d\<lparr>dd_prefers_secondary := True, dd_switched_target := True\<rparr> else d)"

definition read_live :: "get_answer \<Rightarrow> live_pointer \<times> string" where
  "read_live a =
     (if \<not> gr_success (fst a)
      then (live_pointer_default, if snd a then [] else http_error ''live.json'' (fst a))
      else case parsed live_pointer_from_json (gr_body (fst a)) of
             Some live \<Rightarrow> (live, [])
           | None \<Rightarrow> (live_pointer_default, ''live.json is not valid JSON''))"

definition poll_offline :: "live_pointer \<Rightarrow> string \<Rightarrow> decoder \<Rightarrow> decoder" where
  "poll_offline live live_error d =
     d\<lparr>dd_live_event_id := lp_event_id live, dd_room_is_live := False,
       dd_last_error := (if live_error \<noteq> [] then live_error else dd_last_error d), dd_room := R_Offline\<rparr>"

text \<open>The reset when the event to play has changed.\<close>

definition enter_event :: "string \<Rightarrow> decoder \<Rightarrow> decoder" where
  "enter_event target d =
     (if target = dd_event_id d then d
      else d\<lparr>dd_event_id := target, dd_cache := set_event target (dd_cache d), dd_head := 0, dd_head_set := False,
             dd_init_sent := False, dd_play := Stopped, dd_markers := marker_list_default, dd_markers_checked_ms := 0,
             dd_saw_live := False, dd_end_hold_done := False, dd_discontinuity := inc64 (dd_discontinuity d),
             dd_unavailable := []\<rparr>)"

definition cue_key_listed :: "string \<Rightarrow> bool" where
  "cue_key_listed key = (\<not> (length key < 6 \<or> drop (length key - 5) key \<noteq> ''.json''))"

definition cue_parts :: "poll_answers \<Rightarrow> marker_list list" where
  "cue_parts pa =
     (if gr_success (fst (pa_markers pa))
      then (case parsed marker_list_from_json (gr_body (fst (pa_markers pa))) of Some ml \<Rightarrow> [ml] | None \<Rightarrow> []) else []) @
     (case pa_cue_list pa of
        None \<Rightarrow> []
      | Some ls \<Rightarrow> List.map_filter
          (\<lambda>(key, cg). if cue_key_listed key \<and> gr_success cg then parsed marker_list_from_json (gr_body cg) else None) ls)"

definition poll_cues :: "poll_answers \<Rightarrow> bool \<Rightarrow> decoder \<Rightarrow> decoder \<times> marker_list option" where
  "poll_cues pa need_markers d =
     (if need_markers
      then (observed (pa_markers pa) (pa_now pa) d, if cue_parts pa \<noteq> [] then Some (merge_markers (cue_parts pa)) else None)
      else (d, None))"

text \<open>The start of the event and a duration hint, from \<^verbatim>\<open>event.json\<close> when the manifest has no start.\<close>

definition poll_start :: "poll_answers \<Rightarrow> manifest \<Rightarrow> decoder \<Rightarrow> decoder \<times> i64 \<times> double" where
  "poll_start pa fetched d =
     (if mf_started_at_ms fetched \<le> 0
      then (observed (pa_event pa) (pa_now pa) d,
            if gr_success (fst (pa_event pa))
            then (case parsed event_info_from_json (gr_body (fst (pa_event pa))) of
                    Some info \<Rightarrow> (ev_started_at_ms info, ev_segment_duration_s info)
                  | None \<Rightarrow> (mf_started_at_ms fetched, 0))
            else (mf_started_at_ms fetched, 0))
      else (d, mf_started_at_ms fetched, 0))"

definition measured_ms :: "manifest_segment list \<Rightarrow> i64 option" where
  "measured_ms segs =
     (let timed = filter (\<lambda>s. ms_at_ms s > 0) segs
      in if timed = [] then None
         else let a = hd timed; z = last timed
              in if ms_seq z > ms_seq a \<and> ms_at_ms z > ms_at_ms a
                 then Some ((ms_at_ms z - ms_at_ms a) sdiv int (ms_seq z - ms_seq a)) else None)"

definition poll_timing :: "manifest \<Rightarrow> double \<Rightarrow> decoder \<Rightarrow> decoder" where
  "poll_timing m seg_hint d =
     d\<lparr>dd_segment_duration_s :=
         (if stream_duration_hint m > 1 / 10 then stream_duration_hint m
          else if seg_hint > 1 / 10 then seg_hint else dd_segment_duration_s d),
       dd_measured_segment_ms := (case measured_ms (mf_segments m) of Some ms \<Rightarrow> ms | None \<Rightarrow> dd_measured_segment_ms d)\<rparr>"

definition poll_room :: "poll_answers \<Rightarrow> live_pointer \<Rightarrow> decoder \<Rightarrow> decoder" where
  "poll_room pa live d =
     (let age = pa_now pa - dd_manifest_updated_ms d;
          ended = (mf_status (dd_manifest d) = ''ended'');
          old = (dd_manifest_updated_ms d > 0 \<and> age > dc_stale_after_ms (dd_cfg d));
          d1 = d\<lparr>dd_manifest_stalled := (\<not> ended \<and> old)\<rparr>;
          d2 = (if ended then d1\<lparr>dd_room := R_Ended\<rparr>
                else if old then
                  dec_error (''manifest last updated '' @ int_str (age sdiv 1000) @ ''s ago '' @ em_dash @
                             '' the encoder stopped without ending the event'') (d1\<lparr>dd_room := R_Interrupted\<rparr>)
                else dec_error [] (d1\<lparr>dd_room := R_Live, dd_saw_live := True\<rparr>))
      in d2\<lparr>dd_room_is_live := (lp_event_id live \<noteq> [] \<and> lp_status live = ''live'' \<and>
              (dc_stale_after_ms (dd_cfg d) \<le> 0 \<or> pa_now pa - lp_updated_at_ms live \<le> dc_stale_after_ms (dd_cfg d)))\<rparr>)"

definition poll_hold :: "decoder \<Rightarrow> decoder" where
  "poll_hold d =
     (if dc_hold_finished_event (dd_cfg d) \<and> dd_room d = R_Ended
      then d\<lparr>dd_pinned_event_id := (if \<not> dd_end_hold_done d \<and> dd_pinned_event_id d = [] \<and> dd_event_id d \<noteq> []
                                     then dd_event_id d else dd_pinned_event_id d),
             dd_end_hold_done := True\<rparr>
      else d)"

definition poll_commit :: "poll_answers \<Rightarrow> live_pointer \<Rightarrow> manifest \<Rightarrow> marker_list option \<Rightarrow> i64 \<Rightarrow> double \<Rightarrow> decoder \<Rightarrow> decoder" where
  "poll_commit pa live fetched markers started_at seg_hint d =
     (let m = (if started_at > 0 then fetched\<lparr>mf_started_at_ms := started_at\<rparr> else fetched);
          d1 = d\<lparr>dd_manifest := m, dd_started_at_ms := mf_started_at_ms m,
                 dd_markers := (case markers of Some ml \<Rightarrow> ml | None \<Rightarrow> dd_markers d),
                 dd_latest_seq := mf_latest_seq m, dd_first_available_seq := mf_first_available_seq m,
                 dd_manifest_updated_ms := mf_updated_at_ms m\<rparr>
      in poll_hold (poll_room pa live (poll_timing m seg_hint d1)))"

definition poll_manifest :: "poll_answers \<Rightarrow> live_pointer \<Rightarrow> bool \<Rightarrow> decoder \<Rightarrow> decoder" where
  "poll_manifest pa live need_markers d =
     (let r = fst (pa_manifest pa); d1 = observed (pa_manifest pa) (pa_now pa) d
      in if \<not> gr_success r then
           (if snd (pa_manifest pa) then d1
            else (dec_error (http_error ''manifest.json'' r) d1)\<lparr>dd_room := R_Offline\<rparr>)
         else case parsed manifest_from_json (gr_body r) of
           None \<Rightarrow> (dec_error ''manifest.json is not valid JSON'' d1)\<lparr>dd_room := R_Offline\<rparr>
         | Some fetched \<Rightarrow>
             if \<not> protocol_readable (mf_protocol_version fetched) then
               (dec_error (''this event needs a newer version of the plugin '' @ em_dash @
                  '' it was recorded with storage protocol '' @ int_str (mf_protocol_version fetched) @
                  '' and this build reads '' @ int_str kProtocolVersion) d1)\<lparr>dd_room := R_Offline\<rparr>
             else let (d2, markers) = poll_cues pa need_markers d1;
                      (d3, started_at, seg_hint) = poll_start pa fetched d2
                  in poll_commit pa live fetched markers started_at seg_hint d3)"

definition poll :: "poll_answers \<Rightarrow> decoder \<Rightarrow> decoder" where
  "poll pa d0 =
     (let d1 = observed (pa_live pa) (pa_now pa) (poll_failover pa d0);
          (live, live_error) = read_live (pa_live pa);
          target = (if dd_pinned_event_id d1 = [] then lp_event_id live else dd_pinned_event_id d1)
      in if target = [] then (if snd (pa_live pa) then d1 else poll_offline live live_error d1)
         else let d2 = enter_event target (d1\<lparr>dd_live_event_id := lp_event_id live\<rparr>);
                  need_markers = (pa_now pa - dd_markers_checked_ms d2 > 5000);
                  d3 = (if need_markers then d2\<lparr>dd_markers_checked_ms := pa_now pa\<rparr> else d2)
              in poll_manifest pa live need_markers d3)"


section \<open>The start gate\<close>

definition start_reserve_segments :: "decoder \<Rightarrow> u64" where
  "start_reserve_segments d =
     max (nat (max 0 (dc_prebuffer_segments (dd_cfg d))))
         (nat \<lceil>real_of_int (max 0 (dc_start_buffer_seconds (dd_cfg d))) / segment_duration_s d\<rceil>)"

definition plays_as_recording :: "decoder \<Rightarrow> bool" where
  "plays_as_recording d = (is_vod (dd_room d) \<or> dd_pinned_event_id d \<noteq> [])"

text \<open>The segment a live start sits at: \<open>back\<close> segments behind the edge.\<close>

definition behind_edge :: "decoder \<Rightarrow> u64 \<Rightarrow> u64" where
  "behind_edge d back =
     (if dd_latest_seq d > back then dd_latest_seq d - back else dd_first_available_seq d)"

definition start_plan_locked :: "decoder \<Rightarrow> start_plan" where
  "start_plan_locked d =
     (if dd_room d \<noteq> R_Live \<and> \<not> is_vod (dd_room d) then start_plan_default
      else
        let p = start_plan_default\<lparr>pl_known := True\<rparr>;
            wanted = (if dd_pinned_event_id d = [] then dd_live_event_id d else dd_pinned_event_id d)
        in if wanted \<noteq> [] \<and> wanted \<noteq> dd_event_id d then p
           else
             let p1 = p\<lparr>pl_has_init := has_init (dd_cache d)\<rparr>
             in if dd_head_set d then p1\<lparr>pl_want := dd_head d, pl_need := 1, pl_have := 1\<rparr>
                else
                  let p2 = (if plays_as_recording d
                            then p1\<lparr>pl_want := dd_first_available_seq d, pl_need := 1\<rparr>
                            else p1\<lparr>pl_want := behind_edge d (start_reserve_segments d),
                                    pl_need := max 1 (start_reserve_segments d)\<rparr>);
                      want = max (pl_want p2) (dd_first_available_seq d)
                  in p2\<lparr>pl_want := want, pl_have := contiguous_from d want\<rparr>)"

definition can_start_now :: "decoder \<Rightarrow> bool" where
  "can_start_now d = plan_ready (start_plan_locked d)"

definition start_gate_s :: "decoder \<Rightarrow> double" where
  "start_gate_s d = (if pl_known (start_plan_locked d)
                     then real (pl_need (start_plan_locked d)) * dd_segment_duration_s d else 0)"

definition ready_buffer_s :: "decoder \<Rightarrow> double" where
  "ready_buffer_s d = (if pl_known (start_plan_locked d)
                       then real (pl_have (start_plan_locked d)) * dd_segment_duration_s d else 0)"

definition start :: "decoder \<Rightarrow> decoder \<times> bool" where
  "start d =
     (let p = start_plan_locked d
      in if \<not> plan_ready p then (d, False)
         else ((if dd_head_set d then d else d\<lparr>dd_head := pl_want p, dd_head_set := True\<rparr>)\<lparr>dd_play := Playing\<rparr>, True))"


section \<open>The playhead\<close>

definition pause :: "decoder \<Rightarrow> decoder" where
  "pause d = d\<lparr>dd_play := Paused\<rparr>"

definition resume_play :: "decoder \<Rightarrow> decoder" where
  "resume_play d = d\<lparr>dd_play := (if dd_head_set d then Playing else Stopped)\<rparr>"

text \<open>Moving the head: a change of position restarts the decoder, so it needs the init again.\<close>

definition move_head :: "u64 \<Rightarrow> decoder \<Rightarrow> decoder" where
  "move_head seq d =
     (if \<not> dd_head_set d \<or> dd_head d \<noteq> seq
      then d\<lparr>dd_discontinuity := inc64 (dd_discontinuity d), dd_init_sent := False\<rparr> else d)
     \<lparr>dd_head := seq, dd_head_set := True\<rparr>"

definition jump_to_live :: "decoder \<Rightarrow> decoder" where
  "jump_to_live d =
     (let want = behind_edge d (nat (max 0 (dc_prebuffer_segments (dd_cfg d))));
          d1 = move_head (max want (dd_first_available_seq d)) d
      in if dd_play d1 = Paused then d1\<lparr>dd_play := Playing\<rparr> else d1)"

definition request_init :: "decoder \<Rightarrow> decoder" where
  "request_init d = d\<lparr>dd_init_sent := False\<rparr>"

definition seek :: "u64 \<Rightarrow> decoder \<Rightarrow> decoder \<times> bool" where
  "seek seq d =
     (if seq < dd_first_available_seq d \<or> seq > dd_latest_seq d then (d, False) else (move_head seq d, True))"

definition seek_to_media_ms :: "i64 \<Rightarrow> decoder \<Rightarrow> decoder \<times> i64" where
  "seek_to_media_ms media_ms0 d =
     (let media_ms = (if media_ms0 < 0 then 0 else media_ms0); seg_ms = segment_ms d
      in if seg_ms \<le> 0 then (d, 0)
         else let seq = nat (media_ms sdiv seg_ms); skip = media_ms - int seq * seg_ms
              in if seq < dd_first_available_seq d \<or> seq > dd_latest_seq d
                 then (dec_error ''that moment is outside what storage still holds'' d, 0)
                 else ((move_head seq d)\<lparr>dd_pending_skip_ms := skip\<rparr>, media_ms))"

text \<open>The segment a time of day falls in, and when it starts: from the manifest, else computed.\<close>

definition wall_target :: "i64 \<Rightarrow> decoder \<Rightarrow> (u64 \<times> i64) option" where
  "wall_target wall_ms d =
     (case find (\<lambda>s. ms_at_ms s > 0 \<and> wall_ms \<ge> ms_at_ms s \<and> wall_ms < ms_at_ms s + trunc (ms_duration_s s * 1000))
             (mf_segments (dd_manifest d)) of
        Some s \<Rightarrow> Some (ms_seq s, ms_at_ms s)
      | None \<Rightarrow>
          let offset = wall_ms - mf_started_at_ms (dd_manifest d)
          in if offset < 0 then None
             else let target = nat (offset sdiv segment_ms d)
                  in Some (target, mf_started_at_ms (dd_manifest d) + int target * segment_ms d))"

definition seek_to_wall_ms :: "i64 \<Rightarrow> decoder \<Rightarrow> decoder \<times> i64" where
  "seek_to_wall_ms wall_ms d =
     (if mf_started_at_ms (dd_manifest d) \<le> 0
      then (dec_error ''nothing is loaded yet, so there is no timeline to move within'' d, 0)
      else case wall_target wall_ms d of
        None \<Rightarrow> (dec_error ''that is before this event started'' d, 0)
      | Some (target, seg_start) \<Rightarrow>
          if target < dd_first_available_seq d
          then (dec_error (''that moment has passed out of storage '' @ em_dash @
                           '' it is older than the retention rule keeps'') d, 0)
          else if target > dd_latest_seq d
          then (dec_error (if is_vod (dd_room d) then ''that is past the end of this recording''
                           else ''that is ahead of what has been broadcast yet'') d, 0)
          else let (d1, ok) = seek target d
               in if \<not> ok then (dec_error ''that moment is not available to play'' d1, 0)
                  else (d1\<lparr>dd_pending_skip_ms := (if wall_ms - seg_start < 0 then 0 else wall_ms - seg_start)\<rparr>, wall_ms))"

definition jump_to_marker :: "string \<Rightarrow> decoder \<Rightarrow> decoder \<times> bool" where
  "jump_to_marker marker_id d =
     (case find (\<lambda>mk. mk_id mk = marker_id) (ml_markers (dd_markers d)) of
        None \<Rightarrow> (d, False)
      | Some mk \<Rightarrow>
          if mk_at_ms mk > 0
          then let (d1, t) = seek_to_wall_ms (mk_at_ms mk) d in if t \<noteq> 0 then (d1, True) else seek (mk_seq mk) d1
          else seek (mk_seq mk) d)"

fun current_marker_in :: "u64 \<Rightarrow> marker option \<Rightarrow> marker list \<Rightarrow> marker option" where
  "current_marker_in hd_seq best [] = best"
| "current_marker_in hd_seq best (mk # mks) =
     current_marker_in hd_seq
       (if mk_seq mk \<le> hd_seq \<and> (case best of None \<Rightarrow> True | Some b \<Rightarrow> mk_seq mk \<ge> mk_seq b) then Some mk else best) mks"

definition current_marker :: "decoder \<Rightarrow> marker option" where
  "current_marker d = current_marker_in (dd_head d) None (ml_markers (dd_markers d))"


section \<open>Serving segments\<close>

definition skip_to :: "u64 \<Rightarrow> decoder \<Rightarrow> decoder" where
  "skip_to seq d = d\<lparr>dd_head := seq, dd_discontinuity := inc64 (dd_discontinuity d),
                      dd_stats := (dd_stats d)\<lparr>ds_gap_skips := ds_gap_skips (dd_stats d) + 1\<rparr>\<rparr>"

text \<open>Whether a missing segment has been refused often enough behind the edge to give it up.\<close>

definition given_up :: "u64 \<Rightarrow> decoder \<Rightarrow> bool" where
  "given_up want d =
     (case map_of (dd_unavailable d) want of Some n \<Rightarrow> n \<ge> kGapAttempts \<and> want < dd_latest_seq d | None \<Rightarrow> False)"

fun describe_segment :: "u64 \<Rightarrow> manifest_segment list \<Rightarrow> playable_segment \<Rightarrow> playable_segment" where
  "describe_segment want [] out = out"
| "describe_segment want (sg # sgs) out =
     describe_segment want sgs
       (if ms_seq sg \<noteq> want then out
        else let out1 = (if ms_duration_s sg > 1 / 10 then out\<lparr>ps_duration_s := ms_duration_s sg\<rparr> else out)
             in if ms_at_ms sg > 0 then out1\<lparr>ps_starts_at_ms := ms_at_ms sg\<rparr> else out1)"

definition playable_for :: "u64 \<Rightarrow> decoder \<Rightarrow> playable_segment" where
  "playable_for want d =
     (let out = describe_segment want (mf_segments (dd_manifest d))
                  \<lparr>ps_seq = want, ps_duration_s = segment_duration_s d, ps_init = [], ps_media = [], ps_starts_at_ms = 0,
                   ps_starts_at_estimated = False, ps_event_started_at_ms = dd_started_at_ms d, ps_skip_to_ms = 0\<rparr>
      in if ps_starts_at_ms out = 0 \<and> dd_started_at_ms d > 0
         then out\<lparr>ps_starts_at_ms := dd_started_at_ms d + int want * segment_ms d, ps_starts_at_estimated := True\<rparr>
         else out)"

record serving =
  sv_want :: u64
  sv_need_init :: bool
  sv_skip_ms :: i64
  sv_out :: playable_segment

text \<open>
  \<open>next_segment\<close> in its three parts: the decision under the lock, the reads without it, and the
  commit under the lock.
\<close>

definition next_at :: "u64 \<Rightarrow> decoder \<Rightarrow> decoder \<times> serving option" where
  "next_at want d =
     (case gap_end (dd_manifest d) want of
        Some e \<Rightarrow> (skip_to (inc64 e) d, None)
      | None \<Rightarrow>
          if \<not> cache_has (dd_cache d) want then
            (if given_up want d
             then (skip_to (inc64 want) (d\<lparr>dd_unavailable := AList.delete want (dd_unavailable d)\<rparr>), None)
             else (gap_waited d, None))
          else (d, Some \<lparr>sv_want = want, sv_need_init = (\<not> dd_init_sent d), sv_skip_ms = dd_pending_skip_ms d,
                         sv_out = playable_for want d\<rparr>))"

definition next_begin :: "decoder \<Rightarrow> decoder \<times> serving option" where
  "next_begin d =
     (if dd_play d \<noteq> Playing \<or> \<not> dd_head_set d then (d, None)
      else if dd_head d > dd_latest_seq d then (d, None)
      else if dd_head d < dd_first_available_seq d then
        let d1 = skip_to (dd_first_available_seq d) d
        in if dd_head d1 > dd_latest_seq d1 then (d1, None) else next_at (dd_head d1) d1
      else next_at (dd_head d) d)"

definition next_read :: "serving \<Rightarrow> decoder \<Rightarrow> decoder \<times> serving option" where
  "next_read sv d =
     (case cache_load (dd_cache d) (sv_want sv) of
        None \<Rightarrow> (gap_waited d, None)
      | Some media \<Rightarrow>
          let init = (case load_init (dd_cache d) of Some i \<Rightarrow> i | None \<Rightarrow> [])
          in if sv_need_init sv \<and> init = [] then (gap_waited d, None)
             else (d, Some (sv\<lparr>sv_out := (sv_out sv)\<lparr>ps_media := media, ps_init := (if sv_need_init sv then init else [])\<rparr>\<rparr>)))"

definition next_commit :: "serving \<Rightarrow> decoder \<Rightarrow> decoder \<times> playable_segment option" where
  "next_commit sv d =
     (if dd_head d \<noteq> sv_want sv then (d, None)
      else (d\<lparr>dd_init_sent := (dd_init_sent d \<or> sv_need_init sv), dd_pending_skip_ms := 0, dd_head := inc64 (dd_head d),
              dd_stats := (dd_stats d)\<lparr>ds_served := ds_served (dd_stats d) + 1\<rparr>\<rparr>,
            Some ((sv_out sv)\<lparr>ps_skip_to_ms := sv_skip_ms sv\<rparr>)))"

definition next_segment :: "decoder \<Rightarrow> decoder \<times> playable_segment option" where
  "next_segment d =
     (case next_begin d of
        (d1, None) \<Rightarrow> (d1, None)
      | (d1, Some sv) \<Rightarrow>
          (case next_read sv d1 of
             (d2, None) \<Rightarrow> (d2, None)
           | (d2, Some sv2) \<Rightarrow> next_commit sv2 d2))"


section \<open>Downloading\<close>

definition seg_checksum :: "manifest \<Rightarrow> u64 \<Rightarrow> string" where
  "seg_checksum m seq = (case find (\<lambda>s. ms_seq s = seq) (mf_segments m) of Some s \<Rightarrow> ms_checksum s | None \<Rightarrow> [])"

definition pump_from :: "decoder \<Rightarrow> u64" where
  "pump_from d =
     max (if dd_head_set d then dd_head d
          else if plays_as_recording d then dd_first_available_seq d
          else behind_edge d (start_reserve_segments d))
         (dd_first_available_seq d)"

definition want_ahead :: "decoder \<Rightarrow> u64" where
  "want_ahead d =
     (let w = nat (trunc (max 1 (real_of_int (max 1 (dc_buffer_minutes (dd_cfg d))) * 60 / segment_duration_s d)));
          w1 = max w (start_reserve_segments d); cap = u64_of_int (dc_max_cached_segments (dd_cfg d))
      in if w1 > cap then cap else w1)"

definition pump_to :: "decoder \<Rightarrow> u64" where
  "pump_to d = min (dd_latest_seq d) ((pump_from d + want_ahead d) mod 2 ^ 64)"

text \<open>
  The loop that chooses what to fetch, with \<open>++sq\<close> on 64 bits; \<open>None\<close> is a loop that never ends.
\<close>

partial_function (option) wanted_loop ::
    "u64 list \<Rightarrow> manifest \<Rightarrow> int \<Rightarrow> u64 \<Rightarrow> u64 \<Rightarrow> (u64 \<times> string) list \<Rightarrow> (u64 \<times> string) list option" where
  "wanted_loop idx m mx to sq acc =
     (if sq \<le> to \<and> int (length acc) < mx then
        (if sq \<in> set idx then wanted_loop idx m mx to (inc64 sq) acc
         else (case gap_end m sq of
                 Some e \<Rightarrow> wanted_loop idx m mx to (inc64 e) acc
               | None \<Rightarrow> wanted_loop idx m mx to (inc64 sq) (acc @ [(sq, seg_checksum m sq)])))
      else Some acc)"

declare wanted_loop.simps [code]

definition pump_wanted :: "int \<Rightarrow> decoder \<Rightarrow> (u64 \<times> string) list option" where
  "pump_wanted mx d = wanted_loop (cached_seqs (dd_cache d)) (dd_manifest d) mx (pump_to d) (pump_from d) []"

text \<open>What happened to one download: the answer, whether the disk took the file, and the time.\<close>

record download =
  dl_answer :: get_answer
  dl_disk_ok :: bool
  dl_now :: i64

record fetched =
  ft_count :: int
  ft_downloaded :: u64
  ft_download_failures :: u64
  ft_checksum_failures :: u64
  ft_error :: string
  ft_got :: "u64 list"
  ft_refused :: "u64 list"

definition fetched_none :: fetched where
  "fetched_none = \<lparr>ft_count = 0, ft_downloaded = 0, ft_download_failures = 0, ft_checksum_failures = 0, ft_error = [],
     ft_got = [], ft_refused = []\<rparr>"

definition body_bytes :: "(json \<Rightarrow> bytes) \<Rightarrow> body \<Rightarrow> bytes" where
  "body_bytes json_text b = (case b of Bytes x \<Rightarrow> x | Doc j \<Rightarrow> json_text j)"

definition fetch_one :: "(json \<Rightarrow> bytes) \<Rightarrow> (bytes \<Rightarrow> string) \<Rightarrow> (u64 \<Rightarrow> download) \<Rightarrow> u64 \<times> string \<Rightarrow> decoder \<times> fetched \<Rightarrow> decoder \<times> fetched" where
  "fetch_one json_text sha256_hex dl w df =
     (case df of (d, f) \<Rightarrow>
        let seq = fst w; a = dl_answer (dl seq); r = fst a; d1 = observed a (dl_now (dl seq)) d
        in if \<not> gr_success r then
             let f1 = (if gr_http_status r \<noteq> 404 \<and> \<not> snd a
                       then f\<lparr>ft_download_failures := ft_download_failures f + 1,
                               ft_error := http_error (''segment '' @ nat_str seq) r\<rparr> else f)
             in (d1, if gr_http_status r = 404 then f1\<lparr>ft_refused := ft_refused f1 @ [seq]\<rparr> else f1)
           else
             let (c, ok) = cache_store sha256_hex (dl_disk_ok (dl seq)) seq (body_bytes json_text (gr_body r)) (snd w) (dd_cache d1);
                 d2 = d1\<lparr>dd_cache := c\<rparr>
             in if \<not> ok then
                  (d2, f\<lparr>ft_checksum_failures := ft_checksum_failures f + 1,
                         ft_error := ''segment '' @ nat_str seq @ '' failed checksum verification'',
                         ft_refused := ft_refused f @ [seq]\<rparr>)
                else (d2, f\<lparr>ft_got := ft_got f @ [seq], ft_downloaded := ft_downloaded f + 1, ft_count := ft_count f + 1\<rparr>))"

definition fetch_all :: "(json \<Rightarrow> bytes) \<Rightarrow> (bytes \<Rightarrow> string) \<Rightarrow> (u64 \<Rightarrow> download) \<Rightarrow> (u64 \<times> string) list \<Rightarrow> decoder \<Rightarrow> decoder \<times> fetched" where
  "fetch_all json_text sha256_hex dl wanted d = fold (fetch_one json_text sha256_hex dl) wanted (d, fetched_none)"

definition count_refusal :: "u64 \<Rightarrow> decoder \<Rightarrow> decoder" where
  "count_refusal seq d =
     (if seq < dd_latest_seq d
      then d\<lparr>dd_unavailable := AList.update seq ((case map_of (dd_unavailable d) seq of Some n \<Rightarrow> n | None \<Rightarrow> 0) + 1) (dd_unavailable d)\<rparr>
      else d)"

definition forget_refusals :: "u64 \<Rightarrow> decoder \<Rightarrow> decoder" where
  "forget_refusals seq d = d\<lparr>dd_unavailable := AList.delete seq (dd_unavailable d)\<rparr>"

definition prune_behind :: "decoder \<Rightarrow> decoder" where
  "prune_behind d =
     (let keep = u64_of_int (dc_keep_behind_segments (dd_cfg d))
      in if dd_head_set d \<and> dd_head d > keep
         then d\<lparr>dd_cache := fst (prune_below (dd_head d - keep) (dd_cache d))\<rparr> else d)"

definition prune_excess :: "decoder \<Rightarrow> decoder" where
  "prune_excess d =
     (if int (cache_count (dd_cache d)) > dc_max_cached_segments (dd_cfg d)
      then let excess = nat ((int (cache_count (dd_cache d)) - int (u64_of_int (dc_max_cached_segments (dd_cfg d)))) mod 2 ^ 64)
           in d\<lparr>dd_cache := fst (prune_below ((lowest_seq (dd_cache d) + excess) mod 2 ^ 64) (dd_cache d))\<rparr>
      else d)"

definition pump_commit :: "fetched \<Rightarrow> decoder \<Rightarrow> decoder" where
  "pump_commit f d =
     (let s = dd_stats d;
          d1 = d\<lparr>dd_stats := s\<lparr>ds_downloaded := ds_downloaded s + ft_downloaded f,
                               ds_download_failures := ds_download_failures s + ft_download_failures f,
                               ds_checksum_failures := ds_checksum_failures s + ft_checksum_failures f\<rparr>\<rparr>;
          d2 = fold forget_refusals (ft_got f) (fold count_refusal (ft_refused f) d1);
          d3 = (if ft_error f \<noteq> [] then dec_error (ft_error f) d2 else d2)
      in prune_excess (prune_behind d3))"

text \<open>The init segment: \<open>None\<close> when it is still not there, and the pass stops.\<close>

definition pump_init :: "(json \<Rightarrow> bytes) \<Rightarrow> download \<Rightarrow> decoder \<Rightarrow> decoder \<times> bool" where
  "pump_init json_text dl d =
     (let r = fst (dl_answer dl); d1 = observed (dl_answer dl) (dl_now dl) d
      in if \<not> gr_success r
         then (if snd (dl_answer dl) then d1 else dec_error (http_error ''init.mp4'' r) d1, False)
         else let (c, ok) = store_init (dl_disk_ok dl) (body_bytes json_text (gr_body r)) (dd_cache d1) in (d1\<lparr>dd_cache := c\<rparr>, ok))"

definition pump_downloads ::
    "(json \<Rightarrow> bytes) \<Rightarrow> (bytes \<Rightarrow> string) \<Rightarrow> download \<Rightarrow> (u64 \<Rightarrow> download) \<Rightarrow> int \<Rightarrow> decoder \<Rightarrow> (decoder \<times> int) option" where
  "pump_downloads json_text sha256_hex init_dl dl mx d =
     (if dd_event_id d = [] then Some (d, 0)
      else case pump_wanted mx d of
        None \<Rightarrow> None
      | Some wanted \<Rightarrow>
          let (d1, go_on) = (if has_init (dd_cache d) then (d, True) else pump_init json_text init_dl d)
          in if \<not> go_on then Some (d1, 0)
             else let (d2, f) = fetch_all json_text sha256_hex dl wanted d1
                  in Some (pump_commit f d2, ft_count f))"


section \<open>Cues\<close>

text \<open>
  What the host and the store answer when a cue is dropped here: the LAN hub (whether it took the
  cue, the merged list it returned, its error), the cue credential (whether it came with a
  writer, the key it names, why not), and the requests on the cue object.
\<close>

record cue_target =
  ck_tx :: bool
  ck_object_key :: string
  ck_why :: string

record cue_answers =
  ci_hub :: "(bool \<times> body \<times> string) option"
  ci_target :: "cue_target option"
  ci_owns_lock :: bool
  ci_get :: get_answer
  ci_put :: put_result
  ci_now :: i64
  ci_draws :: "nat list"

definition cue_seq :: "u64 \<Rightarrow> i64 \<Rightarrow> decoder \<Rightarrow> u64" where
  "cue_seq operator_seq operator_at_ms d =
     (let here = (if dd_head_set d then dd_head d else dd_latest_seq d);
          starts = filter (\<lambda>s. ms_at_ms s > 0 \<and> ms_at_ms s \<le> operator_at_ms) (mf_segments (dd_manifest d))
      in if operator_seq > 0 then operator_seq
         else if operator_at_ms > 0 then
           (if starts \<noteq> [] then Max (set (map ms_seq starts))
            else if dd_started_at_ms d > 0 \<and> segment_ms d > 0 \<and> operator_at_ms > dd_started_at_ms d
            then nat ((operator_at_ms - dd_started_at_ms d) sdiv segment_ms d)
            else here)
         else here)"

text \<open>The PUT that was made, if any, and the error, if any.\<close>

type_synonym cue_outcome = "decoder \<times> (string \<times> json) option \<times> string option"

definition add_cue_hub :: "bool \<times> body \<times> string \<Rightarrow> decoder \<Rightarrow> cue_outcome" where
  "add_cue_hub hub d =
     (case hub of (ok, merged, err) \<Rightarrow>
        if \<not> ok then (d, None, Some err)
        else ((case parsed marker_list_from_json merged of Some ml \<Rightarrow> d\<lparr>dd_markers := ml\<rparr> | None \<Rightarrow> d), None, None))"

definition add_cue_object :: "cue_answers \<Rightarrow> string \<Rightarrow> string \<Rightarrow> u64 \<Rightarrow> i64 \<Rightarrow> decoder \<Rightarrow> cue_outcome" where
  "add_cue_object ci key label seq at_ms d =
     (let d1 = observed (ci_get ci) (ci_now ci) d;
          mine = markers_from_get (fst (ci_get ci));
          mk = \<lparr>mk_seq = seq, mk_at_ms = at_ms, mk_at_media_ms = -1, mk_type = ''cue'', mk_label = label,
                mk_id = make_event_id at_ms (ci_draws ci), mk_author = dc_author_name (dd_cfg d)\<rparr>;
          mine1 = mine\<lparr>ml_markers := ml_markers mine @ [mk]\<rparr>;
          put = Some (key, marker_list_to_json mine1)
      in if \<not> pr_success (ci_put ci)
         then (d1, put, Some (if pr_error (ci_put ci) = [] then ''the cue could not be written'' else pr_error (ci_put ci)))
         else (d1\<lparr>dd_markers := merge_markers [dd_markers d1, mine1]\<rparr>, put, None))"

definition add_cue :: "cue_answers \<Rightarrow> string \<Rightarrow> u64 \<Rightarrow> i64 \<Rightarrow> decoder \<Rightarrow> cue_outcome" where
  "add_cue ci label operator_seq operator_at_ms d =
     (if dc_author_name (dd_cfg d) = [] then (d, None, Some ''no site name is set'')
      else if \<not> dc_can_author_cues (dd_cfg d) then (d, None, Some ''this box is set to receive only'')
      else if dd_event_id d = [] then (d, None, Some ''no event is loaded'')
      else
        let prefix = event_prefix_for (dd_event_id d);
            seq = cue_seq operator_seq operator_at_ms d;
            at0 = (if operator_at_ms > 0 then operator_at_ms else wall_clock_ms (ci_owns_lock ci) seq d);
            at_ms = (if at0 \<le> 0 then ci_now ci else at0);
            own_key = prefix @ ''cues/'' @ cue_author_token (dc_author_name (dd_cfg d)) @ ''.json'';
            by_hub_or_self = (case ci_hub ci of
                Some hub \<Rightarrow> add_cue_hub hub d
              | None \<Rightarrow> add_cue_object ci own_key label seq at_ms d)
        in case ci_target ci of
             None \<Rightarrow> by_hub_or_self
           | Some t \<Rightarrow>
               if ck_tx t then
                 (if take (length prefix + 5) (ck_object_key t) \<noteq> prefix @ ''cues/''
                  then (d, None, Some ''the cue permission names a file outside this event'')
                  else add_cue_object ci (ck_object_key t) label seq at_ms d)
               else if ci_hub ci = None
               then (d, None, Some (''Cue not saved: '' @
                       (if ck_why t = [] then ''this player has no permission to write cues yet'' else ck_why t) @ ''.''))
               else by_hub_or_self)"

end
