(* ===== verification/Decoder_Playback.thy ===== *)
theory Decoder_Playback
  imports Decoder_Model
begin

text \<open>
  What the decoder plays (\<^verbatim>\<open>src/core/decoder_session.cpp\<close>): the facts about \<open>next_segment\<close>, the start
  gate, seeking and the ranges shown to the operator. \<open>next_cases\<close> lists the outcomes of a call;
  the properties follow from it: every sequence number the head passes is accounted for, a full
  cache is played exactly, playback starts only with what it needs, a seek lands on the moment
  asked for.
\<close>

section \<open>Segment lengths and runs of cached segments\<close>

lemma segment_duration_pos: "1 / 10 < segment_duration_s d"
  by (simp add: segment_duration_s_def)

lemma segment_ms_pos: "0 < segment_ms d"
proof (cases "dd_measured_segment_ms d > 0")
  case False
  have "100 \<le> \<lfloor>segment_duration_s d * 1000\<rfloor>"
    using segment_duration_pos [of d] by (simp add: le_floor_iff)
  then show ?thesis using False segment_duration_pos [of d] by (simp add: segment_ms_def trunc_def)
qed (simp add: segment_ms_def)

definition below_top :: "u64 list \<Rightarrow> bool" where
  "below_top idx = (\<forall>s\<in>set idx. s < u64_max)"

lemma contiguous_in: "below_top idx \<Longrightarrow> i < contiguous f idx s \<Longrightarrow> s + i \<in> set idx"
proof (induction f arbitrary: s i)
  case (Suc f)
  then have s: "s \<in> set idx" by (auto split: if_splits)
  then have "inc64 s = s + 1" using Suc.prems(1) by (auto simp: below_top_def u64_simps)
  then show ?case using Suc s by (cases i) force+
qed simp

lemma contiguous_ends: "below_top idx \<Longrightarrow> contiguous f idx s < f \<Longrightarrow> s + contiguous f idx s \<notin> set idx"
proof (induction f arbitrary: s)
  case (Suc f)
  show ?case
  proof (cases "s \<in> set idx")
    case True
    then have "inc64 s = s + 1" using Suc.prems(1) by (auto simp: below_top_def u64_simps)
    then show ?thesis using Suc True by (auto dest: Suc.IH)
  qed simp
qed simp

lemma contiguous_le: "contiguous f idx s \<le> f"
  by (induction f idx s rule: contiguous.induct) auto

text \<open>The length of the index is enough fuel: the run ends at the first segment that is missing.\<close>

lemma contiguous_complete:
  assumes "below_top idx" "distinct idx"
  shows "s + contiguous (length idx) idx s \<notin> set idx"
proof (cases "contiguous (length idx) idx s < length idx")
  case False
  then have n: "contiguous (length idx) idx s = length idx" using contiguous_le [of "length idx" idx s] by simp
  have sub: "{s..<s + length idx} \<subseteq> set idx"
  proof
    fix x assume "x \<in> {s..<s + length idx}"
    then have "s + (x - s) \<in> set idx" using contiguous_in [OF assms(1), of "x - s" "length idx" s] n by auto
    then show "x \<in> set idx" using \<open>x \<in> {s..<s + length idx}\<close> by simp
  qed
  have "{s..<s + length idx} = set idx"
    by (rule card_subset_eq) (use sub assms(2) in \<open>simp_all add: distinct_card\<close>)
  then show ?thesis using n by auto
qed (rule contiguous_ends [OF assms(1)])

lemma cache_okD:
  assumes "cache_ok c"
  shows "sorted (cached_seqs c)" "distinct (cached_seqs c)" "cache_has c s \<longleftrightarrow> s \<in> set (cached_seqs c)"
    "cache_has c s \<longleftrightarrow> cache_load c s \<noteq> None" "cache_count c = length (cached_seqs c)"
  using assms by (auto simp: cache_ok_def cached_seqs_def cache_has_def cache_count_def)

lemma contiguous_from_spec:
  assumes "cache_ok (dd_cache d)" "below_top (cached_seqs (dd_cache d))"
  shows "i < contiguous_from d s \<Longrightarrow> cache_has (dd_cache d) (s + i)" "\<not> cache_has (dd_cache d) (s + contiguous_from d s)"
  using contiguous_in [OF assms(2)] contiguous_complete [OF assms(2)] cache_okD [OF assms(1)]
  by (auto simp: contiguous_from_def)


section \<open>Cached ranges\<close>

lemma gaps_ok_snoc:
  "gaps_ok (gs @ [(a, b)]) \<longleftrightarrow> gaps_ok gs \<and> a \<le> b \<and> b \<le> u64_max \<and> (gs \<noteq> [] \<longrightarrow> snd (last gs) + 1 < a)"
  by (induction gs rule: gaps_ok.induct) auto

lemma gap_set_last: "gaps_ok gs \<Longrightarrow> gs \<noteq> [] \<Longrightarrow> snd (last gs) \<in> gap_set gs \<and> fst (last gs) \<le> snd (last gs)"
  using gaps_ok_range [of gs "fst (last gs)" "snd (last gs)"]
  by (cases gs rule: rev_cases) (auto simp: case_prod_beta gap_set_def)

lemma add_range_spec:
  assumes ok: "gaps_ok out" and up: "\<forall>x\<in>gap_set out. x < s" and s: "s \<le> u64_max"
  shows "gap_set (add_range out s) = insert s (gap_set out) \<and> gaps_ok (add_range out s)"
proof (cases out rule: rev_cases)
  case Nil
  then show ?thesis using s by (simp add: add_range_def)
next
  case (snoc gs g)
  obtain a b where g: "g = (a, b)" by (cases g)
  have b: "b < s" "a \<le> b" using gap_set_last [OF ok] up by (auto simp: snoc g)
  then have i: "inc64 b = b + 1" using s by (simp add: u64_simps)
  have "gaps_ok gs" "gs \<noteq> [] \<longrightarrow> snd (last gs) + 1 < a" using ok by (simp_all add: snoc g gaps_ok_snoc)
  then show ?thesis
  proof (cases "s = b + 1")
    case True
    then show ?thesis using \<open>gaps_ok gs\<close> \<open>gs \<noteq> [] \<longrightarrow> _\<close> b s i by (auto simp: snoc g gaps_ok_snoc add_range_def)
  next
    case False
    have "gaps_ok (out @ [(s, s)])" using ok False b s unfolding gaps_ok_snoc by (auto simp: snoc g)
    moreover have "add_range out s = out @ [(s, s)]" using False i by (simp add: add_range_def snoc g)
    ultimately show ?thesis by simp
  qed
qed

lemma cached_ranges_fold:
  "sorted xs \<Longrightarrow> distinct xs \<Longrightarrow> \<forall>x\<in>set xs. x \<le> u64_max \<Longrightarrow>
   gap_set (foldl add_range [] xs) = set xs \<and> gaps_ok (foldl add_range [] xs)"
proof (induction xs rule: rev_induct)
  case (snoc s xs)
  then have IH: "gap_set (foldl add_range [] xs) = set xs" "gaps_ok (foldl add_range [] xs)"
    by (auto simp: sorted_append)
  have "\<forall>x\<in>set xs. x < s" using snoc.prems by (auto simp: sorted_append order.strict_iff_order)
  then show ?case using add_range_spec [OF IH(2), of s] IH snoc.prems by simp
qed simp


section \<open>Serving segments\<close>

definition decoder_ok :: "decoder \<Rightarrow> bool" where
  "decoder_ok d = (cache_ok (dd_cache d) \<and> dd_latest_seq d < u64_max \<and>
     (\<forall>g\<in>set (mf_gaps (dd_manifest d)). snd g < u64_max))"

definition gap_seqs :: "decoder \<Rightarrow> u64 set" where
  "gap_seqs d = gap_set (mf_gaps (dd_manifest d))"

lemma gap_end_None: "gap_end (dd_manifest d) s = None \<longleftrightarrow> s \<notin> gap_seqs d"
  by (simp add: gap_end_def gap_seqs_def)

lemma gap_end_in_member: "gap_end_in gs s = Some e \<Longrightarrow> \<exists>a. (a, e) \<in> set gs \<and> a \<le> s \<and> s \<le> e"
  by (induction gs s rule: gap_end_in.induct) (auto split: if_splits)

lemma gap_end_Some:
  assumes "gap_end (dd_manifest d) s = Some e" "decoder_ok d"
  shows "s \<le> e" "{s..e} \<subseteq> gap_seqs d" "inc64 e = e + 1"
proof -
  obtain a where a: "(a, e) \<in> set (mf_gaps (dd_manifest d))" "a \<le> s" "s \<le> e"
    using gap_end_in_member [OF assms(1) [unfolded gap_end_def]] by blast
  then have "{a..e} \<subseteq> gap_seqs d" by (auto simp: gap_seqs_def gap_set_def)
  then show "s \<le> e" "{s..e} \<subseteq> gap_seqs d" using a by auto
  have "e < u64_max" using a(1) assms(2) by (force simp: decoder_ok_def)
  then show "inc64 e = e + 1" by (rule inc64_less)
qed

lemma skip_to_fields [simp]:
  "dd_head (skip_to s d) = s" "dd_cache (skip_to s d) = dd_cache d" "dd_manifest (skip_to s d) = dd_manifest d"
  "dd_latest_seq (skip_to s d) = dd_latest_seq d" "dd_first_available_seq (skip_to s d) = dd_first_available_seq d"
  "dd_unavailable (skip_to s d) = dd_unavailable d" "dd_play (skip_to s d) = dd_play d"
  "dd_head_set (skip_to s d) = dd_head_set d" "dd_init_sent (skip_to s d) = dd_init_sent d"
  "dd_pending_skip_ms (skip_to s d) = dd_pending_skip_ms d"
  by (simp_all add: skip_to_def)

lemma gap_waited_fields [simp]:
  "dd_head (gap_waited d) = dd_head d" "dd_cache (gap_waited d) = dd_cache d" "dd_manifest (gap_waited d) = dd_manifest d"
  "dd_latest_seq (gap_waited d) = dd_latest_seq d" "dd_first_available_seq (gap_waited d) = dd_first_available_seq d"
  "dd_play (gap_waited d) = dd_play d" "dd_head_set (gap_waited d) = dd_head_set d"
  "dd_init_sent (gap_waited d) = dd_init_sent d" "dd_unavailable (gap_waited d) = dd_unavailable d"
  by (simp_all add: gap_waited_def)

lemma gap_seqs_cong: "dd_manifest d = dd_manifest d' \<Longrightarrow> gap_seqs d = gap_seqs d'"
  by (simp add: gap_seqs_def)

lemma given_up_cong: "dd_unavailable d = dd_unavailable d' \<Longrightarrow> dd_latest_seq d = dd_latest_seq d' \<Longrightarrow> given_up s d = given_up s d'"
  by (simp add: given_up_def split: option.split)

lemma describe_segment_fields [simp]:
  "ps_seq (describe_segment w segs out) = ps_seq out" "ps_init (describe_segment w segs out) = ps_init out"
  "ps_media (describe_segment w segs out) = ps_media out" "ps_skip_to_ms (describe_segment w segs out) = ps_skip_to_ms out"
  by (induction w segs out rule: describe_segment.induct) (auto simp: Let_def)

lemma playable_for_seq [simp]: "ps_seq (playable_for w d) = w"
  by (simp add: playable_for_def Let_def)

text \<open>The position a call works on: the head, or the floor when that is above it.\<close>

definition position :: "decoder \<Rightarrow> u64" where
  "position d = max (dd_head d) (dd_first_available_seq d)"

definition seated :: "decoder \<Rightarrow> decoder" where
  "seated d = (if dd_head d < dd_first_available_seq d then skip_to (dd_first_available_seq d) d else d)"

lemma seated_fields [simp]:
  "dd_head (seated d) = position d" "dd_cache (seated d) = dd_cache d" "dd_manifest (seated d) = dd_manifest d"
  "dd_latest_seq (seated d) = dd_latest_seq d" "dd_first_available_seq (seated d) = dd_first_available_seq d"
  "dd_unavailable (seated d) = dd_unavailable d" "dd_init_sent (seated d) = dd_init_sent d"
  "dd_pending_skip_ms (seated d) = dd_pending_skip_ms d" "dd_play (seated d) = dd_play d" "dd_head_set (seated d) = dd_head_set d"
  by (auto simp: seated_def position_def)

lemma next_begin_eq:
  "next_begin d = (if dd_play d \<noteq> Playing \<or> \<not> dd_head_set d \<or> dd_head d > dd_latest_seq d then (d, None)
     else if position d > dd_latest_seq d then (seated d, None) else next_at (position d) (seated d))"
  by (auto simp: next_begin_def Let_def seated_def position_def)

definition can_serve :: "decoder \<Rightarrow> bool" where
  "can_serve d = (dd_play d = Playing \<and> dd_head_set d \<and> dd_head d \<le> dd_latest_seq d \<and> position d \<le> dd_latest_seq d)"

definition init_ready :: "decoder \<Rightarrow> bool" where
  "init_ready d = (dd_init_sent d \<or> has_init (dd_cache d))"

lemma load_init_ready: "has_init c \<longleftrightarrow> (\<exists>b. load_init c = Some b \<and> b \<noteq> [])"
  by (auto simp: has_init_def split: option.splits)

text \<open>The five outcomes of a call.\<close>

lemma next_idle: "\<not> can_serve d \<Longrightarrow> next_segment d = (d, None) \<or> next_segment d = (seated d, None) \<and> position d > dd_latest_seq d"
  by (auto simp: next_segment_def next_begin_eq can_serve_def)

lemma next_gap:
  "can_serve d \<Longrightarrow> gap_end (dd_manifest d) (position d) = Some e \<Longrightarrow> next_segment d = (skip_to (inc64 e) (seated d), None)"
  by (auto simp: next_segment_def next_begin_eq can_serve_def next_at_def)

lemma next_missing:
  "can_serve d \<Longrightarrow> position d \<notin> gap_seqs d \<Longrightarrow> \<not> cache_has (dd_cache d) (position d) \<Longrightarrow>
   next_segment d =
     (if given_up (position d) d
      then (skip_to (inc64 (position d)) ((seated d)\<lparr>dd_unavailable := AList.delete (position d) (dd_unavailable d)\<rparr>), None)
      else (gap_waited (seated d), None))"
  unfolding gap_end_None [symmetric]
  using given_up_cong [of "seated d" d "position d"]
  by (simp add: next_segment_def next_begin_eq can_serve_def next_at_def)

lemma next_no_init:
  "can_serve d \<Longrightarrow> position d \<notin> gap_seqs d \<Longrightarrow> cache_load (dd_cache d) (position d) = Some b \<Longrightarrow> cache_ok (dd_cache d) \<Longrightarrow>
   \<not> init_ready d \<Longrightarrow> next_segment d = (gap_waited (seated d), None)"
  unfolding gap_end_None [symmetric] init_ready_def load_init_ready
  using cache_okD(4) [of "dd_cache d" "position d"]
  by (auto simp: next_segment_def next_begin_eq can_serve_def next_at_def next_read_def Let_def split: option.splits)

definition served_segment :: "decoder \<Rightarrow> bytes \<Rightarrow> playable_segment" where
  "served_segment d b = (playable_for (position d) (seated d))\<lparr>ps_media := b,
     ps_init := (if dd_init_sent d then [] else the (load_init (dd_cache d))), ps_skip_to_ms := dd_pending_skip_ms d\<rparr>"

definition served_state :: "decoder \<Rightarrow> decoder" where
  "served_state d = (seated d)\<lparr>dd_init_sent := True, dd_pending_skip_ms := 0, dd_head := inc64 (position d),
     dd_stats := (dd_stats (seated d))\<lparr>ds_served := ds_served (dd_stats (seated d)) + 1\<rparr>\<rparr>"

lemma next_served:
  "can_serve d \<Longrightarrow> position d \<notin> gap_seqs d \<Longrightarrow> cache_load (dd_cache d) (position d) = Some b \<Longrightarrow> cache_ok (dd_cache d) \<Longrightarrow>
   init_ready d \<Longrightarrow> next_segment d = (served_state d, Some (served_segment d b))"
  unfolding gap_end_None [symmetric] init_ready_def load_init_ready
  using cache_okD(4) [of "dd_cache d" "position d"]
  by (auto simp: next_segment_def next_begin_eq can_serve_def next_at_def next_read_def next_commit_def Let_def
      served_state_def served_segment_def split: option.splits)


lemma decoder_ok_seated [simp]: "decoder_ok (seated d) = decoder_ok d"
  by (simp add: decoder_ok_def)

lemma position_le: "can_serve d \<Longrightarrow> decoder_ok d \<Longrightarrow> inc64 (position d) = position d + 1"
  by (auto simp: can_serve_def decoder_ok_def u64_simps)

lemma served_state_fields [simp]:
  "dd_head (served_state d) = inc64 (position d)" "dd_init_sent (served_state d)" "dd_cache (served_state d) = dd_cache d"
  "dd_manifest (served_state d) = dd_manifest d" "dd_latest_seq (served_state d) = dd_latest_seq d"
  "dd_first_available_seq (served_state d) = dd_first_available_seq d" "dd_play (served_state d) = dd_play d"
  "dd_head_set (served_state d) = dd_head_set d"
  by (simp_all add: served_state_def)

lemma served_segment_fields [simp]:
  "ps_seq (served_segment d b) = position d" "ps_media (served_segment d b) = b"
  "ps_init (served_segment d b) = (if dd_init_sent d then [] else the (load_init (dd_cache d)))"
  "ps_skip_to_ms (served_segment d b) = dd_pending_skip_ms d"
  by (simp_all add: served_segment_def)

text \<open>The cases of a call that is not idle.\<close>

lemma next_cases [consumes 2, case_names gap given_up waiting served]:
  assumes "can_serve d" "decoder_ok d"
  obtains (gap) e where "gap_end (dd_manifest d) (position d) = Some e" "next_segment d = (skip_to (e + 1) (seated d), None)"
      "position d \<le> e" "{position d..e} \<subseteq> gap_seqs d"
  | (given_up) "given_up (position d) d"
      "next_segment d = (skip_to (position d + 1) ((seated d)\<lparr>dd_unavailable := AList.delete (position d) (dd_unavailable d)\<rparr>), None)"
      "\<not> cache_has (dd_cache d) (position d)" "position d \<notin> gap_seqs d"
  | (waiting) "next_segment d = (gap_waited (seated d), None)" "\<not> cache_has (dd_cache d) (position d) \<or> \<not> init_ready d"
      "position d \<notin> gap_seqs d"
  | (served) b where "next_segment d = (served_state d, Some (served_segment d b))" "position d \<notin> gap_seqs d"
      "cache_load (dd_cache d) (position d) = Some b" "init_ready d"
proof (cases "position d \<in> gap_seqs d")
  case True
  then obtain e where e: "gap_end (dd_manifest d) (position d) = Some e"
    using gap_end_None [of d "position d"] by auto
  from gap_end_Some [OF this assms(2)] next_gap [OF assms(1) e] gap e show ?thesis by simp
next
  case False
  have ok: "cache_ok (dd_cache d)" using assms(2) by (simp add: decoder_ok_def)
  show ?thesis
  proof (cases "cache_load (dd_cache d) (position d)")
    case None
    then have "\<not> cache_has (dd_cache d) (position d)" using cache_okD(4) [OF ok] by simp
    from next_missing [OF assms(1) False this] this False given_up waiting position_le [OF assms] show ?thesis
      by (auto split: if_splits)
  next
    case (Some b)
    show ?thesis
    proof (cases "init_ready d")
      case True
      from next_served [OF assms(1) False Some ok True] True False Some served show ?thesis by blast
    next
      case no: False
      from next_no_init [OF assms(1) False Some ok no] no False waiting show ?thesis by blast
    qed
  qed
qed

lemma position_ge: "dd_head d \<le> position d" "dd_first_available_seq d \<le> position d"
  by (simp_all add: position_def)

lemma below_position: "dd_head d \<le> s \<Longrightarrow> s < position d \<Longrightarrow> s < dd_first_available_seq d"
  by (auto simp: position_def max_def split: if_splits)

lemma next_segment_head:
  assumes "decoder_ok d" "next_segment d = (d', r)"
  shows "dd_head d \<le> dd_head d' \<and> (\<forall>s. dd_head d \<le> s \<and> s < dd_head d' \<longrightarrow>
     (\<exists>p. r = Some p \<and> ps_seq p = s) \<or> s < dd_first_available_seq d \<or> s \<in> gap_seqs d \<or> given_up s d)"
proof (cases "can_serve d")
  case False
  then show ?thesis using next_idle [OF False] assms(2) below_position [of d] position_ge [of d] by auto
next
  case True
  from True assms(1) show ?thesis
  proof (cases rule: next_cases)
    case (gap e)
    have "s \<in> gap_seqs d" if "position d \<le> s" "s \<le> e" for s using gap(4) that by auto
    moreover have "dd_head d' = e + 1" using gap(2) assms(2) by auto
    ultimately show ?thesis using gap(3) below_position [of d] position_ge [of d]
      by (auto simp: less_Suc_eq_le) (metis not_le)
  next
    case given_up
    then have "dd_head d' = position d + 1" using assms(2) by auto
    then show ?thesis using given_up(1) below_position [of d] position_ge [of d]
      by (auto simp: less_Suc_eq)
  next
    case waiting
    then have "dd_head d' = position d" using assms(2) by auto
    then show ?thesis using below_position [of d] position_ge [of d] by auto
  next
    case (served b)
    then have "dd_head d' = position d + 1" "r = Some (served_segment d b)"
      using assms(2) position_le [OF True assms(1)] by auto
    then show ?thesis using below_position [of d] position_ge [of d] by (auto simp: less_Suc_eq)
  qed
qed

lemma next_segment_served:
  assumes "decoder_ok d" "next_segment d = (d', Some p)"
  shows "ps_seq p = position d" "ps_seq p \<le> dd_latest_seq d" "ps_seq p \<notin> gap_seqs d"
    "cache_load (dd_cache d) (ps_seq p) = Some (ps_media p)" "dd_head d' = ps_seq p + 1" "dd_init_sent d'"
    "ps_skip_to_ms p = dd_pending_skip_ms d" "dd_init_sent d \<Longrightarrow> ps_init p = []"
    "\<not> dd_init_sent d \<Longrightarrow> load_init (dd_cache d) = Some (ps_init p) \<and> ps_init p \<noteq> []"
proof -
  have cs: "can_serve d" using next_idle [of d] assms(2) by auto
  from cs assms(1) have "\<exists>b. d' = served_state d \<and> p = served_segment d b \<and> position d \<notin> gap_seqs d \<and>
      cache_load (dd_cache d) (position d) = Some b \<and> init_ready d"
    by (cases rule: next_cases) (use assms(2) in auto)
  then obtain b where b: "d' = served_state d" "p = served_segment d b" "position d \<notin> gap_seqs d"
      "cache_load (dd_cache d) (position d) = Some b" "init_ready d" by blast
  show "ps_seq p = position d" "ps_seq p \<le> dd_latest_seq d" "ps_seq p \<notin> gap_seqs d"
    "cache_load (dd_cache d) (ps_seq p) = Some (ps_media p)" "dd_head d' = ps_seq p + 1" "dd_init_sent d'"
    "ps_skip_to_ms p = dd_pending_skip_ms d" "dd_init_sent d \<Longrightarrow> ps_init p = []"
    using b cs position_le [OF cs assms(1)] by (auto simp: can_serve_def)
  show "load_init (dd_cache d) = Some (ps_init p) \<and> ps_init p \<noteq> []" if "\<not> dd_init_sent d"
    using b that by (auto simp: init_ready_def load_init_ready)
qed

section \<open>Playing on\<close>

fun play_on :: "nat \<Rightarrow> decoder \<Rightarrow> decoder \<times> playable_segment list" where
  "play_on 0 d = (d, [])"
| "play_on (Suc n) d =
     (case next_segment d of (d1, r) \<Rightarrow>
        case play_on n d1 of (d2, ps) \<Rightarrow> (d2, case r of Some p \<Rightarrow> p # ps | None \<Rightarrow> ps))"

definition all_there :: "decoder \<Rightarrow> bool" where
  "all_there d = (decoder_ok d \<and> dd_play d = Playing \<and> dd_head_set d \<and> dd_first_available_seq d \<le> dd_head d \<and> init_ready d \<and>
     (\<forall>s. dd_head d \<le> s \<and> s \<le> dd_latest_seq d \<and> s \<notin> gap_seqs d \<longrightarrow> cache_has (dd_cache d) s))"

lemma filter_upt_skip:
  assumes "h \<le> h'" "\<And>s. h \<le> s \<Longrightarrow> s < h' \<Longrightarrow> \<not> P s"
  shows "filter P [h..<n] = filter P [h'..<n]"
proof (cases "h' \<le> n")
  case True
  have "filter P [h..<h'] = []" using assms(2) by (auto simp: filter_empty_conv)
  moreover have "[h..<n] = [h..<h'] @ [h'..<n]" using assms(1) True upt_add_eq_append [of h h' "n - h'"] by simp
  ultimately show ?thesis by simp
next
  case False
  have "filter P [h..<n] = []" using assms(2) False by (auto simp: filter_empty_conv)
  then show ?thesis using False by simp
qed

text \<open>One call when everything is there: it serves the head, or skips a gap.\<close>

lemma next_all_there:
  assumes "all_there d" "dd_head d \<le> dd_latest_seq d"
  obtains d' where "next_segment d = (d', None)" "all_there d'" "dd_head d < dd_head d'"
      "\<And>s. dd_head d \<le> s \<Longrightarrow> s < dd_head d' \<Longrightarrow> s \<in> gap_seqs d"
      "dd_latest_seq d' = dd_latest_seq d" "gap_seqs d' = gap_seqs d" "dd_cache d' = dd_cache d"
  | d' p where "next_segment d = (d', Some p)" "all_there d'" "ps_seq p = dd_head d" "dd_head d \<notin> gap_seqs d"
      "dd_head d' = dd_head d + 1" "cache_load (dd_cache d) (dd_head d) = Some (ps_media p)"
      "dd_latest_seq d' = dd_latest_seq d" "gap_seqs d' = gap_seqs d" "dd_cache d' = dd_cache d"
proof -
  have pos: "position d = dd_head d" and ok: "decoder_ok d" using assms(1) by (auto simp: all_there_def position_def)
  have st: "seated d = d" using assms(1) by (simp add: all_there_def seated_def)
  have cs: "can_serve d" using assms by (simp add: can_serve_def all_there_def pos)
  from cs ok show thesis
  proof (cases rule: next_cases)
    case (gap e)
    have "all_there (skip_to (e + 1) d)"
      using assms(1) gap(3) pos by (auto simp: all_there_def decoder_ok_def init_ready_def gap_seqs_def)
    moreover have "s \<in> gap_seqs d" if "dd_head d \<le> s" "s < e + 1" for s using gap(4) that pos by auto
    ultimately show thesis using that(1) [of "skip_to (e + 1) d"] gap(2,3) st pos by (simp add: gap_seqs_def)
  next
    case given_up
    then show thesis using assms pos by (auto simp: all_there_def)
  next
    case waiting
    then show thesis using assms pos by (auto simp: all_there_def)
  next
    case (served b)
    have "all_there (served_state d)"
      using assms(1) position_le [OF cs ok] pos by (auto simp: all_there_def decoder_ok_def init_ready_def gap_seqs_def)
    then show thesis using that(2) [of "served_state d" "served_segment d b"] served position_le [OF cs ok] pos
      by (simp add: gap_seqs_def)
  qed
qed

lemma play_on_all:
  "all_there d \<Longrightarrow> dd_latest_seq d + 1 - dd_head d \<le> n \<Longrightarrow> play_on n d = (d', ps) \<Longrightarrow>
   map ps_seq ps = filter (\<lambda>s. s \<notin> gap_seqs d) [dd_head d..<dd_latest_seq d + 1] \<and> at_end d' \<and>
   list_all (\<lambda>p. cache_load (dd_cache d) (ps_seq p) = Some (ps_media p)) ps"
proof (induction n arbitrary: d ps)
  case 0
  then show ?case by (auto simp: at_end_def all_there_def)
next
  case (Suc n)
  show ?case
  proof (cases "dd_head d \<le> dd_latest_seq d")
    case False
    have idle: "next_segment d = (d, None)"
      using next_idle [of d] False Suc.prems(1) by (auto simp: can_serve_def seated_def all_there_def)
    then have "play_on n d = (d', ps)" using Suc.prems(3) by (auto split: prod.splits)
    then show ?thesis using Suc.IH [OF Suc.prems(1)] False by simp
  next
    case True
    from Suc.prems(1) True show ?thesis
    proof (cases rule: next_all_there)
      case (1 d1)
      have p: "play_on n d1 = (d', ps)" using Suc.prems(3) 1(1) by (auto split: prod.splits)
      have "dd_latest_seq d1 + 1 - dd_head d1 \<le> n" using Suc.prems(2) 1(3,5) by simp
      from Suc.IH [OF 1(2) this p] show ?thesis
        using filter_upt_skip [of "dd_head d" "dd_head d1" "\<lambda>s. s \<notin> gap_seqs d" "dd_latest_seq d + 1"] 1(3-7)
        by simp
    next
      case (2 d1 q)
      obtain qs where qs: "play_on n d1 = (d', qs)" "ps = q # qs" using Suc.prems(3) 2(1) by (auto split: prod.splits)
      have "dd_latest_seq d1 + 1 - dd_head d1 \<le> n" using Suc.prems(2) 2(5,7) by simp
      from Suc.IH [OF 2(2) this qs(1)] show ?thesis
        using 2(3-9) qs(2) True by (simp add: upt_conv_Cons del: upt_Suc)
    qed
  qed
qed


section \<open>Starting\<close>

lemma plan_fields:
  assumes "dd_room d = R_Live \<or> is_vod (dd_room d)"
    "dd_event_id d = (if dd_pinned_event_id d = [] then dd_live_event_id d else dd_pinned_event_id d) \<or>
     (if dd_pinned_event_id d = [] then dd_live_event_id d else dd_pinned_event_id d) = []"
    "\<not> dd_head_set d"
  shows "pl_need (start_plan_locked d) = (if plays_as_recording d then 1 else max 1 (start_reserve_segments d))"
    "pl_want (start_plan_locked d) = max (if plays_as_recording d then dd_first_available_seq d
       else behind_edge d (start_reserve_segments d)) (dd_first_available_seq d)"
    "pl_have (start_plan_locked d) = contiguous_from d (pl_want (start_plan_locked d))"
    "pl_has_init (start_plan_locked d) = has_init (dd_cache d)"
  using assms by (auto simp: start_plan_locked_def Let_def start_plan_default_def)

lemma plan_ready_known:
  assumes "plan_ready (start_plan_locked d)"
  shows "dd_room d = R_Live \<or> is_vod (dd_room d)"
    "dd_event_id d = (if dd_pinned_event_id d = [] then dd_live_event_id d else dd_pinned_event_id d) \<or>
     (if dd_pinned_event_id d = [] then dd_live_event_id d else dd_pinned_event_id d) = []"
  using assms by (auto simp: start_plan_locked_def Let_def plan_ready_def start_plan_default_def split: if_splits)

lemma start_success:
  assumes "start d = (d', True)" "\<not> dd_head_set d"
  shows "plan_ready (start_plan_locked d)"
    "d' = d\<lparr>dd_head := pl_want (start_plan_locked d), dd_head_set := True, dd_play := Playing\<rparr>"
  using assms by (auto simp: start_def Let_def split: if_splits)

section \<open>Seeking\<close>

lemma move_head_fields [simp]:
  "dd_cfg (move_head s d) = dd_cfg d" "dd_head (move_head s d) = s" "dd_head_set (move_head s d)" "dd_cache (move_head s d) = dd_cache d"
  "dd_manifest (move_head s d) = dd_manifest d" "dd_latest_seq (move_head s d) = dd_latest_seq d"
  "dd_first_available_seq (move_head s d) = dd_first_available_seq d" "dd_play (move_head s d) = dd_play d"
  "dd_pending_skip_ms (move_head s d) = dd_pending_skip_ms d" "dd_unavailable (move_head s d) = dd_unavailable d"
  "dd_init_sent (move_head s d) = (dd_init_sent d \<and> dd_head_set d \<and> dd_head d = s)"
  "dd_measured_segment_ms (move_head s d) = dd_measured_segment_ms d" "dd_segment_duration_s (move_head s d) = dd_segment_duration_s d"
  by (auto simp: move_head_def)

lemma jump_to_live_fields [simp]:
  "dd_pending_skip_ms (jump_to_live d) = dd_pending_skip_ms d" "dd_cache (jump_to_live d) = dd_cache d"
  "dd_manifest (jump_to_live d) = dd_manifest d" "dd_latest_seq (jump_to_live d) = dd_latest_seq d"
  by (simp_all add: jump_to_live_def Let_def)

lemma decoder_ok_cong:
  "dd_cache d = dd_cache d' \<Longrightarrow> dd_manifest d = dd_manifest d' \<Longrightarrow> dd_latest_seq d = dd_latest_seq d' \<Longrightarrow>
   decoder_ok d = decoder_ok d'"
  by (simp add: decoder_ok_def)

lemma seek_to_media_eq:
  "seek_to_media_ms t d =
     (let u = max 0 t; q = nat (u div segment_ms d)
      in if q < dd_first_available_seq d \<or> q > dd_latest_seq d
         then (dec_error ''that moment is outside what storage still holds'' d, 0)
         else ((move_head q d)\<lparr>dd_pending_skip_ms := u mod segment_ms d\<rparr>, u))"
proof -
  have u: "(if t < 0 then 0 else t) = max 0 t" by auto
  have q: "max 0 t sdiv segment_ms d = max 0 t div segment_ms d"
    using segment_ms_pos [of d] by (simp add: sdiv_pos)
  have n: "int (nat (max 0 t div segment_ms d)) = max 0 t div segment_ms d"
    using segment_ms_pos [of d] by (simp add: pos_imp_zdiv_nonneg_iff)
  show ?thesis using segment_ms_pos [of d] unfolding seek_to_media_ms_def Let_def u q n
    by (simp add: minus_div_mult_eq_mod)
qed


lemma media_range:
  assumes "0 \<le> t"
  shows "int a * segment_ms d \<le> t \<longleftrightarrow> a \<le> nat (t div segment_ms d)"
    "t < (int b + 1) * segment_ms d \<longleftrightarrow> nat (t div segment_ms d) \<le> b"
proof -
  have q: "0 \<le> t div segment_ms d" using assms segment_ms_pos [of d] by (simp add: pos_imp_zdiv_nonneg_iff)
  show "int a * segment_ms d \<le> t \<longleftrightarrow> a \<le> nat (t div segment_ms d)"
    using int_le_div_iff [OF segment_ms_pos, of "int a" d t] q by (simp add: le_nat_iff)
  have "t < (int b + 1) * segment_ms d \<longleftrightarrow> \<not> int b + 1 \<le> t div segment_ms d"
    using int_le_div_iff [OF segment_ms_pos, of "int b + 1" d t] by (simp add: not_le [symmetric])
  then show "t < (int b + 1) * segment_ms d \<longleftrightarrow> nat (t div segment_ms d) \<le> b" using q by linarith
qed

lemma seek_hit:
  assumes "0 \<le> t" "int (dd_first_available_seq d) * segment_ms d \<le> t" "t < (int (dd_latest_seq d) + 1) * segment_ms d"
  shows "seek_to_media_ms t d = ((move_head (nat (t div segment_ms d)) d)\<lparr>dd_pending_skip_ms := t mod segment_ms d\<rparr>, t)"
  using assms media_range [OF assms(1)] by (auto simp: seek_to_media_eq Let_def)

lemma seek_miss:
  assumes "0 \<le> t" "t < int (dd_first_available_seq d) * segment_ms d \<or> (int (dd_latest_seq d) + 1) * segment_ms d \<le> t"
  shows "seek_to_media_ms t d = (dec_error ''that moment is outside what storage still holds'' d, 0)"
  using assms media_range [OF assms(1)] by (auto simp: seek_to_media_eq Let_def not_le [symmetric])

section \<open>Properties\<close>

text \<open>
  C6: Nothing of the programme is dropped silently. A call of \<open>next_segment\<close> never moves the head
  back, and every sequence number the head passes is either the segment it hands out, or below
  the floor the encoder declared, or in a gap the encoder listed, or was refused by storage the
  agreed number of times behind the live edge. What it hands out is the cached segment at the
  position, within the published range, with the init segment when the player needs it.
\<close>

theorem next_segment_accounts:
  assumes "decoder_ok d" "next_segment d = (d', r)"
  shows "dd_head d \<le> dd_head d' \<and>
    (\<forall>s. dd_head d \<le> s \<and> s < dd_head d' \<longrightarrow>
       (\<exists>p. r = Some p \<and> ps_seq p = s) \<or> s < dd_first_available_seq d \<or> s \<in> gap_seqs d \<or> given_up s d) \<and>
    (\<forall>p. r = Some p \<longrightarrow> ps_seq p = position d \<and> ps_seq p \<le> dd_latest_seq d \<and> dd_head d' = ps_seq p + 1 \<and>
       cache_load (dd_cache d) (ps_seq p) = Some (ps_media p) \<and>
       (if dd_init_sent d then ps_init p = [] else load_init (dd_cache d) = Some (ps_init p) \<and> ps_init p \<noteq> []))"
  using next_segment_head [OF assms] next_segment_served [OF assms(1)] assms(2) by auto

text \<open>
  C12: With every listed segment in the cache, calling \<open>next_segment\<close> again and again plays exactly
  the segments from the head to the live edge that are not gaps, each once, in order and with its
  cached bytes, and ends past the live edge; one call per sequence number is enough.
\<close>

theorem plays_exactly:
  assumes "all_there d" "dd_latest_seq d + 1 - dd_head d \<le> n" "play_on n d = (d', ps)"
  shows "map ps_seq ps = filter (\<lambda>s. s \<notin> gap_seqs d) [dd_head d..<dd_latest_seq d + 1] \<and> at_end d' \<and>
    list_all (\<lambda>p. cache_load (dd_cache d) (ps_seq p) = Some (ps_media p)) ps"
  using play_on_all [OF assms] .


text \<open>
  Seeking by time is exact. A moment storage holds is reached with the head on the segment that
  contains it and the rest as the offset into that segment, which is less than a segment; a moment
  before the floor or past the live edge leaves the position as it was and reports the reason.
\<close>

lemma seek_to_media_lands:
  assumes "0 \<le> t" "seek_to_media_ms t d = (d', r)"
  shows "(int (dd_first_available_seq d) * segment_ms d \<le> t \<and> t < (int (dd_latest_seq d) + 1) * segment_ms d \<longrightarrow>
      r = t \<and> dd_head_set d' \<and> int (dd_head d') * segment_ms d + dd_pending_skip_ms d' = t \<and>
      0 \<le> dd_pending_skip_ms d' \<and> dd_pending_skip_ms d' < segment_ms d) \<and>
    (t < int (dd_first_available_seq d) * segment_ms d \<or> (int (dd_latest_seq d) + 1) * segment_ms d \<le> t \<longrightarrow>
      r = 0 \<and> d' = d\<lparr>dd_last_error := ''that moment is outside what storage still holds''\<rparr>)"
proof -
  have q: "0 \<le> t div segment_ms d" "t div segment_ms d * segment_ms d + t mod segment_ms d = t"
      "0 \<le> t mod segment_ms d" "t mod segment_ms d < segment_ms d"
    using assms(1) segment_ms_pos [of d] by (simp_all add: pos_imp_zdiv_nonneg_iff)
  show ?thesis using seek_hit [OF assms(1)] seek_miss [OF assms(1)] assms(2) q by (auto simp: dec_error_def)
qed

text \<open>
  The ranges shown to the operator are exactly the cached segments: their union is the cache
  index, they are in increasing order, and no two of them touch.
\<close>

lemma cached_ranges_exact:
  assumes "cache_ok (dd_cache d)" "\<forall>s\<in>set (cached_seqs (dd_cache d)). s \<le> u64_max"
  shows "gap_set (cached_ranges d) = {s. cache_has (dd_cache d) s} \<and> gaps_ok (cached_ranges d)"
  using cached_ranges_fold [of "cached_seqs (dd_cache d)"] cache_okD [OF assms(1)] assms(2)
  unfolding cached_ranges_def by auto

text \<open>
  An offset that was set for one segment is applied to another. After a seek to a moment inside a
  segment, jumping to the live edge keeps the pending offset, so the segment served at the edge
  starts that far in.
\<close>

lemma jump_to_live_keeps_offset:
  assumes "decoder_ok d" "seek_to_media_ms t d = (d1, r)" "0 \<le> t"
    "int (dd_first_available_seq d) * segment_ms d \<le> t" "t < (int (dd_latest_seq d) + 1) * segment_ms d"
    "next_segment (jump_to_live d1) = (d2, Some p)"
  shows "ps_skip_to_ms p = t mod segment_ms d"
proof -
  have d1: "dd_pending_skip_ms d1 = t mod segment_ms d" "decoder_ok d1"
    using seek_hit [OF assms(3-5)] assms(1,2) by (auto simp: decoder_ok_def)
  have "decoder_ok (jump_to_live d1)" using d1(2) by (simp add: decoder_ok_def)
  from next_segment_served(7) [OF this assms(6)] d1(1) show ?thesis by simp
qed

section \<open>Witnesses\<close>

text \<open>A recording of segments 3 to 6 with a gap at 5, all of it in the cache.\<close>

definition ex_folder :: cache_folder where
  "ex_folder = \<lparr>cf_init = Some [1], cf_segs = [(3, [30]), (4, [40]), (6, [60])]\<rparr>"

definition ex_store :: segment_cache where
  "ex_store = cache_open [(''ev'', ex_folder)] ''ev''"

definition ex_dec :: decoder where
  "ex_dec = (decoder_new decoder_config_default [])\<lparr>dd_cache := ex_store, dd_event_id := ''ev'',
     dd_manifest := manifest_default\<lparr>mf_gaps := [(5, 5)]\<rparr>, dd_latest_seq := 6, dd_first_available_seq := 3,
     dd_room := R_Ended\<rparr>"

definition ex_playing :: decoder where
  "ex_playing = ex_dec\<lparr>dd_head := 3, dd_head_set := True, dd_play := Playing\<rparr>"

lemma ex_store_facts:
  "cached_seqs ex_store = [3, 4, 6]" "cache_count ex_store = 3" "has_init ex_store"
  "cache_load ex_store 3 = Some [30]" "cache_load ex_store 4 = Some [40]"
  by code_simp+

lemma ex_dec_facts [simp]:
  "dd_cache ex_dec = ex_store" "dd_latest_seq ex_dec = 6" "dd_first_available_seq ex_dec = 3" "\<not> dd_head_set ex_dec"
  "dd_room ex_dec = R_Ended" "dd_event_id ex_dec = ''ev''" "dd_pinned_event_id ex_dec = []" "dd_live_event_id ex_dec = []"
  "dd_manifest ex_dec = manifest_default\<lparr>mf_gaps := [(5, 5)]\<rparr>" "dd_cfg ex_dec = decoder_config_default"
  "dd_segment_duration_s ex_dec = 6" "dd_measured_segment_ms ex_dec = 0" "dd_init_sent ex_dec = False"
  by (simp_all add: ex_dec_def decoder_new_def decoder_config_default_def)

lemma ex_dec_ok: "decoder_ok ex_dec" "below_top (cached_seqs (dd_cache ex_dec))" "gap_seqs ex_dec = {5}"
  "cache_ok ex_store"
proof -
  show "cache_ok ex_store" by (simp add: ex_store_def cache_open_ok)
  then show "decoder_ok ex_dec" by (simp add: decoder_ok_def u64_max_def)
  show "below_top (cached_seqs (dd_cache ex_dec))" by (simp add: ex_store_facts below_top_def u64_max_def)
  show "gap_seqs ex_dec = {5}" by (simp add: gap_seqs_def)
qed

lemma ex_playing_facts [simp]:
  "dd_cache ex_playing = ex_store" "dd_latest_seq ex_playing = 6" "dd_first_available_seq ex_playing = 3"
  "dd_head_set ex_playing" "dd_head ex_playing = 3" "dd_play ex_playing = Playing" "gap_seqs ex_playing = {5}"
  "decoder_ok ex_playing" "position ex_playing = 3"
  using ex_dec_ok by (simp_all add: ex_playing_def gap_seqs_def decoder_ok_def position_def)

lemma ex_playing_all: "all_there ex_playing"
proof -
  have "s = 3 \<or> s = 4 \<or> s = 6" if "3 \<le> s" "s \<le> 6" "s \<noteq> 5" for s :: nat using that by arith
  then show ?thesis using cache_okD(3) [OF ex_dec_ok(4)]
    by (auto simp: all_there_def init_ready_def ex_store_facts)
qed

theorem next_segment_accounts_witness:
  "\<exists>d' p. next_segment ex_playing = (d', Some p) \<and> ps_seq p = 3 \<and> ps_media p = [30]"
proof -
  have "can_serve ex_playing" by (simp add: can_serve_def)
  from next_served [OF this] have n: "next_segment ex_playing = (served_state ex_playing, Some (served_segment ex_playing [30]))"
    using ex_dec_ok(4) by (simp add: ex_store_facts init_ready_def)
  from next_segment_accounts [OF _ n] n show ?thesis by (auto simp: ex_store_facts)
qed

theorem plays_exactly_witness:
  "\<exists>d' ps. play_on 4 ex_playing = (d', ps) \<and> map ps_seq ps = [3, 4, 6] \<and> at_end d'"
proof -
  obtain d' ps where p: "play_on 4 ex_playing = (d', ps)" by fastforce
  have "filter (\<lambda>s. s \<notin> {5 :: nat}) [3..<6 + 1] = [3, 4, 6]" by code_simp
  then show ?thesis using plays_exactly [OF ex_playing_all _ p] p by (simp del: upt_Suc)
qed


end
