(* ===== verification/Decoder_Downloads.thy ===== *)
theory Decoder_Downloads
  imports Decoder_Playback
begin

text \<open>
  What the decoder downloads (\<^verbatim>\<open>pump_downloads\<close> in \<^verbatim>\<open>src/core/decoder_session.cpp\<close>): the loop that
  chooses the segments of a pass equals a filter over its window, the cache after a pass is the
  one before filled through the contract \<open>verified_store\<close> and pruned, and a segment storage does
  not have is given up after three refusals, so playback moves on.
\<close>

section \<open>What a pass wants\<close>

lemma wanted_loop_eq:
  assumes "to < u64_max" "\<forall>g\<in>set (mf_gaps m). snd g < u64_max"
  shows "wanted_loop idx m mx to sq acc = Some (acc @ map (\<lambda>s. (s, seg_checksum m s))
     (take (nat mx - length acc) (filter (\<lambda>s. s \<notin> set idx \<and> s \<notin> gap_set (mf_gaps m)) [sq..<to + 1])))"
proof (induction "to + 1 - sq" arbitrary: sq acc rule: less_induct)
  case less
  let ?P = "\<lambda>s. s \<notin> set idx \<and> s \<notin> gap_set (mf_gaps m)"
  show ?case
  proof (cases "sq \<le> to \<and> int (length acc) < mx")
    case False
    then show ?thesis by (subst wanted_loop.simps) auto
  next
    case True
    then have i: "inc64 sq = sq + 1" using assms(1) by (simp add: u64_simps)
    have lt: "to + 1 - (sq + 1) < to + 1 - sq" using True by linarith
    consider (cached) "sq \<in> set idx" | (gap) e where "sq \<notin> set idx" "gap_end m sq = Some e" | (want) "sq \<notin> set idx" "gap_end m sq = None"
      by fastforce
    then show ?thesis
    proof cases
      case cached
      have "filter ?P [sq..<to + 1] = filter ?P [sq + 1..<to + 1]"
        using cached by (intro filter_upt_skip) (auto dest: le_antisym simp: less_Suc_eq_le)
      then show ?thesis using True cached i less [OF lt] by (subst wanted_loop.simps) (simp del: upt_Suc)
    next
      case (gap e)
      obtain a where a: "(a, e) \<in> set (mf_gaps m)" "a \<le> sq" "sq \<le> e"
        using gap_end_in_member [OF gap(2) [unfolded gap_end_def]] by blast
      then have e: "inc64 e = e + 1" using assms(2) by (force simp: u64_simps)
      have lt': "to + 1 - (e + 1) < to + 1 - sq" using a(3) True by linarith
      have "s \<in> gap_set (mf_gaps m)" if "sq \<le> s" "s < e + 1" for s
        using a(1) that order_trans [OF a(2)] unfolding gap_set_def by (intro UN_I [OF a(1)]) auto
      then have "filter ?P [sq..<to + 1] = filter ?P [e + 1..<to + 1]"
        using a(3) by (intro filter_upt_skip) auto
      then show ?thesis using True gap e less [OF lt'] by (subst wanted_loop.simps) (simp del: upt_Suc)
    next
      case want
      have "sq \<notin> gap_set (mf_gaps m)" using want(2) by (simp add: gap_end_def)
      then have "filter ?P [sq..<to + 1] = sq # filter ?P [sq + 1..<to + 1]"
        using want True by (simp add: upt_conv_Cons del: upt_Suc)
      moreover have "nat mx - length acc = Suc (nat mx - Suc (length acc))" using True by linarith
      ultimately show ?thesis using True want i less [OF lt, of "acc @ [(sq, seg_checksum m sq)]"]
        by (subst wanted_loop.simps) (simp del: upt_Suc)
    qed
  qed
qed

definition missing_seqs :: "decoder \<Rightarrow> u64 list" where
  "missing_seqs d = filter (\<lambda>s. \<not> cache_has (dd_cache d) s \<and> s \<notin> gap_seqs d) [pump_from d..<pump_to d + 1]"

lemma pump_wanted_eq:
  assumes "decoder_ok d"
  shows "pump_wanted mx d = Some (map (\<lambda>s. (s, seg_checksum (dd_manifest d) s)) (take (nat mx) (missing_seqs d)))"
proof -
  have "pump_to d < u64_max" using assms by (auto simp: decoder_ok_def pump_to_def)
  then show ?thesis using wanted_loop_eq [of "pump_to d" "dd_manifest d"] assms
    by (simp add: pump_wanted_def decoder_ok_def missing_seqs_def cache_has_def cached_seqs_def gap_seqs_def)
qed

text \<open>A gap that reaches the largest sequence number sends the loop back to 0.\<close>

lemma wanted_loop_top_gap:
  assumes "wanted_loop idx m mx to sq acc = Some r"
  shows "\<not> (gap_end m 0 = Some u64_max \<and> 0 \<notin> set idx \<and> sq = 0 \<and> int (length acc) < mx)"
  by (rule wanted_loop.raw_induct
      [where P = "\<lambda>idx m mx to sq acc r. \<not> (gap_end m 0 = Some u64_max \<and> 0 \<notin> set idx \<and> sq = 0 \<and> int (length acc) < mx)",
       OF _ assms]) (fastforce simp: inc64_max)

section \<open>What a pass stores\<close>

lemma observed_fields [simp]:
  "dd_cache (observed a now d) = dd_cache d" "dd_manifest (observed a now d) = dd_manifest d" "dd_head (observed a now d) = dd_head d"
  "dd_head_set (observed a now d) = dd_head_set d" "dd_play (observed a now d) = dd_play d"
  "dd_latest_seq (observed a now d) = dd_latest_seq d" "dd_first_available_seq (observed a now d) = dd_first_available_seq d"
  "dd_unavailable (observed a now d) = dd_unavailable d" "dd_cfg (observed a now d) = dd_cfg d"
  "dd_event_id (observed a now d) = dd_event_id d" "dd_pinned_event_id (observed a now d) = dd_pinned_event_id d"
  "dd_room (observed a now d) = dd_room d" "dd_last_error (observed a now d) = dd_last_error d"
  "dd_end_hold_done (observed a now d) = dd_end_hold_done d" "dd_init_sent (observed a now d) = dd_init_sent d"
  "dd_segment_duration_s (observed a now d) = dd_segment_duration_s d"
  "dd_measured_segment_ms (observed a now d) = dd_measured_segment_ms d"
  "dd_markers_checked_ms (observed a now d) = dd_markers_checked_ms d" "dd_markers (observed a now d) = dd_markers d"
  "dd_live_event_id (observed a now d) = dd_live_event_id d"
  by (simp_all add: observed_def)

definition arrived :: "(json \<Rightarrow> bytes) \<Rightarrow> (u64 \<Rightarrow> download) \<Rightarrow> u64 \<Rightarrow> (bool \<times> u64 \<times> bytes) option" where
  "arrived jt dl s = (let r = fst (dl_answer (dl s))
     in if gr_success r then Some (dl_disk_ok (dl s), s, body_bytes jt (gr_body r)) else None)"

abbreviation fill_cache :: "(bytes \<Rightarrow> string) \<Rightarrow> (bool \<times> u64 \<times> bytes) list \<Rightarrow> (u64 \<Rightarrow> string) \<Rightarrow> segment_cache \<Rightarrow> segment_cache" where
  "fill_cache h \<equiv> verified_store.fill (cache_store h)"

lemma fetch_one_cache:
  "dd_cache (fst (fetch_one jt h dl (s, ck) (d, f))) =
     (case arrived jt dl s of Some (w, n, b) \<Rightarrow> fst (cache_store h w s b ck (dd_cache d)) | None \<Rightarrow> dd_cache d)"
  by (auto simp: fetch_one_def arrived_def Let_def split: prod.splits if_splits)

lemma fetch_one_frame [simp]:
  "dd_manifest (fst (fetch_one jt h dl w (d, f))) = dd_manifest d" "dd_head (fst (fetch_one jt h dl w (d, f))) = dd_head d"
  "dd_head_set (fst (fetch_one jt h dl w (d, f))) = dd_head_set d" "dd_play (fst (fetch_one jt h dl w (d, f))) = dd_play d"
  "dd_latest_seq (fst (fetch_one jt h dl w (d, f))) = dd_latest_seq d"
  "dd_first_available_seq (fst (fetch_one jt h dl w (d, f))) = dd_first_available_seq d"
  "dd_unavailable (fst (fetch_one jt h dl w (d, f))) = dd_unavailable d" "dd_cfg (fst (fetch_one jt h dl w (d, f))) = dd_cfg d"
  "dd_event_id (fst (fetch_one jt h dl w (d, f))) = dd_event_id d"
  "dd_init_sent (fst (fetch_one jt h dl w (d, f))) = dd_init_sent d"
  by (auto simp: fetch_one_def Let_def split: prod.splits)

lemma fetch_fold_cache:
  "dd_cache (fst (fold (fetch_one jt h dl) (map (\<lambda>s. (s, cks s)) ws) (d, f))) =
     fill_cache h (List.map_filter (arrived jt dl) ws) cks (dd_cache d)"
proof (induction ws arbitrary: d f)
  case (Cons s ws)
  obtain d1 f1 where o: "fetch_one jt h dl (s, cks s) (d, f) = (d1, f1)" by fastforce
  have c: "dd_cache d1 = (case arrived jt dl s of Some (w, n, b) \<Rightarrow> fst (cache_store h w s b (cks s) (dd_cache d)) | None \<Rightarrow> dd_cache d)"
    using fetch_one_cache [of jt h dl s "cks s" d f] by (simp add: o)
  have n: "n = s" if "arrived jt dl s = Some (w, n, b)" for w n b
    using that by (auto simp: arrived_def Let_def split: if_splits)
  show ?case using Cons [of d1 f1] c n
    by (cases "arrived jt dl s") (auto simp: o map_filter_Cons cache_store.fill.simps)
qed (simp add: cache_store.fill.simps)

lemma fetch_all_cache:
  "dd_cache (fst (fetch_all jt h dl (map (\<lambda>s. (s, cks s)) ws) d)) =
     fill_cache h (List.map_filter (arrived jt dl) ws) cks (dd_cache d)"
  by (simp add: fetch_all_def fetch_fold_cache)

text \<open>The members that decide what is played are left alone by a pass.\<close>

definition same_position :: "decoder \<Rightarrow> decoder \<Rightarrow> bool" where
  "same_position d d' = (dd_manifest d' = dd_manifest d \<and> dd_head d' = dd_head d \<and> dd_head_set d' = dd_head_set d \<and>
     dd_play d' = dd_play d \<and> dd_latest_seq d' = dd_latest_seq d \<and> dd_first_available_seq d' = dd_first_available_seq d \<and>
     dd_cfg d' = dd_cfg d \<and> dd_event_id d' = dd_event_id d \<and> dd_init_sent d' = dd_init_sent d)"

lemma same_position_trans: "same_position d d' \<Longrightarrow> same_position d' d'' \<Longrightarrow> same_position d d''"
  by (simp add: same_position_def)

lemma same_position_fold:
  "(\<And>x d. same_position d (f x d)) \<Longrightarrow> same_position d (fold f xs d)"
  by (induction xs arbitrary: d) (auto simp: same_position_def)

lemma fetch_fold_position:
  "same_position d (fst (fold (fetch_one jt h dl) ws (d, f))) \<and>
   dd_unavailable (fst (fold (fetch_one jt h dl) ws (d, f))) = dd_unavailable d"
proof (induction ws arbitrary: d f)
  case (Cons w ws)
  obtain d1 f1 where o: "fetch_one jt h dl w (d, f) = (d1, f1)" by fastforce
  have "same_position d d1 \<and> dd_unavailable d1 = dd_unavailable d"
    using fetch_one_frame [of jt h dl w d f] by (simp add: o same_position_def)
  then show ?case using Cons [of d1 f1] same_position_trans by (auto simp: o)
qed (simp add: same_position_def)

lemma count_refusal_frame [simp]: "same_position d (count_refusal s d)" "dd_cache (count_refusal s d) = dd_cache d"
  by (simp_all add: count_refusal_def same_position_def)

lemma forget_refusals_frame [simp]: "same_position d (forget_refusals s d)" "dd_cache (forget_refusals s d) = dd_cache d"
  by (simp_all add: forget_refusals_def same_position_def)

lemma fold_cache: "(\<And>x d. dd_cache (f x d) = dd_cache d) \<Longrightarrow> dd_cache (fold f xs d) = dd_cache d"
  by (induction xs arbitrary: d) auto

definition pruned :: "segment_cache \<Rightarrow> segment_cache \<Rightarrow> bool" where
  "pruned c c' = (c' = c \<or> (\<exists>k. c' = fst (prune_below k c)))"

lemma prune_behind_frame: "same_position d (prune_behind d)" "pruned (dd_cache d) (dd_cache (prune_behind d))"
    "dd_unavailable (prune_behind d) = dd_unavailable d"
  by (auto simp: prune_behind_def same_position_def pruned_def Let_def)

lemma prune_excess_frame: "same_position d (prune_excess d)" "pruned (dd_cache d) (dd_cache (prune_excess d))"
    "dd_unavailable (prune_excess d) = dd_unavailable d"
  by (auto simp: prune_excess_def same_position_def pruned_def Let_def)

lemma pruned_facts:
  assumes "cache_ok c" "pruned c c'"
  shows "cache_ok c'" "cache_load c' s = Some b \<Longrightarrow> cache_load c s = Some b" "cache_has c' s \<Longrightarrow> cache_has c s"
    "has_init c' = has_init c"
proof -
  show ok: "cache_ok c'" using assms cache_store.prune_get by (auto simp: pruned_def)
  show ld: "cache_load c' s = Some b \<Longrightarrow> cache_load c s = Some b" for s b
    using assms cache_store.prune_get [OF assms(1)] by (auto simp: pruned_def split: if_splits)
  show "cache_has c' s \<Longrightarrow> cache_has c s" using ld [of s] cache_okD(4) [OF ok, of s] cache_okD(4) [OF assms(1), of s] by auto
  show "has_init c' = has_init c"
    using assms(2) by (auto simp: pruned_def has_init_def load_init_def prune_below_def Let_def split: option.split)
qed

lemma refusals_stats:
  "fold count_refusal xs (d\<lparr>dd_stats := x\<rparr>) = (fold count_refusal xs d)\<lparr>dd_stats := x\<rparr>"
  "fold forget_refusals xs (d\<lparr>dd_stats := x\<rparr>) = (fold forget_refusals xs d)\<lparr>dd_stats := x\<rparr>"
proof -
  have "count_refusal s (e\<lparr>dd_stats := x\<rparr>) = (count_refusal s e)\<lparr>dd_stats := x\<rparr>" for s e
    by (simp add: count_refusal_def)
  then show "fold count_refusal xs (d\<lparr>dd_stats := x\<rparr>) = (fold count_refusal xs d)\<lparr>dd_stats := x\<rparr>"
    by (induction xs arbitrary: d) simp_all
  have "forget_refusals s (e\<lparr>dd_stats := x\<rparr>) = (forget_refusals s e)\<lparr>dd_stats := x\<rparr>" for s e
    by (simp add: forget_refusals_def)
  then show "fold forget_refusals xs (d\<lparr>dd_stats := x\<rparr>) = (fold forget_refusals xs d)\<lparr>dd_stats := x\<rparr>"
    by (induction xs arbitrary: d) simp_all
qed

lemma pump_commit_frame:
  "same_position d (pump_commit f d)"
  "\<exists>c1. pruned (dd_cache d) c1 \<and> pruned c1 (dd_cache (pump_commit f d))"
  "dd_unavailable (pump_commit f d) = dd_unavailable (fold forget_refusals (ft_got f) (fold count_refusal (ft_refused f) d))"
proof -
  define e where "e = fold forget_refusals (ft_got f) (fold count_refusal (ft_refused f) d)"
  obtain x where x: "pump_commit f d = prune_excess (prune_behind
      (if ft_error f \<noteq> [] then dec_error (ft_error f) (e\<lparr>dd_stats := x\<rparr>) else e\<lparr>dd_stats := x\<rparr>))"
    unfolding pump_commit_def Let_def refusals_stats e_def by blast
  define g where "g = (if ft_error f \<noteq> [] then dec_error (ft_error f) (e\<lparr>dd_stats := x\<rparr>) else e\<lparr>dd_stats := x\<rparr>)"
  have de: "same_position d e" "dd_cache e = dd_cache d"
    unfolding e_def
    by (rule same_position_trans [OF same_position_fold [of count_refusal] same_position_fold [of forget_refusals]])
      (simp_all add: fold_cache)
  then have g: "same_position d g" "dd_cache g = dd_cache d" "dd_unavailable g = dd_unavailable e"
    by (auto simp: g_def dec_error_def same_position_def)
  note pb = prune_behind_frame [of g] and pe = prune_excess_frame [of "prune_behind g"]
  have p: "pump_commit f d = prune_excess (prune_behind g)" using x g_def by simp
  show "same_position d (pump_commit f d)" unfolding p using g(1) pb(1) pe(1) same_position_trans by blast
  show "\<exists>c1. pruned (dd_cache d) c1 \<and> pruned c1 (dd_cache (pump_commit f d))" unfolding p using pb(2) pe(2) g(2) by auto
  show "dd_unavailable (pump_commit f d) = dd_unavailable (fold forget_refusals (ft_got f) (fold count_refusal (ft_refused f) d))"
    unfolding p using pb(3) pe(3) g(3) e_def by simp
qed


section \<open>A whole pass\<close>

lemma cache_store_init_kept: "has_init (fst (cache_store h w s b ck c)) = has_init c"
  by (auto simp: cache_store_def has_init_def load_init_def Let_def empty_cache_folder_def split: option.split)

lemma fill_init: "has_init (fill_cache h ds cks c) = has_init c"
proof (induction ds arbitrary: c)
  case (Cons x ds)
  obtain w n b where x: "x = (w, n, b)" by (cases x)
  show ?case using Cons [of "fst (cache_store h w n b (cks n) c)"]
    by (simp add: x cache_store.fill.simps cache_store_init_kept)
qed (simp add: cache_store.fill.simps)

text \<open>How a pass with the init segment at hand ends.\<close>

lemma pump_downloads_eq:
  assumes "decoder_ok d" "dd_event_id d \<noteq> []" "has_init (dd_cache d)"
  obtains d1 f where "fetch_all jt h dl (map (\<lambda>s. (s, seg_checksum (dd_manifest d) s)) (take (nat mx) (missing_seqs d))) d = (d1, f)"
    "pump_downloads jt h idl dl mx d = Some (pump_commit f d1, ft_count f)"
proof -
  obtain d1 f where f: "fetch_all jt h dl (map (\<lambda>s. (s, seg_checksum (dd_manifest d) s)) (take (nat mx) (missing_seqs d))) d = (d1, f)"
    by fastforce
  have "pump_downloads jt h idl dl mx d = Some (pump_commit f d1, ft_count f)"
    using assms(2,3) f by (simp add: pump_downloads_def pump_wanted_eq [OF assms(1)])
  with f that show thesis by blast
qed

lemma pump_init_frame:
  assumes "pump_init jt idl d = (d', r)" "cache_ok (dd_cache d)"
  shows "same_position d d'" "cache_ok (dd_cache d')" "cache_load (dd_cache d') = cache_load (dd_cache d)"
    "dd_unavailable d' = dd_unavailable d"
proof -
  let ?d = "observed (dl_answer idl) (dl_now idl) d"
  have ok: "cache_ok (dd_cache ?d)" using assms(2) by simp
  let ?c = "fst (store_init (dl_disk_ok idl) (body_bytes jt (gr_body (fst (dl_answer idl)))) (dd_cache d))"
  have "d' = ?d \<or> (\<exists>x. d' = dec_error x ?d) \<or> d' = ?d\<lparr>dd_cache := ?c\<rparr>"
    using assms(1) by (auto simp: pump_init_def Let_def split: if_splits prod.splits)
  then show "same_position d d'" "dd_unavailable d' = dd_unavailable d"
      "cache_ok (dd_cache d')" "cache_load (dd_cache d') = cache_load (dd_cache d)"
    using store_init_ok [OF assms(2)] assms(2) by (auto simp: same_position_def dec_error_def)
qed

lemma fetch_all_position:
  "fetch_all jt h dl ws d = (d', f) \<Longrightarrow> same_position d d' \<and> dd_unavailable d' = dd_unavailable d"
  using fetch_fold_position [of d jt h dl ws fetched_none] by (simp add: fetch_all_def)

text \<open>What is in the cache after a pass was there before, or arrived in it and matches its checksum.\<close>

definition fresh :: "(json \<Rightarrow> bytes) \<Rightarrow> (bytes \<Rightarrow> string) \<Rightarrow> (u64 \<Rightarrow> download) \<Rightarrow> manifest \<Rightarrow> u64 \<Rightarrow> bytes \<Rightarrow> bool" where
  "fresh jt h dl m s b = (gr_success (fst (dl_answer (dl s))) \<and> b = body_bytes jt (gr_body (fst (dl_answer (dl s)))) \<and>
     (seg_checksum m s = [] \<or> h b = seg_checksum m s))"

lemma fetched_cache:
  assumes "cache_ok (dd_cache d)" "fetch_all jt h dl (map (\<lambda>s. (s, seg_checksum m s)) ws) d = (d1, f)"
  shows "cache_ok (dd_cache d1)" "has_init (dd_cache d1) = has_init (dd_cache d)"
    "cache_load (dd_cache d1) s = Some b \<Longrightarrow> cache_load (dd_cache d) s = Some b \<or> s \<in> set ws \<and> fresh jt h dl m s b"
    "cache_has (dd_cache d1) s \<Longrightarrow> cache_has (dd_cache d) s \<or> s \<in> set ws \<and> gr_success (fst (dl_answer (dl s)))"
proof -
  have c: "dd_cache d1 = fill_cache h (List.map_filter (arrived jt dl) ws) (seg_checksum m) (dd_cache d)"
    using fetch_all_cache [of jt h dl "seg_checksum m" ws d] assms(2) by simp
  show ok: "cache_ok (dd_cache d1)" unfolding c
    by (rule cache_store.fill_good [OF assms(1)])
  show "has_init (dd_cache d1) = has_init (dd_cache d)" by (simp add: c fill_init)
  have ar: "s \<in> set ws \<and> gr_success (fst (dl_answer (dl s))) \<and> b = body_bytes jt (gr_body (fst (dl_answer (dl s))))"
    if "(w, s, b) \<in> set (List.map_filter (arrived jt dl) ws)" for w s b
    using that by (auto simp: set_map_filter arrived_def Let_def split: if_splits)
  show ld: "cache_load (dd_cache d1) s = Some b \<Longrightarrow> cache_load (dd_cache d) s = Some b \<or> s \<in> set ws \<and> fresh jt h dl m s b" for s b
    using cache_store.fill_get [OF assms(1), of h "List.map_filter (arrived jt dl) ws" "seg_checksum m" s b] ar
    unfolding c fresh_def by blast
  show "cache_has (dd_cache d1) s \<Longrightarrow> cache_has (dd_cache d) s \<or> s \<in> set ws \<and> gr_success (fst (dl_answer (dl s)))"
    using ld [of s] cache_okD(4) [OF ok, of s] cache_okD(4) [OF assms(1), of s] by (auto simp: fresh_def)
qed

lemma pump_downloads_cache:
  assumes "decoder_ok d" "pump_downloads jt h idl dl mx d = Some (d', n)"
  shows "cache_ok (dd_cache d') \<and> (\<forall>s b. cache_load (dd_cache d') s = Some b \<longrightarrow>
     cache_load (dd_cache d) s = Some b \<or> s \<in> set (missing_seqs d) \<and> fresh jt h dl (dd_manifest d) s b)"
proof -
  have ok: "cache_ok (dd_cache d)" using assms(1) by (simp add: decoder_ok_def)
  obtain d0 go where i: "(if has_init (dd_cache d) then (d, True) else pump_init jt idl d) = (d0, go)" by fastforce
  have d0: "cache_ok (dd_cache d0)" "cache_load (dd_cache d0) = cache_load (dd_cache d)"
    using i pump_init_frame [OF _ ok] ok by (auto split: if_splits)
  let ?ws = "take (nat mx) (missing_seqs d)"
  obtain d1 f where f: "fetch_all jt h dl (map (\<lambda>s. (s, seg_checksum (dd_manifest d) s)) ?ws) d0 = (d1, f)" by fastforce
  note fc = fetched_cache [OF d0(1) f]
  have "d' = d \<or> d' = d0 \<or> d' = pump_commit f d1"
    using assms(2) i f by (auto simp: pump_downloads_def pump_wanted_eq [OF assms(1)] split: if_splits)
  then show ?thesis
  proof (elim disjE)
    assume d': "d' = pump_commit f d1"
    obtain c1 where c1: "pruned (dd_cache d1) c1" "pruned c1 (dd_cache d')" using pump_commit_frame(2) [of d1 f] d' by blast
    note p1 = pruned_facts [OF fc(1) c1(1)]
    note p2 = pruned_facts [OF p1(1) c1(2)]
    show ?thesis using p2 p1 fc(3) d0(2) in_set_takeD by (metis (no_types, lifting))
  qed (use ok d0 in auto)
qed


section \<open>Segments that storage refuses\<close>

definition refusals :: "u64 \<Rightarrow> decoder \<Rightarrow> int" where
  "refusals s d = (case map_of (dd_unavailable d) s of Some n \<Rightarrow> n | None \<Rightarrow> 0)"

definition not_found :: "download \<Rightarrow> bool" where
  "not_found a = (\<not> gr_success (fst (dl_answer a)) \<and> gr_http_status (fst (dl_answer a)) = 404)"

lemma given_up_refusals: "refusals s d \<ge> kGapAttempts \<Longrightarrow> s < dd_latest_seq d \<Longrightarrow> given_up s d"
  by (auto simp: given_up_def refusals_def kGapAttempts_def split: option.splits)

lemma refusals_count:
  "s < dd_latest_seq d \<Longrightarrow> refusals s (fold count_refusal xs d) = refusals s d + int (count_list xs s)"
proof (induction xs arbitrary: d)
  case (Cons x xs)
  have l: "dd_latest_seq (count_refusal x d) = dd_latest_seq d" by (simp add: count_refusal_def)
  have "refusals s (count_refusal x d) = refusals s d + (if x = s then 1 else 0)"
    using Cons.prems by (auto simp: refusals_def count_refusal_def dir_simps)
  then show ?case using Cons.IH [of "count_refusal x d"] Cons.prems l by simp
qed simp

lemma refusals_forget: "s \<notin> set ys \<Longrightarrow> refusals s (fold forget_refusals ys d) = refusals s d"
proof (induction ys arbitrary: d)
  case (Cons y ys)
  have "refusals s (forget_refusals y d) = refusals s d"
    using Cons.prems by (auto simp: refusals_def forget_refusals_def dir_simps)
  then show ?case using Cons by simp
qed simp

lemma fetch_one_lists:
  assumes "not_found (dl s)" "fetch_one jt h dl w (d, f) = (d', f')"
  shows "count_list (ft_refused f') s = count_list (ft_refused f) s + (if fst w = s then 1 else 0)"
    "s \<in> set (ft_got f') \<Longrightarrow> s \<in> set (ft_got f)"
  using assms by (auto simp: fetch_one_def Let_def not_found_def split: if_splits prod.splits)

lemma fetch_fold_lists:
  assumes "not_found (dl s)" "fold (fetch_one jt h dl) ws (d, f) = (d', f')"
  shows "count_list (ft_refused f') s = count_list (ft_refused f) s + count_list (map fst ws) s \<and>
    (s \<in> set (ft_got f') \<longrightarrow> s \<in> set (ft_got f))"
  using assms(2)
proof (induction ws arbitrary: d f)
  case (Cons w ws)
  obtain d1 f1 where o: "fetch_one jt h dl w (d, f) = (d1, f1)" by fastforce
  show ?case using fetch_one_lists [OF assms(1) o] Cons.IH [of d1 f1] Cons.prems o by auto
qed simp

text \<open>Playback stands on a segment behind the live edge that is not in the cache.\<close>

definition stuck_at :: "u64 \<Rightarrow> decoder \<Rightarrow> bool" where
  "stuck_at s d = (decoder_ok d \<and> dd_event_id d \<noteq> [] \<and> has_init (dd_cache d) \<and> dd_play d = Playing \<and> dd_head_set d \<and>
     dd_head d = s \<and> dd_first_available_seq d \<le> s \<and> s < dd_latest_seq d \<and> s \<notin> gap_seqs d \<and> \<not> cache_has (dd_cache d) s)"

definition small_sizes :: "decoder \<Rightarrow> bool" where
  "small_sizes d = (dd_latest_seq d < 2 ^ 63 \<and> 0 \<le> dc_max_cached_segments (dd_cfg d) \<and> dc_max_cached_segments (dd_cfg d) < 2 ^ 31)"

lemma want_ahead_small:
  assumes "small_sizes d"
  shows "want_ahead d < 2 ^ 31"
proof -
  have "u64_of_int (dc_max_cached_segments (dd_cfg d)) = nat (dc_max_cached_segments (dd_cfg d))"
    using assms by (simp add: small_sizes_def u64_of_int_def)
  moreover have "want_ahead d \<le> u64_of_int (dc_max_cached_segments (dd_cfg d))"
    by (auto simp: want_ahead_def Let_def)
  moreover have "nat (dc_max_cached_segments (dd_cfg d)) < 2 ^ 31" using assms by (simp add: small_sizes_def nat_less_iff)
  ultimately show ?thesis by linarith
qed

lemma missing_head:
  assumes "stuck_at s d" "small_sizes d"
  obtains rest where "missing_seqs d = s # rest" "s \<notin> set rest"
proof -
  have f: "pump_from d = s" using assms(1) by (simp add: stuck_at_def pump_from_def)
  have "s + want_ahead d < 2 ^ 64"
    using want_ahead_small [OF assms(2)] assms by (simp add: stuck_at_def small_sizes_def)
  then have "s \<le> pump_to d" using assms(1) by (simp add: pump_to_def f stuck_at_def)
  then have "[s..<pump_to d + 1] = s # [s + 1..<pump_to d + 1]" by (simp add: upt_conv_Cons del: upt_Suc)
  then show thesis using assms(1) that
    by (simp add: missing_seqs_def f stuck_at_def del: upt_Suc)
qed

lemma pump_refused:
  assumes "stuck_at s d" "small_sizes d" "not_found (dl s)" "0 < mx"
  obtains d' n where "pump_downloads jt h idl dl mx d = Some (d', n)" "stuck_at s d'" "small_sizes d'"
    "refusals s d' = refusals s d + 1"
proof -
  have st: "decoder_ok d" "dd_event_id d \<noteq> []" "has_init (dd_cache d)" "cache_ok (dd_cache d)" "s < dd_latest_seq d"
    using assms(1) by (auto simp: stuck_at_def decoder_ok_def)
  let ?ws = "take (nat mx) (missing_seqs d)"
  obtain d1 f where f: "fetch_all jt h dl (map (\<lambda>x. (x, seg_checksum (dd_manifest d) x)) ?ws) d = (d1, f)"
    and p: "pump_downloads jt h idl dl mx d = Some (pump_commit f d1, ft_count f)"
    using pump_downloads_eq [OF st(1-3)] by blast
  obtain rest where r: "missing_seqs d = s # rest" "s \<notin> set rest" using missing_head [OF assms(1,2)] .
  obtain k where k: "nat mx = Suc k" using assms(4) by (metis Suc_pred' zero_less_nat_eq)
  have one: "count_list ?ws s = 1" using r k by (auto simp: count_list_0_iff dest: in_set_takeD)
  have "map fst (map (\<lambda>x. (x, seg_checksum (dd_manifest d) x)) ?ws) = ?ws" by (simp add: comp_def)
  then have l: "count_list (ft_refused f) s = 1" "s \<notin> set (ft_got f)"
    using fetch_fold_lists [where dl = dl and s = s, OF assms(3) f [unfolded fetch_all_def]] one by (simp_all add: fetched_none_def)
  have sp: "same_position d d1" "dd_unavailable d1 = dd_unavailable d" using fetch_all_position [OF f] by auto
  define d' where "d' = pump_commit f d1"
  have sp': "same_position d d'" using sp(1) pump_commit_frame(1) same_position_trans d'_def by blast
  have u: "refusals s d' = refusals s d + 1"
  proof -
    have e: "refusals s d' = refusals s (fold forget_refusals (ft_got f) (fold count_refusal (ft_refused f) d1))"
      by (simp add: refusals_def d'_def pump_commit_frame(3))
    have "s < dd_latest_seq d1" using sp(1) st(5) by (simp add: same_position_def)
    then have "refusals s d' = refusals s d1 + 1" using l by (simp add: e refusals_forget refusals_count)
    then show ?thesis using sp(2) by (simp add: refusals_def)
  qed
  note fc = fetched_cache [OF st(4) f]
  obtain c1 where c1: "pruned (dd_cache d1) c1" "pruned c1 (dd_cache d')" using pump_commit_frame(2) [of d1 f] d'_def by blast
  note p1 = pruned_facts [OF fc(1) c1(1)]
  note p2 = pruned_facts [OF p1(1) c1(2)]
  have no: "\<not> cache_has (dd_cache d') s"
    using p2(3) [of s] p1(3) [of s] fc(4) [of s] assms(1,3) by (auto simp: stuck_at_def not_found_def)
  have "stuck_at s d'"
    using sp' assms(1) p2(1,4) p1(4) fc(2) no by (simp add: stuck_at_def same_position_def decoder_ok_def gap_seqs_def)
  moreover have "small_sizes d'" using sp' assms(2) by (simp add: small_sizes_def same_position_def)
  ultimately show thesis using that p u d'_def by blast
qed

fun pump_all :: "(json \<Rightarrow> bytes) \<Rightarrow> (bytes \<Rightarrow> string) \<Rightarrow> (download \<times> (u64 \<Rightarrow> download) \<times> int) list \<Rightarrow> decoder \<Rightarrow> decoder option" where
  "pump_all jt h [] d = Some d"
| "pump_all jt h ((idl, dl, mx) # ps) d =
     (case pump_downloads jt h idl dl mx d of None \<Rightarrow> None | Some (d', n) \<Rightarrow> pump_all jt h ps d')"

lemma pump_all_refused:
  "stuck_at s d \<Longrightarrow> small_sizes d \<Longrightarrow> \<forall>(idl, dl, mx) \<in> set ps. not_found (dl s) \<and> 0 < mx \<Longrightarrow>
   \<exists>d'. pump_all jt h ps d = Some d' \<and> stuck_at s d' \<and> refusals s d' = refusals s d + int (length ps)"
proof (induction ps arbitrary: d)
  case (Cons p ps)
  obtain idl dl mx where p: "p = (idl, dl, mx)" by (cases p)
  then have "not_found (dl s)" "0 < mx" using Cons.prems(3) by auto
  then obtain d' n where d': "pump_downloads jt h idl dl mx d = Some (d', n)" "stuck_at s d'" "small_sizes d'"
      "refusals s d' = refusals s d + 1"
    using pump_refused [OF Cons.prems(1,2)] by blast
  obtain d'' where "pump_all jt h ps d' = Some d''" "stuck_at s d''" "refusals s d'' = refusals s d' + int (length ps)"
    using Cons.IH [OF d'(2,3)] Cons.prems(3) by auto
  then show ?case using d' p by auto
qed auto

lemma next_given_up:
  assumes "stuck_at s d" "refusals s d \<ge> kGapAttempts"
  shows "dd_head (fst (next_segment d)) = s + 1"
proof -
  have pos: "position d = s" "can_serve d" using assms(1) by (auto simp: stuck_at_def position_def can_serve_def)
  have "given_up s d" using given_up_refusals [OF assms(2)] assms(1) by (simp add: stuck_at_def)
  then show ?thesis using next_missing [OF pos(2)] position_le [OF pos(2)] assms(1) pos(1) by (simp add: stuck_at_def)
qed


section \<open>Properties of downloading\<close>

text \<open>
  What a pass sets out to fetch is the first \<open>max\<close> sequence numbers of its window, in order, that are
  neither cached nor in a listed gap, each with the checksum the manifest lists for it; the loop
  that finds them ends.
\<close>

lemma pump_wanted_exact:
  assumes "decoder_ok d"
  shows "\<exists>ws. pump_wanted mx d = Some ws \<and>
    map fst ws = take (nat mx) (filter (\<lambda>s. \<not> cache_has (dd_cache d) s \<and> s \<notin> gap_seqs d) [pump_from d..<pump_to d + 1]) \<and>
    (\<forall>w\<in>set ws. snd w = seg_checksum (dd_manifest d) (fst w))"
proof -
  have "map fst (map (\<lambda>s. (s, seg_checksum (dd_manifest d) s)) xs) = xs" for xs by (simp add: comp_def)
  then show ?thesis using pump_wanted_eq [OF assms, of mx] unfolding missing_seqs_def by fastforce
qed


text \<open>
  C23: Playback does not freeze on a segment that storage does not have. When the head stands on a segment
  behind the live edge and three passes have been told it does not exist, each pass returns, and
  the next call of \<open>next_segment\<close> moves the head past it.
\<close>

theorem missing_segment_skipped:
  assumes "stuck_at s d" "small_sizes d" "0 \<le> refusals s d" "length ps = 3"
    "\<forall>(idl, dl, mx) \<in> set ps. not_found (dl s) \<and> 0 < mx"
  shows "\<exists>d'. pump_all jt h ps d = Some d' \<and> dd_head d' = s \<and> dd_head (fst (next_segment d')) = s + 1"
proof -
  obtain d' where d': "pump_all jt h ps d = Some d'" "stuck_at s d'" "refusals s d' = refusals s d + 3"
    using pump_all_refused [OF assms(1,2,5)] assms(4) by auto
  then have "refusals s d' \<ge> kGapAttempts" using assms(3) by (simp add: kGapAttempts_def)
  from next_given_up [OF d'(2) this] d' show ?thesis by (auto simp: stuck_at_def)
qed


section \<open>Witnesses of downloading\<close>

definition ex_answer :: "bool \<Rightarrow> int \<Rightarrow> bytes \<Rightarrow> download" where
  "ex_answer ok status b = \<lparr>dl_answer = (get_result_default\<lparr>gr_success := ok, gr_http_status := status, gr_body := Bytes b\<rparr>, False),
     dl_disk_ok = True, dl_now = 0\<rparr>"

text \<open>The recording of \<open>ex_dec\<close>, with segment 5 listed but not cached and no gap.\<close>

definition ex_stuck :: decoder where
  "ex_stuck = ex_dec\<lparr>dd_manifest := manifest_default, dd_head := 5, dd_head_set := True, dd_play := Playing\<rparr>"

lemma ex_stuck_facts [simp]:
  "dd_cache ex_stuck = ex_store" "dd_latest_seq ex_stuck = 6" "dd_first_available_seq ex_stuck = 3" "dd_head_set ex_stuck"
  "dd_head ex_stuck = 5" "dd_play ex_stuck = Playing" "dd_event_id ex_stuck = ''ev''" "dd_manifest ex_stuck = manifest_default"
  "dd_cfg ex_stuck = decoder_config_default" "gap_seqs ex_stuck = {}" "dd_segment_duration_s ex_stuck = 6"
  by (simp_all add: ex_stuck_def gap_seqs_def manifest_default_def)

lemma ex_stuck_ok: "stuck_at 5 ex_stuck" "small_sizes ex_stuck" "decoder_ok ex_stuck" "refusals 5 ex_stuck = 0"
proof -
  show ok: "decoder_ok ex_stuck" using ex_dec_ok(4) by (simp add: decoder_ok_def u64_max_def manifest_default_def)
  have "\<not> cache_has ex_store 5" using cache_okD(3) [OF ex_dec_ok(4)] by (simp add: ex_store_facts)
  then show "stuck_at 5 ex_stuck" using ok by (simp add: stuck_at_def ex_store_facts)
  show "small_sizes ex_stuck" by (simp add: small_sizes_def decoder_config_default_def)
  show "refusals 5 ex_stuck = 0" by (simp add: refusals_def ex_stuck_def ex_dec_def decoder_new_def)
qed


theorem missing_segment_skipped_witness:
  "\<exists>d'. pump_all (\<lambda>j. []) (\<lambda>b. ''sum'') (replicate 3 (ex_answer False 404 [], \<lambda>s. ex_answer False 404 [], 4)) ex_stuck = Some d' \<and>
     dd_head (fst (next_segment d')) = 6"
  using missing_segment_skipped [OF ex_stuck_ok(1,2), of "replicate 3 (ex_answer False 404 [], \<lambda>s. ex_answer False 404 [], 4)"]
    ex_stuck_ok(4) by (auto simp: not_found_def ex_answer_def)


end
