(* ===== verification/Decoder_Polling.thy ===== *)
theory Decoder_Polling
  imports Decoder_Downloads
begin

text \<open>
  What \<^verbatim>\<open>DecoderSession::poll\<close> and \<^verbatim>\<open>DecoderSession::add_cue\<close> (\<^verbatim>\<open>src/core/decoder_session.cpp\<close>)
  do to the state of the decoder: the state of the room on every answer of the store, the change
  of events, the hold on a finished event, and where a cue is written.
\<close>


section \<open>What a poll changes\<close>

lemma poll_failover_fields [simp]:
  "dd_cache (poll_failover pa d) = dd_cache d" "dd_event_id (poll_failover pa d) = dd_event_id d"
  "dd_pinned_event_id (poll_failover pa d) = dd_pinned_event_id d" "dd_room (poll_failover pa d) = dd_room d"
  "dd_last_error (poll_failover pa d) = dd_last_error d" "dd_manifest (poll_failover pa d) = dd_manifest d"
  "dd_link (poll_failover pa d) = dd_link d" "dd_cfg (poll_failover pa d) = dd_cfg d"
  "dd_end_hold_done (poll_failover pa d) = dd_end_hold_done d" "dd_latest_seq (poll_failover pa d) = dd_latest_seq d"
  "dd_head (poll_failover pa d) = dd_head d" "dd_head_set (poll_failover pa d) = dd_head_set d" "dd_play (poll_failover pa d) = dd_play d"
  "dd_init_sent (poll_failover pa d) = dd_init_sent d" "dd_unavailable (poll_failover pa d) = dd_unavailable d"
  by (simp_all add: poll_failover_def)

lemma dec_error_fields [simp]:
  "dd_event_id (dec_error x d) = dd_event_id d" "dd_pinned_event_id (dec_error x d) = dd_pinned_event_id d"
  "dd_cache (dec_error x d) = dd_cache d" "dd_manifest (dec_error x d) = dd_manifest d"
  "dd_latest_seq (dec_error x d) = dd_latest_seq d" "dd_head (dec_error x d) = dd_head d" "dd_head_set (dec_error x d) = dd_head_set d"
  "dd_play (dec_error x d) = dd_play d" "dd_init_sent (dec_error x d) = dd_init_sent d" "dd_unavailable (dec_error x d) = dd_unavailable d"
  "dd_end_hold_done (dec_error x d) = dd_end_hold_done d" "dd_cfg (dec_error x d) = dd_cfg d"
  by (simp_all add: dec_error_def)

lemma poll_cues_fields [simp]:
  "dd_event_id (fst (poll_cues pa n d)) = dd_event_id d" "dd_pinned_event_id (fst (poll_cues pa n d)) = dd_pinned_event_id d"
  "dd_cfg (fst (poll_cues pa n d)) = dd_cfg d" "dd_end_hold_done (fst (poll_cues pa n d)) = dd_end_hold_done d"
  "dd_cache (fst (poll_cues pa n d)) = dd_cache d" "dd_head (fst (poll_cues pa n d)) = dd_head d"
  "dd_head_set (fst (poll_cues pa n d)) = dd_head_set d" "dd_play (fst (poll_cues pa n d)) = dd_play d"
  "dd_init_sent (fst (poll_cues pa n d)) = dd_init_sent d" "dd_unavailable (fst (poll_cues pa n d)) = dd_unavailable d"
  by (simp_all add: poll_cues_def)

lemma poll_start_fields [simp]:
  "dd_event_id (fst (poll_start pa m d)) = dd_event_id d" "dd_pinned_event_id (fst (poll_start pa m d)) = dd_pinned_event_id d"
  "dd_cfg (fst (poll_start pa m d)) = dd_cfg d" "dd_end_hold_done (fst (poll_start pa m d)) = dd_end_hold_done d"
  "dd_cache (fst (poll_start pa m d)) = dd_cache d" "dd_head (fst (poll_start pa m d)) = dd_head d"
  "dd_head_set (fst (poll_start pa m d)) = dd_head_set d" "dd_play (fst (poll_start pa m d)) = dd_play d"
  "dd_init_sent (fst (poll_start pa m d)) = dd_init_sent d" "dd_unavailable (fst (poll_start pa m d)) = dd_unavailable d"
  by (simp_all add: poll_start_def)

text \<open>How old a manifest is, and the state it puts the room in.\<close>

definition room_for :: "decoder_config \<Rightarrow> i64 \<Rightarrow> manifest \<Rightarrow> room_state" where
  "room_for cfg now m =
     (if mf_status m = ''ended'' then R_Ended
      else if mf_updated_at_ms m > 0 \<and> now - mf_updated_at_ms m > dc_stale_after_ms cfg then R_Interrupted else R_Live)"

lemma poll_timing_fields [simp]:
  "dd_event_id (poll_timing m h d) = dd_event_id d" "dd_pinned_event_id (poll_timing m h d) = dd_pinned_event_id d"
  "dd_cfg (poll_timing m h d) = dd_cfg d" "dd_end_hold_done (poll_timing m h d) = dd_end_hold_done d"
  "dd_cache (poll_timing m h d) = dd_cache d" "dd_head (poll_timing m h d) = dd_head d"
  "dd_head_set (poll_timing m h d) = dd_head_set d" "dd_play (poll_timing m h d) = dd_play d"
  "dd_init_sent (poll_timing m h d) = dd_init_sent d" "dd_unavailable (poll_timing m h d) = dd_unavailable d"
  "dd_manifest (poll_timing m h d) = dd_manifest d" "dd_latest_seq (poll_timing m h d) = dd_latest_seq d"
  "dd_first_available_seq (poll_timing m h d) = dd_first_available_seq d"
  "dd_manifest_updated_ms (poll_timing m h d) = dd_manifest_updated_ms d"
  by (simp_all add: poll_timing_def)

lemma poll_room_eq:
  "\<exists>x sl st lv. poll_room pa live d =
     d\<lparr>dd_manifest_stalled := st, dd_last_error := x, dd_saw_live := sl, dd_room_is_live := lv,
       dd_room := (if mf_status (dd_manifest d) = ''ended'' then R_Ended
                   else if dd_manifest_updated_ms d > 0 \<and> pa_now pa - dd_manifest_updated_ms d > dc_stale_after_ms (dd_cfg d)
                   then R_Interrupted else R_Live)\<rparr>"
proof -
  let ?old = "dd_manifest_updated_ms d > 0 \<and> pa_now pa - dd_manifest_updated_ms d > dc_stale_after_ms (dd_cfg d)"
  let ?age = "pa_now pa - dd_manifest_updated_ms d"
  let ?e = "mf_status (dd_manifest d) = ''ended''"
  show ?thesis
    by (rule exI [of _ "dd_last_error (poll_room pa live d)"], rule exI [of _ "dd_saw_live (poll_room pa live d)"],
        rule exI [of _ "dd_manifest_stalled (poll_room pa live d)"], rule exI [of _ "dd_room_is_live (poll_room pa live d)"],
        cases ?e; cases ?old) (simp_all add: poll_room_def dec_error_def Let_def)
qed

lemma poll_hold_fields [simp]:
  "dd_event_id (poll_hold d) = dd_event_id d" "dd_room (poll_hold d) = dd_room d"
  "dd_cfg (poll_hold d) = dd_cfg d"
  "dd_cache (poll_hold d) = dd_cache d" "dd_head (poll_hold d) = dd_head d"
  "dd_head_set (poll_hold d) = dd_head_set d" "dd_play (poll_hold d) = dd_play d"
  "dd_init_sent (poll_hold d) = dd_init_sent d" "dd_unavailable (poll_hold d) = dd_unavailable d"
  "dd_manifest (poll_hold d) = dd_manifest d" "dd_latest_seq (poll_hold d) = dd_latest_seq d"
  "dd_first_available_seq (poll_hold d) = dd_first_available_seq d"
  "dd_pinned_event_id (poll_hold d) = (if dc_hold_finished_event (dd_cfg d) \<and> dd_room d = R_Ended \<and> \<not> dd_end_hold_done d \<and>
       dd_pinned_event_id d = [] \<and> dd_event_id d \<noteq> [] then dd_event_id d else dd_pinned_event_id d)"
  by (simp_all add: poll_hold_def)

lemma poll_commit_fields:
  fixes d pa live fetched mk st hint
  defines "e \<equiv> poll_commit pa live fetched mk st hint d"
  shows "dd_event_id e = dd_event_id d" "dd_cfg e = dd_cfg d" "dd_cache e = dd_cache d" "dd_head e = dd_head d"
    "dd_head_set e = dd_head_set d" "dd_play e = dd_play d" "dd_init_sent e = dd_init_sent d"
    "dd_unavailable e = dd_unavailable d"
    "dd_manifest e = (if st > 0 then fetched\<lparr>mf_started_at_ms := st\<rparr> else fetched)"
    "dd_latest_seq e = mf_latest_seq fetched" "dd_first_available_seq e = mf_first_available_seq fetched"
    "dd_room e = room_for (dd_cfg d) (pa_now pa) fetched"
    "dd_pinned_event_id e = (if dc_hold_finished_event (dd_cfg d) \<and> dd_room e = R_Ended \<and> \<not> dd_end_hold_done d \<and>
       dd_pinned_event_id d = [] \<and> dd_event_id d \<noteq> [] then dd_event_id d else dd_pinned_event_id d)"
proof -
  define m where "m = (if st > 0 then fetched\<lparr>mf_started_at_ms := st\<rparr> else fetched)"
  define d1 where "d1 = d\<lparr>dd_manifest := m, dd_started_at_ms := mf_started_at_ms m,
                 dd_markers := (case mk of Some ml \<Rightarrow> ml | None \<Rightarrow> dd_markers d),
                 dd_latest_seq := mf_latest_seq m, dd_first_available_seq := mf_first_available_seq m,
                 dd_manifest_updated_ms := mf_updated_at_ms m\<rparr>"
  have mf: "mf_status m = mf_status fetched" "mf_updated_at_ms m = mf_updated_at_ms fetched"
    "mf_latest_seq m = mf_latest_seq fetched" "mf_first_available_seq m = mf_first_available_seq fetched" by (simp_all add: m_def)
  have d1: "dd_event_id d1 = dd_event_id d" "dd_cfg d1 = dd_cfg d" "dd_cache d1 = dd_cache d" "dd_head d1 = dd_head d"
    "dd_head_set d1 = dd_head_set d" "dd_play d1 = dd_play d" "dd_init_sent d1 = dd_init_sent d"
    "dd_unavailable d1 = dd_unavailable d" "dd_manifest d1 = m" "dd_latest_seq d1 = mf_latest_seq m"
    "dd_first_available_seq d1 = mf_first_available_seq m" "dd_manifest_updated_ms d1 = mf_updated_at_ms m"
    "dd_pinned_event_id d1 = dd_pinned_event_id d" "dd_end_hold_done d1 = dd_end_hold_done d"
    by (simp_all add: d1_def)
  have e0: "e = poll_hold (poll_room pa live (poll_timing m hint d1))"
    unfolding e_def poll_commit_def Let_def m_def d1_def ..
  have r: "room_for (dd_cfg d) (pa_now pa) fetched =
     (if mf_status (dd_manifest (poll_timing m hint d1)) = ''ended'' then R_Ended
      else if dd_manifest_updated_ms (poll_timing m hint d1) > 0 \<and>
        pa_now pa - dd_manifest_updated_ms (poll_timing m hint d1) > dc_stale_after_ms (dd_cfg (poll_timing m hint d1))
      then R_Interrupted else R_Live)"
    unfolding room_for_def poll_timing_fields d1 mf ..
  obtain x sl lv stl where e: "e = poll_hold ((poll_timing m hint d1)\<lparr>dd_manifest_stalled := stl, dd_last_error := x,
      dd_saw_live := sl, dd_room_is_live := lv, dd_room := room_for (dd_cfg d) (pa_now pa) fetched\<rparr>)"
    unfolding e0 r using poll_room_eq [of pa live "poll_timing m hint d1"] by (elim exE) (simp only: that)
  show "dd_event_id e = dd_event_id d" "dd_cfg e = dd_cfg d" "dd_cache e = dd_cache d" "dd_head e = dd_head d"
    "dd_head_set e = dd_head_set d" "dd_play e = dd_play d" "dd_init_sent e = dd_init_sent d"
    "dd_unavailable e = dd_unavailable d"
    "dd_manifest e = (if st > 0 then fetched\<lparr>mf_started_at_ms := st\<rparr> else fetched)"
    "dd_latest_seq e = mf_latest_seq fetched" "dd_first_available_seq e = mf_first_available_seq fetched"
    "dd_room e = room_for (dd_cfg d) (pa_now pa) fetched"
    "dd_pinned_event_id e = (if dc_hold_finished_event (dd_cfg d) \<and> dd_room e = R_Ended \<and> \<not> dd_end_hold_done d \<and>
       dd_pinned_event_id d = [] \<and> dd_event_id d \<noteq> [] then dd_event_id d else dd_pinned_event_id d)"
    unfolding e by (simp_all add: d1 mf) (simp add: m_def)
qed

text \<open>The manifest stage of a poll, by what the request returned.\<close>

definition fetched_manifest :: "poll_answers \<Rightarrow> manifest option" where
  "fetched_manifest pa = (let r = fst (pa_manifest pa) in
     if gr_success r then
       (case parsed manifest_from_json (gr_body r) of
          Some m \<Rightarrow> if protocol_readable (mf_protocol_version m) then Some m else None
        | None \<Rightarrow> None)
     else None)"

lemma poll_manifest_ok:
  assumes "fetched_manifest pa = Some m"
  obtains d1 mk st hint where "poll_manifest pa live need d = poll_commit pa live m mk st hint d1"
    "dd_event_id d1 = dd_event_id d" "dd_cfg d1 = dd_cfg d" "dd_cache d1 = dd_cache d" "dd_head d1 = dd_head d"
    "dd_head_set d1 = dd_head_set d" "dd_play d1 = dd_play d" "dd_init_sent d1 = dd_init_sent d"
    "dd_unavailable d1 = dd_unavailable d" "dd_pinned_event_id d1 = dd_pinned_event_id d" "dd_end_hold_done d1 = dd_end_hold_done d"
proof -
  let ?o = "observed (pa_manifest pa) (pa_now pa) d"
  let ?c = "fst (poll_cues pa need ?o)"
  have "poll_manifest pa live need d = poll_commit pa live m (snd (poll_cues pa need ?o))
      (fst (snd (poll_start pa m ?c))) (snd (snd (poll_start pa m ?c))) (fst (poll_start pa m ?c))"
    using assms by (auto simp: poll_manifest_def fetched_manifest_def Let_def case_prod_beta split: option.splits if_splits)
  then show thesis by (rule that) simp_all
qed

lemma poll_manifest_bad:
  assumes "fetched_manifest pa = None"
  shows "\<exists>x. poll_manifest pa live need d =
     (if \<not> gr_success (fst (pa_manifest pa)) \<and> snd (pa_manifest pa) then observed (pa_manifest pa) (pa_now pa) d
      else (dec_error x (observed (pa_manifest pa) (pa_now pa) d))\<lparr>dd_room := R_Offline\<rparr>)"
  using assms by (auto simp: poll_manifest_def fetched_manifest_def Let_def split: option.splits if_splits)

lemma poll_manifest_event:
  "dd_event_id (poll_manifest pa live need d) = dd_event_id d"
  "dd_pinned_event_id d \<noteq> [] \<Longrightarrow> dd_pinned_event_id (poll_manifest pa live need d) = dd_pinned_event_id d"
proof -
  have "dd_event_id (poll_manifest pa live need d) = dd_event_id d \<and>
    (dd_pinned_event_id d \<noteq> [] \<longrightarrow> dd_pinned_event_id (poll_manifest pa live need d) = dd_pinned_event_id d)"
  proof (cases "fetched_manifest pa")
    case None
    show ?thesis using poll_manifest_bad [OF None, of live need d] by (auto split: if_splits)
  next
    case (Some m)
    obtain d1 mk st hint where "poll_manifest pa live need d = poll_commit pa live m mk st hint d1"
      "dd_event_id d1 = dd_event_id d" "dd_pinned_event_id d1 = dd_pinned_event_id d"
      by (rule poll_manifest_ok [OF Some, of live need d])
    then show ?thesis by (simp add: poll_commit_fields)
  qed
  then show "dd_event_id (poll_manifest pa live need d) = dd_event_id d"
    "dd_pinned_event_id d \<noteq> [] \<Longrightarrow> dd_pinned_event_id (poll_manifest pa live need d) = dd_pinned_event_id d" by auto
qed


section \<open>Polls\<close>

text \<open>The event a poll plays: the pinned one, or the one \<^verbatim>\<open>live.json\<close> names.\<close>

definition poll_target :: "poll_answers \<Rightarrow> decoder \<Rightarrow> string" where
  "poll_target pa d =
     (if dd_pinned_event_id d = [] then lp_event_id (fst (read_live (pa_live pa))) else dd_pinned_event_id d)"

definition switches :: "poll_answers \<Rightarrow> decoder \<Rightarrow> bool" where
  "switches pa d = (poll_target pa d \<noteq> [] \<and> poll_target pa d \<noteq> dd_event_id d)"

lemma poll_target_found:
  "(if dd_pinned_event_id (observed a n (poll_failover pa d)) = [] then lp_event_id (fst (read_live (pa_live pa)))
    else dd_pinned_event_id (observed a n (poll_failover pa d))) = poll_target pa d"
  by (simp add: poll_target_def)

lemma poll_no_target:
  assumes "poll_target pa d = []"
  shows "poll pa d = (let d1 = observed (pa_live pa) (pa_now pa) (poll_failover pa d) in
     if snd (pa_live pa) then d1 else poll_offline (fst (read_live (pa_live pa))) (snd (read_live (pa_live pa))) d1)"
  unfolding poll_def Let_def case_prod_beta poll_target_found by (simp add: assms)

text \<open>The state a poll hands to its manifest stage.\<close>

definition poll_entered :: "poll_answers \<Rightarrow> decoder \<Rightarrow> decoder" where
  "poll_entered pa d =
     (let d1 = observed (pa_live pa) (pa_now pa) (poll_failover pa d);
          d2 = enter_event (poll_target pa d) (d1\<lparr>dd_live_event_id := lp_event_id (fst (read_live (pa_live pa)))\<rparr>)
      in if pa_now pa - dd_markers_checked_ms d2 > 5000 then d2\<lparr>dd_markers_checked_ms := pa_now pa\<rparr> else d2)"

lemma poll_has_target:
  assumes "poll_target pa d \<noteq> []"
  shows "\<exists>need. poll pa d = poll_manifest pa (fst (read_live (pa_live pa))) need (poll_entered pa d)"
  unfolding poll_def poll_entered_def Let_def case_prod_beta poll_target_found by (simp only: assms if_False) blast

lemma poll_entered_fields:
  assumes "poll_target pa d \<noteq> []"
  shows "dd_event_id (poll_entered pa d) = poll_target pa d" "dd_pinned_event_id (poll_entered pa d) = dd_pinned_event_id d"
    "dd_cfg (poll_entered pa d) = dd_cfg d" "dd_room (poll_entered pa d) = dd_room d"
    "dd_last_error (poll_entered pa d) = dd_last_error d" "dd_manifest (poll_entered pa d) = dd_manifest d"
    "dd_latest_seq (poll_entered pa d) = dd_latest_seq d"
    "dd_end_hold_done (poll_entered pa d) = (\<not> switches pa d \<and> dd_end_hold_done d)"
    "dd_head (poll_entered pa d) = (if switches pa d then 0 else dd_head d)"
    "dd_head_set (poll_entered pa d) = (\<not> switches pa d \<and> dd_head_set d)"
    "dd_init_sent (poll_entered pa d) = (\<not> switches pa d \<and> dd_init_sent d)"
    "dd_play (poll_entered pa d) = (if switches pa d then Stopped else dd_play d)"
    "dd_unavailable (poll_entered pa d) = (if switches pa d then [] else dd_unavailable d)"
    "dd_cache (poll_entered pa d) = (if switches pa d then set_event (poll_target pa d) (dd_cache d) else dd_cache d)"
  using assms by (simp_all add: poll_entered_def switches_def enter_event_def Let_def)

lemma poll_offline_fields [simp]:
  "dd_event_id (poll_offline l e d) = dd_event_id d" "dd_pinned_event_id (poll_offline l e d) = dd_pinned_event_id d"
  "dd_cfg (poll_offline l e d) = dd_cfg d" "dd_room (poll_offline l e d) = R_Offline" "dd_manifest (poll_offline l e d) = dd_manifest d"
  "dd_latest_seq (poll_offline l e d) = dd_latest_seq d" "dd_head (poll_offline l e d) = dd_head d"
  "dd_head_set (poll_offline l e d) = dd_head_set d" "dd_init_sent (poll_offline l e d) = dd_init_sent d"
  "dd_play (poll_offline l e d) = dd_play d" "dd_unavailable (poll_offline l e d) = dd_unavailable d"
  "dd_cache (poll_offline l e d) = dd_cache d"
  by (simp_all add: poll_offline_def)

text \<open>What the manifest stage keeps, and what it leaves when it commits nothing.\<close>

lemma poll_manifest_keeps:
  fixes pa live need d
  defines "e \<equiv> poll_manifest pa live need d"
  shows "dd_cache e = dd_cache d" "dd_head e = dd_head d" "dd_head_set e = dd_head_set d" "dd_play e = dd_play d"
    "dd_init_sent e = dd_init_sent d" "dd_unavailable e = dd_unavailable d" "dd_cfg e = dd_cfg d"
proof -
  have "dd_cache e = dd_cache d \<and> dd_head e = dd_head d \<and> dd_head_set e = dd_head_set d \<and> dd_play e = dd_play d \<and>
    dd_init_sent e = dd_init_sent d \<and> dd_unavailable e = dd_unavailable d \<and> dd_cfg e = dd_cfg d"
  proof (cases "fetched_manifest pa")
    case None
    show ?thesis using poll_manifest_bad [OF None, of live need d] by (elim exE) (simp add: e_def)
  next
    case (Some m)
    show ?thesis by (rule poll_manifest_ok [OF Some, of live need d]) (simp add: e_def poll_commit_fields)
  qed
  then show "dd_cache e = dd_cache d" "dd_head e = dd_head d" "dd_head_set e = dd_head_set d" "dd_play e = dd_play d"
    "dd_init_sent e = dd_init_sent d" "dd_unavailable e = dd_unavailable d" "dd_cfg e = dd_cfg d" by auto
qed

lemma poll_manifest_room:
  "dd_room (poll_manifest pa live need d) =
     (case fetched_manifest pa of Some m \<Rightarrow> room_for (dd_cfg d) (pa_now pa) m
      | None \<Rightarrow> if \<not> gr_success (fst (pa_manifest pa)) \<and> snd (pa_manifest pa) then dd_room d else R_Offline)"
  "dd_latest_seq (poll_manifest pa live need d) =
     (case fetched_manifest pa of Some m \<Rightarrow> mf_latest_seq m | None \<Rightarrow> dd_latest_seq d)"
  "fetched_manifest pa = None \<Longrightarrow> dd_manifest (poll_manifest pa live need d) = dd_manifest d"
proof -
  have "dd_room (poll_manifest pa live need d) =
       (case fetched_manifest pa of Some m \<Rightarrow> room_for (dd_cfg d) (pa_now pa) m
        | None \<Rightarrow> if \<not> gr_success (fst (pa_manifest pa)) \<and> snd (pa_manifest pa) then dd_room d else R_Offline) \<and>
     dd_latest_seq (poll_manifest pa live need d) =
       (case fetched_manifest pa of Some m \<Rightarrow> mf_latest_seq m | None \<Rightarrow> dd_latest_seq d) \<and>
     (fetched_manifest pa = None \<longrightarrow> dd_manifest (poll_manifest pa live need d) = dd_manifest d)"
  proof (cases "fetched_manifest pa")
    case None
    show ?thesis using poll_manifest_bad [OF None, of live need d] by (elim exE) (simp add: None)
  next
    case (Some m)
    show ?thesis by (rule poll_manifest_ok [OF Some, of live need d]) (simp add: Some poll_commit_fields)
  qed
  then show "dd_room (poll_manifest pa live need d) =
       (case fetched_manifest pa of Some m \<Rightarrow> room_for (dd_cfg d) (pa_now pa) m
        | None \<Rightarrow> if \<not> gr_success (fst (pa_manifest pa)) \<and> snd (pa_manifest pa) then dd_room d else R_Offline)"
    "dd_latest_seq (poll_manifest pa live need d) =
       (case fetched_manifest pa of Some m \<Rightarrow> mf_latest_seq m | None \<Rightarrow> dd_latest_seq d)"
    "fetched_manifest pa = None \<Longrightarrow> dd_manifest (poll_manifest pa live need d) = dd_manifest d" by auto
qed

lemma poll_manifest_found:
  assumes "fetched_manifest pa = Some m"
  shows "\<exists>t. dd_manifest (poll_manifest pa live need d) = m\<lparr>mf_started_at_ms := t\<rparr>"
proof (rule poll_manifest_ok [OF assms, of live need d])
  fix d1 mk hint and st :: i64
  assume "poll_manifest pa live need d = poll_commit pa live m mk st hint d1"
  then have "dd_manifest (poll_manifest pa live need d) =
      m\<lparr>mf_started_at_ms := (if st > 0 then st else mf_started_at_ms m)\<rparr>" by (simp add: poll_commit_fields)
  then show ?thesis by blast
qed

lemma poll_event:
  "dd_event_id (poll pa d) = (if poll_target pa d = [] then dd_event_id d else poll_target pa d)"
  "dd_cfg (poll pa d) = dd_cfg d"
  "dd_pinned_event_id d \<noteq> [] \<Longrightarrow> dd_pinned_event_id (poll pa d) = dd_pinned_event_id d"
proof -
  have "dd_event_id (poll pa d) = (if poll_target pa d = [] then dd_event_id d else poll_target pa d) \<and>
     dd_cfg (poll pa d) = dd_cfg d \<and>
     (dd_pinned_event_id d \<noteq> [] \<longrightarrow> dd_pinned_event_id (poll pa d) = dd_pinned_event_id d)"
  proof (cases "poll_target pa d = []")
    case True
    then show ?thesis by (simp add: poll_no_target Let_def)
  next
    case False
    show ?thesis using poll_has_target [OF False]
      by (elim exE) (simp add: poll_manifest_event poll_entered_fields False poll_manifest_keeps)
  qed
  then show "dd_event_id (poll pa d) = (if poll_target pa d = [] then dd_event_id d else poll_target pa d)"
    "dd_cfg (poll pa d) = dd_cfg d"
    "dd_pinned_event_id d \<noteq> [] \<Longrightarrow> dd_pinned_event_id (poll pa d) = dd_pinned_event_id d" by auto
qed

lemma pinned_polls:
  assumes "dd_pinned_event_id d = eid" "eid \<noteq> []" "dd_event_id d = eid"
  shows "dd_pinned_event_id (fold poll pas d) = eid \<and> dd_event_id (fold poll pas d) = eid"
  using assms
proof (induction pas arbitrary: d)
  case (Cons pa pas)
  have "poll_target pa d = eid" using Cons.prems by (simp add: poll_target_def)
  then show ?case using Cons.IH [of "poll pa d"] Cons.prems by (simp add: poll_event)
qed simp

lemma poll_ended_pins:
  assumes "dc_hold_finished_event (dd_cfg d)" "dd_pinned_event_id d = []" "poll_target pa d \<noteq> []"
    "poll_target pa d = dd_event_id d \<longrightarrow> \<not> dd_end_hold_done d" "fetched_manifest pa = Some m" "mf_status m = ''ended''"
  shows "dd_pinned_event_id (poll pa d) = poll_target pa d"
proof -
  obtain need where p: "poll pa d = poll_manifest pa (fst (read_live (pa_live pa))) need (poll_entered pa d)"
    using poll_has_target [OF assms(3)] by blast
  show ?thesis unfolding p
    by (rule poll_manifest_ok [OF assms(5), of "fst (read_live (pa_live pa))" need "poll_entered pa d"])
      (use assms in \<open>auto simp: poll_commit_fields poll_entered_fields room_for_def switches_def\<close>)
qed


section \<open>Cues\<close>

text \<open>A call that made a PUT: the cue object it went to, and the guards that let it through.\<close>

lemma add_cue_put:
  assumes "add_cue ci label sq tm d = (d', Some put, err)"
  obtains name seq t where "dc_author_name (dd_cfg d) \<noteq> []" "dc_can_author_cues (dd_cfg d)"
    "add_cue_object ci (cues_prefix_for (dd_event_id d) @ name) label seq t d = (d', Some put, err)"
proof -
  let ?seq = "cue_seq sq tm d"
  let ?at0 = "if tm > 0 then tm else wall_clock_ms (ci_owns_lock ci) ?seq d"
  let ?t = "if ?at0 \<le> 0 then ci_now ci else ?at0"
  let ?own = "cue_author_token (dc_author_name (dd_cfg d)) @ ''.json''"
  let ?px = "cues_prefix_for (dd_event_id d)"
  have guards: "dc_author_name (dd_cfg d) \<noteq> []" "dc_can_author_cues (dd_cfg d)"
    using assms by (auto simp: add_cue_def split: if_splits)
  have hub: "add_cue_hub hub d \<noteq> (d', Some put, err)" for hub
    by (auto simp: add_cue_hub_def split: prod.splits if_splits)
  have cut: "k = ?px @ drop (length ?px) k" if "take (length (event_prefix_for (dd_event_id d)) + 5) k = ?px" for k
  proof -
    have "length ?px = length (event_prefix_for (dd_event_id d)) + 5" by (simp add: cues_prefix_for_def)
    then show ?thesis using that append_take_drop_id [of "length ?px" k] by simp
  qed
  have "\<exists>name. add_cue_object ci (?px @ name) label ?seq ?t d = (d', Some put, err)"
  proof (cases "\<exists>t. ci_target ci = Some t \<and> ck_tx t")
    case True
    then obtain t where t: "ci_target ci = Some t" "ck_tx t" by blast
    then have k: "take (length (event_prefix_for (dd_event_id d)) + 5) (ck_object_key t) = ?px"
      "add_cue_object ci (ck_object_key t) label ?seq ?t d = (d', Some put, err)"
      using assms by (auto simp: add_cue_def Let_def cues_prefix_for_def split: if_splits)
    then show ?thesis using cut [OF k(1)] by metis
  next
    case False
    then have "add_cue_object ci (?px @ ?own) label ?seq ?t d = (d', Some put, err)"
      using assms hub by (auto simp: add_cue_def Let_def cues_prefix_for_def split: if_splits option.splits)
    then show ?thesis by blast
  qed
  then show thesis using that [OF guards] by blast
qed

lemma merged_has:
  assumes "m \<in> set (all_markers parts)"
  shows "\<exists>e \<in> set (ml_markers (merge_markers parts)). mk_id e = mk_id m"
  using merge_markers_covers [OF assms] by auto

lemma add_cue_object_facts:
  assumes "add_cue_object ci key label seq t d = (d', Some put, err)"
  obtains mk where "mk_label mk = label" "mk_author mk = dc_author_name (dd_cfg d)" "fst put = key"
    "snd put = marker_list_to_json ((markers_from_get (fst (ci_get ci)))\<lparr>ml_markers := ml_markers (markers_from_get (fst (ci_get ci))) @ [mk]\<rparr>)"
    "if pr_success (ci_put ci)
     then err = None \<and> (\<forall>m \<in> insert mk (set (ml_markers (dd_markers d))). \<exists>e \<in> set (ml_markers (dd_markers d')). mk_id e = mk_id m)
     else err \<noteq> None \<and> dd_markers d' = dd_markers d"
    "same_position d d'" "dd_cache d' = dd_cache d"
proof -
  let ?mk = "\<lparr>mk_seq = seq, mk_at_ms = t, mk_at_media_ms = -1, mk_type = ''cue'', mk_label = label,
                mk_id = make_event_id t (ci_draws ci), mk_author = dc_author_name (dd_cfg d)\<rparr>"
  let ?mine = "(markers_from_get (fst (ci_get ci)))\<lparr>ml_markers := ml_markers (markers_from_get (fst (ci_get ci))) @ [?mk]\<rparr>"
  let ?d1 = "observed (ci_get ci) (ci_now ci) d"
  have e: "(d', Some put, err) = (if \<not> pr_success (ci_put ci)
      then (?d1, Some (key, marker_list_to_json ?mine),
        Some (if pr_error (ci_put ci) = [] then ''the cue could not be written'' else pr_error (ci_put ci)))
      else (?d1\<lparr>dd_markers := merge_markers [dd_markers ?d1, ?mine]\<rparr>, Some (key, marker_list_to_json ?mine), None))"
    using assms [symmetric] unfolding add_cue_object_def Let_def .
  have cov: "\<exists>e \<in> set (ml_markers (merge_markers [dd_markers d, ?mine])). mk_id e = mk_id m"
    if "m \<in> insert ?mk (set (ml_markers (dd_markers d)))" for m
    by (rule merged_has) (use that in \<open>auto simp: all_markers_def\<close>)
  show thesis
  proof (cases "pr_success (ci_put ci)")
    case True
    with e have d': "d' = ?d1\<lparr>dd_markers := merge_markers [dd_markers d, ?mine]\<rparr>" and "put = (key, marker_list_to_json ?mine)" "err = None"
      by simp_all
    then show thesis by (intro that [of ?mk]) (use True cov in \<open>auto simp: same_position_def\<close>)
  next
    case False
    with e have "d' = ?d1" "put = (key, marker_list_to_json ?mine)" "err \<noteq> None" by simp_all
    then show thesis by (intro that [of ?mk]) (use False in \<open>auto simp: same_position_def\<close>)
  qed
qed


section \<open>Properties\<close>

text \<open>
  C36: A finished event stays on screen. When the setting to hold finished events is on and a poll
  of an unpinned decoder reads a manifest that says the event it follows has ended (and this end
  was not held before), every later poll, whatever the store answers and whatever event
  \<^verbatim>\<open>live.json\<close> names by then, leaves the decoder on that event.
\<close>

theorem finished_event_held:
  assumes "dc_hold_finished_event (dd_cfg d)" "dd_pinned_event_id d = []" "poll_target pa d \<noteq> []"
    "switches pa d \<or> \<not> dd_end_hold_done d" "fetched_manifest pa = Some m" "mf_status m = ''ended''"
  shows "dd_event_id (fold poll later (poll pa d)) = poll_target pa d \<and>
    dd_pinned_event_id (fold poll later (poll pa d)) = poll_target pa d"
proof -
  have "poll_target pa d = dd_event_id d \<longrightarrow> \<not> dd_end_hold_done d" using assms(4) by (auto simp: switches_def)
  from poll_ended_pins [OF assms(1-3) this assms(5,6)] have "dd_pinned_event_id (poll pa d) = poll_target pa d" .
  moreover have "dd_event_id (poll pa d) = poll_target pa d" using assms(3) by (simp add: poll_event)
  ultimately show ?thesis using pinned_polls [OF _ assms(3)] by blast
qed

text \<open>
  The state of the room after a poll, on every branch. With no event to follow the room is
  offline, unless the request was cancelled here. With one, a manifest that arrives, parses and is
  of a protocol this build reads decides between ended, interrupted (not updated for longer than
  the limit) and live, and gives the newest sequence number; any other answer puts the room
  offline, a cancelled request leaves it, and both leave the manifest and the newest number. The
  manifest kept is the one read, with at most its start filled in.
\<close>

lemma poll_room_state:
  "dd_room (poll pa d) =
     (if poll_target pa d = [] then (if snd (pa_live pa) then dd_room d else R_Offline)
      else case fetched_manifest pa of
             Some m \<Rightarrow> room_for (dd_cfg d) (pa_now pa) m
           | None \<Rightarrow> if \<not> gr_success (fst (pa_manifest pa)) \<and> snd (pa_manifest pa) then dd_room d else R_Offline) \<and>
   dd_latest_seq (poll pa d) =
     (if poll_target pa d = [] then dd_latest_seq d
      else case fetched_manifest pa of Some m \<Rightarrow> mf_latest_seq m | None \<Rightarrow> dd_latest_seq d) \<and>
   (if poll_target pa d = [] \<or> fetched_manifest pa = None then dd_manifest (poll pa d) = dd_manifest d
    else \<exists>t. dd_manifest (poll pa d) = (the (fetched_manifest pa))\<lparr>mf_started_at_ms := t\<rparr>)"
proof (cases "poll_target pa d = []")
  case True
  then show ?thesis by (simp add: poll_no_target Let_def)
next
  case False
  then obtain need where p: "poll pa d = poll_manifest pa (fst (read_live (pa_live pa))) need (poll_entered pa d)"
    using poll_has_target by blast
  show ?thesis unfolding p using poll_manifest_found [of pa _ "fst (read_live (pa_live pa))" need "poll_entered pa d"]
    by (cases "fetched_manifest pa") (simp_all add: poll_manifest_room poll_entered_fields False)
qed

text \<open>
  A poll moves the playhead only by changing events. When the event to follow differs from
  the one loaded, playback stops, the playhead is unset, the initialisation segment is due again,
  the refusal counts are cleared and the cache turns to the new event; when it does not, or there
  is none, the playhead, the playback state and the cache are as before.
\<close>

lemma poll_switch_resets:
  "dd_event_id (poll pa d) = (if poll_target pa d = [] then dd_event_id d else poll_target pa d) \<and>
   (if switches pa d
    then \<not> dd_head_set (poll pa d) \<and> dd_head (poll pa d) = 0 \<and> dd_play (poll pa d) = Stopped \<and> \<not> dd_init_sent (poll pa d) \<and>
      dd_unavailable (poll pa d) = [] \<and> dd_cache (poll pa d) = set_event (poll_target pa d) (dd_cache d)
    else dd_head_set (poll pa d) = dd_head_set d \<and> dd_head (poll pa d) = dd_head d \<and> dd_play (poll pa d) = dd_play d \<and>
      dd_init_sent (poll pa d) = dd_init_sent d \<and> dd_unavailable (poll pa d) = dd_unavailable d \<and>
      dd_cache (poll pa d) = dd_cache d)"
proof (cases "poll_target pa d = []")
  case True
  then show ?thesis by (simp add: poll_event poll_no_target switches_def Let_def)
next
  case False
  have ev: "dd_event_id (poll pa d) = poll_target pa d" using False by (simp add: poll_event)
  show ?thesis unfolding ev using poll_has_target [OF False]
    by (elim exE) (simp add: poll_manifest_keeps poll_entered_fields False)
qed

text \<open>
  A cue dropped here is written only under the cue folder of the event that is loaded, and
  only by a box with a name that may author cues. What is written is the list found there with one
  cue appended, which carries the label and this box as its author. When the store takes it, the
  cue and every cue shown before are shown; when it does not, an error is returned and the cues
  shown are as before. The playhead and the cache are untouched.
\<close>

lemma cue_written_in_event:
  assumes "add_cue ci label sq tm d = (d', Some (key, doc), err)"
  shows "dc_author_name (dd_cfg d) \<noteq> [] \<and> dc_can_author_cues (dd_cfg d) \<and>
    (\<exists>name. key = cues_prefix_for (dd_event_id d) @ name) \<and>
    (\<exists>mk. mk_label mk = label \<and> mk_author mk = dc_author_name (dd_cfg d) \<and>
      doc = marker_list_to_json ((markers_from_get (fst (ci_get ci)))\<lparr>ml_markers := ml_markers (markers_from_get (fst (ci_get ci))) @ [mk]\<rparr>) \<and>
      (if pr_success (ci_put ci)
       then err = None \<and> (\<forall>m \<in> insert mk (set (ml_markers (dd_markers d))). \<exists>e \<in> set (ml_markers (dd_markers d')). mk_id e = mk_id m)
       else err \<noteq> None \<and> dd_markers d' = dd_markers d)) \<and>
    same_position d d' \<and> dd_cache d' = dd_cache d"
proof -
  obtain name seq t where g: "dc_author_name (dd_cfg d) \<noteq> []" "dc_can_author_cues (dd_cfg d)"
    and o: "add_cue_object ci (cues_prefix_for (dd_event_id d) @ name) label seq t d = (d', Some (key, doc), err)"
    by (rule add_cue_put [OF assms])
  show ?thesis by (rule add_cue_object_facts [OF o]) (use g in \<open>simp only: fst_conv snd_conv; blast\<close>)
qed


section \<open>Witnesses\<close>

text \<open>A poll that finds the event ended.\<close>

definition ex_ended_doc :: manifest where
  "ex_ended_doc = manifest_default\<lparr>mf_status := ''ended'', mf_latest_seq := 6, mf_started_at_ms := 1\<rparr>"

definition ex_got :: "json \<Rightarrow> get_answer" where
  "ex_got j = (get_result_default\<lparr>gr_success := True, gr_http_status := 200, gr_body := Doc j\<rparr>, False)"

definition ex_poll :: poll_answers where
  "ex_poll = \<lparr>pa_now = 1000, pa_preferring_secondary = False,
     pa_live = ex_got (live_pointer_to_json (live_pointer_default\<lparr>lp_event_id := ''ev''\<rparr>)),
     pa_manifest = ex_got (manifest_to_json ex_ended_doc), pa_markers = (get_result_default, False),
     pa_cue_list = None, pa_event = (get_result_default, False)\<rparr>"

definition ex_next_poll :: poll_answers where
  "ex_next_poll = ex_poll\<lparr>pa_live := ex_got (live_pointer_to_json (live_pointer_default\<lparr>lp_event_id := ''next''\<rparr>))\<rparr>"

lemma ex_ended_read: "fetched_manifest ex_poll = Some ex_ended_doc"
proof -
  have "manifest_wire_ok ex_ended_doc"
    by (simp add: ex_ended_doc_def manifest_wire_ok_def manifest_default_def version_ok_def kProtocolVersion_def
        int64_ok_def video_ok_def video_info_default_def int32_ok_def layout_valid_def tile_layout_default_def u64_max_def)
  from manifest_roundtrip [OF this] show ?thesis
    by (simp add: fetched_manifest_def ex_poll_def ex_got_def parsed_def ex_ended_doc_def manifest_default_def protocol_readable_def)
qed

lemma ex_poll_target: "poll_target ex_poll ex_dec = ''ev''"
  using live_pointer_roundtrip [of "live_pointer_default\<lparr>lp_event_id := ''ev''\<rparr>"]
  by (simp add: poll_target_def ex_poll_def ex_got_def read_live_def parsed_def live_pointer_default_def version_ok_def
      kProtocolVersion_def int64_ok_def)

theorem finished_event_held_witness:
  "dd_event_id (fold poll [ex_next_poll, ex_poll, ex_next_poll] (poll ex_poll ex_dec)) = ''ev''"
proof -
  have "\<not> dd_end_hold_done ex_dec" by (simp add: ex_dec_def decoder_new_def)
  moreover have "dc_hold_finished_event (dd_cfg ex_dec)" by (simp add: decoder_config_default_def)
  moreover have "mf_status ex_ended_doc = ''ended''" by (simp add: ex_ended_doc_def)
  ultimately show ?thesis
    using finished_event_held [of ex_dec ex_poll ex_ended_doc "[ex_next_poll, ex_poll, ex_next_poll]"] ex_ended_read
    by (simp add: ex_poll_target)
qed

end
