(* ===== verification/Event_Finisher.thy ===== *)
theory Event_Finisher
  imports Session_Model
begin

text \<open>
  The background finisher, \<^verbatim>\<open>src/core/event_finisher.{h,cpp}\<close>: after a broadcast has ended, the
  spool folder it left is uploaded by an uploader of its own, the manifest is brought up to date and marked
  ended, the room's live pointer is ended when it still names the event, and the folder goes.
  \<open>finish\<close> is one call on one event, \<open>run_once\<close> a pass over the ended events of the disk,
  \<open>abandon\<close> the operator's way out and \<open>finisher_status_of\<close> what the dock shows. A pass runs on the
  spool, the uploader and the store of the theories before it; what the store answers is the
  argument \<open>finish_answers\<close>. The uploader's callbacks keep the invariant \<open>finisher_inv\<close>, shown by
  interpreting the uploader's interface \<open>uploader_host\<close> on them.
\<close>

section \<open>Data\<close>

record finisher_config =
  fc_manifest_window :: nat
  fc_base_backoff_ms :: int
  fc_max_backoff_ms :: int
  fc_jitter :: double
  fc_rescan_ms :: int

definition finisher_config_default :: finisher_config where
  "finisher_config_default = \<lparr>fc_manifest_window = 50, fc_base_backoff_ms = 500, fc_max_backoff_ms = 30000,
     fc_jitter = 3 / 10, fc_rescan_ms = 3000\<rparr>"

text \<open>What the callbacks of the finisher's uploader work on: the store and the manifest of the event.\<close>

record finisher_host =
  fh_bucket :: bucket
  fh_manifest :: manifest

text \<open>The answer to a PUT of a document: the result, whether a failed one landed, and the clock.\<close>

type_synonym pub_answer = "put_result \<times> bool \<times> i64"

text \<open>
  What a call of \<open>finish\<close> meets outside: whether there is a transport, the GETs of the manifest and
  of the event, the turns of the upload thread until it is stopped, whether \<^verbatim>\<open>stop()\<close> or
  \<^verbatim>\<open>abandon()\<close> ended the wait, and the answers to the PUTs and GETs that follow.
\<close>

record finish_answers =
  fa_transport :: bool
  fa_manifest :: get_result
  fa_event :: get_result
  fa_turns :: "turn list"
  fa_published :: "u64 \<Rightarrow> pub_answer"
  fa_stopped :: bool
  fa_final :: pub_answer
  fa_room :: get_result
  fa_pointer :: get_result
  fa_pointer_put :: pub_answer

record finisher_status =
  fs_events :: nat
  fs_segments :: nat


section \<open>The manifest to carry on from\<close>

definition finish_seed :: "finish_answers \<Rightarrow> manifest option" where
  "finish_seed fa =
     (if gr_success (fa_manifest fa) then parsed manifest_from_json (gr_body (fa_manifest fa))
      else if gr_http_status (fa_manifest fa) = 404 then
        (if \<not> gr_success (fa_event fa) then None
         else map_option (\<lambda>ev. manifest_default\<lparr>mf_event_id := ev_event_id ev, mf_name := ev_name ev,
                mf_started_at_ms := ev_started_at_ms ev, mf_first_available_seq := ev_first_seq ev,
                mf_video := ev_video ev, mf_audio_tracks := ev_audio_tracks ev\<rparr>)
              (parsed event_info_from_json (gr_body (fa_event fa))))
      else None)"

definition finish_publish :: "string \<Rightarrow> pub_answer \<Rightarrow> finisher_host \<Rightarrow> finisher_host \<times> bool" where
  "finish_publish event_id ans fh =
     (case ans of (r, landed, now) \<Rightarrow>
        let m = (fh_manifest fh)\<lparr>mf_updated_at_ms := now\<rparr>
        in (fh\<lparr>fh_manifest := m,
               fh_bucket := store_put r landed (event_prefix_for event_id @ ''manifest.json'') (Doc (manifest_to_json m)) (fh_bucket fh)\<rparr>,
            pr_success r))"


section \<open>Uploading\<close>

definition finish_confirmed :: "finisher_config \<Rightarrow> string \<Rightarrow> pub_answer \<Rightarrow> spooled_segment \<Rightarrow> finisher_host \<Rightarrow> finisher_host" where
  "finish_confirmed cfg event_id ans seg fh =
     (let m = fh_manifest fh;
          ms = \<lparr>ms_seq = sg_seq seg, ms_duration_s = sg_duration_s seg, ms_checksum = sg_checksum seg,
                ms_at_ms = mf_started_at_ms m + trunc (sg_pts_offset_s seg * 1000)\<rparr>
      in fst (finish_publish event_id ans (fh\<lparr>fh_manifest := manifest_push m ms (fc_manifest_window cfg)\<rparr>)))"

definition finish_skipped :: "string \<Rightarrow> pub_answer \<Rightarrow> u64 \<Rightarrow> finisher_host \<Rightarrow> finisher_host" where
  "finish_skipped event_id ans seq fh =
     fst (finish_publish event_id ans (fh\<lparr>fh_manifest := add_gap (fh_manifest fh) seq\<rparr>))"

definition finisher_ops :: "finisher_config \<Rightarrow> string \<Rightarrow> (u64 \<Rightarrow> pub_answer) \<Rightarrow> finisher_host host_ops" where
  "finisher_ops cfg event_id published = \<lparr>
     ho_put = (\<lambda>a key b fh. fh\<lparr>fh_bucket := store_put (a_result a) (a_landed a) key (Bytes b) (fh_bucket fh)\<rparr>),
     ho_confirm = (\<lambda>a seg fh. finish_confirmed cfg event_id (published (sg_seq seg)) seg fh),
     ho_skipped = (\<lambda>seq fh. finish_skipped event_id (published seq) seq fh),
     ho_confirmed_after = (\<lambda>a seg fh. fh)\<rparr>"

definition finisher_uploader_config :: "finisher_config \<Rightarrow> uploader_config" where
  "finisher_uploader_config cfg =
     uploader_config_default\<lparr>uc_base_backoff_ms := fc_base_backoff_ms cfg, uc_max_backoff_ms := fc_max_backoff_ms cfg,
       uc_jitter := fc_jitter cfg, uc_tags := []\<rparr>"

text \<open>The spool of the event and the uploader the backlog goes through.\<close>

definition finish_spool :: "disk \<Rightarrow> string \<Rightarrow> spool" where
  "finish_spool dk event_id = set_targets (spool_open dk 0 event_id) 1"

definition finish_uploader :: "spool \<Rightarrow> finisher_host \<Rightarrow> finisher_host uploader" where
  "finish_uploader sp fh = \<lparr>up_spool = sp, up_stats = uploader_stats_default, up_health = Healthy, up_note = [], up_host = fh\<rparr>"


section \<open>Ending an event in the store\<close>

definition end_live_pointer :: "finish_answers \<Rightarrow> string \<Rightarrow> bucket \<Rightarrow> bucket \<times> bool" where
  "end_live_pointer fa event_id bkt =
     (if \<not> gr_success (fa_room fa) then (bkt, gr_http_status (fa_room fa) = 404)
      else case parsed event_info_from_json (gr_body (fa_room fa)) of
        None \<Rightarrow> (bkt, True)
      | Some ev \<Rightarrow>
          if ev_room_id ev = [] then (bkt, True)
          else if \<not> gr_success (fa_pointer fa) then (bkt, gr_http_status (fa_pointer fa) = 404)
          else case parsed live_pointer_from_json (gr_body (fa_pointer fa)) of
            None \<Rightarrow> (bkt, True)
          | Some lp \<Rightarrow>
              if lp_event_id lp \<noteq> event_id \<or> lp_status lp = ''ended'' then (bkt, True)
              else case fa_pointer_put fa of (r, landed, now) \<Rightarrow>
                     (store_put r landed (live_pointer_key (ev_room_id ev))
                        (Doc (live_pointer_to_json (lp\<lparr>lp_status := ''ended'', lp_updated_at_ms := now\<rparr>))) bkt,
                      pr_success r))"

definition finish_ending :: "finish_answers \<Rightarrow> string \<Rightarrow> finisher_host \<Rightarrow> bucket \<times> bool" where
  "finish_ending fa event_id fh =
     (case finish_publish event_id (fa_final fa) fh of
        (fh1, published) \<Rightarrow> if \<not> published then (fh_bucket fh1, False) else end_live_pointer fa event_id (fh_bucket fh1))"

text \<open>\<open>finish\<close>; \<open>None\<close> is a call that is still waiting for its uploader.\<close>

definition finish :: "(bytes \<Rightarrow> string) \<Rightarrow> finisher_config \<Rightarrow> finish_answers \<Rightarrow> string \<Rightarrow> disk \<times> bucket \<Rightarrow> (bool \<times> disk \<times> bucket) option" where
  "finish sha256_hex cfg fa event_id st =
     (case st of (dk, bkt) \<Rightarrow>
        if \<not> fa_transport fa then Some (False, dk, bkt)
        else case finish_seed fa of
          None \<Rightarrow> Some (False, dk, bkt)
        | Some seed \<Rightarrow>
            let fh = \<lparr>fh_bucket = bkt, fh_manifest = seed\<lparr>mf_event_id := event_id, mf_status := ''ended''\<rparr>\<rparr>
            in case uploader_run sha256_hex (finisher_uploader_config cfg) (finisher_ops cfg event_id (fa_published fa))
                      (fa_turns fa) (finish_uploader (finish_spool dk event_id) fh) of
                 None \<Rightarrow> None
               | Some up \<Rightarrow>
                   if pending_count (up_spool up) > 0 then
                     (if fa_stopped fa then Some (False, sp_disk (up_spool up), fh_bucket (up_host up)) else None)
                   else (case finish_ending fa event_id (up_host up) of
                           (bkt1, done) \<Rightarrow>
                             if done then Some (True, discard_event (sp_disk (up_spool up)) event_id, bkt1)
                             else Some (False, sp_disk (up_spool up), bkt1)))"


section \<open>Passes over the ended events\<close>

text \<open>
  What a pass meets at each event: whether it goes on (\<^verbatim>\<open>m_running\<close> and not \<^verbatim>\<open>m_abandon\<close>), whether the
  live event lets it upload, and what \<open>finish\<close> meets.
\<close>

record pass_turn =
  pt_go_on :: bool
  pt_may_upload :: bool
  pt_answers :: finish_answers

fun finish_events :: "(bytes \<Rightarrow> string) \<Rightarrow> finisher_config \<Rightarrow> string list \<Rightarrow> pass_turn list \<Rightarrow> disk \<times> bucket \<Rightarrow> (disk \<times> bucket) option" where
  "finish_events sha256_hex cfg [] ts st = Some st"
| "finish_events sha256_hex cfg (i # ids) [] st = Some st"
| "finish_events sha256_hex cfg (i # ids) (t # ts) st =
     (if \<not> pt_go_on t \<or> \<not> pt_may_upload t then Some st
      else case finish sha256_hex cfg (pt_answers t) i st of
             None \<Rightarrow> None
           | Some (done, st1) \<Rightarrow> if done then finish_events sha256_hex cfg ids ts st1 else Some st1)"

definition run_once :: "(bytes \<Rightarrow> string) \<Rightarrow> finisher_config \<Rightarrow> pass_turn list \<Rightarrow> disk \<times> bucket \<Rightarrow> (disk \<times> bucket) option" where
  "run_once sha256_hex cfg ts st =
     (case st of (dk, bkt) \<Rightarrow>
        let dk1 = fst (remove_finished dk)
        in finish_events sha256_hex cfg (finishing_events dk1) ts (dk1, bkt))"

definition abandon :: "disk \<Rightarrow> disk" where
  "abandon dk = fold (\<lambda>i d. discard_event d i) (finishing_events dk) dk"

text \<open>Reading the status opens each folder, which moves a spool of the old layout into place first.\<close>

definition finisher_status_of :: "disk \<Rightarrow> disk \<times> finisher_status" where
  "finisher_status_of dk =
     fold (\<lambda>i (d, s). let sp = spool_open d 0 i
                      in (sp_disk sp, \<lparr>fs_events = fs_events s + 1, fs_segments = fs_segments s + pending_count sp\<rparr>))
       (finishing_events dk) (dk, \<lparr>fs_events = 0, fs_segments = 0\<rparr>)"


section \<open>Frames\<close>

lemma finish_publish_frame [simp]:
  "fst (finish_publish ev ans fh) = fh\<lparr>fh_manifest := (fh_manifest fh)\<lparr>mf_updated_at_ms := snd (snd ans)\<rparr>,
     fh_bucket := store_put (fst ans) (fst (snd ans)) (manifest_key ev)
       (Doc (manifest_to_json ((fh_manifest fh)\<lparr>mf_updated_at_ms := snd (snd ans)\<rparr>))) (fh_bucket fh)\<rparr>"
  "snd (finish_publish ev ans fh) = pr_success (fst ans)"
  by (simp_all add: finish_publish_def manifest_key_def Let_def case_prod_beta)

lemma finisher_ops_simps [simp]:
  "ho_put (finisher_ops cfg ev pub) a k b fh = fh\<lparr>fh_bucket := store_put (a_result a) (a_landed a) k (Bytes b) (fh_bucket fh)\<rparr>"
  "ho_confirm (finisher_ops cfg ev pub) a seg fh = finish_confirmed cfg ev (pub (sg_seq seg)) seg fh"
  "ho_skipped (finisher_ops cfg ev pub) seq fh = finish_skipped ev (pub seq) seq fh"
  "ho_confirmed_after (finisher_ops cfg ev pub) a seg fh = fh"
  by (simp_all add: finisher_ops_def)

lemma finish_callbacks [simp]:
  "k \<noteq> manifest_key ev \<Longrightarrow> fh_bucket (finish_confirmed cfg ev ans seg fh) k = fh_bucket fh k"
  "k \<noteq> manifest_key ev \<Longrightarrow> fh_bucket (finish_skipped ev ans seq fh) k = fh_bucket fh k"
  "mf_gaps (fh_manifest (finish_confirmed cfg ev ans seg fh)) = mf_gaps (fh_manifest fh)"
  "mf_gaps (fh_manifest (finish_skipped ev ans seq fh)) = mf_gaps (add_gap (fh_manifest fh) seq)"
  "mf_status (fh_manifest (finish_confirmed cfg ev ans seg fh)) = mf_status (fh_manifest fh)"
  "mf_status (fh_manifest (finish_skipped ev ans seq fh)) = mf_status (fh_manifest fh)"
  "mf_event_id (fh_manifest (finish_confirmed cfg ev ans seg fh)) = mf_event_id (fh_manifest fh)"
  "mf_event_id (fh_manifest (finish_skipped ev ans seq fh)) = mf_event_id (fh_manifest fh)"
  by (simp_all add: finish_confirmed_def finish_skipped_def Let_def add_gap_def)

text \<open>Recording a gap never forgets one, whatever the list read from the store looked like.\<close>

lemma merge_touching_superset: "sorted (map fst gs) \<Longrightarrow> gap_set gs \<subseteq> gap_set (merge_touching gs)"
proof (induction gs rule: merge_touching.induct)
  case (1 a b c d gs)
  show ?case
  proof (cases "c \<le> inc64 b")
    case True
    have "sorted (map fst ((a, max b d) # gs))" "a \<le> c" using "1.prems" by auto
    with "1.IH"(1) [OF True] True show ?thesis by fastforce
  next
    case False
    with "1.IH"(2) [OF False] "1.prems" show ?thesis by auto
  qed
qed auto

lemma add_gap_superset: "insert seq (gap_set (mf_gaps m)) \<subseteq> gap_set (mf_gaps (add_gap m seq))"
proof (cases "gap_end_in (mf_gaps m) seq")
  case None
  have "sorted (map fst (sort (mf_gaps m @ [(seq, seq)])))" by (rule sorted_map_fst) simp
  from merge_touching_superset [OF this] show ?thesis
    by (simp add: add_gap_def add_gap_in_def None del: gap_end_in_None)
next
  case (Some e)
  then have "seq \<in> gap_set (mf_gaps m)" using gap_end_in_None [of "mf_gaps m" seq] by auto
  then show ?thesis using Some by (simp add: add_gap_def add_gap_in_def insert_absorb)
qed

section \<open>Rules for the upload thread\<close>

lemma uploader_run_rule:
  assumes "uploader_run h cfg ops ts up = Some up'" "P up" "\<And>up. P up \<Longrightarrow> P (up\<lparr>up_health := Healthy\<rparr>)"
    and "\<And>up seg as now b up1. P up \<Longrightarrow> peek_next (up_spool up) (uc_target cfg) = Some seg \<Longrightarrow>
           upload_one h cfg ops seg as now up = Some (b, up1) \<Longrightarrow> P up1"
  shows "P up'"
  using assms(1,2)
proof (induction ts arbitrary: up)
  case (Cons t ts)
  show ?case
  proof (cases "peek_next (up_spool up) (uc_target cfg)")
    case None
    then show ?thesis using Cons assms(3) by (auto split: if_splits)
  next
    case (Some seg)
    then show ?thesis using Cons.prems Cons.IH assms(4) [OF Cons.prems(2) Some] by (auto split: if_splits option.splits)
  qed
qed simp

lemma upload_loop_rule:
  assumes "upload_loop cfg ops seg as k up = Some (b, up')" "I (up_host up)"
    and "\<And>a hst. I hst \<Longrightarrow> I (ho_put ops a (sg_key seg) (sg_data seg) hst)"
    and "\<And>a hst. I hst \<Longrightarrow> pr_success (a_result a) \<Longrightarrow>
           J (ho_confirmed_after ops a seg (ho_confirm ops a seg (ho_put ops a (sg_key seg) (sg_data seg) hst)))"
  shows "if b then J (up_host up') \<and> (\<exists>now. up_spool up' = confirm (up_spool up) (sg_seq seg) (uc_target cfg) now)
         else I (up_host up') \<and> up_spool up' = up_spool up"
  using assms(1,2)
proof (induction as arbitrary: k up)
  case (Cons a as)
  obtain s up1 where s: "upload_attempt cfg ops seg a k up = (s, up1)" by fastforce
  have s1: "if s = Uploaded then J (up_host up1) \<and> (\<exists>now. up_spool up1 = confirm (up_spool up) (sg_seq seg) (uc_target cfg) now)
            else I (up_host up1) \<and> up_spool up1 = up_spool up"
  proof (rule upload_attempt_cases [OF s])
    assume f: "upload_finish cfg ops seg a (k + 1) up = (s, up1)"
    show ?thesis using upload_finish_outcome [OF f] Cons.prems(2) assms(3,4) by auto
  qed (use Cons.prems(2) in simp)
  show ?case
  proof (cases s)
    case (Again n)
    then show ?thesis using Cons.IH [of n up1] Cons.prems(1) s s1 by auto
  qed (use Cons.prems(1) s s1 in auto)
qed simp

section \<open>No segment of the backlog is lost\<close>

text \<open>
  A segment that has left the queue is in the store under its key, or it was damaged and the
  manifest lists it as a gap.
\<close>

definition handled :: "(bytes \<Rightarrow> string) \<Rightarrow> finisher_host \<Rightarrow> spooled_segment \<Rightarrow> bool" where
  "handled h fh s = (if damaged h s then sg_seq s \<in> gap_set (mf_gaps (fh_manifest fh))
                     else fh_bucket fh (sg_key s) = Some (Bytes (sg_data s)))"

definition keyed :: "string \<Rightarrow> spooled_segment list \<Rightarrow> bool" where
  "keyed ev ss = ((\<forall>s\<in>set ss. sg_key s = segment_key_for ev (sg_seq s) \<and> sg_seq s < seq_limit) \<and> distinct (map sg_seq ss))"

lemma keyed_keys:
  assumes "keyed ev (us @ s # vs)" "u \<in> set us"
  shows "sg_key u \<noteq> sg_key s"
proof -
  have u: "sg_key u = segment_key_for ev (sg_seq u)" "sg_seq u < seq_limit" using assms by (auto simp: keyed_def)
  have s: "sg_key s = segment_key_for ev (sg_seq s)" "sg_seq s < seq_limit" using assms(1) by (auto simp: keyed_def)
  have "sg_seq s \<notin> sg_seq ` set us" using assms(1) by (simp add: keyed_def)
  then have "sg_seq u \<noteq> sg_seq s" using assms(2) by (metis imageI)
  then show ?thesis using segment_key_inj_limit [OF u(2) s(2) order_refl, of ev] u(1) s(1) by simp
qed

lemma handled_put: "handled h fh s \<Longrightarrow> k \<noteq> sg_key s \<Longrightarrow> handled h (fh\<lparr>fh_bucket := store_put r l k b (fh_bucket fh)\<rparr>) s"
  by (auto simp: handled_def)

lemma handled_confirmed:
  "handled h fh s \<Longrightarrow> sg_key s = segment_key_for ev (sg_seq s) \<Longrightarrow> handled h (finish_confirmed cfg ev ans seg fh) s"
  by (auto simp: handled_def)

lemma handled_skipped:
  "handled h fh s \<Longrightarrow> sg_key s = segment_key_for ev (sg_seq s) \<Longrightarrow> handled h (finish_skipped ev ans seq fh) s"
  using add_gap_superset [of seq "fh_manifest fh"] by (auto simp: handled_def)

definition backlog_inv :: "(bytes \<Rightarrow> string) \<Rightarrow> string \<Rightarrow> u64 \<Rightarrow> spooled_segment list \<Rightarrow> finisher_host uploader \<Rightarrow> bool" where
  "backlog_inv h ev n q0 up =
     (spool_ok (up_spool up) n \<and> saved (up_spool up) \<and> no_old_layout (up_spool up) \<and> sp_dir (up_spool up) = ev \<and>
      mf_status (fh_manifest (up_host up)) = ''ended'' \<and> mf_event_id (fh_manifest (up_host up)) = ev \<and>
      (\<exists>out. q0 = out @ queue (up_spool up) 0 \<and> (\<forall>s\<in>set out. handled h (up_host up) s)))"

text \<open>Confirming the head of the queue, once the host has dealt with it.\<close>

lemma backlog_confirm:
  assumes "backlog_inv h ev n q0 up" "queue (up_spool up) 0 = s # rest"
    "up_spool up' = confirm (up_spool up) (sg_seq s) 0 now"
    "q0 = out @ s # rest" "\<forall>u\<in>set (out @ [s]). handled h (up_host up') u"
    "mf_status (fh_manifest (up_host up')) = ''ended''" "mf_event_id (fh_manifest (up_host up')) = ev"
  shows "backlog_inv h ev n q0 up'"
proof -
  have ok: "spool_ok (up_spool up) n" "saved (up_spool up)" "no_old_layout (up_spool up)" "sp_dir (up_spool up) = ev"
    using assms(1) by (auto simp: backlog_inv_def)
  have pk: "peek_next (up_spool up) 0 = Some s" using assms(2) by (simp add: peek_next_queue)
  have "queue (up_spool up') 0 = rest" unfolding assms(3) by (rule queue_confirm [OF ok(1) _ assms(2)]) simp
  moreover have "spool_ok (up_spool up') n"
    unfolding assms(3) by (rule confirm_peeked_ok [OF ok(1) _ pk]) (simp add: at_target_def)
  moreover have "saved (up_spool up')" unfolding assms(3) using ok(2) by (intro confirm_saved) (auto simp: saved_def)
  moreover have "no_old_layout (up_spool up')" unfolding assms(3) by (rule confirm_root [OF ok(3)])
  moreover have "sp_dir (up_spool up') = ev" using ok(4) by (simp add: assms(3))
  moreover have "\<exists>out. q0 = out @ rest \<and> (\<forall>u\<in>set out. handled h (up_host up') u)"
    using assms(4,5) by (intro exI [of _ "out @ [s]"]) simp
  ultimately show ?thesis using assms(6,7) unfolding backlog_inv_def by blast
qed

lemma backlog_step:
  assumes inv: "backlog_inv h ev n q0 up" and key: "keyed ev q0" and tgt: "uc_target cfg = 0"
    and pk: "peek_next (up_spool up) 0 = Some seg"
    and one: "upload_one h cfg (finisher_ops fcfg ev pub) seg as now up = Some (b, up1)"
  shows "backlog_inv h ev n q0 up1"
proof -
  let ?ops = "finisher_ops fcfg ev pub"
  obtain rest where q: "queue (up_spool up) 0 = seg # rest" using pk by (auto simp: peek_next_queue split: list.splits)
  obtain out where out: "q0 = out @ seg # rest" "\<forall>u\<in>set out. handled h (up_host up) u"
    using inv q by (auto simp: backlog_inv_def)
  have st: "mf_status (fh_manifest (up_host up)) = ''ended''" "mf_event_id (fh_manifest (up_host up)) = ev"
    using inv by (auto simp: backlog_inv_def)
  have k: "sg_key u = segment_key_for ev (sg_seq u)" if "u \<in> set q0" for u using key that by (auto simp: keyed_def)
  have kne: "sg_key u \<noteq> sg_key seg" if "u \<in> set out" for u using keyed_keys key that out(1) by blast
  show ?thesis
  proof (cases "damaged h seg")
    case True
    then have up1: "up1 = skip_damaged cfg ?ops seg now up" using one by (simp add: upload_one_def)
    have g: "sg_seq seg \<in> gap_set (mf_gaps (add_gap (fh_manifest (up_host up)) (sg_seq seg)))"
      using add_gap_superset by blast
    have "\<forall>u\<in>set (out @ [seg]). handled h (up_host up1) u"
      using True g k out handled_skipped by (auto simp: up1 skip_damaged_def handled_def [of h _ seg])
    then show ?thesis
      by (intro backlog_confirm [OF inv q _ out(1), of _ now]) (use st in \<open>simp_all add: up1 skip_damaged_def tgt\<close>)
  next
    case False
    define I where "I = (\<lambda>fh. (\<forall>u\<in>set out. handled h fh u) \<and> mf_status (fh_manifest fh) = ''ended'' \<and> mf_event_id (fh_manifest fh) = ev)"
    define J where "J = (\<lambda>fh. I fh \<and> handled h fh seg)"
    have l: "upload_loop cfg ?ops seg as 0 up = Some (b, up1)" using one False by (simp add: upload_one_def)
    have res: "if b then J (up_host up1) \<and> (\<exists>now. up_spool up1 = confirm (up_spool up) (sg_seq seg) (uc_target cfg) now)
          else I (up_host up1) \<and> up_spool up1 = up_spool up"
    proof (rule upload_loop_rule [OF l])
      show "I (up_host up)" using out st by (simp add: I_def)
      show put: "I (ho_put ?ops a (sg_key seg) (sg_data seg) fh)" if "I fh" for a fh
        using that kne handled_put by (auto simp: I_def) metis
      fix a :: attempt and fh assume i: "I fh" "pr_success (a_result a)"
      let ?p = "ho_put ?ops a (sg_key seg) (sg_data seg) fh"
      have "handled h ?p seg" using i(2) False by (simp add: handled_def)
      then show "J (ho_confirmed_after ?ops a seg (ho_confirm ?ops a seg ?p))"
        using put [OF i(1), of a] handled_confirmed k out(1) by (auto simp: I_def J_def simp del: finisher_ops_simps(1))
    qed
    show ?thesis
    proof (cases b)
      case True
      with res obtain now' where "J (up_host up1)" "up_spool up1 = confirm (up_spool up) (sg_seq seg) 0 now'" by (auto simp: tgt)
      then show ?thesis by (intro backlog_confirm [OF inv q _ out(1)]) (auto simp: J_def I_def)
    next
      case False
      with res show ?thesis using inv out(1) q by (auto simp: I_def backlog_inv_def)
    qed
  qed
qed

text \<open>What a call does, by how far it got.\<close>

definition finish_start :: "string \<Rightarrow> manifest \<Rightarrow> disk \<times> bucket \<Rightarrow> finisher_host uploader" where
  "finish_start ev seed st = finish_uploader (finish_spool (fst st) ev)
     \<lparr>fh_bucket = snd st, fh_manifest = seed\<lparr>mf_event_id := ev, mf_status := ''ended''\<rparr>\<rparr>"

lemma finish_cases:
  assumes "finish h cfg fa ev (dk, bkt) = Some (ok, dk', bkt')"
  obtains (early) "\<not> ok" "dk' = dk" "bkt' = bkt"
    | (stopped) seed up where "finish_seed fa = Some seed" "fa_stopped fa" "\<not> ok" "dk' = sp_disk (up_spool up)" "bkt' = fh_bucket (up_host up)"
        "uploader_run h (finisher_uploader_config cfg) (finisher_ops cfg ev (fa_published fa)) (fa_turns fa) (finish_start ev seed (dk, bkt)) = Some up"
    | (drained) seed up where "finish_seed fa = Some seed" "pending_count (up_spool up) = 0" "finish_ending fa ev (up_host up) = (bkt', ok)"
        "dk' = (if ok then discard_event (sp_disk (up_spool up)) ev else sp_disk (up_spool up))"
        "uploader_run h (finisher_uploader_config cfg) (finisher_ops cfg ev (fa_published fa)) (fa_turns fa) (finish_start ev seed (dk, bkt)) = Some up"
  using assms
  by (auto simp: finish_def finish_start_def Let_def split: if_splits option.splits prod.splits)

lemma spool_open_frame:
  assumes "ev \<noteq> []"
  shows "sp_dir (spool_open dk m ev) = ev" "no_old_layout (spool_open dk m ev)"
proof -
  have "fd_state (dk_root_files (migrate_single_folder dk)) = No_File"
    by (auto simp: migrate_single_folder_def empty_folder_def Let_def split: jfile.splits)
  with assms show "sp_dir (spool_open dk m ev) = ev" "no_old_layout (spool_open dk m ev)"
    by (simp_all add: spool_open_def load_state_def no_old_layout_def Let_def)
qed

lemma sweep_root: "dk_root_files (sp_disk (sweep_confirmed seqs sp)) = dk_root_files (sp_disk sp)"
  by (induction seqs sp rule: sweep_confirmed.induct) simp_all

lemma finish_spool_facts:
  assumes "spool_ok (spool_open dk 0 ev) n" "ev \<noteq> []"
  shows "spool_ok (finish_spool dk ev) n" "queue (finish_spool dk ev) 0 = queue (spool_open dk 0 ev) 0"
    "saved (finish_spool dk ev)" "no_old_layout (finish_spool dk ev)" "sp_dir (finish_spool dk ev) = ev"
proof -
  let ?sp = "spool_open dk 0 ev"
  let ?sw = "sweep_confirmed (pending_seqs ?sp) (?sp\<lparr>sp_state := (sp_state ?sp)\<lparr>st_targets := 1\<rparr>\<rparr>)"
  have e: "finish_spool dk ev = save_state ?sw" by (simp add: finish_spool_def set_targets_one)
  have d: "sp_dir ?sw = ev" using spool_open_frame(1) [OF assms(2)] by simp
  have "cur_exists ?sw" using assms(1) by (simp add: spool_ok_def)
  then show "saved (finish_spool dk ev)" unfolding e using d assms(2) by (intro save_state_saved) simp_all
  show "spool_ok (finish_spool dk ev) n" "queue (finish_spool dk ev) 0 = queue ?sp 0"
    unfolding finish_spool_def by (rule set_targets_one_ok [OF assms(1)], rule set_targets_one_queue)
  show "sp_dir (finish_spool dk ev) = ev" using d by (simp add: e)
  show "no_old_layout (finish_spool dk ev)"
    using spool_open_frame(2) [OF assms(2), of dk 0] by (simp add: e no_old_layout_def sweep_root)
qed

lemma queue_keyed:
  assumes "spool_ok sp n" "n \<le> seq_limit" "\<forall>s\<in>set (queue sp 0). sg_key s = segment_key_for ev (sg_seq s)"
  shows "keyed ev (queue sp 0)"
proof -
  have w: "distinct (waiting sp 0)" "\<forall>x\<in>set (waiting sp 0). x < n"
    using assms(1) spool_ok_distinct [OF assms(1)] by (auto simp: waiting_def spool_ok_def list_all_iff)
  have "sg_seq s < seq_limit" if "s \<in> set (queue sp 0)" for s
    using read_seq_in [of s sp "waiting sp 0"] that w(2) assms(2) by (auto simp: queue_def)
  moreover have "distinct (map sg_seq (List.map_filter (read_spooled sp) xs))" if "distinct xs" for xs
    using that by (induction xs)
      (auto simp: List.map_filter_simps read_spooled_seq split: option.split dest!: read_seq_in)
  ultimately show ?thesis using assms(3) w(1) by (simp add: keyed_def queue_def)
qed

lemma backlog_start:
  assumes "spool_ok (spool_open dk 0 ev) n" "ev \<noteq> []"
  shows "backlog_inv h ev n (queue (spool_open dk 0 ev) 0) (finish_start ev seed (dk, bkt))"
  using finish_spool_facts [OF assms] by (simp add: backlog_inv_def finish_start_def finish_uploader_def)

lemma backlog_run:
  assumes "spool_ok (spool_open dk 0 ev) n" "ev \<noteq> []" "n \<le> seq_limit"
    "\<forall>s\<in>set (queue (spool_open dk 0 ev) 0). sg_key s = segment_key_for ev (sg_seq s)"
    "uploader_run h (finisher_uploader_config cfg) (finisher_ops cfg ev pub) ts (finish_start ev seed (dk, bkt)) = Some up"
  shows "backlog_inv h ev n (queue (spool_open dk 0 ev) 0) up"
proof (rule uploader_run_rule [where P = "backlog_inv h ev n (queue (spool_open dk 0 ev) 0)", OF assms(5) backlog_start [OF assms(1,2)]])
  note k = queue_keyed [OF assms(1,3,4)]
  have t: "uc_target (finisher_uploader_config cfg) = 0" by (simp add: finisher_uploader_config_def uploader_config_default_def)
  fix up seg as now b up1
  assume "backlog_inv h ev n (queue (spool_open dk 0 ev) 0) up" "peek_next (up_spool up) (uc_target (finisher_uploader_config cfg)) = Some seg"
    "upload_one h (finisher_uploader_config cfg) (finisher_ops cfg ev pub) seg as now up = Some (b, up1)"
  then show "backlog_inv h ev n (queue (spool_open dk 0 ev) 0) up1" using backlog_step [OF _ k t] t by metis
qed (simp add: backlog_inv_def)

text \<open>The documents of the ending touch no segment.\<close>

lemma end_live_pointer_other:
  "\<forall>room. k \<noteq> live_pointer_key room \<Longrightarrow> fst (end_live_pointer fa ev bkt) k = bkt k"
  by (auto simp: end_live_pointer_def split: option.splits prod.splits)

lemma finish_ending_facts:
  assumes "finish_ending fa ev fh = (bkt', ok)"
  shows "bkt' (segment_key_for e x) = fh_bucket fh (segment_key_for e x)"
    "ok \<Longrightarrow> bkt' (manifest_key ev) = Some (Doc (manifest_to_json ((fh_manifest fh)\<lparr>mf_updated_at_ms := snd (snd (fa_final fa))\<rparr>)))"
proof -
  have k: "\<forall>room. segment_key_for e x \<noteq> live_pointer_key room" "\<forall>room. manifest_key ev \<noteq> live_pointer_key room"
    "segment_key_for e x \<noteq> manifest_key ev"
    by (simp_all add: live_pointer_key_def segment_key_for_def manifest_key_def event_prefix_for_def)
  obtain fh1 p where p: "finish_publish ev (fa_final fa) fh = (fh1, p)" by fastforce
  have fh1: "fh1 = fst (finish_publish ev (fa_final fa) fh)" "p = pr_success (fst (fa_final fa))"
    using finish_publish_frame(2) [of ev "fa_final fa" fh] by (simp_all add: p)
  have b: "bkt' = (if p then fst (end_live_pointer fa ev (fh_bucket fh1)) else fh_bucket fh1)" "ok \<Longrightarrow> p"
    using assms by (auto simp: finish_ending_def p split: if_splits)
  show "bkt' (segment_key_for e x) = fh_bucket fh (segment_key_for e x)"
    using k by (simp add: b(1) fh1(1) end_live_pointer_other)
  show "bkt' (manifest_key ev) = Some (Doc (manifest_to_json ((fh_manifest fh)\<lparr>mf_updated_at_ms := snd (snd (fa_final fa))\<rparr>)))" if ok
    using b(2) [OF that] k(2) fh1 by (simp add: b(1) end_live_pointer_other)
qed

section \<open>The finisher lists only what is stored\<close>

definition finisher_inv :: "(bytes \<Rightarrow> string) \<Rightarrow> (u64 \<Rightarrow> string) \<Rightarrow> string \<Rightarrow> u64 \<Rightarrow> finisher_host \<Rightarrow> bool" where
  "finisher_inv h C ev n fh =
     (n \<le> seq_limit \<and> (\<forall>x<n. C x \<noteq> []) \<and> listed_ok h C ev n (fh_bucket fh) (fh_manifest fh) \<and>
      (\<forall>j. fh_bucket fh (manifest_key ev) = Some (Doc j) \<longrightarrow> doc_ok h C ev n (fh_bucket fh) j))"

lemma finisher_inv_publish:
  assumes "finisher_inv h C ev n fh" "listed_ok h C ev n (fh_bucket fh) m"
  shows "finisher_inv h C ev n (fst (finish_publish ev ans (fh\<lparr>fh_manifest := m\<rparr>)))"
proof -
  let ?m = "m\<lparr>mf_updated_at_ms := snd (snd ans)\<rparr>"
  let ?b = "store_put (fst ans) (fst (snd ans)) (manifest_key ev) (Doc (manifest_to_json ?m)) (fh_bucket fh)"
  have keep: "object_ok h C ev ?b x = object_ok h C ev (fh_bucket fh) x" for x by (simp add: object_ok_doc_put)
  have m: "listed_ok h C ev n ?b ?m" using assms(2) by (simp add: listed_ok_def keep)
  have "doc_ok h C ev n ?b j" if "?b (manifest_key ev) = Some (Doc j)" for j
  proof (cases "?b (manifest_key ev) = fh_bucket fh (manifest_key ev)")
    case True
    then have "doc_ok h C ev n (fh_bucket fh) j" using that assms(1) by (simp add: finisher_inv_def)
    then show ?thesis by (rule doc_ok_bucket) (simp add: keep)
  next
    case False
    then have "j = manifest_to_json ?m" using that by (auto simp: store_put_def split: if_splits)
    then show ?thesis using m by (auto simp: doc_ok_def)
  qed
  then show ?thesis using assms(1) m by (simp add: finisher_inv_def)
qed

interpretation finisher_uploads: uploader_host h "finisher_ops cfg ev pub" "\<lambda>fh k b. fh_bucket fh k = Some (Bytes b)"
    "seg_good C ev n" "finisher_inv h C ev n"
proof
  fix fh s a k b i
  have intact: "h (sg_data s) = C (sg_seq s)" if "finisher_inv h C ev n fh" "seg_good C ev n s" "\<not> damaged h s"
    using that by (auto simp: finisher_inv_def seg_good_def damaged_def verify_sha256_def)
  show "finisher_inv h C ev n (ho_put (finisher_ops cfg ev pub) a (sg_key s) (sg_data s) fh)"
    if "finisher_inv h C ev n fh" "seg_good C ev n s" "\<not> damaged h s"
  proof -
    let ?b = "store_put (a_result a) (a_landed a) (sg_key s) (Bytes (sg_data s)) (fh_bucket fh)"
    have keep: "object_ok h C ev ?b x" if "x < n" "object_ok h C ev (fh_bucket fh) x" for x
      using that intact [OF \<open>finisher_inv h C ev n fh\<close> \<open>seg_good C ev n s\<close> \<open>\<not> damaged h s\<close>]
        \<open>seg_good C ev n s\<close> \<open>finisher_inv h C ev n fh\<close>
      by (auto simp: seg_good_def finisher_inv_def intro: object_ok_segment_put)
    have key: "sg_key s \<noteq> manifest_key ev" using that(2) by (simp add: seg_good_def)
    have "listed_ok h C ev n ?b (fh_manifest fh)"
      by (rule listed_ok_bucket [of h C ev n "fh_bucket fh"]) (use that(1) keep in \<open>simp_all add: finisher_inv_def\<close>)
    moreover have "doc_ok h C ev n ?b j" if "fh_bucket fh (manifest_key ev) = Some (Doc j)" for j
      by (rule doc_ok_bucket [of h C ev n "fh_bucket fh"])
        (use that \<open>finisher_inv h C ev n fh\<close> keep in \<open>simp_all add: finisher_inv_def\<close>)
    ultimately show ?thesis using that(1) key by (simp add: finisher_inv_def)
  qed
  show "fh_bucket (ho_put (finisher_ops cfg ev pub) a k b fh) k = Some (Bytes b)" if "pr_success (a_result a)"
    using that by simp
  show "finisher_inv h C ev n (ho_confirm (finisher_ops cfg ev pub) a s fh)"
    if "finisher_inv h C ev n fh" "seg_good C ev n s" "\<not> damaged h s" "fh_bucket fh (sg_key s) = Some (Bytes (sg_data s))"
  proof -
    let ?ms = "\<lparr>ms_seq = sg_seq s, ms_duration_s = sg_duration_s s, ms_checksum = sg_checksum s,
                ms_at_ms = mf_started_at_ms (fh_manifest fh) + trunc (sg_pts_offset_s s * 1000)\<rparr>"
    have "object_ok h C ev (fh_bucket fh) (sg_seq s)"
      using that intact [OF that(1-3)] by (auto simp: object_ok_def seg_good_def)
    then have "listed_ok h C ev n (fh_bucket fh) (manifest_push (fh_manifest fh) ?ms (fc_manifest_window cfg))"
      using that(1,2) manifest_push_segments [of "fh_manifest fh" ?ms "fc_manifest_window cfg"]
      by (auto simp: listed_ok_def finisher_inv_def seg_good_def)
    then show ?thesis
      using finisher_inv_publish [OF that(1)] by (simp add: finish_confirmed_def Let_def del: finish_publish_frame)
  qed
  show "finisher_inv h C ev n (ho_confirmed_after (finisher_ops cfg ev pub) a s fh)" if "finisher_inv h C ev n fh"
    using that by simp
  show "finisher_inv h C ev n (ho_skipped (finisher_ops cfg ev pub) i fh)" if "finisher_inv h C ev n fh"
    using finisher_inv_publish [OF that, of "add_gap (fh_manifest fh) i"] that listed_ok_segments [OF add_gap_segments]
    by (simp add: finish_skipped_def finisher_inv_def del: finish_publish_frame)
qed

text \<open>A store and a spool that agree on the segments of an event.\<close>

definition event_honest :: "(bytes \<Rightarrow> string) \<Rightarrow> (u64 \<Rightarrow> string) \<Rightarrow> u64 \<Rightarrow> string \<Rightarrow> spool \<Rightarrow> bucket \<Rightarrow> bool" where
  "event_honest h C n ev sp bkt =
     (n \<le> seq_limit \<and> (\<forall>x<n. C x \<noteq> []) \<and> (\<forall>x s. read_spooled sp x = Some s \<longrightarrow> seg_good C ev n s) \<and>
      (\<forall>j. bkt (manifest_key ev) = Some (Doc j) \<longrightarrow> doc_ok h C ev n bkt j))"

lemma honest_seed:
  assumes "event_honest h C n ev sp bkt" "finish_seed fa = Some seed"
    "gr_success (fa_manifest fa) \<longrightarrow> bkt (manifest_key ev) = Some (gr_body (fa_manifest fa))"
  shows "listed_ok h C ev n bkt seed"
proof (cases "gr_success (fa_manifest fa)")
  case True
  then obtain j where j: "gr_body (fa_manifest fa) = Doc j" "manifest_from_json j = Inr seed"
    using assms(2) by (cases "gr_body (fa_manifest fa)") (auto simp: finish_seed_def parsed_def split: sum.splits)
  then obtain m0 where m0: "j = manifest_to_json m0" "listed_ok h C ev n bkt m0"
    using assms(1,3) True by (auto simp: event_honest_def doc_ok_def)
  have "\<forall>s0\<in>set (mf_segments m0). ms_seq s0 < 2 ^ 64"
    using m0(2) assms(1) by (force simp: listed_ok_def event_honest_def seq_limit_def)
  from decoded_segments [OF j(2) [unfolded m0(1)] _ this] m0(2) show ?thesis
    unfolding listed_ok_def by metis
next
  case False
  then have "mf_segments seed = []" using assms(2) by (auto simp: finish_seed_def manifest_default_def split: if_splits)
  then show ?thesis by (simp add: listed_ok_def)
qed

lemma finish_honest:
  assumes hon: "event_honest h C n ev (spool_open dk 0 ev) bkt" and fin: "finish h cfg fa ev (dk, bkt) = Some (ok, dk', bkt')"
    and get: "gr_success (fa_manifest fa) \<longrightarrow> bkt (manifest_key ev) = Some (gr_body (fa_manifest fa))"
  shows "\<forall>j. bkt' (manifest_key ev) = Some (Doc j) \<longrightarrow> doc_ok h C ev n bkt' j"
proof -
  have run: "finisher_inv h C ev n (up_host up)" if "finish_seed fa = Some seed"
    "uploader_run h (finisher_uploader_config cfg) (finisher_ops cfg ev (fa_published fa)) (fa_turns fa) (finish_start ev seed (dk, bkt)) = Some up"
    for seed up
  proof -
    have "listed_ok h C ev n bkt (seed\<lparr>mf_event_id := ev, mf_status := ''ended''\<rparr>)"
      using honest_seed [OF hon that(1) get] by (simp add: listed_ok_def)
    then have "finisher_uploads.up_ok C ev n h (finish_start ev seed (dk, bkt))"
      using hon
      by (auto simp: finisher_uploads.up_ok_def finish_start_def finish_uploader_def finisher_inv_def event_honest_def
          finish_spool_def set_targets_one_files split: if_splits)
    from finisher_uploads.uploader_run_ok [OF this that(2)] show ?thesis by (simp add: finisher_uploads.up_ok_def)
  qed
  show ?thesis
  proof (rule finish_cases [OF fin])
    fix seed up
    assume a: "finish_seed fa = Some seed" "finish_ending fa ev (up_host up) = (bkt', ok)"
      "uploader_run h (finisher_uploader_config cfg) (finisher_ops cfg ev (fa_published fa)) (fa_turns fa) (finish_start ev seed (dk, bkt)) = Some up"
    let ?fh1 = "fst (finish_publish ev (fa_final fa) (up_host up))"
    have "finisher_inv h C ev n ?fh1"
      using finisher_inv_publish [OF run [OF a(1,3)], of "fh_manifest (up_host up)"] run [OF a(1,3)]
      by (simp add: finisher_inv_def del: finish_publish_frame)
    moreover have "bkt' = fh_bucket ?fh1 \<or> bkt' = fst (end_live_pointer fa ev (fh_bucket ?fh1))"
      using a(2) by (auto simp: finish_ending_def case_prod_beta split: if_splits)
    moreover have "fst (end_live_pointer fa ev b) (manifest_key ev) = b (manifest_key ev)"
      "fst (end_live_pointer fa ev b) (segment_key_for ev x) = b (segment_key_for ev x)" for b x
      by (rule end_live_pointer_other, simp add: live_pointer_key_def manifest_key_def segment_key_for_def event_prefix_for_def)+
    ultimately show ?thesis unfolding finisher_inv_def
      by (auto simp: object_ok_def elim!: doc_ok_bucket simp del: finish_publish_frame)
  qed (use hon run in \<open>auto simp: event_honest_def finisher_inv_def\<close>)
qed

section \<open>What a call may change in the store\<close>

definition may_write :: "spool \<Rightarrow> string \<Rightarrow> string \<Rightarrow> bool" where
  "may_write sp ev k = (k = manifest_key ev \<or> (\<exists>x s. read_spooled sp x = Some s \<and> k = sg_key s))"

lemma finish_run_writes:
  assumes "uploader_run h ucfg (finisher_ops cfg ev pub) ts up = Some up'" "\<not> may_write (up_spool up) ev k"
  shows "fh_bucket (up_host up') k = fh_bucket (up_host up) k"
proof -
  define P where "P = (\<lambda>u :: finisher_host uploader. (\<forall>x s. read_spooled (up_spool u) x = Some s \<longrightarrow> read_spooled (up_spool up) x = Some s) \<and>
    fh_bucket (up_host u) k = fh_bucket (up_host up) k)"
  have "P up'"
  proof (rule uploader_run_rule [where P = P, OF assms(1)])
    fix u seg as now b u1
    assume p: "P u" and pk: "peek_next (up_spool u) (uc_target ucfg) = Some seg"
      and one: "upload_one h ucfg (finisher_ops cfg ev pub) seg as now u = Some (b, u1)"
    obtain x where "read_spooled (up_spool u) x = Some seg"
      using pk by (auto simp: peek_next_queue queue_def set_map_filter split: list.splits dest!: map_filter_ConsD)
    then have k: "k \<noteq> sg_key seg" "k \<noteq> manifest_key ev" using p assms(2) by (auto simp: P_def may_write_def)
    have sub: "read_spooled (confirm (up_spool u) q t nw) y = Some s \<Longrightarrow> read_spooled (up_spool up) y = Some s" for q t nw y s
      using p confirm_subset [of "up_spool u" q t nw y s] by (simp add: P_def)
    show "P u1"
    proof (cases "damaged h seg")
      case True
      then show ?thesis using one p k sub by (auto simp: upload_one_def skip_damaged_def P_def)
    next
      case False
      then have l: "upload_loop ucfg (finisher_ops cfg ev pub) seg as 0 u = Some (b, u1)" using one by (simp add: upload_one_def)
      let ?I = "\<lambda>fh :: finisher_host. fh_bucket fh k = fh_bucket (up_host up) k"
      have "if b then ?I (up_host u1) \<and> (\<exists>nw. up_spool u1 = confirm (up_spool u) (sg_seq seg) (uc_target ucfg) nw)
            else ?I (up_host u1) \<and> up_spool u1 = up_spool u"
        by (rule upload_loop_rule [where I = ?I and J = ?I, OF l]) (use p k in \<open>simp_all add: P_def\<close>)
      then show ?thesis using p sub by (auto simp: P_def split: if_splits)
    qed
  qed (simp_all add: P_def)
  then show ?thesis by (simp add: P_def)
qed

lemma end_live_pointer_writes:
  assumes "fst (end_live_pointer fa ev bkt) k \<noteq> bkt k"
  obtains lp room now where "parsed live_pointer_from_json (gr_body (fa_pointer fa)) = Some lp" "lp_event_id lp = ev"
    "lp_status lp \<noteq> ''ended''" "k = live_pointer_key room"
    "fst (end_live_pointer fa ev bkt) k = Some (Doc (live_pointer_to_json (lp\<lparr>lp_status := ''ended'', lp_updated_at_ms := now\<rparr>)))"
  using assms
  by (auto simp: end_live_pointer_def store_put_def split: if_splits option.splits prod.splits)

section \<open>A backlog that can be sent is sent\<close>

definition all_readable :: "spool \<Rightarrow> bool" where
  "all_readable sp = (\<forall>x\<in>set (pending_seqs sp). read_spooled sp x \<noteq> None \<and> \<not> target_has (sp_state sp) 0 x)"

lemma readable_queue:
  assumes "all_readable sp"
  shows "map sg_seq (queue sp 0) = pending_seqs sp"
proof -
  have w: "waiting sp 0 = pending_seqs sp" using assms by (auto simp: waiting_def all_readable_def intro!: filter_True)
  have "map sg_seq (List.map_filter (read_spooled sp) xs) = xs" if "\<forall>x\<in>set xs. read_spooled sp x \<noteq> None" for xs
    using that by (induction xs) (auto simp: List.map_filter_simps read_spooled_seq split: option.split)
  then show ?thesis using assms by (simp add: queue_def w all_readable_def)
qed

lemma readable_confirm:
  assumes "all_readable sp" "spool_ok sp n" "st_targets (sp_state sp) = 1" "queue sp 0 = s # rest"
  shows "all_readable (confirm sp (sg_seq s) 0 now)" "st_targets (sp_state (confirm sp (sg_seq s) 0 now)) = 1"
proof -
  have ps: "pending_seqs sp = sg_seq s # map sg_seq rest" using readable_queue [OF assms(1)] assms(4) by simp
  then have s: "sg_seq s \<in> set (pending_seqs sp)" "sg_seq s \<notin> set (map sg_seq rest)"
    using spool_ok_distinct [OF assms(2)] by simp_all
  have has: "target_has (mark_confirmed (sp_state sp) (sg_seq s) 0 now) 0 x \<longleftrightarrow> target_has (sp_state sp) 0 x \<or> x \<le> sg_seq s"
    if "x \<in> set (pending_seqs sp)" for x by (rule target_has_confirm [OF assms(2) _ s(1) that]) simp
  have le: "\<forall>x\<in>set (map sg_seq rest). sg_seq s < x"
    using sorted_pending [of sp] s(2) unfolding ps by (auto simp: le_less)
  have held: "held_by_all (mark_confirmed (sp_state sp) (sg_seq s) 0 now) (sg_seq s)"
    using has [OF s(1)] assms(3) by (simp add: held_by_all_def)
  have "\<forall>y\<in>set (map sg_seq rest). y \<noteq> sg_seq s" using s(2) by metis
  then have "filter (\<lambda>y. y \<noteq> sg_seq s) (map sg_seq rest) = map sg_seq rest" by (rule filter_True)
  then have pc: "pending_seqs (confirm sp (sg_seq s) 0 now) = map sg_seq rest"
    using held by (simp only: confirm_pending ps if_True filter.simps simp_thms if_False)
  show "st_targets (sp_state (confirm sp (sg_seq s) 0 now)) = 1" using assms(3) by (simp add: mark_confirmed_def)
  have "read_spooled (confirm sp (sg_seq s) 0 now) x \<noteq> None \<and> \<not> target_has (sp_state (confirm sp (sg_seq s) 0 now)) 0 x"
    if "x \<in> set (map sg_seq rest)" for x
  proof -
    have x: "x \<in> set (pending_seqs sp)" "x \<noteq> sg_seq s" "sg_seq s < x" using that s(2) le ps by auto
    then show ?thesis using assms(1) has [OF x(1)] confirm_files [of sp "sg_seq s" 0 now x]
      by (auto simp: all_readable_def)
  qed
  then show "all_readable (confirm sp (sg_seq s) 0 now)" by (simp add: all_readable_def pc)
qed

lemma run_complete:
  assumes "spool_ok (up_spool up) n" "floor_ok (up_spool up)" "all_readable (up_spool up)" "st_targets (sp_state (up_spool up)) = 1"
    "uc_target ucfg = 0" "uc_max_attempts ucfg \<le> 0" "list_all turn_ok ts" "length (queue (up_spool up) 0) \<le> length ts"
  shows "\<exists>up'. uploader_run h ucfg ops ts up = Some up' \<and> pending_seqs (up_spool up') = []"
  using assms
proof (induction ts arbitrary: up)
  case Nil
  then show ?case using readable_queue [of "up_spool up"] by simp
next
  case (Cons t ts)
  let ?sp = "up_spool up"
  have t: "turn_ok t" "list_all turn_ok ts" using Cons.prems(7) by auto
  show ?case
  proof (cases "queue ?sp 0")
    case Nil
    then show ?thesis using Cons.IH [of "up\<lparr>up_health := Healthy\<rparr>"] Cons.prems t by (simp add: peek_next_queue turn_ok_def)
  next
    case (Cons s rest)
    note q = this
    have "sg_seq s \<in> set (pending_seqs ?sp)" using q Cons.prems(1) by (auto simp: spool_ok_def intro: queue_head_pending)
    then have f: "floor_of ?sp \<le> sg_seq s" using Cons.prems(2) by (auto simp: floor_ok_def list_all_iff)
    have g: "gets_through (tn_attempts t)" using t(1) by (simp add: turn_ok_def)
    obtain up1 now where u: "upload_one h ucfg ops s (tn_attempts t) (tn_now t) up = Some (True, up1)"
      "up_spool up1 = confirm ?sp (sg_seq s) 0 now"
      using upload_one_gets_through [OF g Cons.prems(6) f, of h ops "tn_now t"] Cons.prems(5) by auto
    have pk: "peek_next ?sp 0 = Some s" using q by (simp add: peek_next_queue)
    have sp1: "spool_ok (up_spool up1) n" "queue (up_spool up1) 0 = rest" "floor_ok (up_spool up1)"
      unfolding u(2) using confirm_peeked_ok [OF Cons.prems(1) _ pk] queue_confirm [OF Cons.prems(1) _ q] confirm_floor_ok [OF Cons.prems(2)]
      by (simp_all add: at_target_def)
    have rd: "all_readable (up_spool up1)" "st_targets (sp_state (up_spool up1)) = 1"
      unfolding u(2) by (rule readable_confirm [OF Cons.prems(3,1,4) q])+
    have "\<exists>up'. uploader_run h ucfg ops ts up1 = Some up' \<and> pending_seqs (up_spool up') = []"
      by (rule Cons.IH [OF sp1(1,3) rd Cons.prems(5,6) t(2)]) (use Cons.prems(8) q sp1(2) in simp)
    then show ?thesis using u(1) pk t(1) Cons.prems(5) by (simp add: turn_ok_def)
  qed
qed

section \<open>An orphaned file\<close>

lemma run_keeps_orphan:
  assumes "uploader_run h ucfg ops ts up = Some up'" "x \<in> set (pending_seqs (up_spool up))" "read_spooled (up_spool up) x = None"
  shows "x \<in> set (pending_seqs (up_spool up'))"
proof -
  define P where "P = (\<lambda>u :: 'a uploader. x \<in> set (pending_seqs (up_spool u)) \<and> read_spooled (up_spool u) x = None)"
  have "P up'"
  proof (rule uploader_run_rule [where P = P, OF assms(1)])
    fix u seg as now b u1
    assume p: "P u" and pk: "peek_next (up_spool u) (uc_target ucfg) = Some seg" and one: "upload_one h ucfg ops seg as now u = Some (b, u1)"
    obtain y where y: "read_spooled (up_spool u) y = Some seg"
      using pk by (auto simp: peek_next_queue queue_def set_map_filter split: list.splits dest!: map_filter_ConsD)
    then have ne: "sg_seq seg \<noteq> x" using p read_spooled_seq [OF y] by (auto simp: P_def)
    have c: "x \<in> set (pending_seqs (confirm (up_spool u) (sg_seq seg) t nw)) \<and> read_spooled (confirm (up_spool u) (sg_seq seg) t nw) x = None" for t nw
      using p ne confirm_files [of "up_spool u" "sg_seq seg" t nw x] by (simp add: P_def confirm_pending)
    show "P u1"
    proof (cases "damaged h seg")
      case True
      then show ?thesis using one c by (auto simp: upload_one_def skip_damaged_def P_def)
    next
      case False
      then have l: "upload_loop ucfg ops seg as 0 u = Some (b, u1)" using one by (simp add: upload_one_def)
      show ?thesis using upload_loop_safe [OF l] p c by (cases b) (auto simp: P_def)
    qed
  qed (use assms in \<open>simp_all add: P_def\<close>)
  then show ?thesis by (simp add: P_def)
qed

section \<open>The spool a broadcast leaves\<close>

lemma evict_dir: "evict_loop seq pend sp drops = (sp', drops') \<Longrightarrow> sp_dir sp' = sp_dir sp"
  by (induction seq pend sp drops rule: evict_loop.induct) (auto simp: evict_locked_def Let_def split: if_splits)

lemma enqueue_dir: "enqueue h sp seg now = Inr (sp', ck, drops) \<Longrightarrow> sp_dir sp' = sp_dir sp"
  by (elim enqueue_cases) (auto simp: apply_cap_def split: if_splits dest: evict_dir)

lemma encoder_step_place:
  assumes "encoder_step h e e'" "no_old_layout (up_spool (en_up e))"
  shows "sp_dir (up_spool (en_up e')) = sp_dir (up_spool (en_up e)) \<and> no_old_layout (up_spool (en_up e'))"
  using assms
proof cases
  case (step_publish_segment now fragment dur pts up' seq)
  then obtain s sp ck drops where "enqueue h (up_spool (en_up e)) s now = Inr (sp, ck, drops)" "up_spool up' = sp"
    by (auto simp: publish_segment_def Let_def split: sum.splits)
  then show ?thesis using step_publish_segment(1) enqueue_root enqueue_dir assms(2) by auto
next
  case (step_upload_answer seg n live_ans a s up')
  have "up_spool up' = up_spool (en_up e) \<or> (\<exists>t nw. up_spool up' = confirm (up_spool (en_up e)) (sg_seq seg) t nw)"
    using upload_finish_outcome(2,3) [OF step_upload_answer(3)] by (cases "s = Uploaded") auto
  then show ?thesis using step_upload_answer(1) assms(2) confirm_root by auto
next
  case (step_mirror_objects anss)
  then show ?thesis using assms(2) by (auto simp: mirror_objects_pass_def case_prod_beta)
qed (use assms(2) confirm_root in \<open>auto simp: skip_damaged_def on_session_def on_spool_def disk_damage_def no_old_layout_def\<close>)

lemma encoder_run_place:
  assumes "encoder_run h e e'" "no_old_layout (up_spool (en_up e))"
  shows "sp_dir (up_spool (en_up e')) = sp_dir (up_spool (en_up e)) \<and> no_old_layout (up_spool (en_up e'))"
  using assms
proof (induction rule: encoder_run.induct)
  case (run_step e e' e'')
  then show ?case using encoder_step_place by simp
qed simp

lemma reopened_reads:
  assumes "no_old_layout sp" "sp_dir sp \<noteq> []"
  shows "read_spooled (spool_open (sp_disk sp) m (sp_dir sp)) = read_spooled sp"
proof -
  have "sp_disk (spool_open (sp_disk sp) m (sp_dir sp)) = sp_disk sp" "sp_dir (spool_open (sp_disk sp) m (sp_dir sp)) = sp_dir sp"
    using assms by (simp_all add: spool_open_def migrate_single_folder_def no_old_layout_def load_state_def Let_def)
  then have "same_files sp (spool_open (sp_disk sp) m (sp_dir sp))" by (simp add: same_files_def cur_folder_def)
  then show ?thesis by (rule same_files_views)
qed

section \<open>Properties\<close>

text \<open>
  C2: The background finisher keeps the write-ordering rule. Stop a broadcast at any moment and
  let the finisher work on the spool it left, whatever the store and the disk do and however far it
  gets: a segment listed in the \<^verbatim>\<open>manifest.json\<close> the bucket then holds is in the bucket, and its
  bytes have the checksum the manifest gives. (The store is assumed to return, on a successful
  GET of the manifest, the document it holds.)
\<close>

theorem finisher_lists_only_stored:
  assumes "start_new ba ev now init video tracks up = (up', True)" and "ev \<noteq> []"
    and "ss_bucket (up_host up) (manifest_key ev) = None" and "\<And>b. h b \<noteq> []" and "no_old_layout (up_spool up)"
    and "encoder_run h (broadcast up') e"
    and "finish h cfg fa ev (sp_disk (up_spool (en_up e)), ss_bucket (up_host (en_up e))) = Some (ok, dk', bkt')"
    and "gr_success (fa_manifest fa) \<longrightarrow> ss_bucket (up_host (en_up e)) (manifest_key ev) = Some (gr_body (fa_manifest fa))"
    and "bkt' (manifest_key ev) = Some (Doc j)" and "manifest_from_json j = Inr m"
  shows "\<forall>s\<in>set (mf_segments m). \<exists>b. bkt' (segment_key_for ev (ms_seq s)) = Some (Bytes b) \<and> h b = ms_checksum s"
proof
  fix s assume s: "s \<in> set (mf_segments m)"
  let ?sp = "up_spool (en_up e)" and ?b = "ss_bucket (up_host (en_up e))"
  have start: "up_spool up' = begin_event (up_spool up) ev 0 now"
    using assms(1) by (auto simp: start_new_def Let_def split: prod.splits)
  have "no_old_layout (up_spool up')" "sp_dir (up_spool up') = ev"
    unfolding start using begin_root [OF assms(5)] assms(2) by (simp_all add: begin_event_state)
  then have place: "sp_dir ?sp = ev" "no_old_layout ?sp" using encoder_run_place [OF assms(6)] by (simp_all add: broadcast_def)
  obtain C where inv: "encoder_inv h C ev e" using encoder_run_inv [OF assms(6) start_new_inv [OF assms(1-3)] assms(4)] by blast
  define n where "n = ss_next_seq (up_host (en_up e))"
  have hon: "event_honest h C n ev (spool_open (sp_disk ?sp) 0 ev) ?b"
    using inv reopened_reads [of ?sp 0] place assms(2) by (auto simp: event_honest_def encoder_inv_def session_inv_def n_def Let_def)
  then obtain m0 where m0: "j = manifest_to_json m0" "listed_ok h C ev n bkt' m0"
    using finish_honest [OF hon assms(7,8)] assms(9) by (auto simp: doc_ok_def)
  have "\<forall>s0\<in>set (mf_segments m0). ms_seq s0 < 2 ^ 64"
    using m0(2) hon by (force simp: listed_ok_def event_honest_def seq_limit_def)
  then obtain s0 where "s0 \<in> set (mf_segments m0)" "ms_seq s0 = ms_seq s" "ms_checksum s0 = ms_checksum s"
    using decoded_segments s assms(10) m0(1) by blast
  then show "\<exists>b. bkt' (segment_key_for ev (ms_seq s)) = Some (Bytes b) \<and> h b = ms_checksum s"
    using m0(2) by (auto simp: listed_ok_def object_ok_def)
qed

text \<open>
  C4: No segment of an ended event is lost. Whatever a call of \<open>finish\<close> meets, each segment that
  waited is still waiting in the spool on disk, or is in the bucket under its key, or was damaged.
  The folder is removed only when the call succeeds; then nothing was left waiting, every intact
  segment is in the bucket, and the \<^verbatim>\<open>manifest.json\<close> stored says the event has ended and lists
  every damaged segment as a gap.
\<close>

theorem finish_loses_nothing:
  assumes "finish h cfg fa ev (dk, bkt) = Some (ok, dk', bkt')" "ev \<noteq> []" "spool_ok (spool_open dk 0 ev) n" "n \<le> seq_limit"
    "\<forall>s\<in>set (queue (spool_open dk 0 ev) 0). sg_key s = segment_key_for ev (sg_seq s)"
  shows "if ok
    then map_of (dk_events dk') ev = None \<and>
      (\<exists>m. bkt' (manifest_key ev) = Some (Doc (manifest_to_json m)) \<and> mf_status m = ''ended'' \<and> mf_event_id m = ev \<and>
        (\<forall>s\<in>set (queue (spool_open dk 0 ev) 0). if damaged h s then gap_end m (sg_seq s) \<noteq> None
           else bkt' (sg_key s) = Some (Bytes (sg_data s))))
    else \<exists>out. queue (spool_open dk 0 ev) 0 = out @ queue (spool_open dk' 0 ev) 0 \<and>
      (\<forall>s\<in>set out. damaged h s \<or> bkt' (sg_key s) = Some (Bytes (sg_data s)))"
proof -
  let ?q = "queue (spool_open dk 0 ev) 0"
  note run = backlog_run [OF assms(3,2,4,5)]
  have left: "\<exists>out. ?q = out @ queue (spool_open (sp_disk (up_spool up)) 0 ev) 0 \<and> (\<forall>s\<in>set out. handled h (up_host up) s)"
    if "backlog_inv h ev n ?q up" for up
    using that reopened_queue [of "up_spool up" 0 0] by (auto simp: backlog_inv_def reopened_def)
  show ?thesis
  proof (rule finish_cases [OF assms(1)])
    fix seed up
    assume a: "\<not> ok" "dk' = sp_disk (up_spool up)" "bkt' = fh_bucket (up_host up)"
      "uploader_run h (finisher_uploader_config cfg) (finisher_ops cfg ev (fa_published fa)) (fa_turns fa) (finish_start ev seed (dk, bkt)) = Some up"
    show ?thesis using left [OF run [OF a(4)]] a(1-3) by (fastforce simp: handled_def split: if_splits)
  next
    fix seed up
    assume a: "pending_count (up_spool up) = 0" "finish_ending fa ev (up_host up) = (bkt', ok)"
      "dk' = (if ok then discard_event (sp_disk (up_spool up)) ev else sp_disk (up_spool up))"
      "uploader_run h (finisher_uploader_config cfg) (finisher_ops cfg ev (fa_published fa)) (fa_turns fa) (finish_start ev seed (dk, bkt)) = Some up"
    note inv = run [OF a(4)]
    have emp: "queue (up_spool up) 0 = []"
      using a(1) by (simp add: pending_count_def queue_def waiting_def List.map_filter_simps)
    then have h: "\<forall>s\<in>set ?q. handled h (up_host up) s" using inv by (auto simp: backlog_inv_def)
    have same: "bkt' (sg_key s) = fh_bucket (up_host up) (sg_key s)" if "s \<in> set ?q" for s
      using finish_ending_facts(1) [OF a(2)] assms(5) that by metis
    show ?thesis
    proof (cases ok)
      case True
      let ?m = "(fh_manifest (up_host up))\<lparr>mf_updated_at_ms := snd (snd (fa_final fa))\<rparr>"
      have "map_of (dk_events dk') ev = None" using a(3) True assms(2) by (simp add: discard_event_def delete_conv)
      moreover have "bkt' (manifest_key ev) = Some (Doc (manifest_to_json ?m))" using finish_ending_facts(2) [OF a(2) True] .
      moreover have "mf_status ?m = ''ended''" "mf_event_id ?m = ev" using inv by (simp_all add: backlog_inv_def)
      moreover have "\<forall>s\<in>set ?q. if damaged h s then gap_end ?m (sg_seq s) \<noteq> None else bkt' (sg_key s) = Some (Bytes (sg_data s))"
        using h same by (simp add: handled_def gap_end_def)
      ultimately show ?thesis using True by (simp only: if_True) blast
    next
      case False
      then show ?thesis using left [OF inv] a(3) h same by (auto simp: handled_def split: if_splits)
    qed
  qed auto
qed

text \<open>
  The finisher writes only what belongs to the event it finishes: the event's manifest, the
  keys of its spooled segments, and a room's \<^verbatim>\<open>live.json\<close> only when the pointer it read there named
  this event and did not say ended; the pointer written is the one read, now saying ended. A
  newer broadcast in the same room is never told that it has ended.
\<close>

lemma finish_writes_only_its_event:
  assumes "finish h cfg fa ev (dk, bkt) = Some (ok, dk', bkt')" "ev \<noteq> []" "bkt' k \<noteq> bkt k"
  shows "k = manifest_key ev \<or> (\<exists>x s. read_spooled (spool_open dk 0 ev) x = Some s \<and> k = sg_key s) \<or>
    (\<exists>lp room now. parsed live_pointer_from_json (gr_body (fa_pointer fa)) = Some lp \<and> lp_event_id lp = ev \<and>
       lp_status lp \<noteq> ''ended'' \<and> k = live_pointer_key room \<and>
       bkt' k = Some (Doc (live_pointer_to_json (lp\<lparr>lp_status := ''ended'', lp_updated_at_ms := now\<rparr>))))"
proof (cases "may_write (spool_open dk 0 ev) ev k")
  case True
  then show ?thesis by (auto simp: may_write_def)
next
  case False
  then have "\<not> may_write (up_spool (finish_start ev seed (dk, bkt))) ev k" for seed
    by (auto simp: may_write_def finish_start_def finish_uploader_def finish_spool_def set_targets_one_files split: if_splits)
  then have run: "fh_bucket (up_host up) k = bkt k"
    if "uploader_run h (finisher_uploader_config cfg) (finisher_ops cfg ev (fa_published fa)) (fa_turns fa) (finish_start ev seed (dk, bkt)) = Some up"
    for seed up
    using finish_run_writes [OF that] by (simp add: finish_start_def finish_uploader_def)
  have mk: "k \<noteq> manifest_key ev" using False by (auto simp: may_write_def)
  show ?thesis
  proof (rule finish_cases [OF assms(1)])
    fix seed up
    assume a: "finish_ending fa ev (up_host up) = (bkt', ok)"
      "uploader_run h (finisher_uploader_config cfg) (finisher_ops cfg ev (fa_published fa)) (fa_turns fa) (finish_start ev seed (dk, bkt)) = Some up"
    let ?b = "fh_bucket (fst (finish_publish ev (fa_final fa) (up_host up)))"
    have b: "?b k = bkt k" using run [OF a(2)] mk by simp
    have "bkt' = ?b \<or> bkt' = fst (end_live_pointer fa ev ?b)"
      using a(1) by (auto simp: finish_ending_def case_prod_beta split: if_splits)
    then have "fst (end_live_pointer fa ev ?b) k \<noteq> ?b k" "bkt' = fst (end_live_pointer fa ev ?b)"
      using assms(3) b by (auto simp del: finish_publish_frame)
    then show ?thesis by (elim end_live_pointer_writes) (auto simp del: finish_publish_frame)
  qed (use run assms(3) in auto)
qed

lemma finish_spool_readable:
  assumes "floor_ok (spool_open dk 0 ev)"
    "\<forall>x\<in>set (waiting (spool_open dk 0 ev) 0). read_spooled (spool_open dk 0 ev) x \<noteq> None"
  shows "floor_ok (finish_spool dk ev)" "all_readable (finish_spool dk ev)"
proof -
  let ?sp = "spool_open dk 0 ev" and ?fs = "finish_spool dk ev"
  have st: "sp_state ?fs = (sp_state ?sp)\<lparr>st_targets := 1\<rparr>" by (simp add: finish_spool_def set_targets_one)
  have pend: "pending_seqs ?fs = waiting ?sp 0" by (simp add: finish_spool_def set_targets_one_files)
  have reads: "read_spooled ?fs x = (if x \<in> set (pending_seqs ?sp) \<and> target_has (sp_state ?sp) 0 x then None else read_spooled ?sp x)" for x
    by (simp add: finish_spool_def set_targets_one_files)
  show "floor_ok ?fs" using assms(1) by (auto simp: floor_ok_def floor_of_def list_all_iff pend st waiting_def)
  show "all_readable ?fs" using assms(2) by (auto simp: all_readable_def pend st reads waiting_def)
qed

lemma finish_succeeds:
  assumes "spool_ok (finish_spool dk ev) n" "floor_ok (finish_spool dk ev)" "all_readable (finish_spool dk ev)"
    "fa_transport fa" "finish_seed fa = Some seed" "list_all turn_ok (fa_turns fa)"
    "length (queue (finish_spool dk ev) 0) \<le> length (fa_turns fa)" "pr_success (fst (fa_final fa))" "\<And>b. snd (end_live_pointer fa ev b)"
  shows "\<exists>dk' bkt'. finish h cfg fa ev (dk, bkt) = Some (True, dk', bkt')"
proof -
  let ?fs = "finish_spool dk ev" and ?u = "finisher_uploader_config cfg"
  have st: "st_targets (sp_state ?fs) = 1" by (simp add: finish_spool_def set_targets_one)
  have "\<exists>up'. uploader_run h ?u (finisher_ops cfg ev (fa_published fa)) (fa_turns fa) (finish_start ev seed (dk, bkt)) = Some up' \<and>
      pending_seqs (up_spool up') = []"
    by (rule run_complete [of _ n]; (simp only: finish_start_def finish_uploader_def fst_conv uploader.simps)?)
      (use assms st in \<open>simp_all add: finisher_uploader_config_def uploader_config_default_def\<close>)
  then obtain up' where up': "uploader_run h ?u (finisher_ops cfg ev (fa_published fa)) (fa_turns fa) (finish_start ev seed (dk, bkt)) = Some up'"
    "pending_count (up_spool up') = 0" by (auto simp: pending_count_def)
  have "snd (finish_ending fa ev (up_host up'))"
    using assms(8,9) by (simp add: finish_ending_def case_prod_beta finish_publish_frame(2))
  then show ?thesis
    using up' assms(4,5) unfolding finish_def finish_start_def by (auto simp: Let_def split: prod.splits)
qed

text \<open>
  C14: A backlog that can be sent is sent. With a transport, a manifest or event document to carry on
  from, every spooled segment readable, for each of them retryable failures followed by a
  success, and the closing requests answered, \<open>finish\<close> returns, and it returns true.
\<close>

theorem finish_completes:
  assumes "ev \<noteq> []" "spool_ok (spool_open dk 0 ev) n" "floor_ok (spool_open dk 0 ev)"
    "\<forall>x\<in>set (waiting (spool_open dk 0 ev) 0). read_spooled (spool_open dk 0 ev) x \<noteq> None"
    "fa_transport fa" "finish_seed fa \<noteq> None" "list_all turn_ok (fa_turns fa)"
    "length (queue (spool_open dk 0 ev) 0) \<le> length (fa_turns fa)" "pr_success (fst (fa_final fa))"
    "gr_success (fa_room fa) \<or> gr_http_status (fa_room fa) = 404"
    "gr_success (fa_pointer fa) \<or> gr_http_status (fa_pointer fa) = 404" "pr_success (fst (fa_pointer_put fa))"
  shows "\<exists>dk' bkt'. finish h cfg fa ev (dk, bkt) = Some (True, dk', bkt')"
proof -
  obtain seed where seed: "finish_seed fa = Some seed" using assms(6) by blast
  note fs = finish_spool_facts [OF assms(2,1)]
  show ?thesis
  proof (rule finish_succeeds [OF fs(1) finish_spool_readable [OF assms(3,4)] assms(5) seed assms(7)])
    show "length (queue (finish_spool dk ev) 0) \<le> length (fa_turns fa)" using assms(8) fs(2) by simp
    show "snd (end_live_pointer fa ev b)" for b
      using assms(10-12) by (auto simp: end_live_pointer_def split: option.splits prod.splits)
  qed (rule assms(9))
qed

text \<open>
  One orphaned file stops the finisher for good. When the folder of an ended event holds a
  segment file without a readable sidecar (a crash between the two writes leaves one), a call of
  \<open>finish\<close> that gets as far as uploading never returns by itself, whatever the store answers and
  however long it runs: it waits for a count that cannot reach zero, and the events after it in the pass are
  not looked at.
\<close>

lemma orphan_blocks_finisher:
  assumes "x \<in> set (waiting (spool_open dk 0 ev) 0)" "read_spooled (spool_open dk 0 ev) x = None"
    "fa_transport fa" "finish_seed fa \<noteq> None" "\<not> fa_stopped fa"
  shows "finish h cfg fa ev (dk, bkt) = None \<and>
    (pt_go_on t \<and> pt_may_upload t \<and> pt_answers t = fa \<longrightarrow> finish_events h cfg (ev # ids) (t # ts) (dk, bkt) = None)"
proof -
  obtain seed where seed: "finish_seed fa = Some seed" using assms(4) by blast
  let ?run = "uploader_run h (finisher_uploader_config cfg) (finisher_ops cfg ev (fa_published fa)) (fa_turns fa) (finish_start ev seed (dk, bkt))"
  have "x \<in> set (pending_seqs (finish_spool dk ev))" "read_spooled (finish_spool dk ev) x = None"
    using assms(1,2) by (simp_all add: finish_spool_def set_targets_one_files)
  then have "pending_count (up_spool up) > 0" if "?run = Some up" for up
    using run_keeps_orphan [OF that, of x] by (auto simp: pending_count_def finish_start_def finish_uploader_def)
  then have "finish h cfg fa ev (dk, bkt) = None"
    using seed assms(3,5) unfolding finish_def finish_start_def by (auto simp: Let_def split: option.splits)
  then show ?thesis by simp
qed


section \<open>Witnesses\<close>

text \<open>The broadcast \<open>ex_live\<close> stopped after its first segment was spooled, and what the finisher meets.\<close>

definition ex_room_gone :: get_result where
  "ex_room_gone = get_result_default\<lparr>gr_http_status := 404\<rparr>"

definition ex_event_doc :: event_info where
  "ex_event_doc = new_event_info (up_host ex_live) 1 video_info_default []"

definition ex_finish :: finish_answers where
  "ex_finish = \<lparr>fa_transport = True, fa_manifest = ex_room_gone,
     fa_event = get_result_default\<lparr>gr_success := True, gr_body := Doc (event_info_to_json ex_event_doc)\<rparr>,
     fa_turns = [ex_turn], fa_published = (\<lambda>_. (fst yes, False, 6)), fa_stopped = False, fa_final = (fst yes, False, 7),
     fa_room = ex_room_gone, fa_pointer = ex_room_gone, fa_pointer_put = (fst yes, False, 8)\<rparr>"

lemma ex_finish_seed: "finish_seed ex_finish \<noteq> None"
proof -
  have "event_info_wire_ok ex_event_doc"
    by (simp add: ex_event_doc_def new_event_info_def event_info_wire_ok_def version_ok_def kProtocolVersion_def int64_ok_def
        video_ok_def video_info_default_def int32_ok_def layout_valid_def tile_layout_default_def ex_live_host)
  then show ?thesis
    using event_info_roundtrip [of ex_event_doc] by (simp add: finish_seed_def ex_finish_def ex_room_gone_def get_result_default_def parsed_def)
qed

lemma ex_live_root: "no_old_layout (up_spool ex_live)"
proof -
  have "no_old_layout (up_spool ex_new)"
    by (simp add: ex_new_def session_new_def no_old_layout_def set_targets_def spool_open_def migrate_single_folder_def empty_folder_def
        unfinished_events_def load_state_def sweep_root Let_def List.map_filter_simps)
  then show ?thesis by (simp add: ex_live_spool begin_root)
qed

lemma ex_backlog:
  obtains e where "encoder_run ex_hash (broadcast ex_live) e"
    "spool_ok (spool_open (sp_disk (up_spool (en_up e))) 0 ''E'') 1" "floor_ok (spool_open (sp_disk (up_spool (en_up e))) 0 ''E'')"
    "queue (spool_open (sp_disk (up_spool (en_up e))) 0 ''E'') 0 = [ex_first]"
    "pending_seqs (spool_open (sp_disk (up_spool (en_up e))) 0 ''E'') = [0]"
    "read_spooled (spool_open (sp_disk (up_spool (en_up e))) 0 ''E'') 0 = Some ex_first"
proof -
  obtain up where p: "publish_segment ex_hash 2 [1, 2] 6 0 ex_live = (up, Inr 0)" by (rule ex_publish)
  let ?seg = "\<lparr>sg_seq = 0, sg_data = [1, 2], sg_duration_s = 6, sg_pts_offset_s = 0, sg_checksum = [], sg_key = segment_key_for ''E'' 0\<rparr>"
  have "segment_key (up_host ex_live) 0 = segment_key_for ''E'' 0" by (simp add: segment_key_eq ex_live_host)
  then obtain ck drops where enq: "enqueue ex_hash (up_spool ex_live) ?seg 2 = Inr (up_spool up, ck, drops)"
    using p by (auto simp: publish_segment_def ex_live_host Let_def split: sum.splits)
  note ok = enqueue_ok [OF ex_live_ok(1) _ enq] and sv = enqueue_saved [OF ex_live_ok(1) _ enq]
  have root: "no_old_layout (up_spool up)" using enqueue_root [OF enq ex_live_root] .
  have p0: "pending_seqs (up_spool ex_live) = []" by (simp add: ex_live_spool pending_seqs_def begin_event_state dir_names_def)
  have pend: "pending_seqs (up_spool up) = [0]" "read_spooled (up_spool up) 0 = Some ex_first"
    using enqueue_facts [OF ex_live_ok(1) _ enq] p0 by (auto simp: sealed_def ex_first_def)
  have q: "queue (up_spool up) 0 = [ex_first]"
    using enqueue_queue [OF ex_live_ok(1) _ enq, of 0] ex_live_ok(2) enqueue_facts [OF ex_live_ok(1) _ enq] p0
    by (auto simp: sealed_def ex_first_def)
  have fl: "floor_ok (up_spool up)" by (rule enqueue_floor_ok [OF ex_live_ok(1) _ _ ex_live_ok(3) _ enq]) (simp_all add: ex_live_ok)
  have dir: "sp_dir (up_spool up) = ''E''" using enqueue_dir [OF enq] by (simp add: ex_live_spool begin_event_state)
  let ?e = "(broadcast ex_live)\<lparr>en_up := up\<rparr>"
  have run: "encoder_run ex_hash (broadcast ex_live) ?e"
    using step_publish_segment [of ex_hash 2 "[1, 2]" 6 0 "broadcast ex_live" up 0] p run_step [OF run_refl]
    by (simp add: broadcast_def seq_limit_def)
  have sv': "saved (up_spool up)" using sv by simp
  note re = reopened_eq [OF sv' root, of 0] and vw = same_files_views [OF reopened_eq(1) [OF sv' root, of 0]]
  have r: "spool_open (sp_disk (up_spool up)) 0 ''E'' = reopened (up_spool up) 0" by (simp add: reopened_def dir)
  show thesis
    by (rule that [OF run])
      (use ok pend q fl reopened_ok [OF _ sv' root] reopened_queue [OF sv' root] vw re in
        \<open>simp_all add: r floor_ok_def floor_of_def\<close>)
qed


text \<open>The finisher sends the segment.\<close>

lemma ex_turns_ok: "list_all turn_ok (fa_turns ex_finish)" "fa_transport ex_finish" "pr_success (fst (fa_final ex_finish))"
  by (simp_all add: ex_finish_def turn_ok_def ex_turn_def ex_attempt_def yes_def)

lemma ex_finished:
  obtains dk where "\<And>bkt. \<exists>dk' bkt'. finish ex_hash finisher_config_default ex_finish ''E'' (dk, bkt) = Some (True, dk', bkt')"
    "spool_ok (spool_open dk 0 ''E'') 1" "queue (spool_open dk 0 ''E'') 0 = [ex_first]"
    "\<And>x s. read_spooled (spool_open dk 0 ''E'') x = Some s \<Longrightarrow> s = ex_first"
proof -
  obtain e where e: "encoder_run ex_hash (broadcast ex_live) e"
    "spool_ok (spool_open (sp_disk (up_spool (en_up e))) 0 ''E'') 1" "floor_ok (spool_open (sp_disk (up_spool (en_up e))) 0 ''E'')"
    "queue (spool_open (sp_disk (up_spool (en_up e))) 0 ''E'') 0 = [ex_first]"
    "pending_seqs (spool_open (sp_disk (up_spool (en_up e))) 0 ''E'') = [0]"
    "read_spooled (spool_open (sp_disk (up_spool (en_up e))) 0 ''E'') 0 = Some ex_first" by (rule ex_backlog)
  let ?dk = "sp_disk (up_spool (en_up e))"
  obtain seed where seed: "finish_seed ex_finish = Some seed" using ex_finish_seed by blast
  have rd: "\<forall>x\<in>set (waiting (spool_open ?dk 0 ''E'') 0). read_spooled (spool_open ?dk 0 ''E'') x \<noteq> None"
    using e(5,6) by (simp add: waiting_def)
  note fs = finish_spool_facts [OF e(2)]
  have lp: "snd (end_live_pointer ex_finish ''E'' b)" for b
    by (simp add: ex_finish_def end_live_pointer_def ex_room_gone_def get_result_default_def)
  have len: "length (queue (finish_spool ?dk ''E'') 0) \<le> length (fa_turns ex_finish)"
    using fs(2) e(4) by (simp add: ex_finish_def)
  have "\<exists>dk' bkt'. finish ex_hash finisher_config_default ex_finish ''E'' (?dk, bkt) = Some (True, dk', bkt')" for bkt
    using finish_succeeds [OF fs(1) finish_spool_readable [OF e(3) rd] ex_turns_ok(2) seed ex_turns_ok(1) len ex_turns_ok(3) lp]
    by blast
  moreover have "s = ex_first" if "read_spooled (spool_open ?dk 0 ''E'') x = Some s" for x s
    using read_spooled_pending [OF _ that] that e(5,6) by (simp add: spool_open_frame)
  ultimately show thesis using that e(2,4) by blast
qed

definition ex_finish_listed :: finish_answers where
  "ex_finish_listed = ex_finish\<lparr>fa_manifest := get_result_default\<lparr>gr_success := True, gr_body := Doc (manifest_to_json ex_listed)\<rparr>,
     fa_turns := [], fa_stopped := True\<rparr>"

definition ex_listed_ended :: manifest where
  "ex_listed_ended = ex_listed\<lparr>mf_status := ''ended'', mf_updated_at_ms := 7\<rparr>"

lemma ex_listed_ended_roundtrip: "manifest_from_json (manifest_to_json ex_listed_ended) = Inr ex_listed_ended"
proof -
  have "manifest_wire_ok ex_listed_ended" "mf_audio_tracks ex_listed_ended = []"
    by (simp_all add: ex_listed_ended_def ex_listed_def ex_live_host manifest_wire_ok_def manifest_default_def version_ok_def kProtocolVersion_def
        int64_ok_def video_ok_def video_info_default_def int32_ok_def layout_valid_def tile_layout_default_def segment_ok_def)
  then show ?thesis using manifest_roundtrip [of ex_listed_ended] by simp
qed

lemma ex_finish_listed_result:
  assumes "bkt (manifest_key ''E'') = Some (Doc (manifest_to_json ex_listed))"
  obtains ok dk' bkt' m where "finish ex_hash finisher_config_default ex_finish_listed ''E'' (dk, bkt) = Some (ok, dk', bkt')"
    "bkt' (manifest_key ''E'') = Some (Doc (manifest_to_json m))" "m \<in> {ex_listed, ex_listed_ended}"
proof -
  let ?up = "finish_start ''E'' ex_listed (dk, bkt)"
  have fa: "fa_transport ex_finish_listed" "finish_seed ex_finish_listed = Some ex_listed" "fa_turns ex_finish_listed = []"
    "fa_stopped ex_finish_listed" "fa_final ex_finish_listed = (fst yes, False, 7)"
    "snd (end_live_pointer ex_finish_listed ''E'' b)" "fst (end_live_pointer ex_finish_listed ''E'' b) = b" for b
    by (simp_all add: ex_finish_listed_def ex_finish_def finish_seed_def parsed_def ex_listed_roundtrip end_live_pointer_def
        ex_room_gone_def get_result_default_def)
  have up: "up_spool ?up = finish_spool dk ''E''" "up_host ?up = \<lparr>fh_bucket = bkt, fh_manifest = ex_listed\<lparr>mf_event_id := ''E'', mf_status := ''ended''\<rparr>\<rparr>"
    by (simp_all add: finish_start_def finish_uploader_def)
  have m: "ex_listed\<lparr>mf_event_id := ''E'', mf_status := ''ended'', mf_updated_at_ms := 7\<rparr> = ex_listed_ended"
    by (simp add: ex_listed_ended_def ex_listed_def ex_live_host)
  show thesis
  proof (cases "pending_count (finish_spool dk ''E'') > 0")
    case True
    then have "finish ex_hash finisher_config_default ex_finish_listed ''E'' (dk, bkt) = Some (False, sp_disk (finish_spool dk ''E''), bkt)"
      using fa unfolding finish_def by (simp add: Let_def finish_uploader_def)
    then show thesis using that assms by blast
  next
    case False
    let ?b = "bkt(manifest_key ''E'' \<mapsto> Doc (manifest_to_json ex_listed_ended))"
    have "finish_ending ex_finish_listed ''E'' (up_host ?up) = (?b, True)"
      using fa(6,7) [of ?b] unfolding finish_ending_def case_prod_beta finish_publish_frame up fa(5)
      by (simp add: m store_put_def yes_def prod_eq_iff)
    then have "finish ex_hash finisher_config_default ex_finish_listed ''E'' (dk, bkt)
        = Some (True, discard_event (sp_disk (finish_spool dk ''E'')) ''E'', ?b)"
      using fa False unfolding finish_def by (simp add: Let_def finish_uploader_def finish_start_def)
    then show thesis by (rule that [where m = ex_listed_ended]) simp_all
  qed
qed

theorem finisher_lists_only_stored_witness:
  "\<exists>e ok dk' bkt' b. encoder_run ex_hash (broadcast ex_live) e \<and>
     finish ex_hash finisher_config_default ex_finish_listed ''E'' (sp_disk (up_spool (en_up e)), ss_bucket (up_host (en_up e))) = Some (ok, dk', bkt') \<and>
     bkt' (segment_key_for ''E'' 0) = Some (Bytes b) \<and> ex_hash b = ex_hash [1, 2]"
proof -
  obtain e where e: "encoder_run ex_hash (broadcast ex_live) e"
    "ss_bucket (up_host (en_up e)) (manifest_key ''E'') = Some (Doc (manifest_to_json ex_listed))" by (rule ex_broadcast)
  obtain ok dk' bkt' m where f: "finish ex_hash finisher_config_default ex_finish_listed ''E''
        (sp_disk (up_spool (en_up e)), ss_bucket (up_host (en_up e))) = Some (ok, dk', bkt')"
    "bkt' (manifest_key ''E'') = Some (Doc (manifest_to_json m))" "m \<in> {ex_listed, ex_listed_ended}" by (rule ex_finish_listed_result [of "ss_bucket (up_host (en_up e))", OF e(2)])
  have m: "manifest_from_json (manifest_to_json m) = Inr m" "mf_segments m = mf_segments ex_listed"
    using f(3) ex_listed_roundtrip ex_listed_ended_roundtrip by (auto simp: ex_listed_ended_def)
  have root: "no_old_layout (up_spool ex_new)"
    by (simp add: ex_new_def session_new_def no_old_layout_def set_targets_def spool_open_def migrate_single_folder_def empty_folder_def
        unfinished_events_def load_state_def sweep_root Let_def List.map_filter_simps)
  have "\<forall>s\<in>set (mf_segments m). \<exists>b. bkt' (segment_key_for ''E'' (ms_seq s)) = Some (Bytes b) \<and> ex_hash b = ms_checksum s"
    by (rule finisher_lists_only_stored [OF ex_live_started _ _ _ root e(1) f(1) _ f(2) m(1)])
      (simp_all add: ex_new_bucket ex_hash_def e(2), simp add: ex_finish_listed_def)
  then show ?thesis using e f m(2) by (auto simp: ex_listed_def)
qed

theorem finish_loses_nothing_witness:
  "\<exists>dk bkt dk' bkt'. finish ex_hash finisher_config_default ex_finish ''E'' (dk, bkt) = Some (True, dk', bkt') \<and>
     queue (spool_open dk 0 ''E'') 0 = [ex_first] \<and> map_of (dk_events dk') ''E'' = None \<and>
     bkt' (segment_key_for ''E'' 0) = Some (Bytes [1, 2])"
proof -
  obtain dk bkt dk' bkt' where f: "finish ex_hash finisher_config_default ex_finish ''E'' (dk, bkt) = Some (True, dk', bkt')"
    "spool_ok (spool_open dk 0 ''E'') 1" "queue (spool_open dk 0 ''E'') 0 = [ex_first]" using ex_finished by metis
  have "\<forall>s\<in>set (queue (spool_open dk 0 ''E'') 0). sg_key s = segment_key_for ''E'' (sg_seq s)" by (simp add: f(3) ex_first_def)
  from finish_loses_nothing [OF f(1) _ f(2) _ this] show ?thesis
    using f by (auto simp: seq_limit_def ex_first_intact) (auto simp: ex_first_def)
qed

theorem finish_completes_witness:
  "\<exists>dk bkt dk' bkt'. finish ex_hash finisher_config_default ex_finish ''E'' (dk, bkt) = Some (True, dk', bkt')"
proof -
  obtain e where e0: "encoder_run ex_hash (broadcast ex_live) e" and e: "spool_ok (spool_open (sp_disk (up_spool (en_up e))) 0 ''E'') 1" "floor_ok (spool_open (sp_disk (up_spool (en_up e))) 0 ''E'')"
    "queue (spool_open (sp_disk (up_spool (en_up e))) 0 ''E'') 0 = [ex_first]"
    "pending_seqs (spool_open (sp_disk (up_spool (en_up e))) 0 ''E'') = [0]"
    "read_spooled (spool_open (sp_disk (up_spool (en_up e))) 0 ''E'') 0 = Some ex_first" by (rule ex_backlog)
  have "\<exists>dk' bkt'. finish ex_hash finisher_config_default ex_finish ''E'' (sp_disk (up_spool (en_up e)), ss_bucket (up_host (en_up e))) = Some (True, dk', bkt')"
    by (rule finish_completes [OF _ e(1,2) _ ex_turns_ok(2) ex_finish_seed ex_turns_ok(1) _ ex_turns_ok(3)])
      (use e in \<open>simp_all add: waiting_def ex_finish_def ex_room_gone_def get_result_default_def yes_def\<close>)
  then show ?thesis by blast
qed

end
