(* ===== verification/Event_Catalog.thy ===== *)
theory Event_Catalog
  imports Session_Model
begin

text \<open>
  The list of past events, \<^verbatim>\<open>src/core/event_catalog.{h,cpp}\<close>: the ids of the room's index and of a scan
  of the flat namespace, the classification of each event by its manifest, and a refresh, which
  replaces the rows shown or, when a listing fails, leaves them. The loops over the pages of a
  listing stop at \<open>kMaxPages\<close> and so end whatever the store answers. The answers of the store are
  the argument \<open>catalog_answers\<close>.
\<close>

section \<open>Data\<close>

datatype event_state = E_Unknown | E_Live | E_Recording | E_Interrupted

fun event_state_to_string :: "event_state \<Rightarrow> string" where
  "event_state_to_string E_Live = ''live''"
| "event_state_to_string E_Recording = ''recording''"
| "event_state_to_string E_Interrupted = ''interrupted''"
| "event_state_to_string E_Unknown = ''unknown''"

record event_summary =
  es_event_id :: string
  es_room_id :: string
  es_name :: string
  es_started_at_ms :: i64
  es_last_update_ms :: i64
  es_state :: event_state
  es_latest_seq :: u64
  es_first_available_seq :: u64
  es_duration_s :: double
  es_is_live_pointer :: bool

record catalog_config =
  cc_room_id :: string
  cc_stale_after_ms :: int
  cc_max_events :: int

definition catalog_config_default :: catalog_config where
  "catalog_config_default = \<lparr>cc_room_id = ''main-auditorium'', cc_stale_after_ms = 600000, cc_max_events = 0\<rparr>"

record catalog =
  ct_events :: "event_summary list"
  ct_last_error :: string
  ct_fallback :: bool
  ct_skipped :: nat

text \<open>
  What a refresh meets: the GET of the live pointer, the pages of the two listings (the answer to
  the \<open>i\<close>-th request of each), and the GETs of the descriptor and the manifest of an event.
\<close>

record catalog_answers =
  ca_live :: get_result
  ca_index :: "nat \<Rightarrow> list_result"
  ca_scan :: "nat \<Rightarrow> list_result"
  ca_event :: "string \<Rightarrow> get_result"
  ca_manifest :: "string \<Rightarrow> get_result"

definition kMaxPages :: nat where
  "kMaxPages = 400"


section \<open>The ids of the room's events\<close>

text \<open>The room index, page after page; \<open>indexed\<close> is the \<^verbatim>\<open>std::set\<close> so far.\<close>

function index_loop :: "(nat \<Rightarrow> list_result) \<Rightarrow> nat \<Rightarrow> string list \<Rightarrow> string + string list" where
  "index_loop pages p indexed =
     (if p + 1 > kMaxPages then Inl (''the room index did not finish listing after '' @ nat_str kMaxPages @ '' pages'')
      else if \<not> lr_success (pages p) then Inl (lr_error (pages p))
      else let ids = filter (\<lambda>i. i \<noteq> []) (map (\<lambda>e. event_id_from_index_key (le_key e)) (lr_keys (pages p)));
               indexed1 = fold List.insert ids indexed
           in if next_token (pages p) = [] then Inr indexed1 else index_loop pages (p + 1) indexed1)"
  by pat_completeness auto
termination by (relation "measure (\<lambda>(pages, p, indexed). kMaxPages - p)") auto

text \<open>The flat namespace; \<open>have_some\<close> says that the index has given at least one id.\<close>

function scan_loop :: "bool \<Rightarrow> (nat \<Rightarrow> list_result) \<Rightarrow> nat \<Rightarrow> string list \<Rightarrow> string list \<Rightarrow> string + string list" where
  "scan_loop have_some pages p indexed candidates =
     (if p + 1 > kMaxPages then Inr candidates
      else if \<not> lr_success (pages p) then (if have_some then Inr candidates else Inl (lr_error (pages p)))
      else let ids = filter (\<lambda>i. i \<noteq> [] \<and> i \<notin> set indexed) (map event_id_from_index_key (lr_common_prefixes (pages p)));
               candidates1 = candidates @ ids
           in if next_token (pages p) = [] then Inr candidates1 else scan_loop have_some pages (p + 1) indexed candidates1)"
  by pat_completeness auto
termination by (relation "measure (\<lambda>(have_some, pages, p, indexed, candidates). kMaxPages - p)") auto

declare index_loop.simps [simp del] scan_loop.simps [simp del]

fun candidate_loop :: "catalog_config \<Rightarrow> (string \<Rightarrow> get_result) \<Rightarrow> string list \<Rightarrow> string list \<times> bool \<Rightarrow> string list \<times> bool" where
  "candidate_loop cfg event_get [] acc = acc"
| "candidate_loop cfg event_get (i # ids) (out, fallback) =
     (if cc_max_events cfg > 0 \<and> int (length out) \<ge> cc_max_events cfg then (out, fallback)
      else if \<not> gr_success (event_get i) then candidate_loop cfg event_get ids (out, fallback)
      else case parsed event_info_from_json (gr_body (event_get i)) of
             None \<Rightarrow> candidate_loop cfg event_get ids (out, fallback)
           | Some ev \<Rightarrow> if ev_room_id ev = cc_room_id cfg then candidate_loop cfg event_get ids (out @ [i], True)
                        else candidate_loop cfg event_get ids (out, fallback))"

text \<open>The ids and whether the scan found one the index lacks; on failure the error.\<close>

definition collect_event_ids :: "catalog_config \<Rightarrow> catalog_answers \<Rightarrow> string + string list \<times> bool" where
  "collect_event_ids cfg a =
     (case index_loop (ca_index a) 0 [] of
        Inl e \<Rightarrow> Inl e
      | Inr indexed \<Rightarrow>
          let out = sort indexed
          in case scan_loop (out \<noteq> []) (ca_scan a) 0 indexed [] of
               Inl e \<Rightarrow> Inl e
             | Inr candidates \<Rightarrow> Inr (candidate_loop cfg (ca_event a) (rev (sort candidates)) (out, False)))"


section \<open>Classifying an event\<close>

definition summary_duration :: "manifest \<Rightarrow> double" where
  "summary_duration m =
     (if mf_segments m = [] then 0
      else let s = last (mf_segments m); end_ms = ms_at_ms s + trunc (ms_duration_s s * 1000)
           in if end_ms > mf_started_at_ms m then real_of_int (end_ms - mf_started_at_ms m) / 1000 else 0)"

definition classify :: "catalog_config \<Rightarrow> live_pointer \<Rightarrow> i64 \<Rightarrow> string \<Rightarrow> get_result \<Rightarrow> event_summary option" where
  "classify cfg live now event_id g =
     (if \<not> gr_success g then None
      else case parsed manifest_from_json (gr_body g) of
        None \<Rightarrow> None
      | Some m \<Rightarrow>
          if mf_started_at_ms m \<le> 0 \<and> mf_latest_seq m = 0 \<and> mf_segments m = [] \<and> mf_status m \<noteq> ''live'' then None
          else Some \<lparr>es_event_id = event_id, es_room_id = cc_room_id cfg, es_name = mf_name m, es_started_at_ms = mf_started_at_ms m,
                 es_last_update_ms = mf_updated_at_ms m,
                 es_state = (if mf_status m = ''ended'' then E_Recording
                             else if mf_updated_at_ms m > 0 \<and> now - mf_updated_at_ms m > cc_stale_after_ms cfg then E_Interrupted
                             else E_Live),
                 es_latest_seq = mf_latest_seq m, es_first_available_seq = mf_first_available_seq m,
                 es_duration_s = summary_duration m, es_is_live_pointer = (lp_event_id live = event_id)\<rparr>)"


section \<open>Refreshing\<close>

definition catalog_live :: "catalog_answers \<Rightarrow> live_pointer" where
  "catalog_live a =
     (if gr_success (ca_live a)
      then (case parsed live_pointer_from_json (gr_body (ca_live a)) of Some lp \<Rightarrow> lp | None \<Rightarrow> live_pointer_default)
      else live_pointer_default)"

text \<open>
  The two calls of \<^verbatim>\<open>std::sort\<close> use strict orders in which only equal ids, or equal rows, tie, so
  the sorted order is determined; \<^verbatim>\<open>std::stable_partition\<close> puts the live rows first and keeps the order
  of both parts.
\<close>

definition sort_summaries :: "event_summary list \<Rightarrow> event_summary list" where
  "sort_summaries found =
     (let s = rev (sort_key (\<lambda>e. (es_started_at_ms e, es_event_id e)) found)
      in filter (\<lambda>e. es_state e = E_Live) s @ filter (\<lambda>e. es_state e \<noteq> E_Live) s)"

definition refresh_ids :: "catalog_config \<Rightarrow> string list \<Rightarrow> string list" where
  "refresh_ids cfg ids =
     (let s = rev (sort ids)
      in if cc_max_events cfg > 0 \<and> int (length s) > cc_max_events cfg then take (nat (cc_max_events cfg)) s else s)"

definition refresh :: "catalog_config \<Rightarrow> catalog_answers \<Rightarrow> i64 \<Rightarrow> catalog \<Rightarrow> catalog \<times> bool" where
  "refresh cfg a now c =
     (case collect_event_ids cfg a of
        Inl e \<Rightarrow> (c\<lparr>ct_last_error := ''could not list events: '' @ e, ct_fallback := False\<rparr>, False)
      | Inr (ids, fallback) \<Rightarrow>
          let rows = map (\<lambda>i. classify cfg (catalog_live a) now i (ca_manifest a i)) (refresh_ids cfg ids);
              skipped = length (filter (\<lambda>r. r = None) rows)
          in (\<lparr>ct_events = sort_summaries (List.map_filter id rows),
               ct_last_error = (if skipped > 0
                  then nat_str skipped @ '' event(s) listed but not playable '' @ [CHR 0xE2, CHR 0x80, CHR 0x94] @
                    '' either empty, or their content has been removed by retention''
                  else []),
               ct_fallback = fallback, ct_skipped = skipped\<rparr>, True))"


section \<open>The listings\<close>

lemma fold_insert_set [simp]: "set (fold List.insert xs ys) = set xs \<union> set ys"
  by (induction xs arbitrary: ys) auto

lemma fold_insert_distinct: "distinct ys \<Longrightarrow> distinct (fold List.insert xs ys)"
  by (induction xs arbitrary: ys) simp_all

definition ids_of :: "string list \<Rightarrow> string set" where
  "ids_of ks = {i. i \<noteq> [] \<and> i \<in> event_id_from_index_key ` set ks}"

lemma ids_of_append: "ids_of (xs @ ys) = ids_of xs \<union> ids_of ys"
  by (auto simp: ids_of_def)

lemma index_loop_full:
  assumes "full_listing pages n" "n \<le> kMaxPages" "p < n" "set indexed = ids_of (page_keys pages p)" "distinct indexed"
  shows "\<exists>out. index_loop pages p indexed = Inr out \<and> set out = ids_of (page_keys pages n) \<and> distinct out"
  using assms(3-5)
proof (induction "n - p" arbitrary: p indexed)
  case (Suc m)
  note at = full_listing_at [OF assms(1) Suc.prems(1)]
  let ?ids = "filter (\<lambda>i. i \<noteq> []) (map (\<lambda>e. event_id_from_index_key (le_key e)) (lr_keys (pages p)))"
  let ?ix = "fold List.insert ?ids indexed"
  have ix: "set ?ix = ids_of (page_keys pages (Suc p))" "distinct ?ix"
    using Suc.prems(2,3) by (auto simp: ids_of_append ids_of_def fold_insert_distinct)
  show ?case
  proof (cases "Suc p = n")
    case True
    then show ?thesis using at ix assms(2) by (simp add: index_loop.simps [of pages p])
  next
    case False
    then have "\<exists>out. index_loop pages (Suc p) ?ix = Inr out \<and> set out = ids_of (page_keys pages n) \<and> distinct out"
      using Suc ix by simp
    then show ?thesis using at False Suc.prems(1) assms(2) by (simp add: index_loop.simps [of pages p])
  qed
qed simp

lemma scan_loop_full:
  assumes "full_listing pages n" "n \<le> kMaxPages" "p < n" "set cands = ids_of (page_groups pages p) - set indexed"
  shows "\<exists>out. scan_loop b pages p indexed cands = Inr out \<and> set out = ids_of (page_groups pages n) - set indexed"
  using assms(3-4)
proof (induction "n - p" arbitrary: p cands)
  case (Suc m)
  note at = full_listing_at [OF assms(1) Suc.prems(1)]
  let ?ids = "filter (\<lambda>i. i \<noteq> [] \<and> i \<notin> set indexed) (map event_id_from_index_key (lr_common_prefixes (pages p)))"
  have c: "set (cands @ ?ids) = ids_of (page_groups pages (Suc p)) - set indexed"
    using Suc.prems(2) by (auto simp: ids_of_append) (auto simp: ids_of_def)
  show ?case
  proof (cases "Suc p = n")
    case True
    then show ?thesis using at c assms(2) by (simp add: scan_loop.simps [of b pages p])
  next
    case False
    then have "\<exists>out. scan_loop b pages (Suc p) indexed (cands @ ?ids) = Inr out \<and> set out = ids_of (page_groups pages n) - set indexed"
      using Suc c by simp
    then show ?thesis using at False Suc.prems(1) assms(2) by (simp add: scan_loop.simps [of b pages p])
  qed
qed simp

definition names_room :: "catalog_config \<Rightarrow> get_result \<Rightarrow> bool" where
  "names_room cfg g = (gr_success g \<and> (\<exists>ev. parsed event_info_from_json (gr_body g) = Some ev \<and> ev_room_id ev = cc_room_id cfg))"

lemma candidate_loop_uncapped:
  assumes "cc_max_events cfg \<le> 0"
  shows "candidate_loop cfg g ids (out, fb) = (out @ filter (\<lambda>i. names_room cfg (g i)) ids, fb \<or> (\<exists>i\<in>set ids. names_room cfg (g i)))"
  using assms by (induction ids arbitrary: out fb) (auto simp: names_room_def split: option.splits)


section \<open>Every event of the room, and no other\<close>

text \<open>The store answers a GET with what it holds.\<close>

definition serves :: "bucket \<Rightarrow> string \<Rightarrow> get_result \<Rightarrow> bool" where
  "serves bkt key g = (case bkt key of None \<Rightarrow> \<not> gr_success g | Some b \<Rightarrow> gr_success g \<and> gr_body g = b)"

definition event_json_key :: "string \<Rightarrow> string" where
  "event_json_key e = event_prefix_for e @ ''event.json''"

definition in_room :: "bucket \<Rightarrow> string \<Rightarrow> string \<Rightarrow> bool" where
  "in_room bkt room e =
     (room_event_key room e \<in> dom bkt \<or>
      (\<exists>b ev. bkt (event_json_key e) = Some b \<and> parsed event_info_from_json b = Some ev \<and> ev_room_id ev = room))"

definition playable :: "bucket \<Rightarrow> string \<Rightarrow> bool" where
  "playable bkt e =
     (\<exists>b m. bkt (manifest_key e) = Some b \<and> parsed manifest_from_json b = Some m \<and>
        (0 < mf_started_at_ms m \<or> mf_latest_seq m \<noteq> 0 \<or> mf_segments m \<noteq> [] \<or> mf_status m = ''live''))"

lemma classify_id: "classify cfg live now e g = Some s \<Longrightarrow> es_event_id s = e"
  by (auto simp: classify_def split: if_splits option.splits)

lemma classify_playable:
  assumes "serves bkt (manifest_key e) g"
  shows "classify cfg live now e g \<noteq> None \<longleftrightarrow> playable bkt e"
  using assms by (auto simp: serves_def classify_def playable_def split: option.splits)

definition event_id_ok :: "string \<Rightarrow> bool" where
  "event_id_ok e = (e \<noteq> [] \<and> CHR ''/'' \<notin> set e)"

definition index_ok :: "bucket \<Rightarrow> string \<Rightarrow> bool" where
  "index_ok bkt room = (\<forall>k\<in>dom bkt. key_under (room_events_prefix room) k \<longrightarrow> (\<exists>e. event_id_ok e \<and> k = room_event_key room e))"

lemma ids_of_index:
  assumes "index_ok bkt room" "set ks = {k \<in> dom bkt. key_under (room_events_prefix room) k}"
  shows "ids_of ks = {e. event_id_ok e \<and> room_event_key room e \<in> dom bkt}"
proof -
  have id: "event_id_from_index_key (room_event_key room e) = e" if "event_id_ok e" for e
    using that event_id_from_room_event_key by (simp add: event_id_ok_def)
  have "i \<in> ids_of ks \<longleftrightarrow> event_id_ok i \<and> room_event_key room i \<in> dom bkt" for i
  proof
    assume "i \<in> ids_of ks"
    then obtain k where k: "k \<in> dom bkt" "key_under (room_events_prefix room) k" "i = event_id_from_index_key k" using assms(2) by (auto simp: ids_of_def)
    then obtain e where "event_id_ok e" "k = room_event_key room e" using assms(1) by (auto simp: index_ok_def)
    then show "event_id_ok i \<and> room_event_key room i \<in> dom bkt" using k id by simp
  next
    assume a: "event_id_ok i \<and> room_event_key room i \<in> dom bkt"
    then have "room_event_key room i \<in> set ks" using assms(2) by (auto simp: room_event_key_def)
    then show "i \<in> ids_of ks" using a id [of i] by (force simp: ids_of_def event_id_ok_def)
  qed
  then show ?thesis by blast
qed

lemma group_listed:
  assumes "set gs = {''events/'' @ x @ ''/'' | x y. CHR ''/'' \<notin> set x \<and> ''events/'' @ x @ ''/'' @ y \<in> dom bkt}"
    "event_id_ok e" "event_json_key e \<in> dom bkt"
  shows "e \<in> ids_of gs"
proof -
  have "event_prefix_for e \<in> set gs"
    unfolding assms(1) event_prefix_for_def using assms(2,3)
    by (auto simp only: event_id_ok_def event_json_key_def event_prefix_for_def append.assoc mem_Collect_eq)
  then show ?thesis using event_id_from_prefix [of e] assms(2) by (force simp: ids_of_def event_id_ok_def)
qed

text \<open>The ids collected from honest listings.\<close>

lemma collect_ids_exact:
  assumes "lists_keys bkt (room_events_prefix (cc_room_id cfg)) (ca_index a) n" "n \<le> kMaxPages"
    "lists_groups bkt ''events/'' (ca_scan a) n'" "n' \<le> kMaxPages"
    "\<And>e. serves bkt (event_json_key e) (ca_event a e)" "index_ok bkt (cc_room_id cfg)" "cc_max_events cfg \<le> 0"
  shows "\<exists>ids fb. collect_event_ids cfg a = Inr (ids, fb) \<and> (\<forall>e. event_id_ok e \<longrightarrow> (e \<in> set ids \<longleftrightarrow> in_room bkt (cc_room_id cfg) e))"
proof -
  let ?ix = "page_keys (ca_index a) n" and ?gs = "page_groups (ca_scan a) n'" and ?room = "cc_room_id cfg"
  have ks: "set ?ix = {k \<in> dom bkt. key_under (room_events_prefix ?room) k}" and f: "full_listing (ca_index a) n"
    using assms(1) by (simp_all add: lists_keys_def)
  have gs: "set ?gs = {''events/'' @ x @ ''/'' | x y. CHR ''/'' \<notin> set x \<and> ''events/'' @ x @ ''/'' @ y \<in> dom bkt}"
    and f': "full_listing (ca_scan a) n'" using assms(3) by (simp_all add: lists_groups_def)
  have "0 < n" "0 < n'" using f f' by (simp_all add: full_listing_def)
  then obtain ix where ix: "index_loop (ca_index a) 0 [] = Inr ix" "set ix = ids_of ?ix"
    using index_loop_full [OF f assms(2), of 0 "[]"] by (auto simp: ids_of_def)
  obtain cs where cs: "scan_loop (sort ix \<noteq> []) (ca_scan a) 0 ix [] = Inr cs" "set cs = ids_of ?gs - set ix"
    using scan_loop_full [OF f' assms(4) \<open>0 < n'\<close>, of "[]" ix "sort ix \<noteq> []"] by (auto simp: ids_of_def)
  let ?ids = "sort ix @ filter (\<lambda>i. names_room cfg (ca_event a i)) (rev (sort cs))"
  have eq: "collect_event_ids cfg a = Inr (?ids, \<exists>i\<in>set (rev (sort cs)). names_room cfg (ca_event a i))"
    using ix(1) cs(1) candidate_loop_uncapped [OF assms(7)] by (simp add: collect_event_ids_def Let_def)
  have room: "names_room cfg (ca_event a e) \<longleftrightarrow>
      (\<exists>b ev. bkt (event_json_key e) = Some b \<and> parsed event_info_from_json b = Some ev \<and> ev_room_id ev = ?room)" for e
    using assms(5) [of e] by (auto simp: names_room_def serves_def split: option.splits)
  have "e \<in> set ?ids \<longleftrightarrow> in_room bkt ?room e" if "event_id_ok e" for e
  proof -
    have i: "e \<in> set ix \<longleftrightarrow> room_event_key ?room e \<in> dom bkt" using ids_of_index [OF assms(6) ks] ix(2) that by auto
    have "e \<in> ids_of ?gs" if "names_room cfg (ca_event a e)"
      using group_listed [OF gs \<open>event_id_ok e\<close>] that by (auto simp: room)
    then show ?thesis using i cs(2) by (auto simp: in_room_def room)
  qed
  then show ?thesis using eq by blast
qed

section \<open>Order of the rows\<close>

definition row_before :: "event_summary \<Rightarrow> event_summary \<Rightarrow> bool" where
  "row_before x y =
     (if (es_state x = E_Live) = (es_state y = E_Live)
      then (es_started_at_ms y, es_event_id y) \<le> (es_started_at_ms x, es_event_id x) else es_state x = E_Live)"

lemma sort_summaries_order: "sorted_wrt row_before (sort_summaries found)"
proof -
  let ?k = "\<lambda>e. (es_started_at_ms e, es_event_id e)" and ?s = "rev (sort_key (\<lambda>e. (es_started_at_ms e, es_event_id e)) found)"
  have "sorted_wrt (\<lambda>x y. ?k x \<le> ?k y) (sort_key ?k found)"
    using sorted_sort_key [of ?k found] by (simp add: sorted_wrt_map)
  then have "sorted_wrt (\<lambda>x y. ?k y \<le> ?k x) ?s" by (simp add: sorted_wrt_rev)
  then have part: "sorted_wrt (\<lambda>x y. ?k y \<le> ?k x) (filter P ?s)" for P by (rule sorted_wrt_filter)
  have live: "sorted_wrt row_before (filter (\<lambda>e. es_state e = E_Live) ?s)"
    by (rule sorted_wrt_mono_rel [OF _ part]) (auto simp: row_before_def)
  have rest: "sorted_wrt row_before (filter (\<lambda>e. es_state e \<noteq> E_Live) ?s)"
    by (rule sorted_wrt_mono_rel [OF _ part]) (auto simp: row_before_def)
  show ?thesis unfolding sort_summaries_def Let_def sorted_wrt_append using live rest by (auto simp: row_before_def)
qed

lemma sort_summaries_set [simp]: "set (sort_summaries found) = set found"
  by (auto simp: sort_summaries_def Let_def)

lemma refresh_ids_uncapped: "cc_max_events cfg \<le> 0 \<Longrightarrow> set (refresh_ids cfg ids) = set ids"
  by (simp add: refresh_ids_def Let_def)

lemma refresh_rows:
  "es_event_id ` set (List.map_filter id (map (\<lambda>i. classify cfg live now i (g i)) ids)) = {i \<in> set ids. classify cfg live now i (g i) \<noteq> None}"
proof -
  have "set (List.map_filter id (map (\<lambda>i. classify cfg live now i (g i)) ids)) = {s. \<exists>i\<in>set ids. classify cfg live now i (g i) = Some s}"
    by (force simp: set_map_filter)
  then show ?thesis by (auto simp: image_iff dest: classify_id)
qed

text \<open>The empty string is never an id.\<close>

lemma index_loop_ids: "index_loop pages p ix = Inr out \<Longrightarrow> [] \<notin> set ix \<Longrightarrow> [] \<notin> set out"
proof (induction pages p ix rule: index_loop.induct)
  case (1 pages p ix)
  then show ?case by (auto simp: index_loop.simps [of pages p] Let_def split: if_splits)
qed

lemma scan_loop_ids: "scan_loop b pages p ix cs = Inr out \<Longrightarrow> [] \<notin> set cs \<Longrightarrow> [] \<notin> set out"
proof (induction b pages p ix cs rule: scan_loop.induct)
  case (1 b pages p ix cs)
  then show ?case by (auto simp: scan_loop.simps [of b pages p] Let_def split: if_splits)
qed

lemma candidate_loop_ids: "set (fst (candidate_loop cfg g ids acc)) \<subseteq> set (fst acc) \<union> set ids"
  by (induction cfg g ids acc rule: candidate_loop.induct) (auto split: option.splits if_splits)

lemma refresh_ids_nonempty:
  assumes "refresh cfg a now c = (c', True)" "s \<in> set (ct_events c')"
  shows "es_event_id s \<noteq> []"
proof -
  obtain ids fb where ids: "collect_event_ids cfg a = Inr (ids, fb)"
    using assms(1) by (auto simp: refresh_def split: sum.splits)
  then obtain ix cs where l: "index_loop (ca_index a) 0 [] = Inr ix" "scan_loop (sort ix \<noteq> []) (ca_scan a) 0 ix [] = Inr cs"
    "ids = fst (candidate_loop cfg (ca_event a) (rev (sort cs)) (sort ix, False))"
    by (auto simp: collect_event_ids_def Let_def split: sum.splits)
  have "[] \<notin> set ids" using index_loop_ids [OF l(1)] scan_loop_ids [OF l(2)] candidate_loop_ids [of cfg "ca_event a" "rev (sort cs)" "(sort ix, False)"]
    by (auto simp: l(3))
  moreover have "set (refresh_ids cfg ids) \<subseteq> set ids" by (auto simp: refresh_ids_def Let_def dest: in_set_takeD)
  moreover have "es_event_id s \<in> set (refresh_ids cfg ids)"
    using assms ids refresh_rows [of cfg "catalog_live a" now "ca_manifest a" "refresh_ids cfg ids"] by (auto simp: refresh_def Let_def)
  ultimately show ?thesis by auto
qed


section \<open>Properties\<close>

text \<open>
  C15: The catalog shows the events of its room. When the store answers its listings in full (within
  400 pages each) and its GETs with what it holds, a refresh succeeds and an event id is listed exactly
  when the room's index has an entry for it, or its own descriptor names the room, and its manifest
  can be read and has recorded something; the rows are in order, events on air first and the newest first
  among each kind. A refresh that fails leaves the rows of the one before in place.
\<close>

theorem catalog_exact:
  assumes "lists_keys bkt (room_events_prefix (cc_room_id cfg)) (ca_index a) n" "n \<le> kMaxPages"
    "lists_groups bkt ''events/'' (ca_scan a) n'" "n' \<le> kMaxPages" "index_ok bkt (cc_room_id cfg)"
    "\<And>e. serves bkt (event_json_key e) (ca_event a e)" "\<And>e. serves bkt (manifest_key e) (ca_manifest a e)" "cc_max_events cfg \<le> 0"
  shows "(\<exists>c'. refresh cfg a now c = (c', True) \<and> sorted_wrt row_before (ct_events c') \<and>
      (\<forall>e. event_id_ok e \<longrightarrow> (e \<in> es_event_id ` set (ct_events c') \<longleftrightarrow> in_room bkt (cc_room_id cfg) e \<and> playable bkt e))) \<and>
    (\<forall>a' c'. refresh cfg a' now c = (c', False) \<longrightarrow> ct_events c' = ct_events c)"
proof -
  obtain ids fb where ids: "collect_event_ids cfg a = Inr (ids, fb)" "\<forall>e. event_id_ok e \<longrightarrow> (e \<in> set ids \<longleftrightarrow> in_room bkt (cc_room_id cfg) e)"
    using collect_ids_exact [OF assms(1-4,6,5,8)] by blast
  let ?rows = "List.map_filter id (map (\<lambda>i. classify cfg (catalog_live a) now i (ca_manifest a i)) (refresh_ids cfg ids))"
  obtain c' where c': "refresh cfg a now c = (c', True)" "ct_events c' = sort_summaries ?rows"
    using ids(1) by (simp add: refresh_def Let_def)
  have "es_event_id ` set (ct_events c') = {i \<in> set ids. playable bkt i}"
    using refresh_rows [of cfg "catalog_live a" now "ca_manifest a" "refresh_ids cfg ids"] classify_playable [OF assms(7)]
    by (simp add: c'(2) refresh_ids_uncapped [OF assms(8)])
  moreover have "ct_events c2 = ct_events c" if "refresh cfg a2 now c = (c2, False)" for a2 c2
    using that by (auto simp: refresh_def Let_def split: sum.splits prod.splits)
  ultimately show ?thesis using c' ids(2) sort_summaries_order by auto
qed


section \<open>Witnesses\<close>

text \<open>A store with one finished event of the room, found through the index.\<close>

definition ex_page :: "string list \<Rightarrow> string list \<Rightarrow> list_result" where
  "ex_page ks gs = \<lparr>lr_success = True, lr_http_status = 200, lr_retryable = True, lr_error = [], lr_common_prefixes = gs,
     lr_keys = map (\<lambda>k. \<lparr>le_key = k, le_size = 2, le_last_modified = []\<rparr>) ks, lr_truncated = False, lr_next_continuation_token = []\<rparr>"

definition ex_recorded :: manifest where
  "ex_recorded = manifest_default\<lparr>mf_event_id := ''E'', mf_status := ''ended'', mf_started_at_ms := 5\<rparr>"

definition ex_room_store :: bucket where
  "ex_room_store = [manifest_key ''E'' \<mapsto> Doc (manifest_to_json ex_recorded), room_event_key ''main-auditorium'' ''E'' \<mapsto> Bytes []]"

definition ex_get :: "string \<Rightarrow> get_result" where
  "ex_get k = (case ex_room_store k of None \<Rightarrow> get_result_default | Some b \<Rightarrow> get_result_default\<lparr>gr_success := True, gr_body := b\<rparr>)"

definition ex_catalog :: catalog_answers where
  "ex_catalog = \<lparr>ca_live = get_result_default, ca_index = (\<lambda>_. ex_page [room_event_key ''main-auditorium'' ''E''] []),
     ca_scan = (\<lambda>_. ex_page [] [event_prefix_for ''E'']), ca_event = (\<lambda>e. ex_get (event_json_key e)),
     ca_manifest = (\<lambda>e. ex_get (manifest_key e))\<rparr>"

lemma ex_get_serves: "serves ex_room_store k (ex_get k)"
  by (simp add: serves_def ex_get_def get_result_default_def split: option.splits)

lemma ex_recorded_roundtrip: "manifest_from_json (manifest_to_json ex_recorded) = Inr ex_recorded"
proof -
  have "manifest_wire_ok ex_recorded" "mf_audio_tracks ex_recorded = []"
    by (simp_all add: ex_recorded_def manifest_wire_ok_def manifest_default_def version_ok_def kProtocolVersion_def
        int64_ok_def video_ok_def video_info_default_def int32_ok_def layout_valid_def tile_layout_default_def)
  then show ?thesis using manifest_roundtrip [of ex_recorded] by simp
qed

lemma ex_room_store_dom: "dom ex_room_store = {manifest_key ''E'', room_event_key ''main-auditorium'' ''E''}"
  by (auto simp: ex_room_store_def)

lemmas ex_keys = manifest_key_def event_prefix_for_def room_event_key_def room_events_prefix_def

theorem catalog_exact_witness:
  "\<exists>c'. refresh catalog_config_default ex_catalog 9 \<lparr>ct_events = [], ct_last_error = [], ct_fallback = False, ct_skipped = 0\<rparr> = (c', True) \<and>
     ''E'' \<in> es_event_id ` set (ct_events c')"
proof -
  let ?c = "\<lparr>ct_events = [], ct_last_error = [], ct_fallback = False, ct_skipped = 0\<rparr>" and ?cfg = catalog_config_default
  have full: "full_listing (\<lambda>_. ex_page ks gs) 1" for ks gs by (simp add: full_listing_def ex_page_def next_token_def)
  have "lists_keys ex_room_store (room_events_prefix (cc_room_id ?cfg)) (ca_index ex_catalog) 1"
    using full [of "[room_event_key ''main-auditorium'' ''E'']" "[]"]
    by (auto simp: lists_keys_def ex_catalog_def page_keys_def ex_room_store_dom catalog_config_default_def ex_page_def ex_keys key_under_def)
  moreover have "lists_groups ex_room_store ''events/'' (ca_scan ex_catalog) 1"
  proof -
    have "{''events/'' @ x @ ''/'' | x y. CHR ''/'' \<notin> set x \<and> ''events/'' @ x @ ''/'' @ y \<in> dom ex_room_store} = {event_prefix_for ''E''}"
    proof (intro set_eqI iffI)
      fix k assume "k \<in> {''events/'' @ x @ ''/'' | x y. CHR ''/'' \<notin> set x \<and> ''events/'' @ x @ ''/'' @ y \<in> dom ex_room_store}"
      then obtain x y where x: "CHR ''/'' \<notin> set x" "k = ''events/'' @ x @ ''/''" "x @ CHR ''/'' # y = ''E'' @ CHR ''/'' # ''manifest.json''"
        by (auto simp: ex_room_store_dom ex_keys)
      from x(3,1) have "x = ''E''" by (cases x) (auto simp: Cons_eq_append_conv append_eq_Cons_conv)
      then show "k \<in> {event_prefix_for ''E''}" using x(2) by (simp add: event_prefix_for_def)
    qed (auto simp: ex_room_store_dom ex_keys intro!: exI [of _ "''E''"])
    then show ?thesis using full by (simp add: lists_groups_def ex_catalog_def page_groups_def) (simp add: ex_page_def)
  qed
  moreover have "index_ok ex_room_store (cc_room_id ?cfg)"
    unfolding index_ok_def ex_room_store_dom by (auto simp: catalog_config_default_def event_id_ok_def ex_keys key_under_def intro!: exI [of _ "''E''"])
  ultimately have "\<exists>c'. refresh ?cfg ex_catalog 9 ?c = (c', True) \<and> sorted_wrt row_before (ct_events c') \<and>
      (\<forall>e. event_id_ok e \<longrightarrow> (e \<in> es_event_id ` set (ct_events c') \<longleftrightarrow> in_room ex_room_store (cc_room_id ?cfg) e \<and> playable ex_room_store e))"
    using catalog_exact [of ex_room_store ?cfg ex_catalog 1 1 9 ?c] ex_get_serves
    by (simp add: kMaxPages_def ex_catalog_def catalog_config_default_def)
  moreover have "in_room ex_room_store (cc_room_id ?cfg) ''E''" by (simp add: in_room_def ex_room_store_dom catalog_config_default_def)
  moreover have "playable ex_room_store ''E''"
  proof -
    have "manifest_key ''E'' \<noteq> room_event_key ''main-auditorium'' ''E''" by (simp add: ex_keys)
    then have "ex_room_store (manifest_key ''E'') = Some (Doc (manifest_to_json ex_recorded))" by (simp add: ex_room_store_def)
    then show ?thesis by (simp add: playable_def parsed_def ex_recorded_roundtrip) (simp add: ex_recorded_def)
  qed
  ultimately show ?thesis by (auto simp: event_id_ok_def)
qed

end
