(* ===== verification/Storage_Manager.thy ===== *)
theory Storage_Manager
  imports Event_Catalog
begin

text \<open>
  The operator's storage window, \<^verbatim>\<open>src/core/storage_manager.{h,cpp}\<close>: the events of the room with
  what each holds, deleting one event, and the clean-up of events older than a number of days. A
  deletion is permanent, so the properties say what it may touch. The answers of the store are inputs
  (\<open>delete_answers\<close>), and so is the operator's progress callback, a function of the progress it is
  shown, which cancels by returning false.
\<close>

section \<open>Data\<close>

definition kMaxPagesPerPrefix :: nat where
  "kMaxPagesPerPrefix = 400"

record managed_event =
  me_event_id :: string
  me_name :: string
  me_started_at_ms :: i64
  me_state :: event_state
  me_is_live :: bool
  me_objects :: u64
  me_bytes :: u64
  me_size_known :: bool
  me_size_error :: string

definition managed_event_default :: managed_event where
  "managed_event_default = \<lparr>me_event_id = [], me_name = [], me_started_at_ms = 0, me_state = E_Unknown, me_is_live = False,
     me_objects = 0, me_bytes = 0, me_size_known = False, me_size_error = []\<rparr>"

text \<open>The time a listing took is a clock reading and is left out of its statistics.\<close>

record list_stats =
  ls_requests :: int
  ls_events :: int
  ls_tallies_failed :: int
  ls_cancelled :: bool

definition list_stats_default :: list_stats where
  "list_stats_default = \<lparr>ls_requests = 0, ls_events = 0, ls_tallies_failed = 0, ls_cancelled = False\<rparr>"

definition count_request :: "list_stats \<Rightarrow> list_stats" where
  "count_request s = s\<lparr>ls_requests := ls_requests s + 1\<rparr>"

record delete_progress =
  dp_event_id :: string
  dp_event_name :: string
  dp_event_index :: u64
  dp_event_count :: u64
  dp_objects_done :: u64
  dp_objects_total :: u64

record delete_report =
  dr_ok :: bool
  dr_objects_deleted :: u64
  dr_bytes_freed :: u64
  dr_confirmed :: bool
  dr_cancelled :: bool
  dr_error :: string
  dr_events_considered :: u64
  dr_events_matched :: u64
  dr_events_deleted :: u64
  dr_events_undated :: u64
  dr_events_live_kept :: u64
  dr_deleted_ids :: "string list"

definition delete_report_default :: delete_report where
  "delete_report_default = \<lparr>dr_ok = False, dr_objects_deleted = 0, dr_bytes_freed = 0, dr_confirmed = False, dr_cancelled = False,
     dr_error = [], dr_events_considered = 0, dr_events_matched = 0, dr_events_deleted = 0, dr_events_undated = 0,
     dr_events_live_kept = 0, dr_deleted_ids = []\<rparr>"

text \<open>
  What deleting an event meets: the GET of the live pointer, the pages of the listing of its
  objects, the answers to the DELETEs (and whether a failed one had landed), and the pages of the listing
  afterwards.
\<close>

record delete_answers =
  da_live :: get_result
  da_pages :: "nat \<Rightarrow> list_result"
  da_removes :: "nat \<Rightarrow> delete_result \<times> bool"
  da_again :: "nat \<Rightarrow> list_result"


section \<open>The time in an event id\<close>

definition to_upper :: "char \<Rightarrow> char" where
  "to_upper c = (if is_lower c then char_of ((of_char c :: nat) - 32) else c)"

fun index_of :: "'a \<Rightarrow> 'a list \<Rightarrow> nat option" where
  "index_of x [] = None"
| "index_of x (y # ys) = (if x = y then Some 0 else map_option Suc (index_of x ys))"

fun b32_value :: "string \<Rightarrow> i64 \<Rightarrow> i64 option" where
  "b32_value [] ms = Some ms"
| "b32_value (c # cs) ms =
     (if c = CHR 0x00 then None
      else case index_of (to_upper c) b32_alphabet of None \<Rightarrow> None | Some d \<Rightarrow> b32_value cs (ms * 32 + int d))"

definition event_id_time_ms :: "i64 \<Rightarrow> string \<Rightarrow> i64" where
  "event_id_time_ms clock event_id =
     (if length event_id < 10 then 0
      else case b32_value (take 10 event_id) 0 of
             None \<Rightarrow> 0
           | Some ms \<Rightarrow> if ms < 1577836800000 \<or> ms > clock + 24 * 60 * 60 * 1000 then 0 else ms)"


section \<open>Listing\<close>

definition live_event_id :: "get_result \<Rightarrow> string" where
  "live_event_id g =
     (if \<not> gr_success g then [] else case parsed live_pointer_from_json (gr_body g) of None \<Rightarrow> [] | Some lp \<Rightarrow> lp_event_id lp)"

text \<open>The objects under a prefix and their summed sizes; \<open>cancel p\<close> is the flag before page \<open>p\<close>.\<close>

definition page_bytes :: "list_result \<Rightarrow> u64 \<Rightarrow> u64" where
  "page_bytes r n = fold (\<lambda>e b. if le_size e > 0 then (b + nat (le_size e)) mod 2 ^ 64 else b) (lr_keys r) n"

function list_prefix_loop :: "string \<Rightarrow> (nat \<Rightarrow> bool) \<Rightarrow> (nat \<Rightarrow> list_result) \<Rightarrow> nat \<Rightarrow> string list \<Rightarrow> u64 \<Rightarrow> list_stats \<Rightarrow>
    list_stats \<times> (string + string list \<times> u64)" where
  "list_prefix_loop pfx cancel pages p keys bytes st =
     (if cancel p then (st, Inl ''cancelled'')
      else if p + 1 > kMaxPagesPerPrefix
      then (st, Inl (''listing '' @ pfx @ '' did not finish after '' @ nat_str kMaxPagesPerPrefix @ '' pages''))
      else let st1 = count_request st; r = pages p
           in if \<not> lr_success r then (st1, Inl (lr_error r))
              else let keys1 = keys @ map le_key (lr_keys r); bytes1 = page_bytes r bytes
                   in if next_token r = [] then (st1, Inr (keys1, bytes1))
                      else list_prefix_loop pfx cancel pages (p + 1) keys1 bytes1 st1)"
  by pat_completeness auto
termination by (relation "measure (\<lambda>(pfx, cancel, pages, p, keys, bytes, st). kMaxPagesPerPrefix - p)") auto

declare list_prefix_loop.simps [simp del]

definition list_prefix :: "string \<Rightarrow> (nat \<Rightarrow> bool) \<Rightarrow> (nat \<Rightarrow> list_result) \<Rightarrow> list_stats \<Rightarrow> list_stats \<times> (string + string list \<times> u64)" where
  "list_prefix pfx cancel pages st = list_prefix_loop pfx cancel pages 0 [] 0 st"

definition manager_config :: "string \<Rightarrow> catalog_config" where
  "manager_config room_id = \<lparr>cc_room_id = room_id, cc_stale_after_ms = 600000, cc_max_events = 0\<rparr>"

definition managed_of :: "string \<Rightarrow> event_summary \<Rightarrow> managed_event" where
  "managed_of live s = managed_event_default\<lparr>me_event_id := es_event_id s, me_name := es_name s,
     me_started_at_ms := es_started_at_ms s, me_state := es_state s, me_is_live := (live \<noteq> [] \<and> live = es_event_id s)\<rparr>"

definition sort_managed :: "managed_event list \<Rightarrow> managed_event list" where
  "sort_managed es =
     (let s = rev (sort_key (\<lambda>e. (me_started_at_ms e, me_event_id e)) es)
      in filter me_is_live s @ filter (\<lambda>e. \<not> me_is_live e) s)"

definition list_events :: "string \<Rightarrow> catalog_answers \<Rightarrow> i64 \<Rightarrow> bool \<Rightarrow> get_result \<Rightarrow> catalog \<Rightarrow>
    catalog \<times> list_stats \<times> (string + managed_event list)" where
  "list_events room_id ca clock cancelled live_get cat =
     (case refresh (manager_config room_id) ca clock cat of
        (cat1, ok) \<Rightarrow>
          if \<not> ok then (cat1, list_stats_default, Inl (ct_last_error cat1))
          else if cancelled then (cat1, list_stats_default\<lparr>ls_cancelled := True\<rparr>, Inl ''cancelled'')
          else let st = count_request list_stats_default;
                   out = sort_managed (map (managed_of (live_event_id live_get)) (ct_events cat1))
               in (cat1, st\<lparr>ls_events := int (length out)\<rparr>, Inr out))"

definition tally_size :: "(nat \<Rightarrow> bool) \<Rightarrow> (nat \<Rightarrow> list_result) \<Rightarrow> list_stats \<Rightarrow> managed_event \<Rightarrow> list_stats \<times> managed_event \<times> bool" where
  "tally_size cancel pages st e =
     (case list_prefix (event_prefix_for (me_event_id e)) cancel pages st of
        (st1, Inl err) \<Rightarrow>
          (if err \<noteq> ''cancelled'' then st1\<lparr>ls_tallies_failed := ls_tallies_failed st1 + 1\<rparr> else st1,
           e\<lparr>me_size_known := False, me_size_error := err\<rparr>, False)
      | (st1, Inr (keys, bytes)) \<Rightarrow>
          (st1, e\<lparr>me_objects := length keys, me_bytes := bytes, me_size_known := True, me_size_error := []\<rparr>, True))"

text \<open>\<^verbatim>\<open>list\<close>: both halves. \<open>cancels i\<close> is the flag before event \<open>i\<close>, \<open>meets i\<close> what its tally meets.\<close>

fun tally_all :: "(nat \<Rightarrow> bool) \<Rightarrow> (nat \<Rightarrow> (nat \<Rightarrow> bool) \<times> (nat \<Rightarrow> list_result)) \<Rightarrow> nat \<Rightarrow> managed_event list \<Rightarrow> managed_event list \<Rightarrow>
    list_stats \<Rightarrow> list_stats \<times> managed_event list \<times> bool" where
  "tally_all cancels meets i done_events [] st = (st, done_events, True)"
| "tally_all cancels meets i done_events (e # es) st =
     (if cancels i then (st\<lparr>ls_cancelled := True\<rparr>, done_events @ e # es, False)
      else case tally_size (fst (meets i)) (snd (meets i)) st e of
             (st1, e1, ok) \<Rightarrow> tally_all cancels meets (i + 1) (done_events @ [e1]) es st1)"

definition list_all_events :: "string \<Rightarrow> catalog_answers \<Rightarrow> i64 \<Rightarrow> bool \<Rightarrow> get_result \<Rightarrow> (nat \<Rightarrow> bool) \<Rightarrow>
    (nat \<Rightarrow> (nat \<Rightarrow> bool) \<times> (nat \<Rightarrow> list_result)) \<Rightarrow> catalog \<Rightarrow> catalog \<times> list_stats \<times> (string + managed_event list)" where
  "list_all_events room_id ca clock cancelled live_get cancels meets cat =
     (case list_events room_id ca clock cancelled live_get cat of
        (cat1, st, Inl err) \<Rightarrow> (cat1, st, Inl err)
      | (cat1, st, Inr es) \<Rightarrow>
          (case tally_all cancels meets 0 [] es st of
             (st1, out, ok) \<Rightarrow> (cat1, st1, if ok then Inr out else Inl ''cancelled'')))"


section \<open>Deleting\<close>

definition remove_key_error :: "string \<Rightarrow> delete_result \<Rightarrow> string" where
  "remove_key_error key r = ''DELETE '' @ key @ '': '' @ (if dl_error r = [] then ''HTTP '' @ int_str (dl_http_status r) else dl_error r)"

datatype delete_end = All_Removed | Cancelled_At nat | Failed_At nat string

text \<open>The DELETEs of an event, from object \<open>i\<close> on.\<close>

fun delete_keys :: "(delete_progress \<Rightarrow> bool) option \<Rightarrow> (nat \<Rightarrow> delete_result \<times> bool) \<Rightarrow> delete_progress \<Rightarrow> nat \<Rightarrow> string list \<Rightarrow> bucket \<Rightarrow>
    bucket \<times> delete_end" where
  "delete_keys progress removes pr i [] bkt = (bkt, All_Removed)"
| "delete_keys progress removes pr i (k # ks) bkt =
     (if (case progress of None \<Rightarrow> False | Some f \<Rightarrow> \<not> f (pr\<lparr>dp_objects_done := i\<rparr>)) then (bkt, Cancelled_At i)
      else case removes i of
             (r, landed) \<Rightarrow>
               if dl_success r then delete_keys progress removes pr (i + 1) ks (store_remove r landed k bkt)
               else (store_remove r landed k bkt, Failed_At i (remove_key_error k r)))"

definition delete_event :: "string \<Rightarrow> delete_answers \<Rightarrow> (delete_progress \<Rightarrow> bool) option \<Rightarrow> string \<Rightarrow> bucket \<Rightarrow> bucket \<times> delete_report" where
  "delete_event room_id da progress event_id bkt =
     (let rep = delete_report_default\<lparr>dr_events_considered := 1\<rparr>;
          live = live_event_id (da_live da)
      in if live \<noteq> [] \<and> live = event_id
         then (bkt, rep\<lparr>dr_error := ''That event is on air now and cannot be deleted.'', dr_events_live_kept := 1\<rparr>)
         else case snd (list_prefix (event_prefix_for event_id) (\<lambda>_. False) (da_pages da) list_stats_default) of
           Inl err \<Rightarrow> (bkt, rep\<lparr>dr_error := if err = [] then ''could not list the event'' else err\<rparr>)
         | Inr (listed, bytes) \<Rightarrow>
             let keys = listed @ [room_event_key room_id event_id];
                 pr = \<lparr>dp_event_id = event_id, dp_event_name = [], dp_event_index = 0, dp_event_count = 1,
                       dp_objects_done = 0, dp_objects_total = length keys\<rparr>
             in case delete_keys progress (da_removes da) pr 0 keys bkt of
                  (bkt1, Cancelled_At i) \<Rightarrow>
                    (bkt1, rep\<lparr>dr_objects_deleted := i, dr_bytes_freed := bytes, dr_cancelled := True, dr_error := ''cancelled''\<rparr>)
                | (bkt1, Failed_At i e) \<Rightarrow> (bkt1, rep\<lparr>dr_objects_deleted := i, dr_bytes_freed := bytes, dr_error := e\<rparr>)
                | (bkt1, All_Removed) \<Rightarrow>
                    (bkt1, rep\<lparr>dr_ok := True, dr_objects_deleted := length keys, dr_bytes_freed := bytes,
                       dr_confirmed := (case snd (list_prefix (event_prefix_for event_id) (\<lambda>_. False) (da_again da) list_stats_default) of
                                          Inl e \<Rightarrow> False | Inr (remaining, b) \<Rightarrow> remaining = []),
                       dr_events_matched := 1, dr_events_deleted := 1, dr_deleted_ids := [event_id]\<rparr>))"

text \<open>The start an event is dated by: its manifest's, or the one in its id; 0 is undated.\<close>

definition started_of :: "i64 \<Rightarrow> managed_event \<Rightarrow> i64" where
  "started_of clock e = (if me_started_at_ms e \<le> 0 then event_id_time_ms clock (me_event_id e) else me_started_at_ms e)"

definition per_event :: "(delete_progress \<Rightarrow> bool) option \<Rightarrow> u64 \<Rightarrow> u64 \<Rightarrow> string \<Rightarrow> (delete_progress \<Rightarrow> bool) option" where
  "per_event progress index count name =
     map_option (\<lambda>f p. f (p\<lparr>dp_event_index := index, dp_event_count := count, dp_event_name := name\<rparr>)) progress"

fun delete_targets :: "string \<Rightarrow> (nat \<Rightarrow> delete_answers) \<Rightarrow> (delete_progress \<Rightarrow> bool) option \<Rightarrow> u64 \<Rightarrow> nat \<Rightarrow> (string \<times> string) list \<Rightarrow>
    delete_report \<Rightarrow> bucket \<Rightarrow> bucket \<times> delete_report" where
  "delete_targets room_id das progress count i [] rep bkt = (bkt, rep\<lparr>dr_ok := True\<rparr>)"
| "delete_targets room_id das progress count i ((t, name) # ts) rep bkt =
     (case delete_event room_id (das i) (per_event progress i count name) t bkt of
        (bkt1, r) \<Rightarrow>
          let rep1 = rep\<lparr>dr_objects_deleted := (dr_objects_deleted rep + dr_objects_deleted r) mod 2 ^ 64,
                         dr_bytes_freed := (dr_bytes_freed rep + dr_bytes_freed r) mod 2 ^ 64\<rparr>
          in if \<not> dr_ok r
             then (bkt1, if dr_cancelled r then rep1\<lparr>dr_cancelled := True, dr_ok := True\<rparr>
                         else rep1\<lparr>dr_cancelled := False, dr_error := dr_error r\<rparr>)
             else delete_targets room_id das progress count (i + 1) ts
                    (rep1\<lparr>dr_events_deleted := dr_events_deleted rep1 + 1, dr_deleted_ids := dr_deleted_ids rep1 @ [t],
                          dr_confirmed := (if i = 0 then dr_confirmed r else dr_confirmed rep1 \<and> dr_confirmed r)\<rparr>) bkt1)"

text \<open>
  \<^verbatim>\<open>delete_older_than\<close>. \<open>clock\<close> is the machine's clock, which dates the ids, and \<open>now\<close> the
  caller's argument, which sets the cutoff.
\<close>

definition older_targets :: "i64 \<Rightarrow> i64 \<Rightarrow> managed_event list \<Rightarrow> (string \<times> string) list" where
  "older_targets clock cutoff events =
     map (\<lambda>e. (me_event_id e, me_name e))
       (filter (\<lambda>e. \<not> me_is_live e \<and> \<not> started_of clock e \<le> 0 \<and> started_of clock e < cutoff) events)"

definition delete_older_than :: "string \<Rightarrow> catalog_answers \<Rightarrow> get_result \<Rightarrow> (nat \<Rightarrow> delete_answers) \<Rightarrow> (delete_progress \<Rightarrow> bool) option \<Rightarrow>
    i64 \<Rightarrow> int \<Rightarrow> i64 \<Rightarrow> catalog \<Rightarrow> bucket \<Rightarrow> bucket \<times> delete_report" where
  "delete_older_than room_id ca live_get das progress clock older_than_days now cat bkt =
     (case list_events room_id ca clock False live_get cat of
        (cat1, st, Inl err) \<Rightarrow> (bkt, delete_report_default\<lparr>dr_error := err\<rparr>)
      | (cat1, st, Inr events) \<Rightarrow>
          let cutoff = now - older_than_days * 24 * 60 * 60 * 1000;
              targets = older_targets clock cutoff events;
              rep = delete_report_default\<lparr>dr_events_considered := length events,
                      dr_events_live_kept := length (filter me_is_live events),
                      dr_events_undated := length (filter (\<lambda>e. \<not> me_is_live e \<and> started_of clock e \<le> 0) events),
                      dr_events_matched := length targets\<rparr>
          in case delete_targets room_id das progress (length targets) 0 targets rep bkt of
               (bkt1, rep1) \<Rightarrow> (bkt1, if targets = [] then rep1\<lparr>dr_confirmed := True\<rparr> else rep1))"


section \<open>Listing a prefix\<close>

lemma list_prefix_loop_listed:
  assumes "list_prefix_loop pfx cancel pages p keys bytes st = (st', Inr (out, b))" "keys = page_keys pages p"
    "\<forall>i<p. lr_success (pages i) \<and> next_token (pages i) \<noteq> []"
  shows "\<exists>n. full_listing pages n \<and> n \<le> kMaxPagesPerPrefix \<and> out = page_keys pages n"
  using assms
proof (induction pfx cancel pages p keys bytes st rule: list_prefix_loop.induct)
  case (1 pfx cancel pages p keys bytes st)
  have g: "\<not> cancel p" "p < kMaxPagesPerPrefix" "lr_success (pages p)"
    using "1.prems"(1) by (auto simp: list_prefix_loop.simps [of pfx cancel pages p] Let_def split: if_splits)
  show ?case
  proof (cases "next_token (pages p) = []")
    case True
    then have "out = page_keys pages (Suc p)"
      using "1.prems"(1,2) g by (simp add: list_prefix_loop.simps [of pfx cancel pages p] Let_def)
    moreover have "full_listing pages (Suc p)" using "1.prems"(3) g True by (auto simp: full_listing_def less_Suc_eq)
    ultimately show ?thesis using g(2) by (auto intro: exI [of _ "Suc p"])
  next
    case False
    then have "list_prefix_loop pfx cancel pages (p + 1) (keys @ map le_key (lr_keys (pages p))) (page_bytes (pages p) bytes) (count_request st)
        = (st', Inr (out, b))"
      using "1.prems"(1) g by (simp add: list_prefix_loop.simps [of pfx cancel pages p] Let_def)
    from "1.IH" [OF _ _ refl refl _ refl refl False this] show ?thesis
      using "1.prems"(2,3) g False by (auto simp: less_Suc_eq)
  qed
qed

lemmas list_prefix_listed = list_prefix_loop_listed [where p = 0 and keys = "[]" and bytes = 0, folded list_prefix_def, simplified]

lemma list_prefix_loop_full:
  assumes "full_listing pages n" "n \<le> kMaxPagesPerPrefix" "p < n" "keys = page_keys pages p" "\<And>i. \<not> cancel i"
  shows "\<exists>st' b. list_prefix_loop pfx cancel pages p keys bytes st = (st', Inr (page_keys pages n, b))"
  using assms(3,4)
proof (induction "n - p" arbitrary: p keys bytes st)
  case (Suc m)
  note at = full_listing_at [OF assms(1) Suc.prems(1)]
  let ?k = "keys @ map le_key (lr_keys (pages p))"
  have step: "list_prefix_loop pfx cancel pages p keys bytes st =
      (if Suc p = n then (count_request st, Inr (?k, page_bytes (pages p) bytes))
       else list_prefix_loop pfx cancel pages (Suc p) ?k (page_bytes (pages p) bytes) (count_request st))"
    using at Suc.prems(1) assms(2,5) by (simp add: list_prefix_loop.simps [of pfx cancel pages p] Let_def)
  show ?case
  proof (cases "Suc p = n")
    case True
    then show ?thesis using step Suc.prems(2) by auto
  next
    case False
    then have "\<exists>st' b. list_prefix_loop pfx cancel pages (Suc p) ?k (page_bytes (pages p) bytes) (count_request st) = (st', Inr (page_keys pages n, b))"
      using Suc.hyps(1) [of "Suc p" ?k] Suc.hyps(2) Suc.prems by simp
    then show ?thesis using False step by simp
  qed
qed simp

lemma list_prefix_full:
  assumes "full_listing pages n" "n \<le> kMaxPagesPerPrefix"
  shows "\<exists>b. snd (list_prefix pfx (\<lambda>_. False) pages st) = Inr (page_keys pages n, b)"
proof -
  have "0 < n" using assms(1) by (simp add: full_listing_def)
  from list_prefix_loop_full [OF assms this, of "[]" "\<lambda>_. False" pfx 0 st] show ?thesis by (auto simp: list_prefix_def)
qed


section \<open>What a deletion removes\<close>

lemma delete_keys_frame: "k \<notin> set ks \<Longrightarrow> fst (delete_keys progress removes pr i ks bkt) k = bkt k"
  by (induction progress removes pr i ks bkt rule: delete_keys.induct) (auto split: prod.splits option.splits)

lemma delete_keys_none: "bkt k = None \<Longrightarrow> fst (delete_keys progress removes pr i ks bkt) k = None"
  by (induction progress removes pr i ks bkt rule: delete_keys.induct) (auto simp: store_remove_def split: prod.splits option.splits)

lemma delete_keys_value: "fst (delete_keys progress removes pr i ks bkt) k = bkt k \<or> fst (delete_keys progress removes pr i ks bkt) k = None"
proof (induction ks arbitrary: i bkt)
  case (Cons x ks)
  obtain r landed where r: "removes i = (r, landed)" by fastforce
  define b where "b = store_remove r landed x bkt"
  have "b k = bkt k \<or> b k = None" by (simp add: b_def store_remove_def)
  moreover have "fst (delete_keys progress removes pr i (x # ks) bkt) \<in> {bkt, b, fst (delete_keys progress removes pr (i + 1) ks b)}"
    by (simp add: r b_def)
  ultimately show ?case using Cons.IH [of "i + 1" b] by (elim insertE emptyE) (simp_all, metis+)
qed simp

lemma delete_keys_all:
  assumes "delete_keys progress removes pr i ks bkt = (bkt', All_Removed)" "k \<in> set ks"
  shows "bkt' k = None"
  using assms
proof (induction progress removes pr i ks bkt rule: delete_keys.induct)
  case (2 progress removes pr i x ks bkt)
  obtain r landed where r: "removes i = (r, landed)" by fastforce
  have rest: "dl_success r" "delete_keys progress removes pr (i + 1) ks (store_remove r landed x bkt) = (bkt', All_Removed)"
    using "2.prems"(1) r by (auto split: if_splits)
  show ?case
  proof (cases "k \<in> set ks")
    case True
    have "\<not> (case progress of None \<Rightarrow> False | Some f \<Rightarrow> \<not> f (pr\<lparr>dp_objects_done := i\<rparr>))"
      using "2.prems"(1) by (auto split: if_splits)
    from "2.IH" [OF this r [symmetric] rest True] show ?thesis .
  next
    case False
    then show ?thesis
      using delete_keys_none [of "store_remove r landed x bkt" k progress removes pr "i + 1" ks] rest "2.prems"(2) by simp
  qed
qed simp

lemma delete_keys_succeeds:
  assumes "\<And>i. dl_success (fst (removes i))"
  shows "snd (delete_keys None removes pr i ks bkt) = All_Removed"
proof -
  have "dl_success r" if "removes j = (r, l)" for j r l using assms [of j] that by simp
  then show ?thesis by (induction ks arbitrary: i bkt) (auto split: prod.splits)
qed

definition refused_live :: "delete_answers \<Rightarrow> string \<Rightarrow> bool" where
  "refused_live da event_id = (live_event_id (da_live da) \<noteq> [] \<and> live_event_id (da_live da) = event_id)"

text \<open>The branches of \<open>delete_event\<close>.\<close>

lemma delete_event_cases:
  assumes "delete_event room da progress e bkt = (bkt', rep)"
  obtains (unchanged) "bkt' = bkt" "\<not> dr_ok rep"
        "refused_live da e \<or> (\<exists>err. snd (list_prefix (event_prefix_for e) (\<lambda>_. False) (da_pages da) list_stats_default) = Inl err)"
    | (worked) listed bytes pr fin where "\<not> refused_live da e"
        "snd (list_prefix (event_prefix_for e) (\<lambda>_. False) (da_pages da) list_stats_default) = Inr (listed, bytes)"
        "delete_keys progress (da_removes da) pr 0 (listed @ [room_event_key room e]) bkt = (bkt', fin)"
        "dr_ok rep \<longleftrightarrow> fin = All_Removed" "dr_bytes_freed rep = bytes"
proof (cases "refused_live da e")
  case True
  then show thesis using assms unchanged by (auto simp: delete_event_def refused_live_def Let_def delete_report_default_def)
next
  case False
  then have nr: "\<not> (live_event_id (da_live da) \<noteq> [] \<and> live_event_id (da_live da) = e)" by (simp add: refused_live_def)
  show thesis
  proof (cases "snd (list_prefix (event_prefix_for e) (\<lambda>_. False) (da_pages da) list_stats_default)")
    case (Inl err)
    then show thesis using assms nr unchanged by (auto simp: delete_event_def Let_def delete_report_default_def)
  next
    case (Inr lb)
    obtain listed bytes where lb: "lb = (listed, bytes)" by fastforce
    let ?pr = "\<lparr>dp_event_id = e, dp_event_name = [], dp_event_index = 0, dp_event_count = 1, dp_objects_done = 0,
      dp_objects_total = length (listed @ [room_event_key room e])\<rparr>"
    obtain b fin where d: "delete_keys progress (da_removes da) ?pr 0 (listed @ [room_event_key room e]) bkt = (b, fin)" by fastforce
    have "b = bkt'" "dr_ok rep \<longleftrightarrow> fin = All_Removed" "dr_bytes_freed rep = bytes"
      using assms nr Inr lb d by (auto simp: delete_event_def Let_def delete_report_default_def split: delete_end.splits)
    then show thesis using worked False Inr lb d by blast
  qed
qed


section \<open>Properties\<close>

text \<open>The objects of an event: what is under its prefix, and its entry in the room's index.\<close>

definition event_objects :: "string \<Rightarrow> string \<Rightarrow> string \<Rightarrow> bool" where
  "event_objects room e k = (key_under (event_prefix_for e) k \<or> k = room_event_key room e)"

definition keys_under :: "string \<Rightarrow> (nat \<Rightarrow> list_result) \<Rightarrow> bool" where
  "keys_under pfx pages = (\<forall>p. \<forall>x\<in>set (lr_keys (pages p)). key_under pfx (le_key x))"

lemma keys_under_listed: "keys_under pfx pages \<Longrightarrow> k \<in> set (page_keys pages n) \<Longrightarrow> key_under pfx k"
  by (auto simp: page_keys_def keys_under_def)

lemma delete_event_frame:
  assumes "delete_event room da progress e bkt = (bkt', rep)" "keys_under (event_prefix_for e) (da_pages da)" "bkt' k \<noteq> bkt k"
  shows "event_objects room e k \<and> \<not> refused_live da e \<and> bkt' k = None"
proof (cases rule: delete_event_cases [OF assms(1)])
  case (2 listed bytes pr fin)
  obtain n where "listed = page_keys (da_pages da) n" using list_prefix_listed 2(2) by (metis prod.collapse)
  then have l: "\<forall>x\<in>set listed. key_under (event_prefix_for e) x" using keys_under_listed [OF assms(2)] by simp
  have d: "bkt' = fst (delete_keys progress (da_removes da) pr 0 (listed @ [room_event_key room e]) bkt)" using 2(3) by simp
  have "k \<in> set (listed @ [room_event_key room e])" using delete_keys_frame assms(3) d by metis
  then have "event_objects room e k" using l by (auto simp: event_objects_def)
  moreover have "bkt' k = None" using delete_keys_value assms(3) d by metis
  ultimately show ?thesis using 2(1) by blast
qed (use assms(3) in auto)

text \<open>
  C16: Deleting an event deletes that event. When the store lists the event's objects in full, a
  deletion changes nothing but objects of the event, and only by removing them; it changes nothing at all
  when the live pointer it has read names the event; and when it reports success every object the
  event had, and its index entry, are gone. It succeeds when no DELETE is refused, nobody
  cancels and the pointer names no event or another one.
\<close>

theorem delete_event_exact:
  assumes "lists_keys bkt (event_prefix_for e) (da_pages da) n" "n \<le> kMaxPagesPerPrefix"
    "delete_event room da progress e bkt = (bkt', rep)"
  shows "if refused_live da e then bkt' = bkt \<and> \<not> dr_ok rep
    else (if dr_ok rep then bkt' = (\<lambda>k. if event_objects room e k then None else bkt k)
          else \<forall>k. bkt' k = bkt k \<or> event_objects room e k \<and> bkt' k = None) \<and>
      (progress = None \<and> (\<forall>i. dl_success (fst (da_removes da i))) \<longrightarrow> dr_ok rep)"
proof -
  have full: "full_listing (da_pages da) n" and keys: "set (page_keys (da_pages da) n) = {k \<in> dom bkt. key_under (event_prefix_for e) k}"
    using assms(1) by (simp_all add: lists_keys_def)
  obtain b where b: "snd (list_prefix (event_prefix_for e) (\<lambda>_. False) (da_pages da) list_stats_default) = Inr (page_keys (da_pages da) n, b)"
    using list_prefix_full [OF full assms(2)] by blast
  let ?ks = "page_keys (da_pages da) n @ [room_event_key room e]"
  show ?thesis
  proof (cases "refused_live da e")
    case True
    then show ?thesis using assms(3) by (auto simp: delete_event_def refused_live_def Let_def delete_report_default_def)
  next
    case False
    obtain pr fin where d: "delete_keys progress (da_removes da) pr 0 ?ks bkt = (bkt', fin)" "dr_ok rep \<longleftrightarrow> fin = All_Removed"
    proof (cases rule: delete_event_cases [OF assms(3)])
      case 1
      then show thesis using False b by simp
    next
      case (2 listed bytes pr fin)
      then show thesis using that b by auto
    qed
    have fr: "bkt' k = bkt k" if "k \<notin> set ?ks" for k
      using delete_keys_frame [OF that, of progress "da_removes da" pr 0 bkt] d(1) by simp
    have val: "bkt' k = bkt k \<or> bkt' k = None" for k
      using delete_keys_value [of progress "da_removes da" pr 0 ?ks bkt k] d(1) by simp
    have in_ks: "event_objects room e k \<longleftrightarrow> k \<in> set ?ks \<or> key_under (event_prefix_for e) k \<and> bkt k = None" for k
      using keys by (auto simp: event_objects_def)
    have "if dr_ok rep then bkt' = (\<lambda>k. if event_objects room e k then None else bkt k)
          else \<forall>k. bkt' k = bkt k \<or> event_objects room e k \<and> bkt' k = None"
      using fr val in_ks delete_keys_all [of progress "da_removes da" pr 0 ?ks bkt bkt'] d by (auto simp: fun_eq_iff) metis+
    moreover have "dr_ok rep" if "progress = None" "\<forall>i. dl_success (fst (da_removes da i))"
      using delete_keys_succeeds [of "da_removes da" pr 0 ?ks bkt] d that by simp
    ultimately show ?thesis using False by simp
  qed
qed

lemma delete_targets_frame:
  assumes "delete_targets room das progress count i ts rep bkt = (bkt', rep')" "bkt' k \<noteq> bkt k"
    "\<And>j. j < length ts \<Longrightarrow> keys_under (event_prefix_for (fst (ts ! j))) (da_pages (das (i + j)))"
  shows "\<exists>j<length ts. event_objects room (fst (ts ! j)) k \<and> \<not> refused_live (das (i + j)) (fst (ts ! j))"
  using assms
proof (induction ts arbitrary: i rep bkt)
  case (Cons tn ts)
  obtain t name where tn: "tn = (t, name)" by fastforce
  obtain b r where d: "delete_event room (das i) (per_event progress i count name) t bkt = (b, r)" by fastforce
  show ?case
  proof (cases "b k = bkt k")
    case False
    have "keys_under (event_prefix_for t) (da_pages (das i))" using Cons.prems(3) [of 0] tn by simp
    from delete_event_frame [OF d this False] show ?thesis using tn by (intro exI [of _ 0]) simp
  next
    case True
    then obtain rep1 where "delete_targets room das progress count (i + 1) ts rep1 b = (bkt', rep')" "bkt' k \<noteq> b k"
      using Cons.prems(1,2) tn d by (auto simp: Let_def split: if_splits)
    from Cons.IH [OF this] obtain j where "j < length ts" "event_objects room (fst (ts ! j)) k" "\<not> refused_live (das (i + 1 + j)) (fst (ts ! j))"
      using Cons.prems(3) [of "Suc j" for j] by auto
    then show ?thesis by (intro exI [of _ "Suc j"]) simp
  qed
qed simp

lemma list_events_ids:
  assumes "snd (snd (list_events room ca clock cancelled live_get cat)) = Inr events" "e \<in> set events"
  shows "me_event_id e \<noteq> []" "me_is_live e \<longleftrightarrow> live_event_id live_get = me_event_id e"
proof -
  obtain cat1 where r: "refresh (manager_config room) ca clock cat = (cat1, True)" and
      ev: "events = sort_managed (map (managed_of (live_event_id live_get)) (ct_events cat1))"
    using assms(1) by (auto simp: list_events_def Let_def split: prod.splits if_splits)
  then obtain s where "s \<in> set (ct_events cat1)" "e = managed_of (live_event_id live_get) s"
    using assms(2) by (auto simp: sort_managed_def Let_def)
  then show "me_event_id e \<noteq> []" "me_is_live e \<longleftrightarrow> live_event_id live_get = me_event_id e"
    using refresh_ids_nonempty [OF r, of s] by (auto simp: managed_of_def)
qed



subsection \<open>Dating an event by its id\<close>

lemma index_of_nth: "distinct xs \<Longrightarrow> i < length xs \<Longrightarrow> index_of (xs ! i) xs = Some i"
proof (induction xs arbitrary: i)
  case (Cons y ys)
  then show ?case by (cases i) auto
qed simp

lemma b32_digit:
  assumes "d < 32"
  shows "index_of (to_upper (b32_alphabet ! d)) b32_alphabet = Some d" "b32_alphabet ! d \<noteq> CHR 0x00"
proof -
  have a: "length b32_alphabet = 32" "distinct b32_alphabet" "list_all (\<lambda>c. to_upper c = c \<and> c \<noteq> CHR 0x00) b32_alphabet"
    by (simp_all add: b32_alphabet_def to_upper_def is_lower_def less_eq_char_def)
  then have "to_upper (b32_alphabet ! d) = b32_alphabet ! d \<and> b32_alphabet ! d \<noteq> CHR 0x00" using assms by (simp add: list_all_length)
  then show "index_of (to_upper (b32_alphabet ! d)) b32_alphabet = Some d" "b32_alphabet ! d \<noteq> CHR 0x00"
    using index_of_nth [OF a(2)] a(1) assms by simp_all
qed

lemma b32_value_append: "b32_value (xs @ ys) ms = Option.bind (b32_value xs ms) (b32_value ys)"
  by (induction xs arbitrary: ms) (auto split: option.splits)

lemma b32_value_time: "b32_value (b32_time n ts) 0 = Some (int (ts mod 32 ^ n))"
proof (induction n arbitrary: ts)
  case (Suc n)
  have "int (ts mod 32 ^ Suc n) = int (ts div 32 mod 32 ^ n) * 32 + int (ts mod 32)"
    by (simp add: mod_mult2_eq)
  then show ?case using b32_digit [of "ts mod 32"] by (simp add: b32_value_append Suc.IH)
qed simp

text \<open>
  An event can be dated by its own name. The time in an event id made between 2020 and tomorrow is
  read back from it exactly, whatever its random part; and for any string at all the answer is
  either 0, undated, or a time in that range, so that a garbled id is never taken for an old event.
\<close>

lemma event_id_time_roundtrip:
  "(1577836800000 \<le> t \<and> t \<le> clock + 86400000 \<and> t < 2 ^ 50 \<longrightarrow> event_id_time_ms clock (make_event_id t draws) = t) \<and>
   (event_id_time_ms clock s = 0 \<or> 1577836800000 \<le> event_id_time_ms clock s \<and> event_id_time_ms clock s \<le> clock + 86400000)"
proof -
  have "event_id_time_ms clock (make_event_id t draws) = t" if t: "1577836800000 \<le> t" "t \<le> clock + 86400000" "t < 2 ^ 50"
  proof -
    have m: "t mod 2 ^ 64 = t" "nat t mod 32 ^ 10 = nat t" using t by (auto intro: mod_pos_pos_trivial)
    have "b32_value (take 10 (make_event_id t draws)) 0 = Some t"
      using b32_value_time [of 10 "nat t"] t m by (simp add: make_event_id_def)
    moreover have "\<not> length (make_event_id t draws) < 10" by (simp add: make_event_id_def)
    ultimately show ?thesis using t by (simp add: event_id_time_ms_def)
  qed
  moreover have "event_id_time_ms clock s = 0 \<or> 1577836800000 \<le> event_id_time_ms clock s \<and> event_id_time_ms clock s \<le> clock + 86400000"
    by (auto simp: event_id_time_ms_def split: option.split)
  ultimately show ?thesis by blast
qed

subsection \<open>An unreadable pointer\<close>

text \<open>
  C39: The guard on the event on air fails open. When the read of the live pointer fails, a deletion goes ahead
  and removes every object of the event, though the store's live pointer names it as the event
  on air.
\<close>

theorem delete_fails_open:
  assumes "bkt (live_pointer_key room) = Some (Doc (live_pointer_to_json lp))" "lp_event_id lp = e" "lp_status lp = ''live''"
    "\<not> gr_success (da_live da)" "lists_keys bkt (event_prefix_for e) (da_pages da) n" "n \<le> kMaxPagesPerPrefix"
    "\<And>i. dl_success (fst (da_removes da i))" "\<not> event_objects room e (live_pointer_key room)"
  shows "\<exists>bkt' rep. delete_event room da None e bkt = (bkt', rep) \<and> dr_ok rep \<and> (\<forall>k. key_under (event_prefix_for e) k \<longrightarrow> bkt' k = None) \<and>
    bkt' (live_pointer_key room) = bkt (live_pointer_key room)"
proof -
  obtain bkt' rep where d: "delete_event room da None e bkt = (bkt', rep)" by fastforce
  have nr: "\<not> refused_live da e" using assms(4) by (simp add: refused_live_def live_event_id_def)
  have full: "full_listing (da_pages da) n" and keys: "set (page_keys (da_pages da) n) = {k \<in> dom bkt. key_under (event_prefix_for e) k}"
    using assms(5) by (simp_all add: lists_keys_def)
  show ?thesis
  proof (cases rule: delete_event_cases [OF d])
    case 1
    then show ?thesis using nr list_prefix_full [OF full assms(6)] by (metis sum.distinct(1))
  next
    case (2 listed bytes pr fin)
    have l: "listed = page_keys (da_pages da) n"
      using 2(2) list_prefix_full [OF full assms(6), of "event_prefix_for e" list_stats_default] by auto
    have fin: "fin = All_Removed" using delete_keys_succeeds [of "da_removes da"] assms(7) 2(3) by (metis snd_conv)
    note del = 2(3) [unfolded fin]
    have "bkt' k = None" if "key_under (event_prefix_for e) k" for k
    proof (cases "k \<in> set listed")
      case True
      then show ?thesis using delete_keys_all [OF del] by simp
    next
      case False
      then have "bkt k = None" using that keys l by auto
      then show ?thesis using delete_keys_none [of bkt k None "da_removes da" pr 0] del by (metis fst_conv)
    qed
    moreover have "live_pointer_key room \<notin> set (listed @ [room_event_key room e])"
      using assms(8) keys l by (auto simp: event_objects_def)
    then have "bkt' (live_pointer_key room) = bkt (live_pointer_key room)" using delete_keys_frame del by (metis fst_conv)
    ultimately show ?thesis using d 2(4) fin by blast
  qed
qed

text \<open>A deletion cancelled before its first object has removed nothing and reports every byte as freed.\<close>

lemma cancelled_reports_freed:
  assumes "\<not> refused_live da e" "progress (\<lparr>dp_event_id = e, dp_event_name = [], dp_event_index = 0, dp_event_count = 1, dp_objects_done = 0,
      dp_objects_total = length listed + 1\<rparr>) = False"
    "snd (list_prefix (event_prefix_for e) (\<lambda>_. False) (da_pages da) list_stats_default) = Inr (listed, bytes)"
  shows "\<exists>rep. delete_event room da (Some progress) e bkt = (bkt, rep) \<and> dr_objects_deleted rep = 0 \<and> dr_bytes_freed rep = bytes"
proof -
  obtain k ks where ks: "listed @ [room_event_key room e] = k # ks" by (cases "listed @ [room_event_key room e]") auto
  have "length (k # ks) = length listed + 1" by (simp flip: ks)
  then show ?thesis
    using assms unfolding delete_event_def Let_def refused_live_def by (auto simp: ks)
qed


section \<open>Witnesses\<close>

definition ex_delete :: delete_answers where
  "ex_delete = \<lparr>da_live = get_result_default, da_pages = (\<lambda>_. ex_page [manifest_key ''E''] []),
     da_removes = (\<lambda>_. (\<lparr>dl_success = True, dl_http_status = 204, dl_retryable = True, dl_error = []\<rparr>, False)), da_again = (\<lambda>_. ex_page [] [])\<rparr>"

lemma ex_delete_lists: "lists_keys ex_room_store (event_prefix_for ''E'') (da_pages ex_delete) 1"
  by (auto simp: lists_keys_def full_listing_def ex_delete_def ex_page_def next_token_def page_keys_def ex_room_store_dom key_under_def ex_keys)

lemma ex_not_refused: "\<not> refused_live ex_delete e"
  by (simp add: refused_live_def ex_delete_def live_event_id_def get_result_default_def)

theorem delete_event_exact_witness:
  "\<exists>rep. delete_event ''main-auditorium'' ex_delete None ''E'' ex_room_store = (\<lambda>_. None, rep) \<and> dr_ok rep"
proof -
  obtain bkt' rep where d: "delete_event ''main-auditorium'' ex_delete None ''E'' ex_room_store = (bkt', rep)" by fastforce
  have "dr_ok rep \<and> bkt' = (\<lambda>k. if event_objects ''main-auditorium'' ''E'' k then None else ex_room_store k)"
    using delete_event_exact [OF ex_delete_lists _ d] ex_not_refused
    by (simp add: kMaxPagesPerPrefix_def ex_delete_def split: if_splits)
  moreover have "(\<lambda>k. if event_objects ''main-auditorium'' ''E'' k then None else ex_room_store k) = (\<lambda>_. None)"
  proof
    fix k
    have "event_objects ''main-auditorium'' ''E'' k \<or> k \<notin> dom ex_room_store"
      by (auto simp: ex_room_store_dom event_objects_def manifest_key_def)
    then show "(if event_objects ''main-auditorium'' ''E'' k then None else ex_room_store k) = None" by auto
  qed
  ultimately show ?thesis using d by auto
qed

lemma ex_refresh:
  "ct_events (fst (refresh (manager_config ''main-auditorium'') ex_catalog clock c)) =
     [\<lparr>es_event_id = ''E'', es_room_id = ''main-auditorium'', es_name = [], es_started_at_ms = 5, es_last_update_ms = 0, es_state = E_Recording,
       es_latest_seq = 0, es_first_available_seq = 0, es_duration_s = 0, es_is_live_pointer = False\<rparr>]"
  "snd (refresh (manager_config ''main-auditorium'') ex_catalog clock c)"
proof -
  have ix: "index_loop (ca_index ex_catalog) 0 [] = Inr [''E'']"
    by (simp add: index_loop.simps kMaxPages_def ex_catalog_def ex_page_def next_token_def ex_keys event_id_from_index_key_def Let_def)
  have sc: "scan_loop b (ca_scan ex_catalog) 0 [''E''] [] = Inr []" for b
    by (simp add: scan_loop.simps kMaxPages_def ex_catalog_def ex_page_def next_token_def ex_keys event_id_from_index_key_def Let_def)
  have co: "collect_event_ids (manager_config ''main-auditorium'') ex_catalog = Inr ([''E''], False)"
    by (simp add: collect_event_ids_def ix sc Let_def)
  have "manifest_key ''E'' \<noteq> room_event_key ''main-auditorium'' ''E''" by (simp add: ex_keys)
  then have g: "gr_success (ca_manifest ex_catalog ''E'')" "parsed manifest_from_json (gr_body (ca_manifest ex_catalog ''E'')) = Some ex_recorded"
    by (simp_all add: ex_catalog_def ex_get_def ex_room_store_def parsed_def ex_recorded_roundtrip)
  have "refresh_ids (manager_config ''main-auditorium'') [''E''] = [''E'']" by (simp add: refresh_ids_def manager_config_def)
  moreover have "lp_event_id (catalog_live ex_catalog) = []"
    by (simp add: catalog_live_def ex_catalog_def get_result_default_def live_pointer_default_def)
  ultimately show "ct_events (fst (refresh (manager_config ''main-auditorium'') ex_catalog clock c)) =
     [\<lparr>es_event_id = ''E'', es_room_id = ''main-auditorium'', es_name = [], es_started_at_ms = 5, es_last_update_ms = 0, es_state = E_Recording,
       es_latest_seq = 0, es_first_available_seq = 0, es_duration_s = 0, es_is_live_pointer = False\<rparr>]"
    "snd (refresh (manager_config ''main-auditorium'') ex_catalog clock c)"
    by (simp_all add: refresh_def co classify_def g Let_def sort_summaries_def List.map_filter_simps)
      (simp_all add: ex_recorded_def manifest_default_def summary_duration_def manager_config_def)
qed

definition ex_old :: managed_event where
  "ex_old = managed_event_default\<lparr>me_event_id := ''E'', me_started_at_ms := 5, me_state := E_Recording\<rparr>"

lemma ex_list_events: "snd (snd (list_events ''main-auditorium'' ex_catalog clock False get_result_default cat)) = Inr [ex_old]"
  using ex_refresh [of clock cat]
  by (auto simp: list_events_def case_prod_beta Let_def sort_managed_def managed_of_def live_event_id_def get_result_default_def ex_old_def
      managed_event_default_def)


definition ex_on_air :: bucket where
  "ex_on_air = ex_room_store(live_pointer_key ''main-auditorium'' \<mapsto>
     Doc (live_pointer_to_json (live_pointer_default\<lparr>lp_event_id := ''E'', lp_room_id := ''main-auditorium''\<rparr>)))"

theorem delete_fails_open_witness:
  "\<exists>bkt' rep. delete_event ''main-auditorium'' ex_delete None ''E'' ex_on_air = (bkt', rep) \<and> dr_ok rep \<and> bkt' (manifest_key ''E'') = None"
proof -
  have dom: "dom ex_on_air = insert (live_pointer_key ''main-auditorium'') (dom ex_room_store)" by (simp add: ex_on_air_def)
  have "lists_keys ex_on_air (event_prefix_for ''E'') (da_pages ex_delete) 1"
    using ex_delete_lists unfolding lists_keys_def dom by (auto simp: live_pointer_key_def key_under_def event_prefix_for_def)
  moreover have "\<not> event_objects ''main-auditorium'' ''E'' (live_pointer_key ''main-auditorium'')"
    by (simp add: event_objects_def live_pointer_key_def key_under_def ex_keys)
  moreover have "key_under (event_prefix_for ''E'') (manifest_key ''E'')" by (simp add: manifest_key_def)
  ultimately show ?thesis
    using delete_fails_open [of ex_on_air "''main-auditorium''" "live_pointer_default\<lparr>lp_event_id := ''E'', lp_room_id := ''main-auditorium''\<rparr>"
        "''E''" ex_delete 1]
    by (auto simp: ex_on_air_def ex_delete_def get_result_default_def kMaxPagesPerPrefix_def live_pointer_default_def)
qed

end
