(* ===== verification/Read_Transports.thy ===== *)
theory Read_Transports
  imports Event_Catalog
begin

text \<open>
  Transports made of transports: \<^verbatim>\<open>src/core/fallback_transport.h\<close> (the LAN server first, then the
  cloud), \<^verbatim>\<open>src/core/mirror_read_transport.h\<close> (one bucket first, then the other),
  \<^verbatim>\<open>src/core/null_transport.h\<close>, and the comparison of two buckets,
  \<^verbatim>\<open>src/core/mirror_verify.{h,cpp}\<close>. The abstract class \<^verbatim>\<open>Transport\<close> is a record of functions over a
  world, so that an implementation which wraps another is a function from records to records;
  what the wrapped ends do is arbitrary.
\<close>

section \<open>The transport interface\<close>

text \<open>
  An implementation of \<^verbatim>\<open>Transport\<close> over a world of type \<open>'w\<close>: a request takes the world to
  the world after it, and the observers read the world.
\<close>

record 'w transport =
  tx_put :: "string \<Rightarrow> body \<Rightarrow> string \<Rightarrow> (string \<times> string) list \<Rightarrow> 'w \<Rightarrow> 'w \<times> put_result"
  tx_object_size :: "string \<Rightarrow> 'w \<Rightarrow> 'w \<times> i64"
  tx_get :: "string \<Rightarrow> 'w \<Rightarrow> 'w \<times> get_result"
  tx_list :: "string \<Rightarrow> string \<Rightarrow> string \<Rightarrow> int \<Rightarrow> 'w \<Rightarrow> 'w \<times> list_result"
  tx_remove :: "string \<Rightarrow> 'w \<Rightarrow> 'w \<times> delete_result"
  tx_cancel_pending :: "'w \<Rightarrow> 'w"
  tx_resume_pending :: "'w \<Rightarrow> 'w"
  tx_last_request_reached_server :: "'w \<Rightarrow> bool"
  tx_last_request_cancelled :: "'w \<Rightarrow> bool"
  tx_server_clock_skew_ms :: "'w \<Rightarrow> i64"
  tx_prefer_secondary :: "bool \<Rightarrow> 'w \<Rightarrow> 'w"
  tx_preferring_secondary :: "'w \<Rightarrow> bool"

text \<open>What the base class does where a method is not overridden; \<open>put\<close> is pure virtual.\<close>

definition base_transport :: "(string \<Rightarrow> body \<Rightarrow> string \<Rightarrow> (string \<times> string) list \<Rightarrow> 'w \<Rightarrow> 'w \<times> put_result) \<Rightarrow> 'w transport" where
  "base_transport put = \<lparr>tx_put = put, tx_object_size = (\<lambda>k w. (w, - 1)),
     tx_get = (\<lambda>k w. (w, get_result_default\<lparr>gr_error := ''get() not implemented by this transport'', gr_retryable := False\<rparr>)),
     tx_list = (\<lambda>p d t n w. (w, \<lparr>lr_success = False, lr_http_status = 0, lr_retryable = False,
        lr_error = ''list() not implemented by this transport'', lr_common_prefixes = [], lr_keys = [], lr_truncated = False,
        lr_next_continuation_token = []\<rparr>)),
     tx_remove = (\<lambda>k w. (w, \<lparr>dl_success = False, dl_http_status = 0, dl_retryable = False,
        dl_error = ''remove() not implemented by this transport''\<rparr>)),
     tx_cancel_pending = (\<lambda>w. w), tx_resume_pending = (\<lambda>w. w), tx_last_request_reached_server = (\<lambda>w. True),
     tx_last_request_cancelled = (\<lambda>w. False), tx_server_clock_skew_ms = (\<lambda>w. 0), tx_prefer_secondary = (\<lambda>on w. w),
     tx_preferring_secondary = (\<lambda>w. False)\<rparr>"


section \<open>The transport that stores nothing\<close>

definition body_size :: "(json \<Rightarrow> nat) \<Rightarrow> body \<Rightarrow> i64" where
  "body_size doc_size b = (case b of Bytes bs \<Rightarrow> int (length bs) | Doc j \<Rightarrow> int (doc_size j))"

text \<open>\<open>doc_size\<close> is the length of the text a document is written as.\<close>

definition null_transport :: "(json \<Rightarrow> nat) \<Rightarrow> (string \<rightharpoonup> i64) transport" where
  "null_transport doc_size =
     (base_transport (\<lambda>k b ct tags sizes. (sizes(k \<mapsto> body_size doc_size b),
        \<lparr>pr_success = True, pr_http_status = 200, pr_retryable = True, pr_error = []\<rparr>)))
     \<lparr>tx_object_size := (\<lambda>k sizes. (sizes, case sizes k of None \<Rightarrow> - 1 | Some n \<Rightarrow> n))\<rparr>"


section \<open>LAN first, then the cloud\<close>

record 'w fallback_state =
  fb_primary_healthy :: bool
  fb_world :: 'w

text \<open>A request or an order passed on to one of the ends.\<close>

definition fb_lift :: "('w \<Rightarrow> 'w \<times> 'r) \<Rightarrow> 'w fallback_state \<Rightarrow> 'w fallback_state \<times> 'r" where
  "fb_lift f st = (case f (fb_world st) of (w, r) \<Rightarrow> (st\<lparr>fb_world := w\<rparr>, r))"

definition fallback_get :: "'w transport \<Rightarrow> 'w transport \<Rightarrow> string \<Rightarrow> 'w fallback_state \<Rightarrow> 'w fallback_state \<times> get_result" where
  "fallback_get primary secondary key st =
     (case tx_get primary key (fb_world st) of
        (w, r) \<Rightarrow>
          if gr_success r then (st\<lparr>fb_world := w, fb_primary_healthy := True\<rparr>, r)
          else fb_lift (tx_get secondary key)
                 (if \<not> tx_last_request_reached_server primary w then st\<lparr>fb_world := w, fb_primary_healthy := False\<rparr>
                  else st\<lparr>fb_world := w\<rparr>))"

definition fallback_transport :: "'w transport \<Rightarrow> 'w transport \<Rightarrow> 'w fallback_state transport" where
  "fallback_transport primary secondary =
     (base_transport (\<lambda>k b ct tags. fb_lift (tx_put secondary k b ct tags)))
     \<lparr>tx_get := fallback_get primary secondary,
      tx_object_size := (\<lambda>k. fb_lift (tx_object_size secondary k)),
      tx_list := (\<lambda>p d t n. fb_lift (tx_list secondary p d t n)),
      tx_remove := (\<lambda>k. fb_lift (tx_remove secondary k)),
      tx_cancel_pending := (\<lambda>st. st\<lparr>fb_world := tx_cancel_pending secondary (tx_cancel_pending primary (fb_world st))\<rparr>),
      tx_last_request_cancelled := (\<lambda>st. tx_last_request_cancelled primary (fb_world st) \<or> tx_last_request_cancelled secondary (fb_world st)),
      tx_server_clock_skew_ms := (\<lambda>st. tx_server_clock_skew_ms secondary (fb_world st))\<rparr>"

definition last_get_was_primary :: "'w fallback_state \<Rightarrow> bool" where
  "last_get_was_primary st = fb_primary_healthy st"


section \<open>Reading from two buckets\<close>

record 'w mirror_state =
  mr_served_secondary :: bool
  mr_primary_ok :: bool
  mr_prefer_secondary :: bool
  mr_world :: 'w

definition mr_lift :: "('w \<Rightarrow> 'w \<times> 'r) \<Rightarrow> 'w mirror_state \<Rightarrow> 'w mirror_state \<times> 'r" where
  "mr_lift f st = (case f (mr_world st) of (w, r) \<Rightarrow> (st\<lparr>mr_world := w\<rparr>, r))"

definition note_primary_reachable :: "bool \<Rightarrow> 'w mirror_state \<Rightarrow> 'w mirror_state" where
  "note_primary_reachable ok st = st\<lparr>mr_primary_ok := ok\<rparr>"

definition get_secondary_first :: "'w transport \<Rightarrow> 'w transport \<Rightarrow> string \<Rightarrow> 'w mirror_state \<Rightarrow> 'w mirror_state \<times> get_result" where
  "get_secondary_first primary secondary key st =
     (case mr_lift (tx_get secondary key) st of
        (st1, r) \<Rightarrow>
          if gr_success r then (st1\<lparr>mr_served_secondary := True\<rparr>, r)
          else case mr_lift (tx_get primary key) st1 of
                 (st2, r2) \<Rightarrow>
                   (note_primary_reachable (gr_success r2 \<or> tx_last_request_reached_server primary (mr_world st2))
                      (st2\<lparr>mr_served_secondary := False\<rparr>), r2))"

definition mirror_get :: "'w transport \<Rightarrow> 'w transport \<Rightarrow> string \<Rightarrow> 'w mirror_state \<Rightarrow> 'w mirror_state \<times> get_result" where
  "mirror_get primary secondary key st =
     (if mr_prefer_secondary st then get_secondary_first primary secondary key st
      else case mr_lift (tx_get primary key) st of
        (st1, r) \<Rightarrow>
          if gr_success r then ((note_primary_reachable True st1)\<lparr>mr_served_secondary := False\<rparr>, r)
          else case mr_lift (tx_get secondary key) (note_primary_reachable (tx_last_request_reached_server primary (mr_world st1)) st1) of
                 (st2, r2) \<Rightarrow> (if gr_success r2 then st2\<lparr>mr_served_secondary := True\<rparr> else st2, r2))"

definition mirror_object_size :: "'w transport \<Rightarrow> 'w transport \<Rightarrow> string \<Rightarrow> 'w mirror_state \<Rightarrow> 'w mirror_state \<times> i64" where
  "mirror_object_size primary secondary key st =
     (case mr_lift (tx_object_size primary key) st of
        (st1, n) \<Rightarrow> if n \<ge> 0 then (st1, n) else mr_lift (tx_object_size secondary key) st1)"

definition mirror_list :: "'w transport \<Rightarrow> 'w transport \<Rightarrow> string \<Rightarrow> string \<Rightarrow> string \<Rightarrow> int \<Rightarrow> 'w mirror_state \<Rightarrow> 'w mirror_state \<times> list_result" where
  "mirror_list primary secondary p d t n st =
     (case mr_lift (tx_list primary p d t n) st of
        (st1, r) \<Rightarrow> if lr_success r then (st1, r) else mr_lift (tx_list secondary p d t n) st1)"

definition mirror_read_transport :: "'w transport \<Rightarrow> 'w transport \<Rightarrow> 'w mirror_state transport" where
  "mirror_read_transport primary secondary =
     (base_transport (\<lambda>k b ct tags. mr_lift (tx_put primary k b ct tags)))
     \<lparr>tx_prefer_secondary := (\<lambda>on st. st\<lparr>mr_prefer_secondary := on\<rparr>),
      tx_preferring_secondary := mr_prefer_secondary,
      tx_get := mirror_get primary secondary,
      tx_object_size := mirror_object_size primary secondary,
      tx_list := mirror_list primary secondary,
      tx_remove := (\<lambda>k. mr_lift (tx_remove primary k)),
      tx_cancel_pending := (\<lambda>st. st\<lparr>mr_world := tx_cancel_pending secondary (tx_cancel_pending primary (mr_world st))\<rparr>),
      tx_resume_pending := (\<lambda>st. st\<lparr>mr_world := tx_resume_pending secondary (tx_resume_pending primary (mr_world st))\<rparr>),
      tx_server_clock_skew_ms := (\<lambda>st. let s = tx_server_clock_skew_ms primary (mr_world st)
                                       in if s \<noteq> 0 then s else tx_server_clock_skew_ms secondary (mr_world st)),
      tx_last_request_cancelled := (\<lambda>st. tx_last_request_cancelled primary (mr_world st) \<or> tx_last_request_cancelled secondary (mr_world st))\<rparr>"


section \<open>Comparing the two buckets\<close>

record mirror_diff =
  md_only_primary :: "u64 list"
  md_only_second :: "u64 list"
  md_checksum_mismatch :: "u64 list"
  md_complete :: bool
  md_error :: string

definition mirror_diff_default :: mirror_diff where
  "mirror_diff_default = \<lparr>md_only_primary = [], md_only_second = [], md_checksum_mismatch = [], md_complete = False, md_error = []\<rparr>"

definition diff_total :: "mirror_diff \<Rightarrow> nat" where
  "diff_total d = length (md_only_primary d) + length (md_only_second d) + length (md_checksum_mismatch d)"

text \<open>The segments a manifest lists, by number; \<^verbatim>\<open>std::map::emplace\<close> keeps the first of a number.\<close>

fun emplace_all :: "manifest_segment list \<Rightarrow> (u64 \<times> string) list \<Rightarrow> (u64 \<times> string) list" where
  "emplace_all [] out = out"
| "emplace_all (s # ss) out =
     emplace_all ss (if ms_seq s \<in> fst ` set out then out else insort_key fst (ms_seq s, ms_checksum s) out)"

definition read_manifest :: "get_result \<Rightarrow> string + (u64 \<times> string) list" where
  "read_manifest r =
     (if \<not> gr_success r
      then Inl (''manifest.json: HTTP '' @ int_str (gr_http_status r) @ (if gr_error r = [] then [] else '' '' @ gr_error r))
      else case parsed manifest_from_json (gr_body r) of
             None \<Rightarrow> Inl ''manifest.json is not valid JSON''
           | Some m \<Rightarrow> Inr (emplace_all (mf_segments m) []))"

fun compare_primary :: "(u64 \<times> string) list \<Rightarrow> (u64 \<times> string) list \<Rightarrow> mirror_diff \<Rightarrow> mirror_diff" where
  "compare_primary [] b d = d"
| "compare_primary ((seq, cs) # a) b d =
     compare_primary a b
       (case map_of b seq of
          None \<Rightarrow> d\<lparr>md_only_primary := md_only_primary d @ [seq]\<rparr>
        | Some cs2 \<Rightarrow> if cs \<noteq> [] \<and> cs2 \<noteq> [] \<and> cs \<noteq> cs2 then d\<lparr>md_checksum_mismatch := md_checksum_mismatch d @ [seq]\<rparr> else d)"

definition compare_targets :: "get_result \<Rightarrow> get_result \<Rightarrow> mirror_diff" where
  "compare_targets ga gb =
     (case (read_manifest ga, read_manifest gb) of
        (Inl ea, Inl eb) \<Rightarrow> mirror_diff_default\<lparr>md_error := ''neither target: '' @ ea\<rparr>
      | (Inl ea, Inr b) \<Rightarrow> mirror_diff_default\<lparr>md_error := ''primary: '' @ ea\<rparr>
      | (Inr a, Inl eb) \<Rightarrow> mirror_diff_default\<lparr>md_error := ''second: '' @ eb\<rparr>
      | (Inr a, Inr b) \<Rightarrow>
          let d1 = compare_primary a b mirror_diff_default;
              d2 = d1\<lparr>md_only_second := filter (\<lambda>s. map_of a s = None) (map fst b)\<rparr>
          in d2\<lparr>md_complete := (diff_total d2 = 0)\<rparr>)"


section \<open>The maps compared\<close>

lemma emplace_all_map: "map_of (emplace_all ss out) = map_of (map (\<lambda>s. (ms_seq s, ms_checksum s)) ss) ++ map_of out"
proof (induction ss arbitrary: out)
  case (Cons s ss)
  have ins: "map_of (insort_key fst (x, c) xs) = (map_of xs)(x \<mapsto> c)" if "x \<notin> fst ` set xs" for x c and xs :: "(nat \<times> string) list"
    using that by (induction xs) (auto simp: fun_eq_iff)
  show ?case
  proof (cases "ms_seq s \<in> fst ` set out")
    case True
    then obtain c where "map_of out (ms_seq s) = Some c" by (metis map_of_eq_None_iff not_None_eq)
    then show ?thesis using Cons.IH True by (auto simp: fun_eq_iff map_add_def)
  next
    case False
    then have "map_of out (ms_seq s) = None" by (simp add: map_of_eq_None_iff)
    then show ?thesis using Cons.IH False ins [OF False, of "ms_checksum s"] by (auto simp: fun_eq_iff map_add_def split: option.splits)
  qed
qed simp

lemma emplace_all_sorted: "sorted_wrt (<) (map fst out) \<Longrightarrow> sorted_wrt (<) (map fst (emplace_all ss out))"
proof (induction ss arbitrary: out)
  case (Cons s ss)
  have "sorted_wrt (<) (map fst (insort_key fst (x, c) xs))" if "x \<notin> fst ` set xs" "sorted_wrt (<) (map fst xs)"
    for x c and xs :: "(nat \<times> string) list"
    using that by (induction xs) (auto simp: set_insort_key)
  then show ?case using Cons by simp
qed simp


section \<open>Properties\<close>

text \<open>What a manifest says of a segment: the checksum of the first entry of its number.\<close>

definition listed_sum :: "manifest \<Rightarrow> u64 \<Rightarrow> string option" where
  "listed_sum m seq = map_of (map (\<lambda>s. (ms_seq s, ms_checksum s)) (mf_segments m)) seq"

definition differs :: "string option \<Rightarrow> string option \<Rightarrow> bool" where
  "differs x y = (\<exists>a b. x = Some a \<and> y = Some b \<and> a \<noteq> [] \<and> b \<noteq> [] \<and> a \<noteq> b)"

lemma compare_primary_eq:
  "compare_primary a b d = d\<lparr>md_only_primary := md_only_primary d @ map fst (filter (\<lambda>(s, c). map_of b s = None) a),
     md_checksum_mismatch := md_checksum_mismatch d @ map fst (filter (\<lambda>(s, c). differs (Some c) (map_of b s)) a)\<rparr>"
  by (induction a b d rule: compare_primary.induct) (auto simp: differs_def split: option.splits)

lemma strict_sorted_filter:
  assumes "sorted_wrt (<) (map fst xs)"
  shows "sorted_wrt (<) (map fst (filter P xs))"
  using assms by (simp add: sorted_wrt_map sorted_wrt_filter)

lemma sorted_map_of: "sorted_wrt (<) (map fst (xs :: (nat \<times> 'b) list)) \<Longrightarrow> (x, c) \<in> set xs \<longleftrightarrow> map_of xs x = Some c"
  by (simp add: strict_sorted_iff)

text \<open>
  The comparison of the two buckets is exact. When both manifests can be read, the three lists are, in
  ascending order and without repetition, the segments only the first lists, those only the
  second lists, and those both list with different recorded checksums; it says complete exactly when
  there are none of any kind. When a manifest cannot be read it reports the error and never says complete.
\<close>

lemma compare_targets_exact:
  "(\<forall>ma mb. gr_success ga \<and> parsed manifest_from_json (gr_body ga) = Some ma \<and> gr_success gb \<and> parsed manifest_from_json (gr_body gb) = Some mb \<longrightarrow>
      (let d = compare_targets ga gb
       in md_error d = [] \<and>
          set (md_only_primary d) = {s. listed_sum ma s \<noteq> None \<and> listed_sum mb s = None} \<and>
          set (md_only_second d) = {s. listed_sum mb s \<noteq> None \<and> listed_sum ma s = None} \<and>
          set (md_checksum_mismatch d) = {s. differs (listed_sum ma s) (listed_sum mb s)} \<and>
          sorted_wrt (<) (md_only_primary d) \<and> sorted_wrt (<) (md_only_second d) \<and> sorted_wrt (<) (md_checksum_mismatch d) \<and>
          (md_complete d \<longleftrightarrow> (\<forall>s. (listed_sum ma s = None \<longleftrightarrow> listed_sum mb s = None) \<and> \<not> differs (listed_sum ma s) (listed_sum mb s))))) \<and>
   (\<not> (gr_success ga \<and> parsed manifest_from_json (gr_body ga) \<noteq> None \<and> gr_success gb \<and> parsed manifest_from_json (gr_body gb) \<noteq> None) \<longrightarrow>
      md_error (compare_targets ga gb) \<noteq> [] \<and> \<not> md_complete (compare_targets ga gb))"
proof (intro conjI allI impI)
  fix ma mb
  assume r: "gr_success ga \<and> parsed manifest_from_json (gr_body ga) = Some ma \<and> gr_success gb \<and> parsed manifest_from_json (gr_body gb) = Some mb"
  let ?a = "emplace_all (mf_segments ma) []" and ?b = "emplace_all (mf_segments mb) []"
  have s: "sorted_wrt (<) (map fst ?a)" "sorted_wrt (<) (map fst ?b)" by (simp_all add: emplace_all_sorted)
  have l: "map_of ?a = listed_sum ma" "map_of ?b = listed_sum mb" by (auto simp: emplace_all_map listed_sum_def)
  have a: "(x, c) \<in> set ?a \<longleftrightarrow> listed_sum ma x = Some c" and b: "(x, c) \<in> set ?b \<longleftrightarrow> listed_sum mb x = Some c" for x c
    using sorted_map_of [OF s(1)] sorted_map_of [OF s(2)] l by simp_all
  let ?d = "compare_targets ga gb"
  let ?p = "filter (\<lambda>(s, c). listed_sum mb s = None) ?a" and ?m = "filter (\<lambda>(s, c). differs (Some c) (listed_sum mb s)) ?a"
  have rm: "read_manifest ga = Inr ?a" "read_manifest gb = Inr ?b" using r by (simp_all add: read_manifest_def)
  have d: "md_only_primary ?d = map fst ?p" "md_checksum_mismatch ?d = map fst ?m" "md_error ?d = []"
    "md_only_second ?d = filter (\<lambda>s. listed_sum ma s = None) (map fst ?b)" "md_complete ?d \<longleftrightarrow> diff_total ?d = 0"
    by (simp_all add: compare_targets_def rm compare_primary_eq l mirror_diff_default_def diff_total_def Let_def filter_map)
  have op: "set (md_only_primary ?d) = {s. listed_sum ma s \<noteq> None \<and> listed_sum mb s = None}" by (force simp: d a)
  have os: "set (md_only_second ?d) = {s. listed_sum mb s \<noteq> None \<and> listed_sum ma s = None}"
    using dom_map_of_conv_image_fst [of ?b, symmetric] l(2) by (auto simp: d dom_def)
  have mm: "set (md_checksum_mismatch ?d) = {s. differs (listed_sum ma s) (listed_sum mb s)}" by (force simp: d a differs_def)
  have "sorted_wrt (<) (md_only_primary ?d)" "sorted_wrt (<) (md_checksum_mismatch ?d)" "sorted_wrt (<) (md_only_second ?d)"
    using s by (auto simp: d strict_sorted_filter intro: sorted_wrt_filter)
  moreover have "md_complete ?d \<longleftrightarrow> set (md_only_primary ?d) = {} \<and> set (md_only_second ?d) = {} \<and> set (md_checksum_mismatch ?d) = {}"
    by (simp add: d(5) diff_total_def)
  then have "md_complete ?d \<longleftrightarrow> (\<forall>s. (listed_sum ma s = None \<longleftrightarrow> listed_sum mb s = None) \<and> \<not> differs (listed_sum ma s) (listed_sum mb s))"
    unfolding op os mm Collect_empty_eq by metis
  ultimately show "let d = compare_targets ga gb
       in md_error d = [] \<and>
          set (md_only_primary d) = {s. listed_sum ma s \<noteq> None \<and> listed_sum mb s = None} \<and>
          set (md_only_second d) = {s. listed_sum mb s \<noteq> None \<and> listed_sum ma s = None} \<and>
          set (md_checksum_mismatch d) = {s. differs (listed_sum ma s) (listed_sum mb s)} \<and>
          sorted_wrt (<) (md_only_primary d) \<and> sorted_wrt (<) (md_only_second d) \<and> sorted_wrt (<) (md_checksum_mismatch d) \<and>
          (md_complete d \<longleftrightarrow> (\<forall>s. (listed_sum ma s = None \<longleftrightarrow> listed_sum mb s = None) \<and> \<not> differs (listed_sum ma s) (listed_sum mb s)))"
    unfolding Let_def using op os mm d(3) by blast
qed (auto simp: compare_targets_def read_manifest_def mirror_diff_default_def Let_def split: sum.splits option.splits if_splits)

text \<open>
  Reads through the chain the decoder source builds: the LAN server, then the first bucket, then the
  second. \<open>beside_mirror\<close> is the LAN transport acting on the world the two buckets' transport keeps
  its flags beside.
\<close>

definition beside_mirror :: "'w transport \<Rightarrow> 'w mirror_state transport" where
  "beside_mirror tx = \<lparr>tx_put = (\<lambda>k b ct tags. mr_lift (tx_put tx k b ct tags)), tx_object_size = (\<lambda>k. mr_lift (tx_object_size tx k)),
     tx_get = (\<lambda>k. mr_lift (tx_get tx k)), tx_list = (\<lambda>p d t n. mr_lift (tx_list tx p d t n)), tx_remove = (\<lambda>k. mr_lift (tx_remove tx k)),
     tx_cancel_pending = (\<lambda>st. st\<lparr>mr_world := tx_cancel_pending tx (mr_world st)\<rparr>),
     tx_resume_pending = (\<lambda>st. st\<lparr>mr_world := tx_resume_pending tx (mr_world st)\<rparr>),
     tx_last_request_reached_server = (\<lambda>st. tx_last_request_reached_server tx (mr_world st)),
     tx_last_request_cancelled = (\<lambda>st. tx_last_request_cancelled tx (mr_world st)),
     tx_server_clock_skew_ms = (\<lambda>st. tx_server_clock_skew_ms tx (mr_world st)),
     tx_prefer_secondary = (\<lambda>on st. st\<lparr>mr_world := tx_prefer_secondary tx on (mr_world st)\<rparr>),
     tx_preferring_secondary = (\<lambda>st. tx_preferring_secondary tx (mr_world st))\<rparr>"

definition read_chain :: "'w transport \<Rightarrow> 'w transport \<Rightarrow> 'w transport \<Rightarrow> 'w mirror_state fallback_state transport" where
  "read_chain lan_tx tx tx2 = fallback_transport (beside_mirror lan_tx) (mirror_read_transport tx tx2)"

text \<open>An end that, whatever it has been asked before, answers a GET of \<open>k\<close> with success and \<open>b\<close>; and one that answers it with \<open>b\<close> or not at all.\<close>

definition always_has :: "'w transport \<Rightarrow> string \<Rightarrow> body \<Rightarrow> bool" where
  "always_has tx k b = (\<forall>w. gr_success (snd (tx_get tx k w)) \<and> gr_body (snd (tx_get tx k w)) = b)"

definition only_has :: "'w transport \<Rightarrow> string \<Rightarrow> body \<Rightarrow> bool" where
  "only_has tx k b = (\<forall>w. gr_success (snd (tx_get tx k w)) \<longrightarrow> gr_body (snd (tx_get tx k w)) = b)"

text \<open>
  A read survives the loss of any two of its three sources. When one of the LAN server, the first and
  the second bucket has an object and neither of the others ever serves anything else under its key,
  a read through the chain returns that object, whatever the others answer, whichever bucket is
  preferred and whatever was asked before.
\<close>

lemma chain_read_survives:
  assumes "always_has lan_tx k b \<or> always_has tx k b \<or> always_has tx2 k b"
    "only_has lan_tx k b" "only_has tx k b" "only_has tx2 k b"
  shows "gr_success (snd (tx_get (read_chain lan_tx tx tx2) k st)) \<and> gr_body (snd (tx_get (read_chain lan_tx tx tx2) k st)) = b"
  using assms
  by (auto simp: read_chain_def beside_mirror_def fallback_transport_def fallback_get_def mirror_read_transport_def mirror_get_def get_secondary_first_def
      fb_lift_def mr_lift_def note_primary_reachable_def always_has_def only_has_def case_prod_beta)

text \<open>
  Behind a LAN server the order to read the other bucket is lost. The decoder that sees its
  manifest stall tells its transport to prefer the second bucket; through the chain the order changes nothing and
  is not even reported back, so while the first bucket keeps answering with its stale manifest that is
  the one read.
\<close>

lemma chain_ignores_failover:
  assumes "\<And>w. \<not> gr_success (snd (tx_get lan_tx k w))" "always_has tx k stale"
    "\<not> mr_prefer_secondary (fb_world st)"
  shows "\<not> tx_preferring_secondary (read_chain lan_tx tx tx2) (tx_prefer_secondary (read_chain lan_tx tx tx2) True st) \<and>
    gr_body (snd (tx_get (read_chain lan_tx tx tx2) k (tx_prefer_secondary (read_chain lan_tx tx tx2) True st))) = stale"
  using assms
  by (auto simp: read_chain_def beside_mirror_def fallback_transport_def base_transport_def fallback_get_def mirror_read_transport_def mirror_get_def
      fb_lift_def mr_lift_def note_primary_reachable_def always_has_def only_has_def case_prod_beta)


end
