(* ===== verification/Text_Parsers.thy ===== *)
theory Text_Parsers
  imports Storage_Manager
begin

text \<open>
  The texts the program reads without a parser library: the XML of a bucket listing
  (\<^verbatim>\<open>src/core/s3_list_xml.{h,cpp}\<close>), the date header (\<^verbatim>\<open>src/core/http_date.{h,cpp}\<close>), version tags and the
  release list (\<^verbatim>\<open>src/core/version.{h,cpp}\<close>), response headers and the transfer rate
  (\<^verbatim>\<open>src/core/storage_health.{h,cpp}\<close>) and the helpers of \<^verbatim>\<open>src/core/text.h\<close>. A position in a
  text is represented by the text from there on.
\<close>

section \<open>Characters and searching\<close>

text \<open>\<^verbatim>\<open>std::isspace\<close> in the C locale.\<close>

definition is_space :: "char \<Rightarrow> bool" where
  "is_space c = (c = CHR '' '' \<or> (9 \<le> (of_char c :: nat) \<and> (of_char c :: nat) \<le> 13))"

definition trim :: "string \<Rightarrow> string" where
  "trim s = rev (dropWhile is_space (rev (dropWhile is_space s)))"

definition lower :: "string \<Rightarrow> string" where
  "lower s = map to_lower s"

text \<open>\<^verbatim>\<open>std::string::find\<close> of a string: the position of its first occurrence.\<close>

definition starts_with :: "string \<Rightarrow> string \<Rightarrow> bool" where
  "starts_with s p = (take (length p) s = p)"

fun find_sub :: "string \<Rightarrow> string \<Rightarrow> nat option" where
  "find_sub p [] = (if p = [] then Some 0 else None)"
| "find_sub p (c # cs) = (if starts_with (c # cs) p then Some 0 else map_option Suc (find_sub p cs))"

lemma find_sub_Some: "find_sub p s = Some a \<Longrightarrow> a + length p \<le> length s \<and> take (length p) (drop a s) = p"
proof (induction s arbitrary: a)
  case (Cons c cs)
  then show ?case
    by (auto simp: starts_with_def split: if_splits) (metis length_Cons length_take min.bounded_iff order_refl)
qed (auto split: if_splits)

lemma find_sub_rest: "find_sub (x # p) s = Some a \<Longrightarrow> length s - Suc (a + length p) < length s"
  by (drule find_sub_Some) (clarsimp, linarith)


section \<open>S3 listings\<close>

text \<open>
  \<^verbatim>\<open>tag_text\<close> from the position where \<open>s\<close> starts: the text of the element and what follows it.
  A self-closing element has no text; a longer tag of the same beginning is passed over.
\<close>

definition tag_end_chars :: string where
  "tag_end_chars = [CHR ''>'', CHR '' '', CHR ''/'', CHR 0x09, CHR 0x0A, CHR 0x0D]"

function tag_text :: "string \<Rightarrow> string \<Rightarrow> (string \<times> string) option" where
  "tag_text tag s =
     (case find_sub (CHR ''<'' # tag) s of
        None \<Rightarrow> None
      | Some a \<Rightarrow>
          let rest = drop (a + length tag + 1) s
          in case find_sub ''>'' rest of
               None \<Rightarrow> None
             | Some g \<Rightarrow>
                 if last (CHR ''<'' # tag @ take g rest) = CHR ''/'' then Some ([], drop (g + 1) rest)
                 else if hd rest \<notin> set tag_end_chars then tag_text tag rest
                 else let body = drop (g + 1) rest
                      in case find_sub (''</'' @ tag @ ''>'') body of
                           None \<Rightarrow> None
                         | Some b \<Rightarrow> Some (take b body, drop (b + length tag + 3) body))"
  by pat_completeness auto
termination
  by (relation "measure (\<lambda>(tag, s). length s)") (auto dest: find_sub_rest)

declare tag_text.simps [simp del]

lemma tag_text_shorter: "tag_text tag s = Some (t, rest) \<Longrightarrow> length rest < length s"
proof (induction tag s rule: tag_text.induct)
  case (1 tag s)
  obtain a where a: "find_sub (CHR ''<'' # tag) s = Some a" using "1.prems" by (auto simp: tag_text.simps [of tag s] split: option.splits)
  let ?r = "drop (a + length tag + 1) s"
  have l: "length ?r < length s" using find_sub_rest [OF a] by simp
  obtain g where g: "find_sub ''>'' ?r = Some g" using "1.prems" a by (auto simp: tag_text.simps [of tag s] Let_def split: option.splits)
  show ?case
  proof (cases "last (CHR ''<'' # tag @ take g ?r) \<noteq> CHR ''/'' \<and> hd ?r \<notin> set tag_end_chars")
    case True
    then have "tag_text tag ?r = Some (t, rest)" using "1.prems" a g by (simp add: tag_text.simps [of tag s] Let_def)
    then show ?thesis using "1.IH" [OF a refl g] True l by auto
  next
    case False
    then show ?thesis
      using "1.prems" a g l by (auto simp: tag_text.simps [of tag s] Let_def split: if_splits option.splits)
  qed
qed

text \<open>\<^verbatim>\<open>for_each_block\<close>: the texts of the elements of a tag, in order.\<close>

function blocks :: "string \<Rightarrow> string \<Rightarrow> string list" where
  "blocks tag s = (case tag_text tag s of None \<Rightarrow> [] | Some (body, rest) \<Rightarrow> body # blocks tag rest)"
  by pat_completeness auto
termination by (relation "measure (\<lambda>(tag, s). length s)") (auto dest: tag_text_shorter)

declare blocks.simps [simp del]

text \<open>\<^verbatim>\<open>std::strtol\<close> and \<^verbatim>\<open>std::strtoll\<close> in base 10 and 16, saturating at the bounds of 64 bits.\<close>

definition digit_in :: "nat \<Rightarrow> char \<Rightarrow> nat option" where
  "digit_in base c =
     (let n = (of_char c :: nat);
          d = if is_digit c then n - 48 else if is_upper c then n - 55 else if is_lower c then n - 87 else base
      in if d < base then Some d else None)"

fun digits_value :: "nat \<Rightarrow> string \<Rightarrow> nat \<Rightarrow> nat" where
  "digits_value base [] v = v"
| "digits_value base (c # cs) v = (case digit_in base c of None \<Rightarrow> v | Some d \<Rightarrow> digits_value base cs (v * base + d))"

definition strtol :: "nat \<Rightarrow> string \<Rightarrow> i64" where
  "strtol base s =
     (let s1 = dropWhile is_space s;
          neg = starts_with s1 ''-'';
          s2 = if neg \<or> starts_with s1 ''+'' then tl s1 else s1;
          s3 = if base = 16 \<and> (starts_with s2 ''0x'' \<or> starts_with s2 ''0X'') \<and> digit_in 16 (hd (drop 2 s2 @ ''z'')) \<noteq> None
               then drop 2 s2 else s2;
          v = int (digits_value base s3 0)
      in if neg then max (- (2 ^ 63)) (- v) else min (2 ^ 63 - 1) v)"

text \<open>The character an entity stands for; \<open>None\<close> leaves the ampersand as it is.\<close>

definition entity :: "string \<Rightarrow> char option" where
  "entity ent =
     (if ent = ''amp'' then Some CHR ''&''
      else if ent = ''lt'' then Some CHR ''<''
      else if ent = ''gt'' then Some CHR ''>''
      else if ent = ''quot'' then Some CHR 0x22
      else if ent = ''apos'' then Some CHR 0x27
      else if starts_with ent ''#'' then
        (let hex = length ent > 1 \<and> (ent ! 1 = CHR ''x'' \<or> ent ! 1 = CHR ''X'');
             cp = strtol (if hex then 16 else 10) (drop (if hex then 2 else 1) ent)
         in if 0 < cp \<and> cp < 0x100 then Some (char_of (nat cp)) else None)
      else None)"

function xml_decode :: "string \<Rightarrow> string" where
  "xml_decode [] = []"
| "xml_decode (c # cs) =
     (if c \<noteq> CHR ''&'' then c # xml_decode cs
      else case find_sub '';'' cs of
             None \<Rightarrow> CHR ''&'' # xml_decode cs
           | Some j \<Rightarrow>
               if j + 1 > 10 then CHR ''&'' # xml_decode cs
               else case entity (take j cs) of
                      None \<Rightarrow> CHR ''&'' # xml_decode cs
                    | Some d \<Rightarrow> d # xml_decode (drop (j + 1) cs))"
  by pat_completeness auto
termination by (relation "measure length") auto

text \<open>The body of a listing: the error it reports, or the page.\<close>

definition list_entry_of :: "string \<Rightarrow> list_entry option" where
  "list_entry_of block =
     (case tag_text ''Key'' block of
        None \<Rightarrow> None
      | Some (key, r) \<Rightarrow>
          if key = [] then None
          else Some \<lparr>le_key = xml_decode key,
                 le_size = (case tag_text ''Size'' block of
                              None \<Rightarrow> - 1
                            | Some (sz, r) \<Rightarrow> if sz = [] then - 1 else strtol 10 sz),
                 le_last_modified = (case tag_text ''LastModified'' block of None \<Rightarrow> [] | Some (t, r) \<Rightarrow> t)\<rparr>)"

definition prefix_of :: "string \<Rightarrow> string option" where
  "prefix_of block = (case tag_text ''Prefix'' block of None \<Rightarrow> None | Some (p, r) \<Rightarrow> if p = [] then None else Some (xml_decode p))"

definition text_or_empty :: "string \<Rightarrow> string \<Rightarrow> string" where
  "text_or_empty tag s = (case tag_text tag s of None \<Rightarrow> [] | Some (t, r) \<Rightarrow> t)"

definition parse_list_objects_v2 :: "string \<Rightarrow> list_result \<Rightarrow> list_result \<times> bool" where
  "parse_list_objects_v2 xml out =
     (if find_sub ''<Error'' xml \<noteq> None then
        (let code = text_or_empty ''Code'' xml; msg = text_or_empty ''Message'' xml;
             e = (if code = [] then ''S3 error response'' else xml_decode code)
         in (out\<lparr>lr_error := e @ (if msg = [] then [] else '': '' @ xml_decode msg)\<rparr>, False))
      else if find_sub ''<ListBucketResult'' xml = None then (out\<lparr>lr_error := ''not a ListObjectsV2 response''\<rparr>, False)
      else
        (let truncated = (case tag_text ''IsTruncated'' xml of
                            None \<Rightarrow> lr_truncated out
                          | Some (t, r) \<Rightarrow> starts_with t ''true'' \<or> starts_with t ''TRUE'');
             token = (case tag_text ''NextContinuationToken'' xml of
                        None \<Rightarrow> lr_next_continuation_token out
                      | Some (t, r) \<Rightarrow> xml_decode t)
         in (out\<lparr>lr_common_prefixes := lr_common_prefixes out @ List.map_filter prefix_of (blocks ''CommonPrefixes'' xml),
                 lr_keys := lr_keys out @ List.map_filter list_entry_of (blocks ''Contents'' xml),
                 lr_truncated := (truncated \<and> token \<noteq> []), lr_next_continuation_token := token\<rparr>, True)))"


section \<open>Reading back an escaped text\<close>

text \<open>The escaping of XML: the five characters with names.\<close>

definition xml_escape1 :: "char \<Rightarrow> string" where
  "xml_escape1 c =
     (if c = CHR ''&'' then ''&amp;''
      else if c = CHR ''<'' then ''&lt;''
      else if c = CHR ''>'' then ''&gt;''
      else if c = CHR 0x22 then ''&quot;''
      else if c = CHR 0x27 then ''&apos;''
      else [c])"

definition xml_escape :: "string \<Rightarrow> string" where
  "xml_escape s = concat (map xml_escape1 s)"

lemma xml_escape_decode: "xml_decode (xml_escape s) = s"
  by (induction s) (auto simp: xml_escape_def xml_escape1_def starts_with_def entity_def)

definition no_tag :: "string \<Rightarrow> bool" where
  "no_tag s = (CHR ''<'' \<notin> set s)"

lemma no_tag_simps [simp]:
  "no_tag []" "no_tag (c # s) \<longleftrightarrow> c \<noteq> CHR ''<'' \<and> no_tag s" "no_tag (s @ s') \<longleftrightarrow> no_tag s \<and> no_tag s'"
  by (auto simp: no_tag_def)

lemma xml_escape_no_tag [simp]: "no_tag (xml_escape s)"
  by (induction s) (auto simp: no_tag_def xml_escape_def xml_escape1_def)

lemma xml_escape_empty [simp]: "xml_escape s = [] \<longleftrightarrow> s = []"
  by (cases s) (auto simp: xml_escape_def xml_escape1_def)

lemma find_sub_here: "find_sub p (p @ y) = Some 0"
  by (cases p; cases y) (auto simp: starts_with_def)

text \<open>A stretch of text that a search for a tag passes over.\<close>

definition skips :: "string \<Rightarrow> string \<Rightarrow> bool" where
  "skips t x = (\<forall>y. find_sub (CHR ''<'' # t) (x @ y) = map_option (\<lambda>n. length x + n) (find_sub (CHR ''<'' # t) y))"

lemma skips_Nil [intro]: "skips t []"
  by (simp add: skips_def option.map_ident)

lemma skips_append [intro]: "skips t x \<Longrightarrow> skips t y \<Longrightarrow> skips t (x @ y)"
  by (simp add: skips_def option.map_comp comp_def add.assoc)

lemma skips_Cons:
  assumes "\<And>y. \<not> starts_with (c # x @ y) (CHR ''<'' # t)" "skips t x"
  shows "skips t (c # x)"
  unfolding skips_def
proof
  fix y
  have "find_sub (CHR ''<'' # t) ((c # x) @ y) = map_option Suc (find_sub (CHR ''<'' # t) (x @ y))" using assms(1) by simp
  then show "find_sub (CHR ''<'' # t) ((c # x) @ y) = map_option ((+) (length (c # x))) (find_sub (CHR ''<'' # t) y)"
    using assms(2) by (cases "find_sub (CHR ''<'' # t) y") (simp_all add: skips_def)
qed

lemma skips_no_tag [intro]: "no_tag x \<Longrightarrow> skips t x"
  by (induction x) (auto simp: no_tag_def starts_with_def intro: skips_Cons)

fun mismatch :: "string \<Rightarrow> string \<Rightarrow> bool" where
  "mismatch (a # as) (b # bs) = (a \<noteq> b \<or> mismatch as bs)"
| "mismatch _ _ = False"

lemma mismatch_starts: "mismatch t u \<Longrightarrow> \<not> starts_with (u @ y) t"
  by (induction t u rule: mismatch.induct) (auto simp: starts_with_def)

lemma skips_open: "mismatch t u \<Longrightarrow> no_tag u \<Longrightarrow> skips t (CHR ''<'' # u)"
  using mismatch_starts [of t u] by (intro skips_Cons skips_no_tag) (auto simp: starts_with_def)

lemma skips_concat: "(\<And>x. x \<in> set xs \<Longrightarrow> skips t x) \<Longrightarrow> skips t (concat xs)"
  by (induction xs) auto

lemma skips_texts [simp]: "skips t []" "skips t (xml_escape s)"
  by (simp_all add: skips_Nil skips_no_tag)

text \<open>An element, and how a search meets it.\<close>

definition element :: "string \<Rightarrow> string \<Rightarrow> string" where
  "element tag t = (CHR ''<'' # tag @ ''>'') @ t @ (''</'' @ tag @ ''>'')"

lemma skips_element:
  assumes "mismatch t (u @ ''>'')" "mismatch t (''/'' @ u @ ''>'')" "no_tag u" "skips t x"
  shows "skips t (element u x)"
proof -
  have "no_tag (u @ ''>'')" "no_tag (''/'' @ u @ ''>'')" using assms(3) by (simp_all add: no_tag_def)
  then have "skips t (CHR ''<'' # u @ ''>'')" "skips t (CHR ''<'' # ''/'' @ u @ ''>'')" using skips_open assms(1,2) by blast+
  then have "skips t (CHR ''<'' # u @ ''>'')" "skips t (''</'' @ u @ ''>'')" by simp_all
  then show ?thesis using assms(4) skips_append unfolding element_def by blast
qed

definition name_ok :: "string \<Rightarrow> bool" where
  "name_ok tag = (tag \<noteq> [] \<and> last tag \<noteq> CHR ''/'')"

lemma tag_text_here:
  assumes "name_ok tag" "skips (''/'' @ tag @ ''>'') t" "skips tag x"
  shows "tag_text tag (x @ element tag t @ y) = Some (t, y)"
proof -
  let ?c = "''</'' @ tag @ ''>''"
  have f: "find_sub (CHR ''<'' # tag) (x @ element tag t @ y) = Some (length x)"
    using assms(3) find_sub_here [of "CHR ''<'' # tag" "''>'' @ t @ ?c @ y"] by (simp add: skips_def element_def)
  have "find_sub ?c (t @ ?c @ y) = Some (length t)"
    using assms(2) find_sub_here [of ?c y] by (simp add: skips_def)
  moreover have "find_sub ''>'' (CHR ''>'' # z) = Some 0" for z by (simp add: starts_with_def)
  moreover have "drop (length tag + 3) (''</'' @ tag @ ''>'' @ y) = y" by (simp add: numeral_3_eq_3)
  ultimately show ?thesis
    using f assms(1) by (simp add: tag_text.simps [of tag] element_def Let_def tag_end_chars_def name_ok_def del: find_sub.simps)
qed

lemma tag_text_none: "skips tag x \<Longrightarrow> tag_text tag x = None"
  using spec [of "\<lambda>y. find_sub (CHR ''<'' # tag) (x @ y) = map_option (\<lambda>n. length x + n) (find_sub (CHR ''<'' # tag) y)" "[]"]
  by (simp add: skips_def tag_text.simps [of tag x])

lemma blocks_elements:
  assumes "name_ok tag" "\<And>t. t \<in> set ts \<Longrightarrow> skips (''/'' @ tag @ ''>'') t" "skips tag x" "skips tag y"
  shows "blocks tag (x @ concat (map (element tag) ts) @ y) = ts"
  using assms(2,3)
proof (induction ts arbitrary: x)
  case Nil
  then show ?case using tag_text_none [OF skips_append, of tag x y] assms(4) by (simp add: blocks.simps [of tag "x @ y"])
next
  case (Cons t ts)
  have "tag_text tag (x @ element tag t @ concat (map (element tag) ts) @ y) = Some (t, concat (map (element tag) ts) @ y)"
    using Cons.prems by (intro tag_text_here [OF assms(1)]) auto
  then show ?case using Cons.IH [of "[]"] Cons.prems by (simp add: blocks.simps [of tag "x @ element tag t @ concat (map (element tag) ts) @ y"] skips_Nil)
qed


section \<open>A page as S3 writes it\<close>

text \<open>
  The part of a \<^verbatim>\<open>ListBucketResult\<close> document the program reads, with the elements S3 puts before it whose
  names begin like others (\<^verbatim>\<open>Prefix\<close>, \<^verbatim>\<open>KeyCount\<close>). Sizes are decimal, texts are escaped.
\<close>

definition render_entry :: "list_entry \<Rightarrow> string" where
  "render_entry e = element ''Key'' (xml_escape (le_key e)) @ element ''LastModified'' (xml_escape (le_last_modified e)) @
     element ''Size'' (nat_str (nat (le_size e)))"

definition render_page :: "string \<Rightarrow> list_result \<Rightarrow> string" where
  "render_page pfx r =
     ''<ListBucketResult>'' @
     (element ''Prefix'' (xml_escape pfx) @ element ''KeyCount'' (nat_str (length (lr_keys r))) @
      element ''IsTruncated'' (if lr_truncated r then ''true'' else ''false'') @
      (if lr_truncated r then element ''NextContinuationToken'' (xml_escape (lr_next_continuation_token r)) else [])) @
     concat (map (element ''Contents'') (map render_entry (lr_keys r))) @
     concat (map (element ''CommonPrefixes'') (map (\<lambda>p. element ''Prefix'' (xml_escape p)) (lr_common_prefixes r))) @
     ''</ListBucketResult>''"

definition page_ok :: "list_result \<Rightarrow> bool" where
  "page_ok r =
     ((\<forall>e\<in>set (lr_keys r). le_key e \<noteq> [] \<and> 0 \<le> le_size e \<and> le_size e < 2 ^ 63 \<and> xml_escape (le_last_modified e) = le_last_modified e) \<and>
      [] \<notin> set (lr_common_prefixes r) \<and> (lr_truncated r \<longleftrightarrow> lr_next_continuation_token r \<noteq> []))"

lemma nat_str_no_tag [simp]: "no_tag (nat_str n)"
  using nat_str_digits [of "CHR ''<''" n] by (auto simp: no_tag_def is_digit_def less_eq_char_def)

lemma skips_nat_str [simp]: "skips t (nat_str n)"
  by (simp add: skips_no_tag)

lemma digits_value_digits: "(\<And>c. c \<in> set s \<Longrightarrow> is_digit c) \<Longrightarrow> digits_value 10 s v = foldl (\<lambda>a c. 10 * a + digit_val c) v s"
proof (induction s arbitrary: v)
  case (Cons c cs)
  have "48 \<le> (of_char c :: nat)" "(of_char c :: nat) \<le> 57" using Cons.prems [of c] by (simp_all add: is_digit_def less_eq_char_def)
  then have "digit_in 10 c = Some (digit_val c)" using Cons.prems [of c] by (simp add: digit_in_def digit_val_def Let_def)
  then show ?case using Cons by (simp add: mult.commute)
qed simp

lemma strtol_nat_str: "int n < 2 ^ 63 \<Longrightarrow> strtol 10 (nat_str n) = int n"
proof -
  assume n: "int n < 2 ^ 63"
  obtain c cs where c: "nat_str n = c # cs" by (cases "nat_str n") auto
  then have "is_digit c" using nat_str_digits [of c n] by simp
  then have "\<not> is_space c" "c \<noteq> CHR ''-''" "c \<noteq> CHR ''+''" by (auto simp: is_digit_def is_space_def less_eq_char_def)
  moreover have "digits_value 10 (nat_str n) 0 = n"
    using digits_value_digits [of "nat_str n" 0] nat_str_digits [of _ n] read_nat_str [of n] by (simp add: read_nat_def)
  ultimately show ?thesis using n by (simp add: strtol_def c starts_with_def Let_def)
qed

lemmas skip_rules = skips_Nil skips_append skips_element skips_no_tag skips_concat

text \<open>The head of a page, its entries and its groups, as a search for another tag meets them.\<close>

lemma skips_entry:
  assumes "mismatch t (''Key'' @ ''>'')" "mismatch t (''/'' @ ''Key'' @ ''>'')" "mismatch t (''Size'' @ ''>'')" "mismatch t (''/'' @ ''Size'' @ ''>'')"
    "mismatch t (''LastModified'' @ ''>'')" "mismatch t (''/'' @ ''LastModified'' @ ''>'')"
  shows "skips t (render_entry e)"
  unfolding render_entry_def by (intro skips_append skips_element assms skips_no_tag) simp_all

lemma read_entry:
  assumes "le_key e \<noteq> []" "0 \<le> le_size e" "le_size e < 2 ^ 63" "xml_escape (le_last_modified e) = le_last_modified e"
  shows "list_entry_of (render_entry e) = Some e"
proof -
  let ?k = "element ''Key'' (xml_escape (le_key e))" and ?m = "element ''LastModified'' (xml_escape (le_last_modified e))"
    and ?s = "element ''Size'' (nat_str (nat (le_size e)))"
  have "tag_text ''Key'' ([] @ ?k @ ?m @ ?s) = Some (xml_escape (le_key e), ?m @ ?s)"
    by (rule tag_text_here) (auto simp: name_ok_def)
  moreover have "tag_text ''LastModified'' (?k @ ?m @ ?s) = Some (xml_escape (le_last_modified e), ?s)"
    by (rule tag_text_here) (auto simp: name_ok_def intro!: skips_element)
  moreover have "tag_text ''Size'' ((?k @ ?m) @ ?s @ []) = Some (nat_str (nat (le_size e)), [])"
    by (rule tag_text_here) (auto simp: name_ok_def intro!: skips_element)
  ultimately show ?thesis
    using assms by (simp add: list_entry_of_def render_entry_def xml_escape_decode strtol_nat_str)
qed

lemma read_group: "p \<noteq> [] \<Longrightarrow> prefix_of (element ''Prefix'' (xml_escape p)) = Some p"
  using tag_text_here [of "''Prefix''" "xml_escape p" "[]" "[]"] by (auto simp: prefix_of_def name_ok_def xml_escape_decode)

definition page_head :: "string \<Rightarrow> list_result \<Rightarrow> string" where
  "page_head pfx r = ''<ListBucketResult>'' @ element ''Prefix'' (xml_escape pfx) @ element ''KeyCount'' (nat_str (length (lr_keys r)))"

definition page_more :: "list_result \<Rightarrow> string" where
  "page_more r = (if lr_truncated r then element ''NextContinuationToken'' (xml_escape (lr_next_continuation_token r)) else [])"

definition page_entries :: "list_result \<Rightarrow> string" where
  "page_entries r = concat (map (element ''Contents'') (map render_entry (lr_keys r)))"

definition page_groups_text :: "list_result \<Rightarrow> string" where
  "page_groups_text r = concat (map (element ''CommonPrefixes'') (map (\<lambda>p. element ''Prefix'' (xml_escape p)) (lr_common_prefixes r)))"

lemma render_page_parts:
  "render_page pfx r = page_head pfx r @ element ''IsTruncated'' (if lr_truncated r then ''true'' else ''false'') @ page_more r @
     page_entries r @ page_groups_text r @ ''</ListBucketResult>''"
  by (simp add: render_page_def page_head_def page_more_def page_entries_def page_groups_text_def)

definition outer_tags :: "string list" where
  "outer_tags = [''ListBucketResult'', ''Prefix'', ''KeyCount'', ''IsTruncated'', ''NextContinuationToken'', ''Contents'', ''Key'', ''Size'', ''LastModified'',
     ''CommonPrefixes'']"

definition misses :: "string \<Rightarrow> string list \<Rightarrow> bool" where
  "misses t us = list_all (\<lambda>u. mismatch t (u @ ''>'') \<and> mismatch t (''/'' @ u @ ''>'')) us"

lemma skips_parts:
  assumes "misses t [''ListBucketResult'', ''Prefix'', ''KeyCount'']"
  shows "skips t (page_head pfx r)" "skips t ''</ListBucketResult>''"
proof -
  have o: "skips t (CHR ''<'' # ''ListBucketResult>'')" "skips t (CHR ''<'' # ''/ListBucketResult>'')"
    by (rule skips_open; use assms in \<open>simp add: misses_def\<close>)+
  moreover have "skips t (element ''Prefix'' (xml_escape pfx))" "skips t (element ''KeyCount'' (nat_str (length (lr_keys r))))"
    by (rule skips_element; use assms in \<open>simp add: misses_def\<close>)+
  ultimately show "skips t (page_head pfx r)" "skips t ''</ListBucketResult>''"
    unfolding page_head_def by (blast intro: skips_append, simp)
qed

lemma skips_truncated:
  "misses t [''IsTruncated''] \<Longrightarrow> skips t (element ''IsTruncated'' (if lr_truncated r then ''true'' else ''false''))"
  by (auto simp: misses_def intro!: skips_element)

lemma skips_more: "misses t [''NextContinuationToken''] \<Longrightarrow> skips t (page_more r)"
  by (auto simp: misses_def page_more_def intro!: skips_element)

lemma skips_entries:
  assumes "misses t [''Contents'', ''Key'', ''Size'', ''LastModified'']"
  shows "skips t (page_entries r)"
  using assms unfolding page_entries_def
  by (auto simp: misses_def intro!: skips_concat skips_element skips_entry)

lemma skips_groups:
  assumes "misses t [''CommonPrefixes'', ''Prefix'']"
  shows "skips t (page_groups_text r)"
  using assms unfolding page_groups_text_def by (auto simp: misses_def intro!: skips_concat skips_element)

lemmas skip_page = skips_parts skips_truncated skips_more skips_entries skips_groups skips_append

lemma skips_find_none: "skips t x \<Longrightarrow> find_sub (CHR ''<'' # t) x = None"
  unfolding skips_def by (drule spec [of _ "[]"]) simp

lemma page_token_read:
  "tag_text ''NextContinuationToken'' (render_page pfx r) =
     (if lr_truncated r then Some (xml_escape (lr_next_continuation_token r), page_entries r @ page_groups_text r @ ''</ListBucketResult>'')
      else None)"
proof (cases "lr_truncated r")
  case True
  have "tag_text ''NextContinuationToken'' ((page_head pfx r @ element ''IsTruncated'' (if lr_truncated r then ''true'' else ''false'')) @
        page_more r @ page_entries r @ page_groups_text r @ ''</ListBucketResult>'') =
      Some (xml_escape (lr_next_continuation_token r), page_entries r @ page_groups_text r @ ''</ListBucketResult>'')"
    unfolding page_more_def using True
    by (simp only: if_True) (rule tag_text_here, auto simp: name_ok_def misses_def intro!: skip_page skips_element)
  then show ?thesis using True by (simp add: render_page_parts)
next
  case False
  then show ?thesis unfolding render_page_parts page_more_def
    by (auto simp: misses_def intro!: tag_text_none skip_page skips_element)
qed

lemma page_entry_blocks: "blocks ''Contents'' (render_page pfx r) = map render_entry (lr_keys r)"
proof -
  have "blocks ''Contents''
      ((page_head pfx r @ element ''IsTruncated'' (if lr_truncated r then ''true'' else ''false'') @ page_more r) @
       concat (map (element ''Contents'') (map render_entry (lr_keys r))) @ (page_groups_text r @ ''</ListBucketResult>''))
      = map render_entry (lr_keys r)"
    by (rule blocks_elements) (auto simp: name_ok_def misses_def intro!: skip_page skips_entry skips_element)
  then show ?thesis by (simp add: render_page_parts page_entries_def)
qed

lemma page_group_blocks:
  "blocks ''CommonPrefixes'' (render_page pfx r) = map (\<lambda>p. element ''Prefix'' (xml_escape p)) (lr_common_prefixes r)"
proof -
  have "blocks ''CommonPrefixes''
      ((page_head pfx r @ element ''IsTruncated'' (if lr_truncated r then ''true'' else ''false'') @ page_more r @ page_entries r) @
       concat (map (element ''CommonPrefixes'') (map (\<lambda>p. element ''Prefix'' (xml_escape p)) (lr_common_prefixes r))) @ ''</ListBucketResult>'')
      = map (\<lambda>p. element ''Prefix'' (xml_escape p)) (lr_common_prefixes r)"
    by (rule blocks_elements) (auto simp: name_ok_def misses_def intro!: skip_page skips_element)
  then show ?thesis by (simp add: render_page_parts page_groups_text_def)
qed

lemma entries_read_back:
  "\<forall>e\<in>set es. list_entry_of (render_entry e) = Some e \<Longrightarrow> List.map_filter list_entry_of (map render_entry es) = es"
  by (induction es) (simp_all add: List.map_filter_simps)

lemma groups_read_back:
  "[] \<notin> set ps \<Longrightarrow> List.map_filter prefix_of (map (\<lambda>p. element ''Prefix'' (xml_escape p)) ps) = ps"
  by (induction ps) (auto simp: List.map_filter_simps read_group)


definition ex_listing :: list_result where
  "ex_listing = \<lparr>lr_success = True, lr_http_status = 200, lr_retryable = True, lr_error = [], lr_common_prefixes = [''events/E/''],
     lr_keys = [\<lparr>le_key = ''a&b<c'', le_size = 42, le_last_modified = ''2026-01-01T00:00:00Z''\<rparr>], lr_truncated = True,
     lr_next_continuation_token = ''t1''\<rparr>"



section \<open>HTTP dates\<close>

definition month_names :: "string list" where
  "month_names = [''Jan'', ''Feb'', ''Mar'', ''Apr'', ''May'', ''Jun'', ''Jul'', ''Aug'', ''Sep'', ''Oct'', ''Nov'', ''Dec'']"

definition month_from :: "string \<Rightarrow> int" where
  "month_from m = (case index_of m month_names of None \<Rightarrow> 0 | Some i \<Rightarrow> int i + 1)"

text \<open>Division in C truncates; the negative branch writes that out.\<close>

definition days_from_civil :: "i64 \<Rightarrow> int \<Rightarrow> int \<Rightarrow> i64" where
  "days_from_civil y0 m d =
     (let y = y0 - (if m \<le> 2 then 1 else 0);
          era = (if y \<ge> 0 then y div 400 else - ((399 - y) div 400));
          yoe = y - era * 400;
          doy = (153 * (m + (if m > 2 then - 3 else 9)) + 2) div 5 + d - 1;
          doe = yoe * 365 + yoe div 4 - yoe div 100 + doy
      in era * 146097 + doe - 719468)"

text \<open>\<open>s[i]\<close>: the terminating zero one past the end.\<close>

definition char_at :: "string \<Rightarrow> nat \<Rightarrow> char" where
  "char_at s i = (if i < length s then s ! i else CHR 0x00)"

fun num_loop :: "string \<Rightarrow> nat \<Rightarrow> nat \<Rightarrow> int \<Rightarrow> int" where
  "num_loop s i 0 v = v"
| "num_loop s i (Suc n) v = (if \<not> is_digit (char_at s i) then - 1 else num_loop s (i + 1) n (v * 10 + int (digit_val (char_at s i))))"

definition num_at :: "string \<Rightarrow> nat \<Rightarrow> nat \<Rightarrow> int" where
  "num_at s i n = num_loop s i n 0"

definition date_part :: "string \<Rightarrow> string" where
  "date_part s = dropWhile (\<lambda>c. c = CHR '' '') (case find_sub '','' s of None \<Rightarrow> s | Some c \<Rightarrow> drop (c + 1) s)"

definition parse_http_date_ms :: "string \<Rightarrow> i64 option" where
  "parse_http_date_ms s0 =
     (let s = date_part s0
      in if length s < 19 then None
         else let day = num_at s 0 2 in if day < 1 \<or> char_at s 2 \<noteq> CHR '' '' then None
         else let month = month_from (take 3 (drop 3 s)) in if month = 0 \<or> char_at s 6 \<noteq> CHR '' '' then None
         else let year = num_at s 7 4 in if year < 0 \<or> char_at s 11 \<noteq> CHR '' '' then None
         else let hh = num_at s 12 2 in if hh < 0 \<or> char_at s 14 \<noteq> CHR '':'' then None
         else let mm = num_at s 15 2 in if mm < 0 \<or> char_at s 17 \<noteq> CHR '':'' then None
         else let ss = num_at s 18 2 in if ss < 0 then None
         else let days = days_from_civil year month day in Some (((days * 24 + hh) * 60 + mm) * 60 * 1000 + ss * 1000))"


text \<open>The calendar: the days of the years since 1970, of the months before, and of the month.\<close>

definition leap :: "int \<Rightarrow> bool" where
  "leap y = (4 dvd y \<and> (\<not> 100 dvd y \<or> 400 dvd y))"

definition month_days :: "int \<Rightarrow> nat \<Rightarrow> int" where
  "month_days y m = [31, if leap y then 29 else 28, 31, 30, 31, 30, 31, 31, 30, 31, 30, 31] ! (m - 1)"

definition year_days :: "int \<Rightarrow> int" where
  "year_days y = (if leap y then 366 else 365)"

definition civil_days :: "nat \<Rightarrow> nat \<Rightarrow> int \<Rightarrow> int" where
  "civil_days y m d = (\<Sum>k\<leftarrow>[1970..<y]. year_days (int k)) + (\<Sum>k\<leftarrow>[1..<m]. month_days (int y) k) + d - 1"

definition days_to :: "int \<Rightarrow> int" where
  "days_to y = 365 * y + y div 4 - y div 100 + y div 400"

lemma div_step: "(0::int) < k \<Longrightarrow> y div k - (y - 1) div k = (if k dvd y then 1 else 0)"
proof -
  assume k: "0 < k"
  define q where "q = y div k"
  have y: "y = k * q + y mod k" "0 \<le> y mod k" "y mod k < k" using k by (simp_all add: q_def)
  show ?thesis
  proof (cases "k dvd y")
    case True
    then have "(y - 1) div k = q - 1"
      using y k by (intro int_div_pos_eq [where r = "k - 1"]) (auto simp: algebra_simps)
    then show ?thesis using True by (simp add: q_def)
  next
    case False
    then have "y mod k \<noteq> 0" by (simp add: dvd_eq_mod_eq_0)
    then have "0 \<le> y mod k - 1" "y mod k - 1 < k" using y(2,3) by linarith+
    then have "(y - 1) div k = q" using y(1) by (intro int_div_pos_eq [where r = "y mod k - 1"]) linarith+
    then show ?thesis using False by (simp add: q_def)
  qed
qed

lemma days_to_step: "days_to y - days_to (y - 1) = year_days y"
proof -
  have "(4 :: int) dvd 100" "(100 :: int) dvd 400" by simp_all
  then have d: "100 dvd y \<Longrightarrow> 4 dvd y" "400 dvd y \<Longrightarrow> 100 dvd y" by (blast intro: dvd_trans)+
  note s = div_step [of 4 y, simplified] div_step [of 100 y, simplified] div_step [of 400 y, simplified]
  have "days_to y - days_to (y - 1) = 365 + (y div 4 - (y - 1) div 4) - (y div 100 - (y - 1) div 100) + (y div 400 - (y - 1) div 400)"
    by (simp add: days_to_def)
  then show ?thesis unfolding s year_days_def leap_def using d by (cases "400 dvd y"; cases "100 dvd y"; cases "4 dvd y") simp_all
qed

lemma days_from_civil_eq:
  assumes "1 \<le> y"
  shows "days_from_civil y m d =
    days_to (y - (if m \<le> 2 then 1 else 0)) + (153 * (m + (if m > 2 then - 3 else 9)) + 2) div 5 + d - 719469"
proof -
  define z where "z = y - (if m \<le> 2 then 1 else 0)"
  have z: "0 \<le> z" using assms by (simp add: z_def)
  define e r where "e = z div 400" and "r = z mod 400"
  have zr: "z = 400 * e + r" by (simp add: e_def r_def)
  have "(4 * (100 * e) + r) div 4 = 100 * e + r div 4" "(100 * (4 * e) + r) div 100 = 4 * e + r div 100"
    by (rule div_mult_self4, simp)+
  then have "z div 4 = 100 * e + r div 4" "z div 100 = 4 * e + r div 100" by (simp_all add: zr)
  then have "e * 146097 + ((z - e * 400) * 365 + (z - e * 400) div 4 - (z - e * 400) div 100) = days_to z"
    unfolding days_to_def e_def [symmetric] using zr by simp
  then show ?thesis using z unfolding days_from_civil_def z_def [symmetric] Let_def e_def by simp
qed

lemma year_start: "days_from_civil (int (1970 + n)) 1 1 = (\<Sum>k\<leftarrow>[1970..<1970 + n]. year_days (int k))"
proof (induction n)
  case 0
  show ?case by (simp add: days_from_civil_eq days_to_def)
next
  case (Suc n)
  have "days_from_civil (int (1970 + Suc n)) 1 1 - days_from_civil (int (1970 + n)) 1 1 = year_days (int (1970 + n))"
    using days_to_step [of "int (1970 + n)"] by (simp add: days_from_civil_eq)
  moreover have "[1970..<1970 + Suc n] = [1970..<1970 + n] @ [1970 + n]" by (simp only: add_Suc_right upt_Suc_append le_add1)
  ultimately show ?case using Suc by (simp only: map_append sum_list_append list.map sum_list.Cons sum_list.Nil)
qed

lemma days_from_civil_correct:
  assumes "1970 \<le> y" "1 \<le> m" "m \<le> 12"
  shows "days_from_civil (int y) (int m) d = civil_days y m d"
proof -
  have "days_from_civil (int y) 1 1 = (\<Sum>k\<leftarrow>[1970..<y]. year_days (int k))" using year_start [of "y - 1970"] assms(1) by simp
  moreover have "days_from_civil (int y) (int m) d - days_from_civil (int y) 1 1 = (\<Sum>k\<leftarrow>[1..<m]. month_days (int y) k) + d - 1"
  proof -
    have "m \<in> {1, 2, 3, 4, 5, 6, 7, 8, 9, 10, 11, 12}" using assms(2,3) by (simp only: insert_iff empty_iff) presburger
    then show ?thesis
      using days_to_step [of "int y"] assms(1)
      by (elim insertE emptyE) (simp_all add: days_from_civil_eq upt_rec month_days_def year_days_def nth_Cons')
  qed
  ultimately show ?thesis by (simp add: civil_days_def)
qed

text \<open>A date as RFC 7231 writes it.\<close>

definition two_digits :: "nat \<Rightarrow> string" where
  "two_digits n = [digit_char (n div 10), digit_char (n mod 10)]"

definition fixdate :: "string \<Rightarrow> nat \<Rightarrow> nat \<Rightarrow> nat \<Rightarrow> nat \<Rightarrow> nat \<Rightarrow> nat \<Rightarrow> string" where
  "fixdate wday y m d hh mm ss = wday @ '', '' @ two_digits d @ '' '' @ month_names ! (m - 1) @ '' '' @
     two_digits (y div 100) @ two_digits (y mod 100) @ '' '' @ two_digits hh @ '':'' @ two_digits mm @ '':'' @ two_digits ss @ '' GMT''"

lemma find_comma: "CHR '','' \<notin> set x \<Longrightarrow> find_sub '','' (x @ CHR '','' # y) = Some (length x)"
  by (induction x) (auto simp: starts_with_def)

lemma num_digit: "d < 10 \<Longrightarrow> char_at s i = digit_char d \<Longrightarrow> num_loop s i (Suc n) v = num_loop s (i + 1) n (v * 10 + int d)"
  by simp

lemma num_two:
  assumes "n < 100" "char_at s i = digit_char (n div 10)" "char_at s (i + 1) = digit_char (n mod 10)"
  shows "num_at s i 2 = int n"
proof -
  have "n div 10 < 10" using assms(1) by simp
  then have "num_at s i 2 = (0 * 10 + int (n div 10)) * 10 + int (n mod 10)"
    using num_digit [OF _ assms(2)] num_digit [OF _ assms(3)] by (simp add: num_at_def numeral_2_eq_2 del: num_loop.simps(2) of_nat_div of_nat_mod)
  also have "\<dots> = int n" by presburger
  finally show ?thesis .
qed

lemma num_four:
  assumes "n < 100" "k < 100" "char_at s i = digit_char (n div 10)" "char_at s (i + 1) = digit_char (n mod 10)"
    "char_at s (i + 2) = digit_char (k div 10)" "char_at s (i + 3) = digit_char (k mod 10)"
  shows "num_at s i 4 = int (n * 100 + k)"
proof -
  have lt: "n div 10 < 10" "n mod 10 < 10" "k div 10 < 10" "k mod 10 < 10" using assms(1,2) by simp_all
  have c: "char_at s (i + 1 + 1) = digit_char (k div 10)" "char_at s (i + 1 + 1 + 1) = digit_char (k mod 10)" using assms(5,6) by (simp_all add: numeral_2_eq_2 numeral_3_eq_3)
  have "(4 :: nat) = Suc (Suc (Suc (Suc 0)))" by simp
  then have "num_at s i 4 = num_loop s i (Suc (Suc (Suc (Suc 0)))) 0" by (simp only: num_at_def)
  also have "\<dots> = (((0 * 10 + int (n div 10)) * 10 + int (n mod 10)) * 10 + int (k div 10)) * 10 + int (k mod 10)"
    by (simp only: num_digit [OF lt(1) assms(3)] num_digit [OF lt(2) assms(4)] num_digit [OF lt(3) c(1)] num_digit [OF lt(4) c(2)] num_loop.simps(1))
  also have "\<dots> = int (n * 100 + k)"
  proof -
    have "int x = int (x div 10) * 10 + int (x mod 10)" for x by presburger
    note split = this [of n] this [of k]
    have "N = Q * 10 + R \<Longrightarrow> K = S * 10 + T \<Longrightarrow> (((0 * 10 + Q) * 10 + R) * 10 + S) * 10 + T = N * 100 + K" for N Q R K S T :: int by simp
    from this [OF split] show ?thesis by simp
  qed
  finally show ?thesis .
qed

lemma month_name:
  assumes "1 \<le> m" "m \<le> 12"
  obtains a b c where "month_names ! (m - 1) = [a, b, c]" "month_from [a, b, c] = int m"
proof -
  have "m \<in> {1, 2, 3, 4, 5, 6, 7, 8, 9, 10, 11, 12}" using assms by (simp only: insert_iff empty_iff) presburger
  then have "\<exists>a b c. month_names ! (m - 1) = [a, b, c] \<and> month_from [a, b, c] = int m"
    by (elim insertE emptyE) (simp_all add: month_names_def month_from_def)
  then show thesis using that by blast
qed

lemma month_days_bound: "1 \<le> m \<Longrightarrow> m \<le> 12 \<Longrightarrow> month_days y m \<le> 31"
proof -
  assume "1 \<le> m" "m \<le> 12"
  then have "m \<in> {1, 2, 3, 4, 5, 6, 7, 8, 9, 10, 11, 12}" by (simp only: insert_iff empty_iff) presburger
  then show ?thesis by (elim insertE emptyE) (simp_all add: month_days_def)
qed

text \<open>
  A date header is read as the moment it names. For every day from 1970 to 9999 and every time of day, the date
  as RFC 7231 writes it parses to the milliseconds since the epoch: the days of the calendar, leap years
  included, and the seconds of the day.
\<close>

lemma http_date_correct:
  assumes "1970 \<le> y" "y \<le> 9999" "1 \<le> m" "m \<le> 12" "1 \<le> d" "int d \<le> month_days (int y) m" "hh < 24" "mm < 60" "ss < 60"
    "CHR '','' \<notin> set wday"
  shows "parse_http_date_ms (fixdate wday y m d hh mm ss) =
    Some ((((civil_days y m (int d) * 24 + int hh) * 60 + int mm) * 60 + int ss) * 1000)"
proof -
  obtain a b c where mo: "month_names ! (m - 1) = [a, b, c]" "month_from [a, b, c] = int m" using month_name assms(3,4) by blast
  let ?s = "two_digits d @ '' '' @ [a, b, c] @ '' '' @ two_digits (y div 100) @ two_digits (y mod 100) @ '' '' @ two_digits hh @ '':'' @
    two_digits mm @ '':'' @ two_digits ss @ '' GMT''"
  have sm: "d < 100" "y div 100 < 100" "y mod 100 < 100" "hh < 100" "mm < 100" "ss < 100"
    using assms month_days_bound [of m "int y"] by auto
  have "d div 10 < 10" using sm(1) by simp
  from is_digit_char [OF this] have "digit_char (d div 10) \<noteq> CHR '' ''" by (auto simp: is_digit_def less_eq_char_def)
  moreover have "fixdate wday y m d hh mm ss = wday @ CHR '','' # CHR '' '' # ?s" by (simp only: fixdate_def mo(1) append.simps)
  ultimately have dp: "date_part (fixdate wday y m d hh mm ss) = ?s"
    using find_comma [OF assms(10), of "CHR '' '' # ?s"] by (simp add: date_part_def two_digits_def)
  have n: "num_at ?s 0 2 = int d" "num_at ?s 12 2 = int hh" "num_at ?s 15 2 = int mm" "num_at ?s 18 2 = int ss"
    by (rule num_two; use sm in \<open>simp add: char_at_def two_digits_def\<close>)+
  have "num_at ?s 7 4 = int (y div 100 * 100 + y mod 100)"
    by (rule num_four; use sm in \<open>simp add: char_at_def two_digits_def\<close>)
  then have ny: "num_at ?s 7 4 = int y" by simp
  have "parse_http_date_ms (fixdate wday y m d hh mm ss) =
      Some (((days_from_civil (int y) (int m) (int d) * 24 + int hh) * 60 + int mm) * 60 * 1000 + int ss * 1000)"
    unfolding parse_http_date_ms_def dp Let_def n ny using assms(3,5) mo(2) by (simp add: char_at_def two_digits_def)
  then show ?thesis using days_from_civil_correct [OF assms(1,3,4), of "int d"] by simp
qed

section \<open>Versions\<close>

record version =
  vn_major :: int
  vn_minor :: int
  vn_patch :: int
  vn_pre :: bool

text \<open>\<^verbatim>\<open>digits\<close>: the number at the start of a text, capped at a million, and what follows it.\<close>

fun digits_loop :: "string \<Rightarrow> int \<Rightarrow> int \<times> string" where
  "digits_loop [] v = (v, [])"
| "digits_loop (c # cs) v = (if is_digit c then digits_loop cs (min 1000000 (v * 10 + int (digit_val c))) else (v, c # cs))"

definition digits :: "string \<Rightarrow> (int \<times> string) option" where
  "digits s = (if s = [] \<or> \<not> is_digit (hd s) then None else Some (digits_loop s 0))"

definition version_tail :: "version \<Rightarrow> string \<Rightarrow> version option" where
  "version_tail v s0 =
     (let s = dropWhile is_space s0
      in if s = [] then Some v
         else if hd s \<noteq> CHR ''-'' \<and> hd s \<noteq> CHR ''+'' then None
         else if tl s = [] then None
         else Some (v\<lparr>vn_pre := (hd s = CHR ''-'')\<rparr>))"

definition parse_version :: "string \<Rightarrow> version option" where
  "parse_version txt =
     (let s = dropWhile is_space txt;
          s1 = if starts_with s ''v'' \<or> starts_with s ''V'' then tl s else s
      in case digits s1 of
           None \<Rightarrow> None
         | Some (major, s2) \<Rightarrow>
             let v = \<lparr>vn_major = major, vn_minor = 0, vn_patch = 0, vn_pre = False\<rparr>
             in if \<not> starts_with s2 ''.'' then version_tail v s2
                else case digits (tl s2) of
                       None \<Rightarrow> None
                     | Some (minor, s3) \<Rightarrow>
                         if \<not> starts_with s3 ''.'' then version_tail (v\<lparr>vn_minor := minor\<rparr>) s3
                         else case digits (tl s3) of
                                None \<Rightarrow> None
                              | Some (patch, s4) \<Rightarrow> version_tail (v\<lparr>vn_minor := minor, vn_patch := patch\<rparr>) s4)"

definition compare_versions :: "string \<Rightarrow> string \<Rightarrow> int" where
  "compare_versions a b =
     (case (parse_version a, parse_version b) of
        (Some va, Some vb) \<Rightarrow>
          if vn_major va \<noteq> vn_major vb then (if vn_major va < vn_major vb then - 1 else 1)
          else if vn_minor va \<noteq> vn_minor vb then (if vn_minor va < vn_minor vb then - 1 else 1)
          else if vn_patch va \<noteq> vn_patch vb then (if vn_patch va < vn_patch vb then - 1 else 1)
          else if vn_pre va \<noteq> vn_pre vb then (if vn_pre va then - 1 else 1)
          else 0
      | _ \<Rightarrow> 0)"

text \<open>\<^verbatim>\<open>latest_tag_from_release_json\<close>: the loop over the quoted value, then the scan for it.\<close>

fun quoted :: "string \<Rightarrow> string \<Rightarrow> string" where
  "quoted out [] = []"
| "quoted out [c] = (if c = CHR 0x22 then out else [])"
| "quoted out (c # d # cs) =
     (if c = CHR 0x22 then out
      else if c = CHR 0x5C then quoted (out @ [d]) cs
      else quoted (out @ [c]) (d # cs))"

definition latest_tag_from_release_json :: "string \<Rightarrow> string" where
  "latest_tag_from_release_json body =
     (case find_sub ([CHR 0x22] @ ''tag_name'' @ [CHR 0x22]) body of
        None \<Rightarrow> []
      | Some k \<Rightarrow>
          let s = dropWhile is_space (drop (k + 10) body)
          in if \<not> starts_with s '':'' then []
             else let s2 = dropWhile is_space (tl s)
                  in if \<not> starts_with s2 [CHR 0x22] then [] else quoted [] (tl s2))"


section \<open>Response headers and the rate of transfers\<close>

definition header_is :: "string \<Rightarrow> string \<Rightarrow> string option" where
  "header_is line nm =
     (let n = length nm
      in if length line \<le> n then None
         else if map to_upper (take n line) \<noteq> map to_upper nm then None
         else let rest = dropWhile (\<lambda>c. c = CHR '' '' \<or> c = CHR 0x09) (drop n line)
              in if \<not> starts_with rest '':'' then None else Some (trim (tl rest)))"

definition is_alpha :: "char \<Rightarrow> bool" where
  "is_alpha c = (is_upper c \<or> is_lower c)"

definition cloudflare_colo :: "string \<Rightarrow> string" where
  "cloudflare_colo cf_ray =
     (let v = trim cf_ray; t = rev (takeWhile (\<lambda>c. c \<noteq> CHR ''-'') (rev v))
      in if CHR ''-'' \<notin> set v then []
         else if length t < 3 \<or> length t > 4 then []
         else if list_all is_alpha t then map to_upper t else [])"

record rate_meter =
  rm_alpha :: double
  rm_rate :: double
  rm_samples :: u64

definition rate_meter_init :: "double \<Rightarrow> rate_meter" where
  "rate_meter_init smoothing = \<lparr>rm_alpha = smoothing, rm_rate = 0, rm_samples = 0\<rparr>"

definition rate_add :: "u64 \<Rightarrow> double \<Rightarrow> rate_meter \<Rightarrow> rate_meter" where
  "rate_add bytes seconds m =
     (if bytes < 64 * 1024 \<or> seconds < 5 / 100 then m
      else let rate = real bytes / seconds
           in m\<lparr>rm_rate := (if rm_samples m = 0 then rate else rm_alpha m * rate + (1 - rm_alpha m) * rm_rate m),
                rm_samples := rm_samples m + 1\<rparr>)"


section \<open>Comparing versions\<close>

definition version_rank :: "version \<Rightarrow> int \<times> int \<times> int \<times> bool" where
  "version_rank v = (vn_major v, vn_minor v, vn_patch v, \<not> vn_pre v)"

lemma compare_versions_rank:
  assumes "parse_version a = Some va" "parse_version b = Some vb"
  shows "compare_versions a b = (if version_rank va < version_rank vb then - 1 else if version_rank vb < version_rank va then 1 else 0)"
  using assms by (auto simp: compare_versions_def version_rank_def less_prod_def less_eq_prod_def)

lemma compare_versions_unknown: "parse_version a = None \<or> parse_version b = None \<Longrightarrow> compare_versions a b = 0"
  by (auto simp: compare_versions_def split: option.splits)

lemma compare_versions_flip: "compare_versions b a = - compare_versions a b"
proof (cases "parse_version a = None \<or> parse_version b = None")
  case False
  then obtain va vb where "parse_version a = Some va" "parse_version b = Some vb" by auto
  then show ?thesis using compare_versions_rank less_not_sym by (auto simp del: less_prod_simp)
qed (use compare_versions_unknown in auto)

lemma digits_loop_nat_str:
  assumes "\<And>c. c \<in> set s \<Longrightarrow> is_digit c" "rest = [] \<or> \<not> is_digit (hd rest)"
  shows "digits_loop (s @ rest) v = (foldl (\<lambda>a c. min 1000000 (a * 10 + int (digit_val c))) v s, rest)"
  using assms(1)
proof (induction s arbitrary: v)
  case Nil
  show ?case using assms(2) by (cases rest) auto
qed simp

lemma capped_value:
  assumes "int (foldl (\<lambda>a c. 10 * a + digit_val c) v s) \<le> 1000000"
  shows "foldl (\<lambda>a c. min 1000000 (a * 10 + int (digit_val c))) (int v) s = int (foldl (\<lambda>a c. 10 * a + digit_val c) v s)"
  using assms
proof (induction s arbitrary: v)
  case (Cons c cs)
  have mono: "v \<le> foldl (\<lambda>a c. 10 * a + digit_val c) v s" for v :: nat and s
  proof (induction s arbitrary: v)
    case (Cons c cs)
    have "v \<le> 10 * v + digit_val c" by simp
    then show ?case using Cons.IH [of "10 * v + digit_val c"] by (simp add: order_trans)
  qed simp
  have "int (10 * v + digit_val c) \<le> 1000000" using mono [of "10 * v + digit_val c" cs] Cons.prems by simp
  then have "min 1000000 (int v * 10 + int (digit_val c)) = int (10 * v + digit_val c)" by simp
  then show ?case using Cons.IH [of "10 * v + digit_val c"] Cons.prems by simp
qed simp

lemma digits_nat_str:
  assumes "n \<le> 1000000" "rest = [] \<or> \<not> is_digit (hd rest)"
  shows "digits (nat_str n @ rest) = Some (int n, rest)"
proof -
  have d: "is_digit c" if "c \<in> set (nat_str n)" for c using that by (rule nat_str_digits)
  have f: "foldl (\<lambda>a c. 10 * a + digit_val c) 0 (nat_str n) = n" using read_nat_str [of n] by (simp add: read_nat_def)
  have "hd (nat_str n @ rest) \<in> set (nat_str n)" by (cases "nat_str n") auto
  then show ?thesis
    using digits_loop_nat_str [OF d assms(2)] capped_value [of 0 "nat_str n"] d assms(1) f by (auto simp: digits_def)
qed

text \<open>The project's own tags parse to their numbers, so they are ordered as numbers.\<close>

definition version_tag :: "nat \<Rightarrow> nat \<Rightarrow> nat \<Rightarrow> string \<Rightarrow> string" where
  "version_tag a b c pre = ''v'' @ nat_str a @ ''.'' @ nat_str b @ ''.'' @ nat_str c @ (if pre = [] then [] else ''-'' @ pre)"

lemma parse_version_tag:
  assumes "a \<le> 1000000" "b \<le> 1000000" "c \<le> 1000000"
  shows "parse_version (version_tag a b c pre) = Some \<lparr>vn_major = int a, vn_minor = int b, vn_patch = int c, vn_pre = (pre \<noteq> [])\<rparr>"
proof -
  let ?t = "if pre = [] then [] else ''-'' @ pre"
  have nd: "\<not> is_digit CHR ''.''" "\<not> is_digit CHR ''-''" "\<not> is_space CHR ''v''" "\<not> is_space CHR ''-''"
    by (simp_all add: is_digit_def less_eq_char_def is_space_def)
  have "digits (nat_str a @ CHR ''.'' # x) = Some (int a, CHR ''.'' # x)" "digits (nat_str b @ CHR ''.'' # x) = Some (int b, CHR ''.'' # x)" for x
    by (rule digits_nat_str; use assms nd in simp)+
  moreover have "digits (nat_str c @ ?t) = Some (int c, ?t)" by (rule digits_nat_str) (use assms nd in auto)
  ultimately show ?thesis
    using nd by (auto simp: parse_version_def version_tag_def starts_with_def version_tail_def Let_def)
qed

section \<open>Transfer rates\<close>

text \<open>With a smoothing between 0 and 1 the rate shown stays within the rates measured.\<close>

lemma rate_between:
  assumes "0 \<le> rm_alpha m" "rm_alpha m \<le> 1" "rm_samples m > 0 \<longrightarrow> lo \<le> rm_rate m \<and> rm_rate m \<le> hi"
    "lo \<le> real bytes / seconds" "real bytes / seconds \<le> hi"
  shows "rm_samples (rate_add bytes seconds m) > 0 \<longrightarrow> lo \<le> rm_rate (rate_add bytes seconds m) \<and> rm_rate (rate_add bytes seconds m) \<le> hi"
proof -
  have conv: "lo \<le> a * x + (1 - a) * y \<and> a * x + (1 - a) * y \<le> hi" if "lo \<le> x" "x \<le> hi" "lo \<le> y" "y \<le> hi" "0 \<le> a" "a \<le> 1" for a x y :: real
  proof -
    have "a * lo + (1 - a) * lo \<le> a * x + (1 - a) * y" "a * x + (1 - a) * y \<le> a * hi + (1 - a) * hi"
      using that by (intro add_mono mult_left_mono; simp)+
    then show ?thesis by (simp add: algebra_simps)
  qed
  show ?thesis using conv [of "real bytes / seconds" "rm_rate m" "rm_alpha m"] assms by (auto simp: rate_add_def Let_def)
qed

end
