(* ===== verification/Playout_Timing.thy ===== *)
theory Playout_Timing
  imports Prelude
begin

text \<open>
  The small decisions between a decoded frame and the output, each in a header of its own under
  \<^verbatim>\<open>src/core/\<close>: when a frame is due (\<^verbatim>\<open>playout_clock.h\<close>), whether it still counts
  (\<^verbatim>\<open>playout_timeline.h\<close>), which frames a seek inside a fragment drops (\<^verbatim>\<open>seek_skip.h\<close>), where the
  playhead is between two samples (\<^verbatim>\<open>position_interp.h\<close>), how much a start may hold
  (\<^verbatim>\<open>hold_budget.h\<close>), what becomes of a fragment in hand (\<^verbatim>\<open>feed_wait.h\<close>), where a segment is cut
  (\<^verbatim>\<open>segment_cut.h\<close>) and how a time passes through the Rockchip decoder
  (\<^verbatim>\<open>mpp_pts.h\<close>). Where the arithmetic wraps, times are 64-bit words; elsewhere they are integers.
\<close>

section \<open>When a frame is due\<close>

text \<open>
  \<^verbatim>\<open>playout_due_ns\<close> on 64-bit words: \<open>base\<close> is unsigned, the times are signed. The signed sum is the same
  bit pattern as the unsigned one; a sum that is not positive gives 0.
\<close>

definition playout_due_ns :: "64 word \<Rightarrow> 64 word \<Rightarrow> 64 word \<Rightarrow> 64 word" where
  "playout_due_ns base_ns pts_ns first_pts_ns =
     (let due = base_ns + (pts_ns - first_pts_ns) in if 0 <s due then due else 0)"


section \<open>The timeline of the delivery loop\<close>

definition kUnset :: i64 where
  "kUnset = - (2 ^ 63)"

record playout_timeline =
  pl_epoch :: u64
  pl_media_epoch :: u64
  pl_skip_ns :: i64
  pl_skip_base_pts :: i64

definition playout_timeline_init :: playout_timeline where
  "playout_timeline_init = \<lparr>pl_epoch = 0, pl_media_epoch = 0, pl_skip_ns = - 1, pl_skip_base_pts = kUnset\<rparr>"

definition adopt :: "u64 \<Rightarrow> u64 \<Rightarrow> playout_timeline \<Rightarrow> playout_timeline" where
  "adopt timeline_id media_id t =
     (let t1 = (if media_id \<noteq> pl_media_epoch t then t\<lparr>pl_media_epoch := media_id\<rparr> else t)
      in if timeline_id \<noteq> pl_epoch t1 then t1\<lparr>pl_epoch := timeline_id, pl_skip_base_pts := kUnset, pl_skip_ns := - 1\<rparr> else t1)"

definition restart :: "playout_timeline \<Rightarrow> playout_timeline" where
  "restart t = adopt (inc64 (pl_epoch t)) (inc64 (pl_media_epoch t)) t"

definition begin_fragment :: "i64 \<Rightarrow> playout_timeline \<Rightarrow> playout_timeline" where
  "begin_fragment skip_ns t =
     (let t1 = t\<lparr>pl_skip_base_pts := kUnset\<rparr> in if skip_ns > 0 then t1\<lparr>pl_skip_ns := skip_ns\<rparr> else t1)"

datatype frame_action = Discard | DropForSkip | Play

definition consider_frame :: "u64 \<Rightarrow> i64 \<Rightarrow> playout_timeline \<Rightarrow> playout_timeline \<times> frame_action" where
  "consider_frame frame_epoch pts_ns t =
     (if frame_epoch \<noteq> pl_epoch t then (t, Discard)
      else if pl_skip_ns t \<ge> 0 then
        (let t1 = (if pl_skip_base_pts t = kUnset then t\<lparr>pl_skip_base_pts := pts_ns\<rparr> else t)
         in if pts_ns - pl_skip_base_pts t1 < pl_skip_ns t1 then (t1, DropForSkip) else (t1\<lparr>pl_skip_ns := - 1\<rparr>, Play))
      else (t, Play))"


section \<open>Seeking inside a fragment\<close>

record seek_skip =
  sk_skip_ns :: i64
  sk_base_v :: i64
  sk_base_a :: i64
  sk_arrived_v :: bool
  sk_arrived_a :: bool

definition arm :: "i64 \<Rightarrow> seek_skip \<Rightarrow> seek_skip" where
  "arm skip_ns s = s\<lparr>sk_base_v := kUnset, sk_base_a := kUnset, sk_arrived_v := False, sk_arrived_a := False, sk_skip_ns := skip_ns\<rparr>"

definition disarm :: "seek_skip \<Rightarrow> seek_skip" where
  "disarm s = s\<lparr>sk_skip_ns := - 1\<rparr>"

definition armed :: "seek_skip \<Rightarrow> bool" where
  "armed s = (sk_skip_ns s \<ge> 0)"

definition sk_base :: "bool \<Rightarrow> seek_skip \<Rightarrow> i64" where
  "sk_base is_video s = (if is_video then sk_base_v s else sk_base_a s)"

definition sk_arrived :: "bool \<Rightarrow> seek_skip \<Rightarrow> bool" where
  "sk_arrived is_video s = (if is_video then sk_arrived_v s else sk_arrived_a s)"

definition set_base :: "bool \<Rightarrow> i64 \<Rightarrow> seek_skip \<Rightarrow> seek_skip" where
  "set_base is_video b s = (if is_video then s\<lparr>sk_base_v := b\<rparr> else s\<lparr>sk_base_a := b\<rparr>)"

definition set_arrived :: "bool \<Rightarrow> seek_skip \<Rightarrow> seek_skip" where
  "set_arrived is_video s = (if is_video then s\<lparr>sk_arrived_v := True\<rparr> else s\<lparr>sk_arrived_a := True\<rparr>)"

definition drops :: "i64 \<Rightarrow> bool \<Rightarrow> seek_skip \<Rightarrow> seek_skip \<times> bool" where
  "drops pts_ns is_video s =
     (if sk_skip_ns s < 0 then (s, False)
      else if sk_arrived is_video s then (s, False)
      else let s1 = (if sk_base is_video s = kUnset then set_base is_video pts_ns s else s)
           in if pts_ns - sk_base is_video s1 < sk_skip_ns s1 then (s1, True)
              else let s2 = set_arrived is_video s1
                   in (if sk_arrived_v s2 \<and> sk_arrived_a s2 then s2\<lparr>sk_skip_ns := - 1\<rparr> else s2, False))"


section \<open>The playhead between samples\<close>

definition interpolate_position :: "i64 \<Rightarrow> i64 \<Rightarrow> i64 \<Rightarrow> i64 \<Rightarrow> i64 \<Rightarrow> i64" where
  "interpolate_position base_ms base_wall_ms now_wall_ms bound_ms max_extrap_ms =
     (let e0 = now_wall_ms - base_wall_ms;
          e1 = (if e0 < 0 then 0 else e0);
          elapsed = (if e1 > max_extrap_ms then max_extrap_ms else e1);
          head = base_ms + elapsed
      in if bound_ms > 0 \<and> head > bound_ms then bound_ms else head)"

record playhead_anchor =
  pa_seq :: u64
  pa_media_ms :: i64
  pa_wall_ms :: i64
  pa_running :: bool

definition reanchor_playhead :: "u64 \<Rightarrow> i64 \<Rightarrow> i64 \<Rightarrow> bool \<Rightarrow> playhead_anchor \<Rightarrow> playhead_anchor" where
  "reanchor_playhead seq sample_ms sample_wall_ms running a =
     (if seq \<noteq> pa_seq a \<or> running \<noteq> pa_running a \<or> \<not> running
      then \<lparr>pa_seq = seq, pa_media_ms = sample_ms, pa_wall_ms = sample_wall_ms, pa_running = running\<rparr> else a)"

definition anchored_playhead :: "playhead_anchor \<Rightarrow> i64 \<Rightarrow> i64 \<Rightarrow> i64 \<Rightarrow> i64" where
  "anchored_playhead a now_wall_ms seg_ms bound_ms =
     (if \<not> pa_running a then pa_media_ms a
      else let a0 = now_wall_ms - pa_wall_ms a;
               a1 = (if a0 < 0 then 0 else a0);
               adv = (if seg_ms > 0 \<and> a1 > seg_ms then seg_ms else a1);
               head = pa_media_ms a + adv
           in if bound_ms > 0 \<and> head > bound_ms then bound_ms else head)"


section \<open>Holding packets and fragments\<close>

record hold_budget =
  hb_video :: nat
  hb_bytes :: nat

definition kMaxVideoPackets :: nat where
  "kMaxVideoPackets = 900"

definition kMaxBytes :: nat where
  "kMaxBytes = 67108864"

definition kMaxMs :: i64 where
  "kMaxMs = 15000"

definition hold_add :: "bool \<Rightarrow> nat \<Rightarrow> hold_budget \<Rightarrow> hold_budget" where
  "hold_add is_video bytes b =
     \<lparr>hb_video = (if is_video then (hb_video b + 1) mod 2 ^ 64 else hb_video b), hb_bytes = (hb_bytes b + bytes) mod 2 ^ 64\<rparr>"

definition hold_exceeded :: "i64 \<Rightarrow> hold_budget \<Rightarrow> bool" where
  "hold_exceeded held_ms b = (hb_video b > kMaxVideoPackets \<or> hb_bytes b > kMaxBytes \<or> held_ms > kMaxMs)"

definition hold_reset :: hold_budget where
  "hold_reset = \<lparr>hb_video = 0, hb_bytes = 0\<rparr>"

datatype feed_wait = FW_Push | FW_Wait | FW_Keep | FW_Drop

definition feed_wait_step :: "bool \<Rightarrow> bool \<Rightarrow> bool \<Rightarrow> feed_wait" where
  "feed_wait_step jumped paused lead_allows =
     (if jumped then FW_Drop else if paused then FW_Keep else if lead_allows then FW_Push else FW_Wait)"

definition feed_start_after_hold :: "u64 \<Rightarrow> u64 \<Rightarrow> u64 \<Rightarrow> u64" where
  "feed_start_after_hold feed_start_ns pause_started_ns now_ns =
     (if pause_started_ns = 0 \<or> pause_started_ns > now_ns then feed_start_ns
      else (feed_start_ns + (now_ns - pause_started_ns)) mod 2 ^ 64)"

definition keyframe_starts_segment :: "double \<Rightarrow> double \<Rightarrow> double \<Rightarrow> bool" where
  "keyframe_starts_segment elapsed_s target_s frame_s = (elapsed_s \<ge> target_s - (if frame_s > 0 then frame_s else 0))"

definition mpp_pts_to_packet :: "64 word \<Rightarrow> 64 word" where
  "mpp_pts_to_packet pts_ns = pts_ns + 1"

definition mpp_pts_from_frame :: "64 word \<Rightarrow> 64 word \<Rightarrow> 64 word" where
  "mpp_pts_from_frame frame_pts fallback_ns = (if frame_pts \<noteq> 0 then frame_pts - 1 else fallback_ns)"


section \<open>Properties of the seek\<close>

text \<open>The frames of a run that \<open>drops\<close> lets through, as pairs of time and stream.\<close>

fun kept :: "(i64 \<times> bool) list \<Rightarrow> seek_skip \<Rightarrow> (i64 \<times> bool) list" where
  "kept [] s = []"
| "kept ((p, v) # fs) s = (case drops p v s of (s1, dropped) \<Rightarrow> if dropped then kept fs s1 else (p, v) # kept fs s1)"

definition stream :: "bool \<Rightarrow> (i64 \<times> bool) list \<Rightarrow> i64 list" where
  "stream v fs = map fst (filter (\<lambda>f. snd f = v) fs)"

text \<open>What a stream keeps from where it stands, whatever the other does.\<close>

definition rest_kept :: "bool \<Rightarrow> seek_skip \<Rightarrow> i64 list \<Rightarrow> i64 list" where
  "rest_kept v s ps =
     (if sk_skip_ns s < 0 \<or> sk_arrived v s then ps
      else let b = (if sk_base v s = kUnset then hd ps else sk_base v s) in dropWhile (\<lambda>p. p - b < sk_skip_ns s) ps)"

lemma stream_simps [simp]: "stream v [] = []" "stream v ((p, u) # fs) = (if u = v then p # stream v fs else stream v fs)"
  by (simp_all add: stream_def)

lemmas skip_defs = drops_def rest_kept_def sk_base_def sk_arrived_def set_base_def set_arrived_def Let_def

text \<open>A step of one stream leaves what the other will keep as it was.\<close>

lemma drops_other:
  assumes "u \<noteq> v" "p \<noteq> kUnset"
  shows "rest_kept v (fst (drops p u s)) ps = rest_kept v s ps"
  using assms by (cases u; cases v) (auto simp: skip_defs)

lemma drops_own:
  assumes "p \<noteq> kUnset"
  shows "rest_kept v s (p # ps) = (if snd (drops p v s) then rest_kept v (fst (drops p v s)) ps else p # rest_kept v (fst (drops p v s)) ps)"
  using assms by (cases v) (auto simp: skip_defs)

lemma kept_stream:
  assumes "\<forall>f\<in>set fs. fst f \<noteq> kUnset"
  shows "stream v (kept fs s) = rest_kept v s (stream v fs)"
  using assms
proof (induction fs arbitrary: s)
  case Nil
  show ?case by (auto simp: rest_kept_def Let_def)
next
  case (Cons f fs)
  obtain p u where f: "f = (p, u)" by fastforce
  then have p: "p \<noteq> kUnset" using Cons.prems by auto
  have IH: "stream v (kept fs (fst (drops p u s))) = rest_kept v (fst (drops p u s)) (stream v fs)" using Cons by simp
  show ?case
  proof (cases "u = v")
    case True
    then show ?thesis using IH drops_own [OF p, of v s "stream v fs"] by (simp add: f case_prod_beta)
  next
    case False
    then show ?thesis using IH drops_other [OF False p, of s "stream v fs"] by (simp add: f case_prod_beta)
  qed
qed

text \<open>
  A seek inside a fragment cuts each stream at its own moment. However audio and video frames are interleaved, the frames of a
  stream that are let through are exactly those from the first one on that lies at least the asked
  distance after that stream's own first frame; the other stream has no part in it. (No frame carries the time
  that stands for no time.)
\<close>

lemma seek_cuts_each_stream:
  assumes "0 \<le> skip" "\<forall>f\<in>set fs. fst f \<noteq> kUnset"
  shows "stream v (kept fs (arm skip s)) = dropWhile (\<lambda>p. p - hd (stream v fs) < skip) (stream v fs)"
proof -
  have "rest_kept v (arm skip s) ps = dropWhile (\<lambda>p. p - hd ps < skip) ps" for ps
    using assms(1) by (cases v) (simp_all add: skip_defs arm_def)
  then show ?thesis using kept_stream [OF assms(2), of v "arm skip s"] by simp
qed

section \<open>Properties of the clock\<close>

text \<open>
  A frame is due at its distance from the anchor. With times in the signed 64-bit range and no overflow of the two sums,
  the due time is the base plus the signed distance, negative distances included, and 0 when that
  is before the epoch; and unless it is, it is the same word that the unsigned form
  \<^verbatim>\<open>base + (uint64_t)(pts - first)\<close> wraps to.
\<close>

lemma playout_due_exact:
  assumes "uint base < 2 ^ 63" "- (2 ^ 63) \<le> sint pts - sint first" "sint pts - sint first < 2 ^ 63"
    "uint base + (sint pts - sint first) < 2 ^ 63" "- (2 ^ 63) \<le> uint base + (sint pts - sint first)"
  shows "uint (playout_due_ns base pts first) = max 0 (uint base + (sint pts - sint first)) \<and>
    (0 \<le> uint base + (sint pts - sint first) \<longrightarrow> playout_due_ns base pts first = base + (pts - first))"
proof -
  define x where "x = uint base + (sint pts - sint first)"
  let ?w = "base + (pts - first)"
  have x: "- (2 ^ 63) \<le> x" "x < 2 ^ 63" using assms(4,5) by (simp_all add: x_def)
  have w: "?w = word_of_int x" by (simp add: x_def)
  have "sint ?w = x" unfolding w sint_sbintrunc' using x by (simp add: signed_take_bit_int_eq_self_iff)
  moreover have "uint ?w = x" if "0 \<le> x" unfolding w uint_word_of_int using that x by simp
  ultimately show ?thesis
    unfolding playout_due_ns_def Let_def x_def [symmetric] word_sless_alt by (auto simp: max_def) (auto simp: w)
qed

section \<open>Further facts\<close>

text \<open>A frame stamped before a restart is discarded and believed about nothing.\<close>

lemma restart_discards: "pl_epoch t \<le> u64_max \<Longrightarrow> consider_frame (pl_epoch t) pts (restart t) = (restart t, Discard)"
  using inc64_cases [of "pl_epoch t"] by (auto simp: consider_frame_def restart_def adopt_def Let_def u64_max_def)

text \<open>While a skip is under way nothing but its base is learned from a frame.\<close>

lemma skipped_frame_changes_base:
  "consider_frame e pts t = (t', DropForSkip) \<Longrightarrow> \<exists>b. t' = t\<lparr>pl_skip_base_pts := b\<rparr> \<and> e = pl_epoch t"
  by (auto simp: consider_frame_def Let_def split: if_splits) (metis playout_timeline.surjective playout_timeline.update_convs(4))

text \<open>The playhead shown stays between the sample and the allowed distance past it, and does not run back as time passes.\<close>

lemma interpolate_bounds:
  assumes "0 \<le> max_extrap" "bound \<le> 0 \<or> base \<le> bound"
  shows "base \<le> interpolate_position base wall now bound max_extrap \<and>
    interpolate_position base wall now bound max_extrap \<le> base + max_extrap \<and>
    (now \<le> now' \<longrightarrow> interpolate_position base wall now bound max_extrap \<le> interpolate_position base wall now' bound max_extrap)"
  using assms by (auto simp: interpolate_position_def Let_def)

text \<open>Time spent held does not count for the feed.\<close>

lemma held_time_not_counted:
  assumes "0 < pause" "pause \<le> now" "now \<le> later" "feed_start \<le> pause" "later < 2 ^ 64"
  shows "later - feed_start_after_hold feed_start pause now = (later - feed_start) - (now - pause)"
  using assms by (auto simp: feed_start_after_hold_def)

text \<open>A fragment in hand is dropped only after a jump.\<close>

lemma held_fragment_kept: "feed_wait_step jumped paused lead = FW_Drop \<longleftrightarrow> jumped"
  by (simp add: feed_wait_step_def)

text \<open>The decoder's times survive their passage through the hardware, but for one nanosecond before zero.\<close>

lemma mpp_pts_roundtrip: "pts \<noteq> - 1 \<Longrightarrow> mpp_pts_from_frame (mpp_pts_to_packet pts) fallback = pts"
proof -
  assume "pts \<noteq> - 1"
  then have "pts + 1 \<noteq> 0" by (metis add.commute add_eq_0_iff)
  then show ?thesis by (simp add: mpp_pts_from_frame_def mpp_pts_to_packet_def)
qed

text \<open>At 30000/1001 frames a second the keyframe of a six-second interval comes after 179 frames and starts a segment.\<close>

lemma ntsc_keyframe_cuts: "keyframe_starts_segment (179 * 1001 / 30000) 6 (1001 / 30000)"
  by (simp add: keyframe_starts_segment_def)

end
