(* ===== verification/Relay_Machine.thy ===== *)
theory Relay_Machine
  imports Decoder_Model
begin

text \<open>
  One destination's lifecycle (\<^verbatim>\<open>relay/src/relay_state.{h,cpp}\<close>): a machine that is given everything it may know as one
  input, once per pass, and answers with at most one action. \<open>relay_step\<close> is composed of one definition per section of
  \<^verbatim>\<open>RelayMachine::step\<close>, in the order the code tries them; the decision that is being filled in (\<open>d\<close> in the code) is
  passed on, because a note written early survives where nothing later overwrites it.

  The lemmas say what each action requires, that segments are sent in order and at most once over any run, however
  often the connection is rebuilt, that sending never runs ahead of real time, when a silence is given up on, and how the
  waits between attempts grow.
\<close>

section \<open>States, inputs, decisions\<close>

datatype relay_state = Relay_Idle | Relay_Waiting | Relay_Awaiting | Relay_Streaming | Relay_Stalled | Relay_Reconnecting
  | Relay_Ending | Relay_Stopped | Relay_Blocked

datatype relay_action = A_None | A_Spawn | A_FeedSegment | A_CloseInput | A_Kill

record relay_input =
  ri_now_ms :: i64
  ri_operator_wants_running :: bool
  ri_room :: room_state
  ri_latest_seq :: u64
  ri_first_available_seq :: u64
  ri_segment_duration_s :: double
  ri_plan_ok :: bool
  ri_plan_problem :: string
  ri_child_alive :: bool
  ri_output_accepting :: bool
  ri_output_ever_accepted :: bool
  ri_awaits_receiver :: bool
  ri_next_segment_ready :: bool
  ri_init_ready :: bool
  ri_delay_s :: int
  ri_from_beginning :: bool
  ri_start_seq :: u64
  ri_end_seq :: u64
  ri_grace_s :: int

record relay_decision =
  rd_action :: relay_action
  rd_seq :: u64
  rd_note :: string

record relay_machine =
  rl_state :: relay_state
  rl_head :: u64
  rl_head_set :: bool
  rl_anchor_ms :: i64
  rl_anchor_seq :: u64
  rl_stalled_since_ms :: i64
  rl_backed_up_since_ms :: i64
  rl_overdue_since_ms :: i64
  rl_retry_at_ms :: i64
  rl_backoff_ms :: int
  rl_restarts :: int
  rl_streaming_since_ms :: i64
  rl_last_error :: string

definition relay_machine_init :: relay_machine where
  "relay_machine_init = \<lparr>rl_state = Relay_Idle, rl_head = 0, rl_head_set = False, rl_anchor_ms = 0, rl_anchor_seq = 0,
     rl_stalled_since_ms = 0, rl_backed_up_since_ms = 0, rl_overdue_since_ms = 0, rl_retry_at_ms = 0, rl_backoff_ms = 0,
     rl_restarts = 0, rl_streaming_since_ms = 0, rl_last_error = []\<rparr>"

definition relay_input_init :: relay_input where
  "relay_input_init = \<lparr>ri_now_ms = 0, ri_operator_wants_running = False, ri_room = R_Unknown, ri_latest_seq = 0,
     ri_first_available_seq = 0, ri_segment_duration_s = 6, ri_plan_ok = False, ri_plan_problem = [], ri_child_alive = False,
     ri_output_accepting = True, ri_output_ever_accepted = False, ri_awaits_receiver = False, ri_next_segment_ready = False,
     ri_init_ready = False, ri_delay_s = 180, ri_from_beginning = False, ri_start_seq = 0, ri_end_seq = 0, ri_grace_s = 45\<rparr>"

definition no_decision :: relay_decision where
  "no_decision = \<lparr>rd_action = A_None, rd_seq = 0, rd_note = []\<rparr>"

definition relay_state_is_sending :: "relay_state \<Rightarrow> bool" where
  "relay_state_is_sending s = (s = Relay_Streaming \<or> s = Relay_Stalled \<or> s = Relay_Ending)"

fun relay_state_to_string :: "relay_state \<Rightarrow> string" where
  "relay_state_to_string Relay_Idle = ''idle''"
| "relay_state_to_string Relay_Waiting = ''waiting''"
| "relay_state_to_string Relay_Awaiting = ''awaiting''"
| "relay_state_to_string Relay_Streaming = ''streaming''"
| "relay_state_to_string Relay_Stalled = ''stalled''"
| "relay_state_to_string Relay_Reconnecting = ''reconnecting''"
| "relay_state_to_string Relay_Ending = ''ending''"
| "relay_state_to_string Relay_Stopped = ''stopped''"
| "relay_state_to_string Relay_Blocked = ''blocked''"

fun describe :: "relay_state \<Rightarrow> string" where
  "describe Relay_Idle = ''Not sending''"
| "describe Relay_Waiting = ''Waiting for the event to start''"
| "describe Relay_Awaiting = ''Ready '' @ em_dash @ '' waiting to be connected to''"
| "describe Relay_Streaming = ''Sending''"
| "describe Relay_Stalled = ''Nothing coming from the main site''"
| "describe Relay_Reconnecting = ''Reconnecting''"
| "describe Relay_Ending = ''Finishing off''"
| "describe Relay_Stopped = ''Finished''"
| "describe Relay_Blocked = ''Cannot send this event''"


section \<open>Positions and waits\<close>

definition seg_or_default :: "double \<Rightarrow> double" where
  "seg_or_default s = (if s > 1 / 10 then s else 6)"

definition seq_behind_live :: "u64 \<Rightarrow> u64 \<Rightarrow> double \<Rightarrow> int \<Rightarrow> u64" where
  "seq_behind_live latest_seq first_available_seq seg_s delay_s =
     (let seg = seg_or_default seg_s;
          back = nat (trunc (max 0 (real_of_int delay_s / seg)));
          want = if latest_seq > back then latest_seq - back else 0
      in min (max want first_available_seq) latest_seq)"

definition enter :: "relay_state \<Rightarrow> i64 \<Rightarrow> string \<Rightarrow> relay_machine \<Rightarrow> relay_machine" where
  "enter s now why m = m\<lparr>rl_state := s,
     rl_streaming_since_ms := if s = Relay_Streaming then now else rl_streaming_since_ms m,
     rl_stalled_since_ms := if s \<noteq> Relay_Stalled then 0 else rl_stalled_since_ms m,
     rl_backed_up_since_ms := if s \<noteq> Relay_Awaiting then 0 else rl_backed_up_since_ms m,
     rl_last_error := if why \<noteq> [] then why else rl_last_error m\<rparr>"

definition relay_behind_live_s :: "relay_input \<Rightarrow> relay_machine \<Rightarrow> double" where
  "relay_behind_live_s i m =
     (if \<not> rl_head_set m then - 1
      else if \<not> relay_state_is_sending (rl_state m) then - 1
      else if ri_latest_seq i < rl_head m then 0
      else real (ri_latest_seq i - rl_head m) * seg_or_default (ri_segment_duration_s i))"

definition kBackoffFirstMs :: int where "kBackoffFirstMs = 1000"
definition kBackoffMaxMs :: int where "kBackoffMaxMs = 15000"
definition kBackoffResetAfterMs :: int where "kBackoffResetAfterMs = 120000"
definition kStallAfterMs :: int where "kStallAfterMs = 3000"

lemmas relay_constants = kBackoffFirstMs_def kBackoffMaxMs_def kBackoffResetAfterMs_def kStallAfterMs_def

definition note_child_exited :: "i64 \<Rightarrow> bool \<Rightarrow> relay_machine \<Rightarrow> relay_machine" where
  "note_child_exited now_ms expected m =
     (if expected then m
      else let b0 = if rl_streaming_since_ms m > 0 \<and> now_ms - rl_streaming_since_ms m > kBackoffResetAfterMs then 0
                    else rl_backoff_ms m;
               b = if b0 \<noteq> 0 then min (b0 * 2) kBackoffMaxMs else kBackoffFirstMs
           in m\<lparr>rl_restarts := rl_restarts m + 1, rl_backoff_ms := b, rl_retry_at_ms := now_ms + b\<rparr>)"

definition reconfigured :: "i64 \<Rightarrow> relay_machine \<Rightarrow> relay_machine" where
  "reconfigured now_ms m = m\<lparr>rl_state := Relay_Waiting, rl_head_set := False, rl_retry_at_ms := 0, rl_stalled_since_ms := 0,
     rl_overdue_since_ms := 0, rl_backed_up_since_ms := 0, rl_streaming_since_ms := now_ms, rl_last_error := []\<rparr>"


section \<open>The step\<close>

definition seg_ms :: "relay_input \<Rightarrow> int" where
  "seg_ms i = trunc (seg_or_default (ri_segment_duration_s i) * 1000)"

text \<open>The operator's switch wins over everything.\<close>

definition step_switched_off :: "relay_input \<Rightarrow> relay_machine \<Rightarrow> relay_decision \<times> relay_machine" where
  "step_switched_off i m =
     (if ri_child_alive i
      then (no_decision\<lparr>rd_action := A_Kill, rd_note := ''stopped by the operator''\<rparr>,
            (enter Relay_Idle (ri_now_ms i) [] m)\<lparr>rl_head_set := False\<rparr>)
      else if rl_state m \<noteq> Relay_Idle
      then (no_decision\<lparr>rd_note := ''stopped''\<rparr>, (enter Relay_Idle (ri_now_ms i) [] m)\<lparr>rl_head_set := False\<rparr>)
      else (no_decision, m))"

text \<open>A feed that cannot be served correctly is not served at all.\<close>

definition step_blocked :: "relay_input \<Rightarrow> relay_machine \<Rightarrow> relay_decision \<times> relay_machine" where
  "step_blocked i m =
     (if ri_child_alive i
      then (no_decision\<lparr>rd_action := A_Kill, rd_note := ri_plan_problem i\<rparr>, enter Relay_Blocked (ri_now_ms i) (ri_plan_problem i) m)
      else if rl_state m \<noteq> Relay_Blocked
      then (no_decision\<lparr>rd_note := ri_plan_problem i\<rparr>, enter Relay_Blocked (ri_now_ms i) (ri_plan_problem i) m)
      else (no_decision, m\<lparr>rl_last_error := ri_plan_problem i\<rparr>))"

definition step_unblocked :: "relay_input \<Rightarrow> relay_machine \<Rightarrow> relay_decision \<times> relay_machine" where
  "step_unblocked i m =
     (if rl_state m = Relay_Blocked
      then (no_decision\<lparr>rd_note := ''this event can be sent now''\<rparr>, (enter Relay_Waiting (ri_now_ms i) [] m)\<lparr>rl_last_error := []\<rparr>)
      else (no_decision, m))"

definition step_lost :: "relay_input \<Rightarrow> relay_decision \<Rightarrow> relay_machine \<Rightarrow> relay_decision \<times> relay_machine" where
  "step_lost i d m = (d\<lparr>rd_note := ''connection lost '' @ em_dash @ '' reconnecting''\<rparr>,
     enter Relay_Reconnecting (ri_now_ms i) ''the connection to the destination dropped'' m)"

definition room_has_content :: "relay_input \<Rightarrow> bool" where
  "room_has_content i = (ri_room i = R_Live \<or> ri_room i = R_Ended \<or> ri_room i = R_Interrupted)"

definition step_no_content :: "relay_input \<Rightarrow> relay_decision \<Rightarrow> relay_machine \<Rightarrow> relay_decision \<times> relay_machine" where
  "step_no_content i d m =
     (if ri_child_alive i
      then (d\<lparr>rd_action := A_CloseInput, rd_note := ''the main site is no longer broadcasting''\<rparr>, enter Relay_Ending (ri_now_ms i) [] m)
      else if rl_state m \<noteq> Relay_Waiting \<and> rl_state m \<noteq> Relay_Stopped
      then (d\<lparr>rd_note := ''waiting for the event to start''\<rparr>, enter Relay_Waiting (ri_now_ms i) [] m)
      else (d, m))"

text \<open>Where to read from: the first time by the delay or the in-point, later from where the feed had got to.\<close>

definition take_position :: "relay_input \<Rightarrow> relay_machine \<Rightarrow> relay_machine" where
  "take_position i m =
     (if \<not> rl_head_set m
      then m\<lparr>rl_head := (if ri_from_beginning i
                         then (if ri_start_seq i > ri_first_available_seq i then ri_start_seq i else ri_first_available_seq i)
                         else seq_behind_live (ri_latest_seq i) (ri_first_available_seq i)
                                (seg_or_default (ri_segment_duration_s i)) (ri_delay_s i)),
             rl_head_set := True\<rparr>
      else m\<lparr>rl_head := max (rl_head m) (ri_first_available_seq i)\<rparr>)"

definition step_start :: "relay_input \<Rightarrow> relay_decision \<Rightarrow> relay_machine \<Rightarrow> relay_decision \<times> relay_machine" where
  "step_start i d m =
     (if rl_state m = Relay_Ending
      then (d\<lparr>rd_note := ''everything has been sent''\<rparr>, enter Relay_Stopped (ri_now_ms i) [] m)
      else if rl_state m = Relay_Stopped then (d, m)
      else let m = take_position i m
           in if ri_now_ms i < rl_retry_at_ms m then (d, m)
              else if \<not> ri_init_ready i \<or> \<not> ri_next_segment_ready i
              then (if rl_state m \<noteq> Relay_Waiting
                    then (d\<lparr>rd_note := ''waiting for the event to download''\<rparr>, enter Relay_Waiting (ri_now_ms i) [] m)
                    else (d, m))
              else (d\<lparr>rd_action := A_Spawn,
                      rd_note := if rl_state m = Relay_Reconnecting then ''reconnecting'' else ''starting''\<rparr>,
                    enter Relay_Streaming (ri_now_ms i) []
                      (m\<lparr>rl_anchor_ms := ri_now_ms i, rl_anchor_seq := rl_head m\<rparr>)))"

text \<open>Content is not going out: a listener nobody has attached to waits, anything else has a grace period.\<close>

definition step_not_accepting :: "relay_input \<Rightarrow> relay_decision \<Rightarrow> relay_machine \<Rightarrow> relay_decision \<times> relay_machine" where
  "step_not_accepting i d m =
     (if ri_awaits_receiver i \<and> \<not> ri_output_ever_accepted i
      then let (d, m) = if rl_state m \<noteq> Relay_Awaiting
                        then (d\<lparr>rd_note := ''ready '' @ em_dash @ '' waiting for the far end to connect''\<rparr>,
                              enter Relay_Awaiting (ri_now_ms i) [] m)
                        else (d, m)
           in (d, if \<not> ri_from_beginning i
                  then m\<lparr>rl_head := seq_behind_live (ri_latest_seq i) (ri_first_available_seq i)
                                      (seg_or_default (ri_segment_duration_s i)) (ri_delay_s i)\<rparr>
                  else m)
      else let m = if rl_backed_up_since_ms m = 0 then m\<lparr>rl_backed_up_since_ms := ri_now_ms i\<rparr> else m
           in if ri_now_ms i - rl_backed_up_since_ms m \<ge> ri_grace_s i * 1000
              then (d\<lparr>rd_action := A_Kill,
                      rd_note := ''the destination stopped accepting content for '' @ int_str (ri_grace_s i) @ '' seconds ''
                        @ em_dash @ '' dropping the connection''\<rparr>,
                    (enter Relay_Reconnecting (ri_now_ms i) ''the destination stopped accepting content'' m)
                      \<lparr>rl_retry_at_ms := ri_now_ms i + kBackoffFirstMs\<rparr>)
              else (d, m))"

text \<open>Something attached to a listener: pacing starts afresh at this moment.\<close>

definition step_attached :: "relay_input \<Rightarrow> relay_decision \<Rightarrow> relay_machine \<Rightarrow> relay_decision \<times> relay_machine" where
  "step_attached i d m =
     (let (d, m) = if rl_state m = Relay_Awaiting
                   then (d\<lparr>rd_note := ''the far end connected''\<rparr>,
                         enter Relay_Streaming (ri_now_ms i) []
                           (m\<lparr>rl_anchor_ms := ri_now_ms i, rl_anchor_seq := rl_head m, rl_overdue_since_ms := 0\<rparr>))
                   else (d, m)
      in (d, m\<lparr>rl_backed_up_since_ms := 0\<rparr>))"

definition due_ms :: "relay_input \<Rightarrow> relay_machine \<Rightarrow> i64" where
  "due_ms i m = rl_anchor_ms m + (int (rl_head m) - int (rl_anchor_seq m)) * seg_ms i"

definition step_resumed :: "relay_input \<Rightarrow> relay_decision \<Rightarrow> relay_machine \<Rightarrow> relay_decision \<times> relay_machine" where
  "step_resumed i d m =
     (if rl_state m = Relay_Stalled
      then (d\<lparr>rd_note := ''the main site is sending again''\<rparr>, enter Relay_Streaming (ri_now_ms i) [] m)
      else (d, m))"

definition step_starved :: "relay_input \<Rightarrow> relay_decision \<Rightarrow> relay_machine \<Rightarrow> relay_decision \<times> relay_machine" where
  "step_starved i d m =
     (let m = if rl_overdue_since_ms m = 0 then m\<lparr>rl_overdue_since_ms := ri_now_ms i\<rparr> else m;
          overdue = ri_now_ms i - rl_overdue_since_ms m
      in if overdue \<ge> kStallAfterMs \<and> rl_state m \<noteq> Relay_Stalled
         then (d\<lparr>rd_note := ''nothing arriving from the main site''\<rparr>,
               (enter Relay_Stalled (ri_now_ms i) [] m)\<lparr>rl_stalled_since_ms := rl_overdue_since_ms m\<rparr>)
         else if overdue \<ge> ri_grace_s i * 1000
         then (d\<lparr>rd_action := A_Kill,
                 rd_note := ''nothing from the main site for '' @ int_str (ri_grace_s i) @ '' seconds '' @ em_dash
                   @ '' dropping the connection''\<rparr>,
               (enter Relay_Reconnecting (ri_now_ms i)
                  (''the main site stopped sending for more than '' @ int_str (ri_grace_s i) @ '' seconds'') m)
                 \<lparr>rl_retry_at_ms := ri_now_ms i + kBackoffFirstMs, rl_overdue_since_ms := 0\<rparr>)
         else (d, m))"

definition step_feed :: "relay_input \<Rightarrow> relay_decision \<Rightarrow> relay_machine \<Rightarrow> relay_decision \<times> relay_machine" where
  "step_feed i d m =
     (if ri_now_ms i < due_ms i m then step_resumed i d (m\<lparr>rl_overdue_since_ms := 0\<rparr>)
      else if \<not> ri_next_segment_ready i then step_starved i d m
      else let (d, m) = step_resumed i d (m\<lparr>rl_overdue_since_ms := 0\<rparr>)
           in (d\<lparr>rd_action := A_FeedSegment, rd_seq := rl_head m\<rparr>, m\<lparr>rl_head := inc64 (rl_head m)\<rparr>))"

definition step_running :: "relay_input \<Rightarrow> relay_decision \<Rightarrow> relay_machine \<Rightarrow> relay_decision \<times> relay_machine" where
  "step_running i d m =
     (if ri_end_seq i > 0 \<and> rl_head m > ri_end_seq i \<and> rl_state m \<noteq> Relay_Ending
      then (d\<lparr>rd_action := A_CloseInput,
              rd_note := ''the out-point cue has been reached '' @ em_dash @ '' sending up to it''\<rparr>,
            enter Relay_Ending (ri_now_ms i) [] m)
      else if rl_head m > ri_latest_seq i \<and> (ri_room i = R_Ended \<or> ri_room i = R_Interrupted)
      then (if rl_state m \<noteq> Relay_Ending
            then (d\<lparr>rd_action := A_CloseInput,
                    rd_note := if ri_room i = R_Interrupted
                               then ''the main site stopped unexpectedly '' @ em_dash @ '' sending what arrived''
                               else ''the event has ended '' @ em_dash @ '' sending the last of it''\<rparr>,
                  enter Relay_Ending (ri_now_ms i) [] m)
            else (d, m))
      else if rl_state m = Relay_Ending then (d, m)
      else if \<not> ri_output_accepting i then step_not_accepting i d m
      else let (d, m) = step_attached i d m in step_feed i d m)"

definition relay_step :: "relay_input \<Rightarrow> relay_machine \<Rightarrow> relay_decision \<times> relay_machine" where
  "relay_step i m =
     (if \<not> ri_operator_wants_running i then step_switched_off i m
      else if \<not> ri_plan_ok i then step_blocked i m
      else let (d, m) = step_unblocked i m
           in if \<not> ri_child_alive i \<and> rl_state m \<in> {Relay_Streaming, Relay_Stalled, Relay_Awaiting} then step_lost i d m
              else if \<not> room_has_content i then step_no_content i d m
              else if \<not> ri_child_alive i then step_start i d m
              else step_running i d m)"

lemmas relay_stage_defs = step_switched_off_def step_blocked_def step_unblocked_def step_lost_def step_no_content_def
  step_start_def step_not_accepting_def step_attached_def step_resumed_def step_starved_def step_feed_def step_running_def
  no_decision_def


section \<open>What each action requires\<close>

lemma enter_simps [simp]:
  "rl_state (enter s t w m) = s" "rl_head (enter s t w m) = rl_head m" "rl_head_set (enter s t w m) = rl_head_set m"
  "rl_anchor_ms (enter s t w m) = rl_anchor_ms m" "rl_anchor_seq (enter s t w m) = rl_anchor_seq m"
  "rl_overdue_since_ms (enter s t w m) = rl_overdue_since_ms m" "rl_retry_at_ms (enter s t w m) = rl_retry_at_ms m"
  "rl_backoff_ms (enter s t w m) = rl_backoff_ms m" "rl_restarts (enter s t w m) = rl_restarts m"
  by (simp_all add: enter_def)

lemma take_position_simps [simp]:
  "rl_state (take_position i m) = rl_state m" "rl_head_set (take_position i m)" "rl_retry_at_ms (take_position i m) = rl_retry_at_ms m"
  "rl_anchor_ms (take_position i m) = rl_anchor_ms m" "rl_anchor_seq (take_position i m) = rl_anchor_seq m"
  by (simp_all add: take_position_def)

lemma no_decision_simps [simp]: "rd_action no_decision = A_None" "rd_seq no_decision = 0" "rd_note no_decision = []"
  by (simp_all add: no_decision_def)

text \<open>The actions of the stages that neither start nor feed anything.\<close>

lemma step_switched_off_action:
  "rd_action (fst (step_switched_off i m)) = (if ri_child_alive i then A_Kill else A_None)"
  by (simp add: step_switched_off_def)

lemma step_blocked_action: "rd_action (fst (step_blocked i m)) = (if ri_child_alive i then A_Kill else A_None)"
  by (simp add: step_blocked_def)

lemma step_unblocked_simps [simp]:
  "rd_action (fst (step_unblocked i m)) = A_None" "rd_seq (fst (step_unblocked i m)) = 0"
  "rl_head (snd (step_unblocked i m)) = rl_head m" "rl_head_set (snd (step_unblocked i m)) = rl_head_set m"
  "rl_anchor_ms (snd (step_unblocked i m)) = rl_anchor_ms m" "rl_anchor_seq (snd (step_unblocked i m)) = rl_anchor_seq m"
  "rl_retry_at_ms (snd (step_unblocked i m)) = rl_retry_at_ms m"
  "rl_overdue_since_ms (snd (step_unblocked i m)) = rl_overdue_since_ms m"
  "rl_state (snd (step_unblocked i m)) = (if rl_state m = Relay_Blocked then Relay_Waiting else rl_state m)"
  by (simp_all add: step_unblocked_def)

lemma step_lost_simps [simp]: "rd_action (fst (step_lost i d m)) = rd_action d" "rl_head (snd (step_lost i d m)) = rl_head m"
  by (simp_all add: step_lost_def)

lemma step_no_content_action:
  "rd_action (fst (step_no_content i d m)) = (if ri_child_alive i then A_CloseInput else rd_action d)"
  by (simp add: step_no_content_def)

lemma step_resumed_simps [simp]:
  "rd_action (fst (step_resumed i d m)) = rd_action d" "rd_seq (fst (step_resumed i d m)) = rd_seq d"
  "rl_head (snd (step_resumed i d m)) = rl_head m" "rl_head_set (snd (step_resumed i d m)) = rl_head_set m"
  "rl_anchor_ms (snd (step_resumed i d m)) = rl_anchor_ms m" "rl_anchor_seq (snd (step_resumed i d m)) = rl_anchor_seq m"
  by (simp_all add: step_resumed_def)

lemma step_attached_simps [simp]:
  "rd_action (fst (step_attached i d m)) = rd_action d" "rd_seq (fst (step_attached i d m)) = rd_seq d"
  "rl_head (snd (step_attached i d m)) = rl_head m" "rl_head_set (snd (step_attached i d m)) = rl_head_set m"
  by (simp_all add: step_attached_def)

lemma step_start_action:
  "rd_action d = A_None \<Longrightarrow> rd_action (fst (step_start i d m)) =
     (if rl_state m \<in> {Relay_Ending, Relay_Stopped} \<or> ri_now_ms i < rl_retry_at_ms m \<or> \<not> ri_init_ready i \<or> \<not> ri_next_segment_ready i
      then A_None else A_Spawn)"
  by (simp add: step_start_def Let_def)

lemma step_not_accepting_action:
  "rd_action d = A_None \<Longrightarrow> rd_action (fst (step_not_accepting i d m)) \<in> {A_None, A_Kill}"
  by (simp add: step_not_accepting_def Let_def)

lemma step_starved_action: "rd_action d = A_None \<Longrightarrow> rd_action (fst (step_starved i d m)) \<in> {A_None, A_Kill}"
  by (simp add: step_starved_def Let_def)

lemma step_feed_action:
  "rd_action d = A_None \<Longrightarrow> (rd_action (fst (step_feed i d m)) = A_FeedSegment) = (due_ms i m \<le> ri_now_ms i \<and> ri_next_segment_ready i)"
  using step_starved_action [of d i m] by (auto simp: step_feed_def Let_def split: prod.splits dest: arg_cong [where f = fst])

lemma relay_step_stages:
  "relay_step i m =
     (if \<not> ri_operator_wants_running i then step_switched_off i m
      else if \<not> ri_plan_ok i then step_blocked i m
      else let u = step_unblocked i m
           in if \<not> ri_child_alive i \<and> rl_state m \<in> {Relay_Streaming, Relay_Stalled, Relay_Awaiting} then step_lost i (fst u) (snd u)
              else if \<not> room_has_content i then step_no_content i (fst u) (snd u)
              else if \<not> ri_child_alive i then step_start i (fst u) (snd u)
              else step_running i (fst u) (snd u))"
  by (cases "step_unblocked i m") (use step_unblocked_simps(9) [of i m] in \<open>auto simp: relay_step_def Let_def\<close>)

lemma step_running_stages:
  "step_running i d m =
     (if ri_end_seq i > 0 \<and> rl_head m > ri_end_seq i \<and> rl_state m \<noteq> Relay_Ending
      then (d\<lparr>rd_action := A_CloseInput,
              rd_note := ''the out-point cue has been reached '' @ em_dash @ '' sending up to it''\<rparr>,
            enter Relay_Ending (ri_now_ms i) [] m)
      else if rl_head m > ri_latest_seq i \<and> (ri_room i = R_Ended \<or> ri_room i = R_Interrupted)
      then (if rl_state m \<noteq> Relay_Ending
            then (d\<lparr>rd_action := A_CloseInput,
                    rd_note := if ri_room i = R_Interrupted
                               then ''the main site stopped unexpectedly '' @ em_dash @ '' sending what arrived''
                               else ''the event has ended '' @ em_dash @ '' sending the last of it''\<rparr>,
                  enter Relay_Ending (ri_now_ms i) [] m)
            else (d, m))
      else if rl_state m = Relay_Ending then (d, m)
      else if \<not> ri_output_accepting i then step_not_accepting i d m
      else step_feed i (fst (step_attached i d m)) (snd (step_attached i d m)))"
  unfolding step_running_def Let_def split_beta by (rule refl)

lemma step_feed_fed:
  assumes "rd_action d = A_None" "rd_action (fst (step_feed i d m)) = A_FeedSegment"
  shows "rd_seq (fst (step_feed i d m)) = rl_head m" "rl_head (snd (step_feed i d m)) = inc64 (rl_head m)"
    "rl_anchor_ms (snd (step_feed i d m)) = rl_anchor_ms m" "rl_anchor_seq (snd (step_feed i d m)) = rl_anchor_seq m"
    "rl_head_set (snd (step_feed i d m)) = rl_head_set m"
  using assms(2) unfolding step_feed_action [OF assms(1)]
  by (simp_all add: step_feed_def Let_def split_beta)

lemma step_running_action:
  assumes "rd_action d = A_None"
  shows "rd_action (fst (step_running i d m)) \<noteq> A_Spawn"
  using assms step_not_accepting_action [of d i m] step_starved_action [of "fst (step_attached i d m)" i "snd (step_attached i d m)"]
  by (auto simp: step_running_stages step_feed_def Let_def split_beta)

text \<open>A running stage that feeds is the last one, behind every guard.\<close>

lemma step_running_fed:
  assumes "rd_action d = A_None" "rd_action (fst (step_running i d m)) = A_FeedSegment"
  shows "step_running i d m = step_feed i (fst (step_attached i d m)) (snd (step_attached i d m))"
    "ri_output_accepting i" "rl_state m \<noteq> Relay_Ending" "ri_end_seq i > 0 \<longrightarrow> rl_head m \<le> ri_end_seq i"
  using assms step_not_accepting_action [of d i m] by (auto simp: step_running_stages split: if_splits)

lemma relay_step_fed:
  assumes "rd_action (fst (relay_step i m)) = A_FeedSegment"
  shows "ri_operator_wants_running i" "ri_plan_ok i" "room_has_content i" "ri_child_alive i"
    "relay_step i m = step_running i (fst (step_unblocked i m)) (snd (step_unblocked i m))"
  using assms
  by (auto simp: relay_step_stages Let_def step_switched_off_action step_blocked_action step_no_content_action step_start_action
      split: if_splits)

section \<open>Runs: every segment in order, once\<close>

fun relay_run :: "relay_input list \<Rightarrow> relay_machine \<Rightarrow> relay_decision list \<times> relay_machine" where
  "relay_run [] m = ([], m)"
| "relay_run (i # is) m = (let (d, m1) = relay_step i m; (ds, m2) = relay_run is m1 in (d # ds, m2))"

definition fed :: "relay_decision list \<Rightarrow> u64 list" where
  "fed ds = map rd_seq (filter (\<lambda>d. rd_action d = A_FeedSegment) ds)"

lemma fed_simps [simp]: "fed [] = []" "fed (d # ds) = (if rd_action d = A_FeedSegment then rd_seq d # fed ds else fed ds)"
  by (simp_all add: fed_def)

text \<open>
  The passes between two changes of position: the switch stays on, and a listener that takes nothing is one that has taken
  something before. (Until anyone has attached, a listener moves along with the live edge on purpose.)
\<close>

definition keeps_position :: "relay_input \<Rightarrow> bool" where
  "keeps_position i = (ri_operator_wants_running i \<and> (ri_awaits_receiver i \<longrightarrow> ri_output_ever_accepted i))"

lemma step_start_head:
  "rl_head_set m \<Longrightarrow> rl_head (snd (step_start i d m)) \<in> {rl_head m, max (rl_head m) (ri_first_available_seq i)}"
  "rl_head_set m \<Longrightarrow> rl_head_set (snd (step_start i d m))"
  by (simp_all add: step_start_def Let_def take_position_def)

lemma step_not_accepting_head:
  "keeps_position i \<Longrightarrow> rl_head (snd (step_not_accepting i d m)) = rl_head m"
  "rl_head_set (snd (step_not_accepting i d m)) = rl_head_set m"
  by (auto simp: step_not_accepting_def Let_def keeps_position_def split_beta)

lemma step_starved_head [simp]:
  "rl_head (snd (step_starved i d m)) = rl_head m" "rl_head_set (snd (step_starved i d m)) = rl_head_set m"
  by (simp_all add: step_starved_def Let_def)

lemma step_feed_head:
  "rd_action d = A_None \<Longrightarrow> rl_head (snd (step_feed i d m)) =
     (if rd_action (fst (step_feed i d m)) = A_FeedSegment then inc64 (rl_head m) else rl_head m)"
  "rl_head_set (snd (step_feed i d m)) = rl_head_set m"
  by (simp_all add: step_feed_action) (simp_all add: step_feed_def Let_def split_beta)

lemma step_running_head:
  assumes "rd_action d = A_None" "keeps_position i"
  shows "rl_head (snd (step_running i d m)) =
      (if rd_action (fst (step_running i d m)) = A_FeedSegment then inc64 (rl_head m) else rl_head m)"
    "rl_head_set (snd (step_running i d m)) = rl_head_set m"
  using assms step_not_accepting_action [of d i m] by (auto simp: step_running_stages step_not_accepting_head step_feed_head)

lemma step_no_content_head [simp]:
  "rl_head (snd (step_no_content i d m)) = rl_head m" "rl_head_set (snd (step_no_content i d m)) = rl_head_set m"
  by (simp_all add: step_no_content_def)

lemma step_blocked_head [simp]:
  "rl_head (snd (step_blocked i m)) = rl_head m" "rl_head_set (snd (step_blocked i m)) = rl_head_set m"
  by (simp_all add: step_blocked_def)

lemma relay_step_head:
  assumes "keeps_position i" "rl_head_set m"
  shows "rl_head_set (snd (relay_step i m))"
    "rd_action (fst (relay_step i m)) = A_FeedSegment \<Longrightarrow>
       rd_seq (fst (relay_step i m)) = rl_head m \<and> rl_head (snd (relay_step i m)) = inc64 (rl_head m)"
    "rd_action (fst (relay_step i m)) \<noteq> A_FeedSegment \<Longrightarrow>
       rl_head (snd (relay_step i m)) \<in> {rl_head m, max (rl_head m) (ri_first_available_seq i)}"
proof -
  let ?u = "step_unblocked i m"
  have on: "ri_operator_wants_running i" using assms(1) by (simp add: keeps_position_def)
  show "rl_head_set (snd (relay_step i m))"
    using assms on step_start_head(2) [of "snd ?u" i "fst ?u"] step_running_head(2) [of "fst ?u" i "snd ?u"]
    by (simp add: relay_step_stages Let_def step_lost_def)
  show "rl_head (snd (relay_step i m)) \<in> {rl_head m, max (rl_head m) (ri_first_available_seq i)}"
    if "rd_action (fst (relay_step i m)) \<noteq> A_FeedSegment"
    using that assms on step_start_head(1) [of "snd ?u" i "fst ?u"] step_running_head(1) [of "fst ?u" i "snd ?u"]
    by (auto simp: relay_step_stages Let_def)
  show "rd_seq (fst (relay_step i m)) = rl_head m \<and> rl_head (snd (relay_step i m)) = inc64 (rl_head m)"
    if f: "rd_action (fst (relay_step i m)) = A_FeedSegment"
  proof -
    note r = relay_step_fed(5) [OF f]
    have g: "rd_action (fst (step_running i (fst ?u) (snd ?u))) = A_FeedSegment" using f r by simp
    note q = step_running_fed(1) [OF _ g]
    show ?thesis using f step_feed_fed(1,2) [of "fst (step_attached i (fst ?u) (snd ?u))" i "snd (step_attached i (fst ?u) (snd ?u))"]
      by (simp add: r q)
  qed
qed

text \<open>Where the head stands after a run, and which numbers it passed over without sending them.\<close>

lemma relay_run_order:
  assumes "\<forall>i\<in>set ins. keeps_position i \<and> ri_first_available_seq i \<le> b" "rl_head_set m" "rl_head m \<le> b" "b + length ins \<le> u64_max"
    "relay_run ins m = (ds, m')"
  shows "rl_head m \<le> rl_head m' \<and> sorted_wrt (<) (fed ds) \<and> (\<forall>s\<in>set (fed ds). rl_head m \<le> s \<and> s < rl_head m') \<and>
    (\<forall>s. rl_head m \<le> s \<and> s < rl_head m' \<and> s \<notin> set (fed ds) \<longrightarrow> (\<exists>i\<in>set ins. s < ri_first_available_seq i))"
  using assms
proof (induction ins arbitrary: m ds b)
  case (Cons i ins)
  obtain d m1 where s: "relay_step i m = (d, m1)" by (cases "relay_step i m")
  obtain ds' where r: "relay_run ins m1 = (ds', m')" and ds: "ds = d # ds'"
    using Cons.prems(5) by (auto simp: s Let_def split: prod.splits)
  have k: "keeps_position i" "ri_first_available_seq i \<le> b" using Cons.prems(1) by auto
  note h = relay_step_head [OF k(1) Cons.prems(2), unfolded s, simplified]
  have low: "rl_head m < u64_max" using Cons.prems(3,4) by simp
  have b1: "rl_head m1 \<le> b + 1" using h(2,3) k(2) Cons.prems(3) low
    by (cases "rd_action d = A_FeedSegment") (auto simp: inc64_less)
  have ih: "rl_head m1 \<le> rl_head m' \<and> sorted_wrt (<) (fed ds') \<and> (\<forall>s\<in>set (fed ds'). rl_head m1 \<le> s \<and> s < rl_head m') \<and>
      (\<forall>s. rl_head m1 \<le> s \<and> s < rl_head m' \<and> s \<notin> set (fed ds') \<longrightarrow> (\<exists>i\<in>set ins. s < ri_first_available_seq i))"
    using Cons.prems(1,4) b1 h(1) r by (intro Cons.IH [of "b + 1"]) auto
  show ?case
  proof (cases "rd_action d = A_FeedSegment")
    case True
    with h(2) low have "rd_seq d = rl_head m" "rl_head m1 = rl_head m + 1" by (auto simp: inc64_less)
    with ih True show ?thesis unfolding ds by (fastforce simp: Suc_le_eq)
  next
    case False
    with h(3) have "rl_head m1 = rl_head m \<or> rl_head m1 = max (rl_head m) (ri_first_available_seq i)" by blast
    with ih False show ?thesis unfolding ds by (auto simp: not_le max_def split: if_splits) (meson not_le)+
  qed
qed simp


section \<open>Pacing\<close>

text \<open>A pass while a connection is up, with segments of a fixed length.\<close>

definition on_connection :: "int \<Rightarrow> relay_input \<Rightarrow> bool" where
  "on_connection g i = (keeps_position i \<and> ri_child_alive i \<and> seg_ms i = g)"

definition anchored :: "relay_machine \<Rightarrow> relay_machine \<Rightarrow> bool" where
  "anchored m m' = (rl_anchor_ms m' = rl_anchor_ms m \<and> rl_anchor_seq m' = rl_anchor_seq m \<and> rl_state m' \<noteq> Relay_Awaiting)"

lemma step_starved_anchored: "rl_state m \<noteq> Relay_Awaiting \<Longrightarrow> anchored m (snd (step_starved i d m))"
  by (simp add: step_starved_def anchored_def Let_def)

lemma step_resumed_anchored: "rl_state m \<noteq> Relay_Awaiting \<Longrightarrow> anchored m (snd (step_resumed i d m))"
  by (simp add: step_resumed_def anchored_def)

lemma step_feed_anchored: "rl_state m \<noteq> Relay_Awaiting \<Longrightarrow> anchored m (snd (step_feed i d m))"
  using step_resumed_anchored [of "m\<lparr>rl_overdue_since_ms := 0\<rparr>" i d]
  by (auto simp: step_feed_def step_starved_anchored Let_def split_beta) (simp_all add: anchored_def)

lemma step_not_accepting_anchored:
  "rl_state m \<noteq> Relay_Awaiting \<Longrightarrow> keeps_position i \<Longrightarrow> anchored m (snd (step_not_accepting i d m))"
  by (auto simp: step_not_accepting_def keeps_position_def anchored_def Let_def)

lemma step_attached_keeps:
  "rl_state m \<noteq> Relay_Awaiting \<Longrightarrow> step_attached i d m = (d, m\<lparr>rl_backed_up_since_ms := 0\<rparr>)"
  by (simp add: step_attached_def)

lemma step_running_anchored:
  assumes "rl_state m \<noteq> Relay_Awaiting" "keeps_position i"
  shows "anchored m (snd (step_running i d m))"
  using assms step_feed_anchored [of "m\<lparr>rl_backed_up_since_ms := 0\<rparr>" i d]
  by (auto simp: step_running_stages step_attached_keeps step_not_accepting_anchored) (simp_all add: anchored_def)

lemma relay_step_connected:
  assumes "on_connection g i" "rl_state m \<noteq> Relay_Awaiting"
  shows "anchored m (snd (relay_step i m))"
    "rl_head (snd (relay_step i m)) = (if rd_action (fst (relay_step i m)) = A_FeedSegment then inc64 (rl_head m) else rl_head m)"
    "rd_action (fst (relay_step i m)) = A_FeedSegment \<Longrightarrow> rd_seq (fst (relay_step i m)) = rl_head m \<and>
       rl_anchor_ms m + (int (rl_head m) - int (rl_anchor_seq m)) * g \<le> ri_now_ms i"
proof -
  let ?u = "step_unblocked i m"
  have k: "keeps_position i" "ri_operator_wants_running i" "ri_child_alive i" "seg_ms i = g"
    using assms(1) by (auto simp: on_connection_def keeps_position_def)
  have s: "rl_state (snd ?u) \<noteq> Relay_Awaiting" using assms(2) by simp
  have "anchored m (snd (step_blocked i m))" "anchored m (snd (step_no_content i (fst ?u) (snd ?u)))"
    using k(3) assms(2) by (simp_all add: step_blocked_def step_no_content_def anchored_def)
  moreover have "anchored m (snd (step_running i (fst ?u) (snd ?u)))"
    using step_running_anchored [OF s k(1), of "fst ?u"] by (simp add: anchored_def)
  ultimately show "anchored m (snd (relay_step i m))" using k by (simp add: relay_step_stages Let_def)
  show "rl_head (snd (relay_step i m)) = (if rd_action (fst (relay_step i m)) = A_FeedSegment then inc64 (rl_head m) else rl_head m)"
    using k step_running_head(1) [of "fst ?u" i "snd ?u"]
    by (simp add: relay_step_stages Let_def step_blocked_action step_no_content_action)
  assume f: "rd_action (fst (relay_step i m)) = A_FeedSegment"
  note r = relay_step_fed(5) [OF f]
  have g: "rd_action (fst (step_running i (fst ?u) (snd ?u))) = A_FeedSegment" using f r by simp
  note q = step_running_fed(1) [OF _ g, simplified step_attached_keeps [OF s], simplified]
  have a: "rd_action (fst (step_feed i (fst ?u) (snd ?u\<lparr>rl_backed_up_since_ms := 0\<rparr>))) = A_FeedSegment" using g q by simp
  then have "due_ms i (snd ?u\<lparr>rl_backed_up_since_ms := 0\<rparr>) \<le> ri_now_ms i" using step_feed_action by simp
  then show "rd_seq (fst (relay_step i m)) = rl_head m \<and> rl_anchor_ms m + (int (rl_head m) - int (rl_anchor_seq m)) * g \<le> ri_now_ms i"
    using step_feed_fed(1) [OF _ a] by (simp add: r q due_ms_def k(4))
qed

text \<open>Over a connection the segments sent are the numbers from the head on, each no earlier than its turn.\<close>

lemma relay_run_connected:
  assumes "\<forall>i\<in>set ins. on_connection g i \<and> ri_now_ms i \<le> t" "rl_state m \<noteq> Relay_Awaiting" "rl_head m + length ins \<le> u64_max"
    "relay_run ins m = (ds, m')"
  shows "fed ds = [rl_head m ..< rl_head m'] \<and> rl_head m \<le> rl_head m' \<and>
    (\<forall>s\<in>set (fed ds). rl_anchor_ms m + (int s - int (rl_anchor_seq m)) * g \<le> t)"
  using assms
proof (induction ins arbitrary: m ds)
  case (Cons i ins)
  obtain d m1 where s: "relay_step i m = (d, m1)" by (cases "relay_step i m")
  obtain ds' where r: "relay_run ins m1 = (ds', m')" and ds: "ds = d # ds'"
    using Cons.prems(4) by (auto simp: s Let_def split: prod.splits)
  have k: "on_connection g i" "ri_now_ms i \<le> t" using Cons.prems(1) by auto
  note c = relay_step_connected [OF k(1) Cons.prems(2), unfolded s, simplified]
  have low: "rl_head m < u64_max" using Cons.prems(3) by simp
  have h: "rl_head m1 \<le> rl_head m + 1" using c(2) low by (simp add: inc64_less)
  have ih: "fed ds' = [rl_head m1 ..< rl_head m'] \<and> rl_head m1 \<le> rl_head m' \<and>
      (\<forall>s\<in>set (fed ds'). rl_anchor_ms m + (int s - int (rl_anchor_seq m)) * g \<le> t)"
    using Cons.IH [of m1 ds'] Cons.prems(1,3) c(1) h r by (simp add: anchored_def)
  show ?case
  proof (cases "rd_action d = A_FeedSegment")
    case True
    with c low have "rd_seq d = rl_head m" "rl_head m1 = rl_head m + 1"
      "rl_anchor_ms m + (int (rl_head m) - int (rl_anchor_seq m)) * g \<le> ri_now_ms i" by (auto simp: inc64_less)
    with ih True k(2) show ?thesis by (auto simp: ds upt_conv_Cons Suc_le_eq)
  qed (use ih c in \<open>simp add: ds\<close>)
qed simp


section \<open>The invariant\<close>

text \<open>
  While something is being sent the machine has a position and never stands before its anchor, so the unsigned difference
  of the two does not wrap; the wait before the next attempt is a doubling of the first one, up to the longest. A child is
  running only in the states that send or wait for a receiver: what the machine's caller guarantees.
\<close>

definition child_states :: "relay_state set" where
  "child_states = {Relay_Streaming, Relay_Stalled, Relay_Awaiting, Relay_Ending}"

definition backoff_ok :: "int \<Rightarrow> bool" where
  "backoff_ok b = (b = 0 \<or> (\<exists>k. b = min (kBackoffFirstMs * 2 ^ k) kBackoffMaxMs))"

definition relay_inv :: "relay_machine \<Rightarrow> bool" where
  "relay_inv m = ((rl_state m \<in> child_states \<longrightarrow> rl_head_set m) \<and>
     (rl_state m \<in> {Relay_Streaming, Relay_Stalled} \<longrightarrow> rl_anchor_seq m \<le> rl_head m) \<and> backoff_ok (rl_backoff_ms m) \<and> 0 \<le> rl_restarts m)"

lemma relay_inv_init: "relay_inv relay_machine_init"
  by (simp add: relay_inv_def relay_machine_init_def child_states_def backoff_ok_def)

lemma relay_inv_reconfigured: "relay_inv m \<Longrightarrow> relay_inv (reconfigured t m)"
  by (simp add: relay_inv_def reconfigured_def child_states_def)

lemma backoff_ok_next:
  assumes "backoff_ok b"
  shows "backoff_ok (if b \<noteq> 0 then min (b * 2) kBackoffMaxMs else kBackoffFirstMs)"
proof (cases "b = 0")
  case True
  then show ?thesis by (auto simp: backoff_ok_def relay_constants intro: exI [of _ 0])
next
  case False
  with assms obtain k where "b = min (kBackoffFirstMs * 2 ^ k) kBackoffMaxMs" by (auto simp: backoff_ok_def)
  then have "min (b * 2) kBackoffMaxMs = min (kBackoffFirstMs * 2 ^ Suc k) kBackoffMaxMs"
    by (auto simp: relay_constants min_def)
  then have "backoff_ok (min (b * 2) kBackoffMaxMs)" unfolding backoff_ok_def by blast
  with False show ?thesis by simp
qed

lemma relay_inv_child_exited:
  assumes "relay_inv m"
  shows "relay_inv (note_child_exited t e m)"
proof -
  let ?b = "if rl_streaming_since_ms m > 0 \<and> t - rl_streaming_since_ms m > kBackoffResetAfterMs then 0 else rl_backoff_ms m"
  have "backoff_ok ?b" using assms by (simp add: relay_inv_def backoff_ok_def)
  then have "backoff_ok (if ?b \<noteq> 0 then min (?b * 2) kBackoffMaxMs else kBackoffFirstMs)" by (rule backoff_ok_next)
  with assms show ?thesis unfolding note_child_exited_def Let_def relay_inv_def by (cases e) simp_all
qed

lemma enter_inv:
  "relay_inv m \<Longrightarrow> s \<notin> child_states \<Longrightarrow> relay_inv (enter s t w m)"
  "relay_inv m \<Longrightarrow> rl_state m \<in> child_states \<Longrightarrow> s \<in> {Relay_Ending, Relay_Awaiting} \<Longrightarrow> relay_inv (enter s t w m)"
  by (auto simp: relay_inv_def child_states_def)

lemma backoff_small_steps [simp]:
  "rl_backoff_ms (take_position i m) = rl_backoff_ms m" "rl_restarts (take_position i m) = rl_restarts m"
  "rl_backoff_ms (snd (step_resumed i d m)) = rl_backoff_ms m" "rl_restarts (snd (step_resumed i d m)) = rl_restarts m"
  "rl_backoff_ms (snd (step_starved i d m)) = rl_backoff_ms m" "rl_restarts (snd (step_starved i d m)) = rl_restarts m"
  by (simp_all add: take_position_def step_resumed_def step_starved_def Let_def)

lemma backoff_steps:
  "rl_backoff_ms (snd (step_start i d m)) = rl_backoff_ms m" "rl_restarts (snd (step_start i d m)) = rl_restarts m"
  "rl_backoff_ms (snd (step_not_accepting i d m)) = rl_backoff_ms m" "rl_restarts (snd (step_not_accepting i d m)) = rl_restarts m"
  "rl_backoff_ms (snd (step_attached i d m)) = rl_backoff_ms m" "rl_restarts (snd (step_attached i d m)) = rl_restarts m"
  "rl_backoff_ms (snd (step_feed i d m)) = rl_backoff_ms m" "rl_restarts (snd (step_feed i d m)) = rl_restarts m"
  by (simp_all add: step_start_def step_not_accepting_def step_attached_def step_feed_def Let_def split_beta)

lemma take_position_ge: "rl_head_set m \<Longrightarrow> rl_head m \<le> rl_head (take_position i m)"
  by (simp add: take_position_def)

lemma step_start_inv: "relay_inv m \<Longrightarrow> relay_inv (snd (step_start i d m))"
  using take_position_ge [of m i] unfolding relay_inv_def [of "snd _"] backoff_steps
  by (auto simp: step_start_def Let_def child_states_def relay_inv_def)

lemma step_not_accepting_inv:
  assumes "relay_inv m" "rl_state m \<in> child_states"
  shows "relay_inv (snd (step_not_accepting i d m))"
  using assms unfolding relay_inv_def [of "snd _"] backoff_steps step_not_accepting_head(2)
  by (auto simp: step_not_accepting_def Let_def child_states_def relay_inv_def)

lemma step_starved_inv: "relay_inv m \<Longrightarrow> rl_state m \<in> {Relay_Streaming, Relay_Stalled} \<Longrightarrow> relay_inv (snd (step_starved i d m))"
  by (auto simp: step_starved_def Let_def relay_inv_def child_states_def)

lemma step_resumed_inv: "relay_inv m \<Longrightarrow> rl_state m \<in> {Relay_Streaming, Relay_Stalled} \<Longrightarrow> relay_inv (snd (step_resumed i d m))"
  by (auto simp: step_resumed_def relay_inv_def child_states_def)

lemma relay_inv_overdue [simp]: "relay_inv (m\<lparr>rl_overdue_since_ms := t\<rparr>) = relay_inv m"
  by (simp add: relay_inv_def)

lemma relay_inv_fed: "relay_inv m \<Longrightarrow> rl_head m < u64_max \<Longrightarrow> relay_inv (m\<lparr>rl_head := inc64 (rl_head m)\<rparr>)"
  by (auto simp: relay_inv_def inc64_less)

lemma step_feed_inv:
  assumes "relay_inv m" "rl_state m \<in> {Relay_Streaming, Relay_Stalled}" "rl_head m < u64_max"
  shows "relay_inv (snd (step_feed i d m))"
  using assms step_resumed_inv [of "m\<lparr>rl_overdue_since_ms := 0\<rparr>" i d] step_starved_inv [of m i d]
    relay_inv_fed [of "snd (step_resumed i d (m\<lparr>rl_overdue_since_ms := 0\<rparr>))"]
  by (simp add: step_feed_def Let_def split_beta)

lemma step_attached_inv:
  assumes "relay_inv m" "rl_state m \<in> {Relay_Streaming, Relay_Stalled, Relay_Awaiting}"
  shows "relay_inv (snd (step_attached i d m))" "rl_state (snd (step_attached i d m)) \<in> {Relay_Streaming, Relay_Stalled}"
  using assms by (auto simp: step_attached_def relay_inv_def child_states_def)

lemma step_running_inv:
  assumes "relay_inv m" "rl_state m \<in> child_states" "rl_head m < u64_max"
  shows "relay_inv (snd (step_running i d m))"
proof -
  have "relay_inv (snd (step_feed i (fst (step_attached i d m)) (snd (step_attached i d m))))" if "rl_state m \<noteq> Relay_Ending"
    using that assms by (intro step_feed_inv step_attached_inv) (auto simp: child_states_def)
  then show ?thesis using assms step_not_accepting_inv [OF assms(1,2), of i d]
    by (auto simp: step_running_stages intro: enter_inv(2))
qed

text \<open>What the caller of \<^verbatim>\<open>step\<close> guarantees: a child only runs in the states that have one.\<close>

definition child_known :: "relay_input \<Rightarrow> relay_machine \<Rightarrow> bool" where
  "child_known i m = (ri_child_alive i \<longrightarrow> rl_state m \<in> child_states)"

lemma relay_step_inv:
  assumes "relay_inv m" "child_known i m" "rl_head m < u64_max"
  shows "relay_inv (snd (relay_step i m))"
proof -
  let ?u = "step_unblocked i m"
  have u: "relay_inv (snd ?u)" using assms(1) by (auto simp: step_unblocked_def relay_inv_def child_states_def)
  have off: "relay_inv (snd (step_switched_off i m))"
    using enter_inv(1) [OF assms(1), of Relay_Idle "ri_now_ms i" "[]"] assms(1)
    by (auto simp: step_switched_off_def child_states_def) (auto simp: relay_inv_def child_states_def)
  have b: "relay_inv (snd (step_blocked i m))"
    using enter_inv(1) [OF assms(1), of Relay_Blocked] assms(1)
    by (auto simp: step_blocked_def child_states_def relay_inv_def)
  have l: "relay_inv (snd (step_lost i (fst ?u) (snd ?u)))"
    using enter_inv(1) [OF u] by (simp add: step_lost_def child_states_def)
  have n: "relay_inv (snd (step_no_content i (fst ?u) (snd ?u)))"
    using enter_inv [OF u] u assms(2)
    by (auto simp: step_no_content_def child_states_def child_known_def)
  have r: "relay_inv (snd (step_running i (fst ?u) (snd ?u)))" if "ri_child_alive i"
    using that u assms(2,3) by (intro step_running_inv) (auto simp: child_known_def child_states_def)
  show ?thesis using off b l n r step_start_inv [OF u, of i "fst ?u"]
    by (simp add: relay_step_stages Let_def)
qed

text \<open>
  Nothing in the machine takes a child away but a decision to stop it or its own death: after a pass the machine is in a
  state that has a child exactly when it had a living one and did not stop it, or started one.
\<close>

lemma step_starved_state:
  "rl_state m \<in> child_states \<Longrightarrow> rd_action d = A_None \<Longrightarrow>
     (rl_state (snd (step_starved i d m)) \<in> child_states) = (rd_action (fst (step_starved i d m)) \<noteq> A_Kill)"
  by (simp add: step_starved_def Let_def child_states_def)

lemma step_resumed_state: "rl_state m \<in> child_states \<Longrightarrow> rl_state (snd (step_resumed i d m)) \<in> child_states"
  by (auto simp: step_resumed_def child_states_def)

lemma step_feed_state:
  assumes "rl_state m \<in> child_states" "rd_action d = A_None"
  shows "(rl_state (snd (step_feed i d m)) \<in> child_states) = (rd_action (fst (step_feed i d m)) \<noteq> A_Kill)"
  using assms step_starved_state [OF assms, of i] step_resumed_state [of "m\<lparr>rl_overdue_since_ms := 0\<rparr>" i d]
  by (simp add: step_feed_def Let_def split_beta)

lemma step_not_accepting_state:
  "rl_state m \<in> child_states \<Longrightarrow> rd_action d = A_None \<Longrightarrow>
     (rl_state (snd (step_not_accepting i d m)) \<in> child_states) = (rd_action (fst (step_not_accepting i d m)) \<noteq> A_Kill)"
  by (simp add: step_not_accepting_def Let_def split_beta child_states_def)

lemma step_running_state:
  assumes "rl_state m \<in> child_states" "rd_action d = A_None"
  shows "(rl_state (snd (step_running i d m)) \<in> child_states) = (rd_action (fst (step_running i d m)) \<noteq> A_Kill)"
proof -
  have a: "rl_state (snd (step_attached i d m)) \<in> child_states"
    using assms by (auto simp: step_attached_def child_states_def)
  have e: "Relay_Ending \<in> child_states" by (simp add: child_states_def)
  show ?thesis using assms step_not_accepting_state [OF assms, of i] step_feed_state [OF a, of "fst (step_attached i d m)" i] e
    by (simp add: step_running_stages)
qed

lemma step_unblocked_none: "rl_state m \<noteq> Relay_Blocked \<Longrightarrow> step_unblocked i m = (no_decision, m)"
  by (simp add: step_unblocked_def)

lemma relay_step_keeps_child:
  assumes "ri_child_alive i" "rl_state m \<in> child_states" "rd_action (fst (relay_step i m)) \<noteq> A_Kill"
  shows "rl_state (snd (relay_step i m)) \<in> child_states"
proof -
  have "rl_state m \<noteq> Relay_Blocked" using assms(2) by (auto simp: child_states_def)
  note u = step_unblocked_none [OF this, of i]
  have "Relay_Ending \<in> child_states" by (simp add: child_states_def)
  then show ?thesis using assms step_running_state [OF assms(2), of no_decision i]
    by (auto simp: relay_step_stages Let_def u step_switched_off_action step_blocked_action step_no_content_def split: if_splits)
qed

text \<open>A start happens with no child running, nothing to wait for, and something to send; it fixes the anchor.\<close>

lemma relay_step_spawned:
  assumes "rd_action (fst (relay_step i m)) = A_Spawn"
  shows "ri_operator_wants_running i" "ri_plan_ok i" "room_has_content i" "\<not> ri_child_alive i" "rl_retry_at_ms m \<le> ri_now_ms i"
    "ri_init_ready i" "ri_next_segment_ready i" "rl_state m \<notin> {Relay_Ending, Relay_Stopped}"
    "rl_state (snd (relay_step i m)) = Relay_Streaming" "rl_anchor_ms (snd (relay_step i m)) = ri_now_ms i"
    "rl_anchor_seq (snd (relay_step i m)) = rl_head (snd (relay_step i m))" "rl_head_set (snd (relay_step i m))"
proof -
  let ?u = "step_unblocked i m"
  have n: "rd_action (fst (step_running i (fst ?u) (snd ?u))) \<noteq> A_Spawn" by (rule step_running_action) simp
  from assms n show "ri_operator_wants_running i" "ri_plan_ok i" "room_has_content i" "\<not> ri_child_alive i"
    by (simp_all add: relay_step_stages Let_def step_switched_off_action step_blocked_action step_no_content_action split: if_splits)
  with assms have s: "relay_step i m = step_start i (fst ?u) (snd ?u)"
    by (simp add: relay_step_stages Let_def split: if_splits)
  with assms show "rl_retry_at_ms m \<le> ri_now_ms i" "ri_init_ready i" "ri_next_segment_ready i" "rl_state m \<notin> {Relay_Ending, Relay_Stopped}"
    by (simp_all add: step_start_action split: if_splits)
  with s show "rl_state (snd (relay_step i m)) = Relay_Streaming" "rl_anchor_ms (snd (relay_step i m)) = ri_now_ms i"
    "rl_anchor_seq (snd (relay_step i m)) = rl_head (snd (relay_step i m))" "rl_head_set (snd (relay_step i m))"
    by (simp_all add: step_start_def Let_def)
qed


section \<open>Where the position is taken up\<close>

lemma seq_behind_live_bounds:
  assumes "first \<le> latest"
  shows "first \<le> seq_behind_live latest first seg_s delay_s" "seq_behind_live latest first seg_s delay_s \<le> latest"
  using assms by (simp_all add: seq_behind_live_def Let_def)

lemma seq_behind_live_exact:
  assumes "0 \<le> delay_s" "first \<le> latest" "real_of_int delay_s / seg_or_default seg_s + 1 \<le> real (latest - first)"
  shows "real (latest - seq_behind_live latest first seg_s delay_s) * seg_or_default seg_s \<le> real_of_int delay_s"
    "real_of_int delay_s < (real (latest - seq_behind_live latest first seg_s delay_s) + 1) * seg_or_default seg_s"
proof -
  let ?s = "seg_or_default seg_s"
  let ?q = "real_of_int delay_s / ?s"
  have s: "0 < ?s" by (simp add: seg_or_default_def)
  have q: "0 \<le> ?q" using assms(1) s by simp
  define bk where "bk = nat \<lfloor>?q\<rfloor>"
  have b: "real bk \<le> ?q" "?q < real bk + 1" using q by (simp_all add: bk_def)
  have "real bk < real (latest - first)" using b(1) assms(3) by linarith
  then have lt: "bk < latest - first" by simp
  have "seq_behind_live latest first seg_s delay_s = latest - bk"
    using lt assms(2) q unfolding seq_behind_live_def Let_def by (auto simp: trunc_def max_absorb2 simp flip: bk_def)
  then have e: "latest - seq_behind_live latest first seg_s delay_s = bk" using lt by simp
  show "real (latest - seq_behind_live latest first seg_s delay_s) * ?s \<le> real_of_int delay_s"
    unfolding e using b(1) s by (simp add: pos_le_divide_eq)
  show "real_of_int delay_s < (real (latest - seq_behind_live latest first seg_s delay_s) + 1) * ?s"
    unfolding e using b(2) s by (simp add: pos_divide_less_eq)
qed


section \<open>Silences\<close>

text \<open>
  A pass in which the next segment is due and has not come, while the main site is live and the destination is taking
  what it is given.
\<close>

definition starved :: "relay_machine \<Rightarrow> relay_input \<Rightarrow> bool" where
  "starved m i = (ri_operator_wants_running i \<and> ri_plan_ok i \<and> ri_room i = R_Live \<and> ri_child_alive i \<and> ri_output_accepting i \<and>
     \<not> ri_next_segment_ready i \<and> due_ms i m \<le> ri_now_ms i \<and> (ri_end_seq i > 0 \<longrightarrow> rl_head m \<le> ri_end_seq i))"

lemma starved_step:
  assumes "starved m i" "rl_state m \<in> {Relay_Streaming, Relay_Stalled}"
  shows "relay_step i m = step_starved i no_decision (m\<lparr>rl_backed_up_since_ms := 0\<rparr>)"
proof -
  have "rl_state m \<noteq> Relay_Blocked" "rl_state m \<noteq> Relay_Awaiting" "rl_state m \<noteq> Relay_Ending" using assms(2) by auto
  note s = step_unblocked_none [OF this(1), of i] step_attached_keeps [OF this(2), of i] this(3)
  have "due_ms i (m\<lparr>rl_backed_up_since_ms := 0\<rparr>) = due_ms i m" by (simp add: due_ms_def)
  then show ?thesis using assms(1) s
    by (auto simp: starved_def relay_step_stages Let_def room_has_content_def step_running_stages step_feed_def not_less)
qed

text \<open>The same position and pacing, so that being starved carries over from pass to pass.\<close>

definition silent :: "i64 \<Rightarrow> relay_machine \<Rightarrow> relay_machine \<Rightarrow> bool" where
  "silent t m m' = (rl_state m' \<in> {Relay_Streaming, Relay_Stalled} \<and> rl_head m' = rl_head m \<and> rl_anchor_ms m' = rl_anchor_ms m \<and>
     rl_anchor_seq m' = rl_anchor_seq m \<and> rl_overdue_since_ms m' = t)"

lemma starved_silent: "silent t m m' \<Longrightarrow> starved m' i = starved m i"
  by (simp add: silent_def starved_def due_ms_def)

lemma starved_within_grace:
  assumes "silent t m m1" "starved m i" "0 < t" "ri_now_ms i - t < ri_grace_s i * 1000"
  shows "rd_action (fst (relay_step i m1)) = A_None" "silent t m (snd (relay_step i m1))"
proof -
  have s: "starved m1 i" using starved_silent [OF assms(1)] assms(2) by simp
  have c: "rl_state m1 \<in> {Relay_Streaming, Relay_Stalled}" "rl_overdue_since_ms m1 = t" using assms(1) by (auto simp: silent_def)
  note e = starved_step [OF s c(1)]
  show "rd_action (fst (relay_step i m1)) = A_None" using assms(3,4) c(2) by (simp add: e step_starved_def Let_def)
  show "silent t m (snd (relay_step i m1))" using assms(1,3,4) c(2)
    by (auto simp: e step_starved_def silent_def Let_def)
qed

lemma starved_first:
  assumes "rl_state m \<in> {Relay_Streaming, Relay_Stalled}" "rl_overdue_since_ms m = 0" "starved m i" "0 < ri_grace_s i"
  shows "rd_action (fst (relay_step i m)) = A_None" "silent (ri_now_ms i) m (snd (relay_step i m))"
  using assms by (auto simp: starved_step step_starved_def silent_def Let_def kStallAfterMs_def)

lemma relay_run_Cons [simp]:
  "relay_run (i # is) m = (fst (relay_step i m) # fst (relay_run is (snd (relay_step i m))), snd (relay_run is (snd (relay_step i m))))"
  by (simp add: split_beta Let_def)

declare relay_run.simps(2) [simp del]

lemma starved_run_within_grace:
  assumes "silent t m m1" "0 < t" "\<forall>i\<in>set ins. starved m i \<and> ri_now_ms i - t < ri_grace_s i * 1000"
  shows "(\<forall>d\<in>set (fst (relay_run ins m1)). rd_action d = A_None) \<and> silent t m (snd (relay_run ins m1))"
  using assms
proof (induction ins arbitrary: m1)
  case (Cons i ins)
  then have "starved m i" "ri_now_ms i - t < ri_grace_s i * 1000" by auto
  note g = starved_within_grace [OF Cons.prems(1) this(1) Cons.prems(2) this(2)]
  show ?case using Cons.IH [OF g(2) Cons.prems(2)] g(1) Cons.prems(3) by simp
qed simp

lemma starved_past_grace:
  assumes "silent t m m1" "0 < t" "starved m j" "starved m k" "ri_grace_s j * 1000 \<le> ri_now_ms j - t"
    "ri_grace_s k * 1000 \<le> ri_now_ms k - t" "3 \<le> ri_grace_s j"
  shows "rd_action (fst (relay_step j m1)) = A_Kill \<or>
    rd_action (fst (relay_step j m1)) = A_None \<and> rd_action (fst (relay_step k (snd (relay_step j m1)))) = A_Kill"
proof -
  have c: "rl_state m1 \<in> {Relay_Streaming, Relay_Stalled}" "rl_overdue_since_ms m1 = t" using assms(1) by (auto simp: silent_def)
  note j = starved_step [OF starved_silent [OF assms(1), THEN iffD2, OF assms(3)] c(1)]
  show ?thesis
  proof (cases "rl_state m1 = Relay_Stalled")
    case True
    then show ?thesis using c(2) assms(2,5) by (simp add: j step_starved_def Let_def)
  next
    case False
    then have s: "rd_action (fst (relay_step j m1)) = A_None" "silent t m (snd (relay_step j m1))"
      "rl_state (snd (relay_step j m1)) = Relay_Stalled"
      using c(2) assms(1,2,5,7) by (simp_all add: j step_starved_def silent_def Let_def kStallAfterMs_def)
    then have "starved (snd (relay_step j m1)) k" "rl_overdue_since_ms (snd (relay_step j m1)) = t"
      using starved_silent [OF s(2)] assms(4) by (auto simp: silent_def)
    then have "rd_action (fst (relay_step k (snd (relay_step j m1)))) = A_Kill"
      using s(3) assms(2,6) by (simp add: starved_step step_starved_def Let_def)
    then show ?thesis using s(1) by simp
  qed
qed


section \<open>Claims\<close>

text \<open>A live room at segment 70 of six seconds each, with the child running; and the machine that has just started there.\<close>

definition ex_relay_in :: "i64 \<Rightarrow> relay_input" where
  "ex_relay_in t = relay_input_init\<lparr>ri_now_ms := t, ri_operator_wants_running := True, ri_room := R_Live, ri_latest_seq := 70,
     ri_plan_ok := True, ri_child_alive := True, ri_next_segment_ready := True, ri_init_ready := True\<rparr>"

definition ex_relay :: relay_machine where
  "ex_relay = relay_machine_init\<lparr>rl_state := Relay_Streaming, rl_head := 40, rl_head_set := True, rl_anchor_ms := 1000,
     rl_anchor_seq := 40, rl_streaming_since_ms := 1000\<rparr>"

lemma ex_seg_ms [simp]: "seg_ms (ex_relay_in t) = 6000" "seg_ms (ex_relay_in t\<lparr>ri_next_segment_ready := b\<rparr>) = 6000"
  by (simp_all add: seg_ms_def ex_relay_in_def relay_input_init_def seg_or_default_def trunc_def)

text \<open>
  C19: Over any run of passes with the switch on, whatever happens to the connection in between, no segment is handed out
  twice or out of order, and a number is passed over only when storage no longer holds it.
\<close>

theorem relay_sends_each_once:
  assumes "\<forall>i\<in>set ins. keeps_position i \<and> ri_first_available_seq i \<le> b" "rl_head_set m" "rl_head m \<le> b" "b + length ins \<le> u64_max"
    "relay_run ins m = (ds, m')"
  shows "sorted_wrt (<) (fed ds) \<and> (\<forall>s\<in>set (fed ds). rl_head m \<le> s \<and> s < rl_head m') \<and>
    (\<forall>s. rl_head m \<le> s \<and> s < rl_head m' \<and> s \<notin> set (fed ds) \<longrightarrow> (\<exists>i\<in>set ins. s < ri_first_available_seq i))"
  using relay_run_order [OF assms] by blast

definition ex_relay_drop :: "relay_input list" where
  "ex_relay_drop = [ex_relay_in 1000, (ex_relay_in 8000)\<lparr>ri_child_alive := False\<rparr>, (ex_relay_in 9000)\<lparr>ri_child_alive := False\<rparr>, ex_relay_in 9050]"

theorem relay_sends_each_once_witness:
  "sorted_wrt (<) (fed (fst (relay_run ex_relay_drop ex_relay))) \<and>
   list_all (\<lambda>s. 40 \<le> s \<and> s < rl_head (snd (relay_run ex_relay_drop ex_relay))) (fed (fst (relay_run ex_relay_drop ex_relay)))"
proof -
  have h: "\<forall>i\<in>set ex_relay_drop. keeps_position i \<and> ri_first_available_seq i \<le> 100" "rl_head_set ex_relay" "rl_head ex_relay = 40"
    "100 + length ex_relay_drop \<le> u64_max"
    by (simp_all add: ex_relay_drop_def ex_relay_in_def relay_input_init_def keeps_position_def ex_relay_def u64_max_def)
  show ?thesis using relay_sends_each_once [OF h(1,2) _ h(4) surjective_pairing] h(3) by (simp add: list_all_iff)
qed

text \<open>
  C27: Sending never runs ahead of real time. Over one connection, with segments of \<open>g\<close> milliseconds, the numbers sent
  are consecutive from the anchor on, and the \<open>n\<close>-th of them leaves no earlier than \<open>n - 1\<close> durations after it: after a
  stall what is overdue follows, but what is not yet due is never released.
\<close>

theorem relay_never_ahead:
  assumes "\<forall>i\<in>set ins. on_connection g i \<and> ri_now_ms i \<le> t" "rl_state m \<noteq> Relay_Awaiting" "rl_anchor_seq m = rl_head m"
    "rl_head m + length ins \<le> u64_max" "relay_run ins m = (ds, m')"
  shows "fed ds = [rl_head m ..< rl_head m'] \<and> (fed ds = [] \<or> (int (length (fed ds)) - 1) * g \<le> t - rl_anchor_ms m)"
proof (cases "fed ds = []")
  case True
  then show ?thesis using relay_run_connected [OF assms(1,2,4,5)] by simp
next
  case False
  note c = relay_run_connected [OF assms(1,2,4,5)]
  have lt: "rl_head m < rl_head m'" using c False by auto
  then have "rl_head m' - 1 \<in> set (fed ds)" using c by auto
  with c have "rl_anchor_ms m + (int (rl_head m' - 1) - int (rl_anchor_seq m)) * g \<le> t" by blast
  moreover have "int (rl_head m' - 1) - int (rl_anchor_seq m) = int (length (fed ds)) - 1" using c lt assms(3) by auto
  ultimately show ?thesis using c by simp
qed

definition ex_relay_paced :: "relay_input list" where
  "ex_relay_paced = [ex_relay_in 1000, ex_relay_in 6999, ex_relay_in 7000]"

theorem relay_never_ahead_witness:
  "fed (fst (relay_run ex_relay_paced ex_relay)) = [40 ..< rl_head (snd (relay_run ex_relay_paced ex_relay))] \<and>
   (fed (fst (relay_run ex_relay_paced ex_relay)) = [] \<or> (int (length (fed (fst (relay_run ex_relay_paced ex_relay)))) - 1) * 6000 \<le> 7000 - 1000)"
proof -
  have o: "\<forall>i\<in>set ex_relay_paced. on_connection 6000 i \<and> ri_now_ms i \<le> 7000"
    by (simp add: ex_relay_paced_def on_connection_def) (simp add: ex_relay_in_def relay_input_init_def keeps_position_def)
  have h: "rl_state ex_relay \<noteq> Relay_Awaiting" "rl_anchor_seq ex_relay = rl_head ex_relay" "rl_head ex_relay + length ex_relay_paced \<le> u64_max"
    "rl_head ex_relay = 40" "rl_anchor_ms ex_relay = 1000"
    by (simp_all add: ex_relay_paced_def ex_relay_def u64_max_def)
  show ?thesis using relay_never_ahead [OF o h(1-3) surjective_pairing] unfolding h(4,5) .
qed

text \<open>
  A silence is ridden out and then given up on. From the pass \<open>i\<close> that first finds the next segment overdue, every
  pass within the grace period does nothing at all and keeps the position; of two passes past it, one stops the child.
\<close>

lemma relay_rides_out_silence:
  assumes "rl_state m \<in> {Relay_Streaming, Relay_Stalled}" "rl_overdue_since_ms m = 0" "starved m i" "0 < ri_now_ms i" "0 < ri_grace_s i"
    "\<forall>x\<in>set ins. starved m x \<and> ri_now_ms x - ri_now_ms i < ri_grace_s x * 1000"
    "starved m j" "ri_grace_s j * 1000 \<le> ri_now_ms j - ri_now_ms i" "3 \<le> ri_grace_s j"
    "starved m k" "ri_grace_s k * 1000 \<le> ri_now_ms k - ri_now_ms i"
    "relay_run (i # ins) m = (ds, m')"
  shows "(\<forall>d\<in>set ds. rd_action d = A_None) \<and> rl_head m' = rl_head m \<and>
    (rd_action (fst (relay_step j m')) = A_Kill \<or>
     rd_action (fst (relay_step j m')) = A_None \<and> rd_action (fst (relay_step k (snd (relay_step j m')))) = A_Kill)"
proof -
  note f = starved_first [OF assms(1-3) assms(5)]
  note r = starved_run_within_grace [OF f(2) assms(4,6)]
  have m': "ds = fst (relay_step i m) # fst (relay_run ins (snd (relay_step i m)))" "m' = snd (relay_run ins (snd (relay_step i m)))"
    using assms(12) by auto
  have s: "silent (ri_now_ms i) m m'" using r m'(2) by blast
  have "rl_head m' = rl_head m" using s by (simp add: silent_def)
  moreover have "\<forall>d\<in>set ds. rd_action d = A_None" using f(1) r m'(1) by simp
  ultimately show ?thesis using starved_past_grace [OF s assms(4,7,10,8,11,9)] by blast
qed

end
