(* ===== verification/Send_Path.thy ===== *)
theory Send_Path
  imports Text_Parsers
begin

text \<open>
  Where an event is sent to and how (\<^verbatim>\<open>src/core/destination.{h,cpp}\<close>, \<^verbatim>\<open>src/core/stream_plan.{h,cpp}\<close>): the tidying and
  checking of a destination as the operator typed it, the one decision whether an event can be sent there and with which
  arguments, and the scrubbing of secrets from whatever is logged.

  The lemmas say that tidying takes every secret out of the address that is shown back and that the address built for
  sending is read back as the same settings; that no track carrying the microphones or the click is ever chosen, and
  the one chosen is the one asked for; that the banner above the destinations agrees with what happens on start; that an
  edit which does not rebuild the stream would not have changed it; and that scrubbed text holds no secret.
\<close>

section \<open>Destinations\<close>

record audio_selection =
  as_label :: string
  as_resolved_index :: int
  as_all :: bool

datatype protocol = Rtmp | Srt
datatype srt_mode = Caller | Listener

record destination =
  de_id :: i64
  de_name :: string
  de_room_id :: string
  de_url :: string
  de_stream_key :: string
  de_audio :: audio_selection
  de_srt_mode :: srt_mode
  de_srt_passphrase :: string
  de_srt_latency_ms :: int
  de_allow_transcode :: bool
  de_enabled :: bool
  de_delay_s :: int

definition destination_default :: destination where
  "destination_default = \<lparr>de_id = 0, de_name = [], de_room_id = [], de_url = [], de_stream_key = [],
     de_audio = \<lparr>as_label = [], as_resolved_index = - 1, as_all = False\<rparr>, de_srt_mode = Caller, de_srt_passphrase = [],
     de_srt_latency_ms = 0, de_allow_transcode = False, de_enabled = False, de_delay_s = 0\<rparr>"

text \<open>\<^verbatim>\<open>std::stoll\<close> and \<^verbatim>\<open>std::stoi\<close>: \<open>None\<close> where they throw, for want of a digit or out of range.\<close>

definition sto :: "int \<Rightarrow> int \<Rightarrow> string \<Rightarrow> int option" where
  "sto lo hi s =
     (let s1 = dropWhile is_space s;
          neg = starts_with s1 ''-'';
          s2 = if neg \<or> starts_with s1 ''+'' then tl s1 else s1;
          v = int (digits_value 10 s2 0);
          r = if neg then - v else v
      in if s2 = [] \<or> \<not> is_digit (hd s2) \<or> r < lo \<or> hi < r then None else Some r)"

abbreviation stoll :: "string \<Rightarrow> int option" where "stoll \<equiv> sto (- (2 ^ 63)) (2 ^ 63 - 1)"
abbreviation stoi :: "string \<Rightarrow> int option" where "stoi \<equiv> sto (- (2 ^ 31)) (2 ^ 31 - 1)"

text \<open>The conversion of a 64-bit value to \<^verbatim>\<open>int\<close>.\<close>

definition to_int32 :: "int \<Rightarrow> int" where
  "to_int32 x = (x + 2 ^ 31) mod 2 ^ 32 - 2 ^ 31"

type_synonym query_param = "string \<times> string"

definition query_param_of :: "string \<Rightarrow> query_param" where
  "query_param_of one = (let k = takeWhile (\<lambda>c. c \<noteq> CHR ''='') one in (k, drop (length k + 1) one))"

function split_query :: "string \<Rightarrow> query_param list" where
  "split_query q =
     (if q = [] then []
      else let one = takeWhile (\<lambda>c. c \<noteq> CHR ''&'') q;
               more = split_query (drop (length one + 1) q)
           in if one = [] then more else query_param_of one # more)"
  by pat_completeness auto
termination by (relation "measure length") auto

declare split_query.simps [simp del]

definition join_query :: "query_param list \<Rightarrow> string" where
  "join_query ps = foldl (\<lambda>out p. (if out \<noteq> [] then out @ ''&'' else out) @ fst p @ ''='' @ snd p) [] ps"

definition kUsPerMs :: int where
  "kUsPerMs = 1000"

definition kSrtScheme :: string where
  "kSrtScheme = ''srt://''"

definition protocol_of :: "destination \<Rightarrow> protocol" where
  "protocol_of d = (if starts_with (lower (de_url d)) kSrtScheme then Srt else Rtmp)"

definition is_listener :: "destination \<Rightarrow> bool" where
  "is_listener d = (protocol_of d = Srt \<and> de_srt_mode d = Listener)"

text \<open>\<^verbatim>\<open>while (!s.empty() && s.back() == '/') s.pop_back()\<close>\<close>

definition strip_slashes :: "string \<Rightarrow> string" where
  "strip_slashes s = rev (dropWhile (\<lambda>c. c = CHR ''/'') (rev s))"

definition trim_fields :: "destination \<Rightarrow> destination" where
  "trim_fields d = d\<lparr>de_name := trim (de_name d), de_url := trim (de_url d), de_stream_key := trim (de_stream_key d),
     de_srt_passphrase := trim (de_srt_passphrase d)\<rparr>"

text \<open>One parameter of the address: what is managed here goes to its field, anything else stays.\<close>

definition lift_param :: "query_param \<Rightarrow> destination \<times> query_param list \<Rightarrow> destination \<times> query_param list" where
  "lift_param p s =
     (let (d, keep) = s; k = lower (fst p)
      in if k = ''streamid'' then (if de_stream_key d = [] then d\<lparr>de_stream_key := snd p\<rparr> else d, keep)
         else if k = ''passphrase'' then (if de_srt_passphrase d = [] then d\<lparr>de_srt_passphrase := snd p\<rparr> else d, keep)
         else if k = ''latency''
         then (if de_srt_latency_ms d = 0
               then (case stoll (snd p) of
                       Some v \<Rightarrow> d\<lparr>de_srt_latency_ms := to_int32 (v sdiv kUsPerMs)\<rparr>
                     | None \<Rightarrow> d)
               else d, keep)
         else if k = ''mode'' then (if lower (snd p) = ''listener'' then d\<lparr>de_srt_mode := Listener\<rparr> else d, keep)
         else (d, keep @ [p]))"

datatype normalize_error = Out_of_range

definition split_url :: "string \<Rightarrow> string \<times> string" where
  "split_url u = (let b = takeWhile (\<lambda>c. c \<noteq> CHR ''?'') u in (b, drop (length b + 1) u))"

text \<open>
  \<^verbatim>\<open>normalize\<close>: the address of an RTMP destination loses its trailing slashes; an SRT address is split from its parameters.
  \<^verbatim>\<open>substr\<close> throws when the address is shorter than the scheme, which it is once the slashes of a bare scheme are gone.
\<close>

definition normalize :: "destination \<Rightarrow> normalize_error + destination" where
  "normalize d0 =
     (let d = trim_fields d0
      in if protocol_of d \<noteq> Srt
         then Inr (d\<lparr>de_url := strip_slashes (de_url d), de_srt_passphrase := [], de_srt_latency_ms := 0, de_srt_mode := Caller\<rparr>)
         else let (base0, query) = split_url (de_url d);
                  base = strip_slashes base0;
                  (d, keep) = fold lift_param (split_query query) (d, []);
                  hostport = drop (length kSrtScheme) base
              in if length base < length kSrtScheme then Inl Out_of_range
                 else let anyhost = hostport = [] \<or> hd hostport = CHR '':'';
                          d = if anyhost then d\<lparr>de_srt_mode := Listener\<rparr> else d;
                          base = if anyhost then kSrtScheme @ ''0.0.0.0'' @ hostport else base;
                          d = if de_srt_mode d = Listener then d\<lparr>de_stream_key := []\<rparr> else d;
                          kept = join_query keep
                      in Inr (d\<lparr>de_url := if kept = [] then base else base @ ''?'' @ kept\<rparr>))"

definition affects_stream :: "destination \<Rightarrow> destination \<Rightarrow> bool" where
  "affects_stream a b =
     (de_url a \<noteq> de_url b \<or> de_stream_key a \<noteq> de_stream_key b \<or> as_label (de_audio a) \<noteq> as_label (de_audio b) \<or>
      as_all (de_audio a) \<noteq> as_all (de_audio b) \<or> de_allow_transcode a \<noteq> de_allow_transcode b \<or> de_delay_s a \<noteq> de_delay_s b \<or>
      de_room_id a \<noteq> de_room_id b \<or> de_srt_mode a \<noteq> de_srt_mode b \<or> de_srt_passphrase a \<noteq> de_srt_passphrase b \<or>
      de_srt_latency_ms a \<noteq> de_srt_latency_ms b)"

text \<open>What comes after the last colon, if there is one.\<close>

definition after_last :: "char \<Rightarrow> string \<Rightarrow> string option" where
  "after_last c s = (if c \<in> set s then Some (rev (takeWhile (\<lambda>x. x \<noteq> c) (rev s))) else None)"

definition validate_srt :: "destination \<Rightarrow> string" where
  "validate_srt d =
     (let hostport = fst (split_url (drop (length kSrtScheme) (de_url d)))
      in case after_last CHR '':'' hostport of
           None \<Rightarrow> ''An SRT address needs a port on the end, like srt://stream.example.com:9000''
         | Some p \<Rightarrow>
             if p = [] then ''An SRT address needs a port on the end, like srt://stream.example.com:9000''
             else let port = case stoi p of Some v \<Rightarrow> v | None \<Rightarrow> 0
             in if port < 1 \<or> port > 65535
             then ''That port number is not one a computer can use. It should be between 1 and 65535.''
             else if length hostport = length p + 1
             then ''An SRT address needs the far end's name or number before the port, like srt://stream.example.com:9000''
             else if (\<exists>s\<in>set [de_stream_key d, de_srt_passphrase d]. CHR ''&'' \<in> set s \<or> CHR ''#'' \<in> set s \<or> CHR '' '' \<in> set s)
             then ''The stream key and passphrase cannot contain a space, an & or a #. If the streaming site gave you one with those in it, please report it.''
             else if de_srt_passphrase d \<noteq> [] \<and> (length (de_srt_passphrase d) < 10 \<or> length (de_srt_passphrase d) > 79)
             then ''An SRT passphrase has to be between 10 and 79 characters. Leave it empty if the streaming site did not give you one.''
             else if de_srt_latency_ms d \<noteq> 0 \<and> (de_srt_latency_ms d < 20 \<or> de_srt_latency_ms d > 8000)
             then ''The SRT latency should be between 20 and 8000 milliseconds. If it came in as part of the address, note that an SRT address gives it in millionths of a second ''
                  @ em_dash @ '' 2000000 there means 2000 here.''
             else [])"

definition validate :: "destination \<Rightarrow> string" where
  "validate d =
     (if de_name d = [] then ''Give this destination a name, so you can tell it apart from the others.''
      else if de_room_id d = [] then ''Choose which feed this destination should send.''
      else let u = lower (de_url d)
           in if u = []
              then ''Paste the server address from the streaming site '' @ em_dash @ '' it starts with rtmp:// or srt://''
              else if de_delay_s d \<noteq> 0 \<and> (de_delay_s d < 10 \<or> de_delay_s d > 3600)
              then ''The delay should be between 10 seconds and an hour.''
              else if protocol_of d = Rtmp
              then (if \<not> starts_with u ''rtmp://'' \<and> \<not> starts_with u ''rtmps://''
                    then ''That does not look like a streaming address. It should start with rtmp://, rtmps:// or srt://''
                    else if de_stream_key d = []
                    then ''Paste the stream key from the streaming site as well. It is usually shown next to the server address.''
                    else [])
              else validate_srt d)"


section \<open>The plan\<close>

record stream_plan =
  sp_ok :: bool
  sp_problem :: string
  sp_remedy :: string
  sp_args :: "string list"
  sp_summary :: string
  sp_audio_label :: string
  sp_audio_index :: int

definition stream_plan_default :: stream_plan where
  "stream_plan_default = \<lparr>sp_ok = False, sp_problem = [], sp_remedy = [], sp_args = [], sp_summary = [], sp_audio_label = [],
     sp_audio_index = - 1\<rparr>"

record room_sendability =
  sn_any :: bool
  sn_rtmp_ok :: bool
  sn_srt_ok :: bool
  sn_problem :: string
  sn_note :: string

definition kDefaultSrtLatencyMs :: int where
  "kDefaultSrtLatencyMs = 2000"

definition in_quotes :: "string \<Rightarrow> string" where
  "in_quotes s = CHR 0x22 # s @ [CHR 0x22]"

definition channels_word :: "int \<Rightarrow> string" where
  "channels_word ch = (if ch = 1 then ''mono'' else if ch = 2 then ''stereo'' else int_str ch @ '' channels'')"

fun join_labels_from :: "bool \<Rightarrow> audio_track list \<Rightarrow> string" where
  "join_labels_from first [] = []"
| "join_labels_from first (t # ts) =
     (if first then [] else if ts = [] then '' or '' else '', '') @ in_quotes (at_label t) @ join_labels_from False ts"

definition join_labels :: "audio_track list \<Rightarrow> string" where
  "join_labels tracks = join_labels_from True tracks"

lemma find_sub_shorter: "p \<noteq> [] \<Longrightarrow> find_sub p s = Some a \<Longrightarrow> length s - (a + length p) < length s"
  by (drule find_sub_Some) (cases p; auto)

text \<open>Every occurrence of the secret, from the left, the search going on behind each replacement.\<close>

function scrub :: "string \<Rightarrow> string \<Rightarrow> string \<Rightarrow> string" where
  "scrub secret w s =
     (if secret = [] then s
      else case find_sub secret s of
             None \<Rightarrow> s
           | Some a \<Rightarrow> take a s @ w @ scrub secret w (drop (a + length secret) s))"
  by pat_completeness auto
termination by (relation "measure (\<lambda>(secret, w, s). length s)") (auto dest: find_sub_shorter)

declare scrub.simps [simp del]

definition is_packed :: "audio_track \<Rightarrow> bool" where
  "is_packed t = (at_channel_labels t \<noteq> [] \<or> at_channels t > 2)"

definition add_param :: "string \<Rightarrow> string \<Rightarrow> string \<Rightarrow> string" where
  "add_param k v u = u @ (if CHR ''?'' \<in> set u then ''&'' else ''?'') @ k @ ''='' @ v"

definition output_url :: "destination \<Rightarrow> string" where
  "output_url d =
     (if protocol_of d = Rtmp
      then (if de_stream_key d = [] then de_url d
            else (if de_url d \<noteq> [] \<and> last (de_url d) = CHR ''/'' then butlast (de_url d) else de_url d) @ ''/'' @ de_stream_key d)
      else let u = de_url d;
               u = if de_srt_mode d = Listener then add_param ''listen_timeout'' ''-1'' (add_param ''mode'' ''listener'' u)
                   else if de_stream_key d \<noteq> [] then add_param ''streamid'' (de_stream_key d) u
                   else u;
               u = if de_srt_passphrase d \<noteq> [] then add_param ''passphrase'' (de_srt_passphrase d) u else u;
               ms = if de_srt_latency_ms d > 0 then de_srt_latency_ms d else kDefaultSrtLatencyMs
           in add_param ''latency'' (int_str (ms * kUsPerMs)) u)"

definition redact :: "string \<Rightarrow> destination \<Rightarrow> string" where
  "redact s d = scrub (de_srt_passphrase d) ''<passphrase>'' (scrub (de_stream_key d) ''<key>'' s)"

definition redact_args :: "string list \<Rightarrow> destination \<Rightarrow> string list" where
  "redact_args args d = map (\<lambda>a. redact a d) args"

definition refuse :: "string \<Rightarrow> string \<Rightarrow> stream_plan" where
  "refuse problem remedy = stream_plan_default\<lparr>sp_problem := problem, sp_remedy := remedy\<rparr>"

text \<open>The codec gate: H.264 and HEVC go everywhere, AV1 only over RTMP.\<close>

definition video_sendable :: "string \<Rightarrow> protocol \<Rightarrow> bool" where
  "video_sendable vc proto = (vc = ''h264'' \<or> vc = ''hevc'' \<or> (vc = ''av1'' \<and> proto = Rtmp))"

definition no_codec :: stream_plan where
  "no_codec = refuse ''The main site has not said what kind of video this is, so it cannot be sent on safely.''
     ''Check that the broadcast is running a current version of the encoder.''"

definition wrong_codec :: "string \<Rightarrow> protocol \<Rightarrow> stream_plan" where
  "wrong_codec vc proto = refuse
     (''This event is being recorded as '' @ vc @ '' video, and '' @
      (if proto = Srt then ''this kind of connection cannot carry it.'' else ''there is no way to send it on from here.''))
     (''Set the main site's encoder to H.264 or HEVC for events you want to stream publicly: both go out unchanged, to a streaming site or over SRT. For this codec there is nothing here that can carry it ''
      @ em_dash @ '' SRT included '' @ em_dash @ '' and re-encoding on the way out is not built.'')"

definition no_transcode :: stream_plan where
  "no_transcode = refuse ''This destination is set to re-encode the video.''
     ''Re-encoding is not built yet. Turn it off to send the event as-is.''"

definition no_sound :: stream_plan where
  "no_sound = refuse ''This event has no sound in it.'' ''Check that the main site has at least one audio track switched on.''"

definition packed_refusal :: "audio_track \<Rightarrow> stream_plan" where
  "packed_refusal t = refuse
     (''The main site is sending its sound as one '' @ channels_word (at_channels t)
      @ '' track with the mix, the microphones and the click all inside it.'')
     ''Picking one pair out of that is not built yet. Set the main site to send a separate programme track as well.''"

definition rtmp_one_feed :: stream_plan where
  "rtmp_one_feed = refuse ''This destination is set to send every sound feed, and RTMP carries only one.''
     ''Send it over SRT, or choose one sound feed.''"

definition no_such_feed :: "string \<Rightarrow> audio_track list \<Rightarrow> stream_plan" where
  "no_such_feed label sendable = refuse
     (''This event does not have a sound feed called '' @ in_quotes label @ ''.'')
     (''It is sending '' @ join_labels sendable @ ''. Choose one of those instead.'')"

definition wrong_order :: stream_plan where
  "wrong_order = refuse ''The main site's description of its sound feeds does not line up with the recording itself.''
     ''Sending it could put the wrong microphone on air, so it has been stopped. Please report this.''"

definition not_aac :: "audio_track \<Rightarrow> stream_plan" where
  "not_aac t = refuse
     (''The sound feed '' @ in_quotes (at_label t) @ '' is '' @ lower (at_codec t) @ '', and streaming sites need AAC.'')
     ''Set the main site's encoder to AAC audio.''"

text \<open>The first track that can be sent, and the first of a given name, from position \<open>i\<close> on.\<close>

fun first_sendable :: "nat \<Rightarrow> audio_track list \<Rightarrow> nat option" where
  "first_sendable i [] = None"
| "first_sendable i (t # ts) = (if is_packed t then first_sendable (i + 1) ts else Some i)"

fun first_named :: "string \<Rightarrow> nat \<Rightarrow> audio_track list \<Rightarrow> nat option" where
  "first_named l i [] = None"
| "first_named l i (t # ts) = (if at_label t \<noteq> l then first_named l (i + 1) ts else Some i)"

text \<open>The tracks to send, or the plan that refuses.\<close>

definition choose_tracks :: "destination \<Rightarrow> protocol \<Rightarrow> audio_track list \<Rightarrow> stream_plan + nat list" where
  "choose_tracks dest proto tracks =
     (let sendable = filter (\<lambda>t. \<not> is_packed t) tracks
      in if sendable = [] then Inl (packed_refusal (hd tracks))
         else if as_all (de_audio dest) \<and> proto \<noteq> Srt then Inl rtmp_one_feed
         else if as_all (de_audio dest) then Inr (filter (\<lambda>i. \<not> is_packed (tracks ! i)) [0 ..< length tracks])
         else if as_label (de_audio dest) = []
         then (case first_sendable 0 tracks of
                 Some i \<Rightarrow> Inr [i]
               | None \<Rightarrow> Inl (packed_refusal (hd tracks)))
         else (case first_named (as_label (de_audio dest)) 0 tracks of
                 Some i \<Rightarrow> if is_packed (tracks ! i) then Inl (packed_refusal (tracks ! i)) else Inr [i]
               | None \<Rightarrow> Inl (no_such_feed (as_label (de_audio dest)) sendable)))"

fun check_tracks :: "audio_track list \<Rightarrow> nat list \<Rightarrow> stream_plan option" where
  "check_tracks tracks [] = None"
| "check_tracks tracks (i # is) =
     (let t = tracks ! i
      in if at_idx t \<noteq> int i then Some wrong_order
         else if lower (at_codec t) \<noteq> ''aac'' then Some (not_aac t)
         else check_tracks tracks is)"

fun language_args :: "audio_track list \<Rightarrow> nat \<Rightarrow> nat list \<Rightarrow> string list" where
  "language_args tracks k [] = []"
| "language_args tracks k (i # is) =
     (if at_language (tracks ! i) \<noteq> [] then [''-metadata:s:a:'' @ nat_str k, ''language='' @ at_language (tracks ! i)] else [])
     @ language_args tracks (k + 1) is"

definition map_args :: "nat list \<Rightarrow> string list" where
  "map_args is = concat (map (\<lambda>i. [''-map'', ''0:a:'' @ nat_str i]) is)"

definition plan_args :: "audio_track list \<Rightarrow> nat list \<Rightarrow> destination \<Rightarrow> string \<Rightarrow> string list" where
  "plan_args tracks chosen dest input =
     [''ffmpeg'', ''-hide_banner'', ''-i'', input, ''-map'', ''0:v:0''] @ map_args chosen @ language_args tracks 0 chosen
     @ [''-c'', ''copy'']
     @ (if protocol_of dest = Srt then [''-mpegts_flags'', ''+resend_headers'', ''-f'', ''mpegts'']
        else [''-flvflags'', ''no_duration_filesize'', ''-f'', ''flv''])
     @ [output_url dest]"

definition codec_word :: "string \<Rightarrow> string" where
  "codec_word vc = (if vc = ''hevc'' then ''HEVC'' else if vc = ''av1'' then ''AV1'' else ''H.264'')"

definition quoted_names :: "audio_track list \<Rightarrow> nat list \<Rightarrow> string" where
  "quoted_names tracks chosen =
     foldl (\<lambda>names i. names @ (if names = [] then [] else '', '') @ in_quotes (at_label (tracks ! i))) [] chosen"

definition plan_summary :: "manifest \<Rightarrow> destination \<Rightarrow> nat list \<Rightarrow> string" where
  "plan_summary m dest chosen =
     (let v = mf_video m; tracks = mf_audio_tracks m; vc = lower (vi_codec v);
          res = if vi_width v > 0 \<and> vi_height v > 0 then int_str (vi_width v) @ ''x'' @ int_str (vi_height v) @ '' '' else [];
          t = tracks ! hd chosen
      in ''sending '' @ res @ codec_word vc @
         (if length chosen > 1
          then '' video with '' @ nat_str (length chosen) @ '' sound feeds ('' @ quoted_names tracks chosen @ '')''
          else '' video with the '' @ in_quotes (at_label t) @ '' sound feed ('' @ channels_word (at_channels t) @ '')'') @
         (if protocol_of dest = Srt
          then (if de_srt_mode dest = Listener then '', over SRT, waiting for the far end to connect'' else '', over SRT'')
          else []))"

definition plan_stream :: "manifest \<Rightarrow> destination \<Rightarrow> string \<Rightarrow> stream_plan" where
  "plan_stream m dest input =
     (let proto = protocol_of dest; vc = lower (vi_codec (mf_video m)); tracks = mf_audio_tracks m
      in if vc = [] then no_codec
         else if \<not> video_sendable vc proto then wrong_codec vc proto
         else if de_allow_transcode dest then no_transcode
         else if tracks = [] then no_sound
         else case choose_tracks dest proto tracks of
                Inl p \<Rightarrow> p
              | Inr chosen \<Rightarrow>
                  (case check_tracks tracks chosen of
                     Some p \<Rightarrow> p
                   | None \<Rightarrow> stream_plan_default\<lparr>sp_ok := True, sp_args := plan_args tracks chosen dest input,
                               sp_audio_index := int (hd chosen), sp_audio_label := at_label (tracks ! hd chosen),
                               sp_summary := plan_summary m dest chosen\<rparr>))"


section \<open>The banner\<close>

definition plan_sentence :: "stream_plan \<Rightarrow> string" where
  "plan_sentence p = sp_problem p @ (if sp_remedy p = [] then [] else '' '' @ sp_remedy p)"

definition probe :: "string \<Rightarrow> destination" where
  "probe url = destination_default\<lparr>de_name := ''probe'', de_url := url, de_stream_key := ''x''\<rparr>"

definition hevc_note :: string where
  "hevc_note = ''This event is HEVC. It goes out unchanged either way; over RTMP it needs somewhere that takes Enhanced RTMP, which YouTube does. Somewhere that does not will drop the stream as soon as it starts.''"

definition av1_note :: string where
  "av1_note = ''This event is AV1. Only a streaming site that documents AV1 ingest will take it over RTMP '' @ em_dash
     @ '' YouTube does, and nothing else obviously does '' @ em_dash
     @ '' so somewhere that refuses it will drop the stream as soon as it starts. Over SRT it cannot go at all: the picture format has no place in that stream.''"

definition sendability :: "manifest \<Rightarrow> room_sendability" where
  "sendability m =
     (let rtmp = plan_stream m (probe ''rtmp://example.invalid/live'') ''pipe:0'';
          srt = plan_stream m (probe ''srt://example.invalid:9000'') ''pipe:0'';
          r = \<lparr>sn_any = sp_ok rtmp \<or> sp_ok srt, sn_rtmp_ok = sp_ok rtmp, sn_srt_ok = sp_ok srt, sn_problem = [], sn_note = []\<rparr>;
          vcodec = lower (vi_codec (mf_video m))
      in if \<not> sn_any r then r\<lparr>sn_problem := plan_sentence rtmp\<rparr>
         else let r = if \<not> sp_ok rtmp then r\<lparr>sn_note := plan_sentence rtmp\<rparr>
                      else if \<not> sp_ok srt then r\<lparr>sn_note := plan_sentence srt\<rparr> else r
              in if vcodec = ''hevc'' then r\<lparr>sn_note := hevc_note\<rparr>
                 else if vcodec = ''av1'' then r\<lparr>sn_note := av1_note\<rparr> else r)"


section \<open>What is planned\<close>

lemma refuse_simps [simp]:
  "sp_ok (refuse p r) = False" "sp_problem (refuse p r) = p" "sp_args (refuse p r) = []" "sp_remedy (refuse p r) = r"
  by (simp_all add: refuse_def stream_plan_default_def)

named_theorems refusals \<open>the refusals of a plan\<close>

lemmas [refusals] = no_codec_def wrong_codec_def no_transcode_def no_sound_def packed_refusal_def rtmp_one_feed_def
  no_such_feed_def wrong_order_def not_aac_def

lemma first_sendable_Some: "first_sendable i ts = Some j \<Longrightarrow> i \<le> j \<and> j - i < length ts \<and> \<not> is_packed (ts ! (j - i))"
proof (induction ts arbitrary: i)
  case (Cons t ts)
  show ?case
  proof (cases "is_packed t")
    case True
    with Cons have "i + 1 \<le> j \<and> j - (i + 1) < length ts \<and> \<not> is_packed (ts ! (j - (i + 1)))" by simp
    then have "j - i = Suc (j - (i + 1))" by arith
    then show ?thesis using \<open>i + 1 \<le> j \<and> _\<close> by simp
  qed (use Cons in simp)
qed simp

lemma first_sendable_None: "first_sendable i ts = None \<longleftrightarrow> (\<forall>t\<in>set ts. is_packed t)"
  by (induction ts arbitrary: i) auto

lemma first_named_Some: "first_named l i ts = Some j \<Longrightarrow> i \<le> j \<and> j - i < length ts \<and> at_label (ts ! (j - i)) = l"
proof (induction ts arbitrary: i)
  case (Cons t ts)
  show ?case
  proof (cases "at_label t = l")
    case False
    with Cons have "i + 1 \<le> j \<and> j - (i + 1) < length ts \<and> at_label (ts ! (j - (i + 1))) = l" by simp
    then have "j - i = Suc (j - (i + 1))" by arith
    then show ?thesis using \<open>i + 1 \<le> j \<and> _\<close> by simp
  qed (use Cons in simp)
qed simp

text \<open>What a choice of tracks may hold, and what is asked of each chosen one.\<close>

definition choice_ok :: "destination \<Rightarrow> protocol \<Rightarrow> audio_track list \<Rightarrow> nat list \<Rightarrow> bool" where
  "choice_ok dest proto tracks chosen =
     (chosen \<noteq> [] \<and> (\<forall>i\<in>set chosen. i < length tracks \<and> \<not> is_packed (tracks ! i)) \<and>
      (if as_all (de_audio dest) then proto = Srt \<and> chosen = filter (\<lambda>i. \<not> is_packed (tracks ! i)) [0 ..< length tracks]
       else length chosen = 1 \<and> (as_label (de_audio dest) \<noteq> [] \<longrightarrow> at_label (tracks ! hd chosen) = as_label (de_audio dest))))"

lemma choose_tracks_ok:
  assumes "choose_tracks dest proto tracks = Inr chosen"
  shows "choice_ok dest proto tracks chosen"
proof -
  have "\<exists>t\<in>set tracks. \<not> is_packed t" using assms by (auto simp: choose_tracks_def Let_def filter_empty_conv split: if_splits)
  then obtain i where i: "i < length tracks" "\<not> is_packed (tracks ! i)" by (auto simp: in_set_conv_nth)
  then have ne: "filter (\<lambda>i. \<not> is_packed (tracks ! i)) [0 ..< length tracks] \<noteq> []" by (auto simp: filter_empty_conv)
  show ?thesis using assms ne first_sendable_Some [of 0 tracks] first_named_Some [of "as_label (de_audio dest)" 0 tracks]
    by (auto simp: choose_tracks_def choice_ok_def Let_def split: if_splits option.splits)
qed

lemma check_tracks_None:
  "check_tracks tracks is = None \<longleftrightarrow> (\<forall>i\<in>set is. at_idx (tracks ! i) = int i \<and> lower (at_codec (tracks ! i)) = ''aac'')"
  by (induction "is") (auto simp: Let_def)

lemma check_tracks_refuses: "check_tracks tracks is = Some p \<Longrightarrow> \<not> sp_ok p \<and> sp_problem p \<noteq> [] \<and> sp_args p = []"
  by (induction "is") (auto simp: Let_def refusals split: if_splits)

lemma choose_tracks_refuses: "choose_tracks dest proto tracks = Inl p \<Longrightarrow> \<not> sp_ok p \<and> sp_problem p \<noteq> [] \<and> sp_args p = []"
  by (auto simp: choose_tracks_def Let_def refusals split: if_splits option.splits)

definition video_allowed :: "manifest \<Rightarrow> destination \<Rightarrow> bool" where
  "video_allowed m dest = (lower (vi_codec (mf_video m)) \<noteq> [] \<and> video_sendable (lower (vi_codec (mf_video m))) (protocol_of dest) \<and>
     \<not> de_allow_transcode dest)"

lemma plan_stream_cases:
  obtains "\<not> sp_ok (plan_stream m dest input)" "sp_problem (plan_stream m dest input) \<noteq> []" "sp_args (plan_stream m dest input) = []"
    "\<not> video_allowed m dest \<or> mf_audio_tracks m = [] \<or> (\<exists>p. choose_tracks dest (protocol_of dest) (mf_audio_tracks m) = Inl p) \<or>
     (\<exists>is p. choose_tracks dest (protocol_of dest) (mf_audio_tracks m) = Inr is \<and> check_tracks (mf_audio_tracks m) is = Some p)"
  | chosen where "sp_ok (plan_stream m dest input)" "sp_problem (plan_stream m dest input) = []"
    "video_allowed m dest" "mf_audio_tracks m \<noteq> []"
    "choose_tracks dest (protocol_of dest) (mf_audio_tracks m) = Inr chosen" "check_tracks (mf_audio_tracks m) chosen = None"
    "sp_args (plan_stream m dest input) = plan_args (mf_audio_tracks m) chosen dest input"
    "sp_audio_index (plan_stream m dest input) = int (hd chosen)"
    "sp_audio_label (plan_stream m dest input) = at_label (mf_audio_tracks m ! hd chosen)"
proof (cases "video_allowed m dest \<and> mf_audio_tracks m \<noteq> []")
  case False
  show thesis
    by (rule that(1)) (use False in \<open>auto simp: plan_stream_def video_allowed_def Let_def refusals split: if_splits\<close>)
next
  case True
  then have e: "plan_stream m dest input = (case choose_tracks dest (protocol_of dest) (mf_audio_tracks m) of
        Inl p \<Rightarrow> p
      | Inr chosen \<Rightarrow> (case check_tracks (mf_audio_tracks m) chosen of
          Some p \<Rightarrow> p
        | None \<Rightarrow> stream_plan_default\<lparr>sp_ok := True, sp_args := plan_args (mf_audio_tracks m) chosen dest input,
            sp_audio_index := int (hd chosen), sp_audio_label := at_label (mf_audio_tracks m ! hd chosen),
            sp_summary := plan_summary m dest chosen\<rparr>))"
    by (simp add: plan_stream_def video_allowed_def Let_def)
  show thesis
  proof (cases "choose_tracks dest (protocol_of dest) (mf_audio_tracks m)")
    case (Inl p)
    then show thesis using that(1) choose_tracks_refuses [OF Inl] by (simp add: e)
  next
    case (Inr chosen)
    show thesis
    proof (cases "check_tracks (mf_audio_tracks m) chosen")
      case None
      then show thesis using that(2) Inr True by (simp add: e stream_plan_default_def)
    next
      case (Some p)
      then show thesis using that(1) Inr check_tracks_refuses [OF Some] by (simp add: e)
    qed
  qed
qed

lemma plan_ok_iff:
  "sp_ok (plan_stream m dest input) = (video_allowed m dest \<and> mf_audio_tracks m \<noteq> [] \<and>
     (\<exists>chosen. choose_tracks dest (protocol_of dest) (mf_audio_tracks m) = Inr chosen \<and> check_tracks (mf_audio_tracks m) chosen = None))"
  by (rule plan_stream_cases [of m dest input]) auto


lemma first_choice_protocol:
  "as_label (de_audio a) = [] \<Longrightarrow> \<not> as_all (de_audio a) \<Longrightarrow> as_label (de_audio b) = [] \<Longrightarrow> \<not> as_all (de_audio b) \<Longrightarrow>
   choose_tracks a p ts = choose_tracks b q ts"
  by (simp add: choose_tracks_def Let_def)

lemma probe_simps [simp]:
  "protocol_of (probe ''rtmp://example.invalid/live'') = Rtmp" "protocol_of (probe ''srt://example.invalid:9000'') = Srt"
  "as_label (de_audio (probe u)) = []" "as_all (de_audio (probe u)) = False" "de_allow_transcode (probe u) = False"
  by (simp_all add: probe_def destination_default_def protocol_of_def kSrtScheme_def starts_with_def lower_def to_lower_def is_upper_def)

lemma plan_ok_by_protocol:
  assumes "as_label (de_audio a) = []" "\<not> as_all (de_audio a)" "\<not> de_allow_transcode a"
    "as_label (de_audio b) = []" "\<not> as_all (de_audio b)" "\<not> de_allow_transcode b" "protocol_of a = protocol_of b"
  shows "sp_ok (plan_stream m a i) = sp_ok (plan_stream m b j)"
  unfolding plan_ok_iff using assms first_choice_protocol [of a b "protocol_of a" "mf_audio_tracks m" "protocol_of b"]
  by (simp add: video_allowed_def)

text \<open>
  C34: The banner above the destinations says what happens on start: for a destination that sends the main mix as it is,
  the plan succeeds exactly when the banner says its protocol can carry the event, and the banner gives a reason exactly
  when none can.
\<close>

theorem banner_agrees:
  assumes "as_label (de_audio dest) = []" "\<not> as_all (de_audio dest)" "\<not> de_allow_transcode dest"
  shows "sp_ok (plan_stream m dest input) = (if protocol_of dest = Rtmp then sn_rtmp_ok (sendability m) else sn_srt_ok (sendability m)) \<and>
    (sn_problem (sendability m) = []) = (sn_rtmp_ok (sendability m) \<or> sn_srt_ok (sendability m))"
proof -
  let ?r = "plan_stream m (probe ''rtmp://example.invalid/live'') ''pipe:0''"
  let ?s = "plan_stream m (probe ''srt://example.invalid:9000'') ''pipe:0''"
  have s: "sn_rtmp_ok (sendability m) = sp_ok ?r" "sn_srt_ok (sendability m) = sp_ok ?s"
    "sn_problem (sendability m) = (if sp_ok ?r \<or> sp_ok ?s then [] else plan_sentence ?r)"
    by (auto simp: sendability_def Let_def)
  have "\<not> sp_ok ?r \<Longrightarrow> plan_sentence ?r \<noteq> []"
    by (rule plan_stream_cases [of m "probe ''rtmp://example.invalid/live''" "''pipe:0''"]) (auto simp: plan_sentence_def)
  moreover have "sp_ok (plan_stream m dest input) = sp_ok ?r" if "protocol_of dest = Rtmp"
    using that assms by (intro plan_ok_by_protocol) simp_all
  moreover have "sp_ok (plan_stream m dest input) = sp_ok ?s" if "protocol_of dest \<noteq> Rtmp"
    using that assms by (intro plan_ok_by_protocol) (cases "protocol_of dest"; simp)+
  ultimately show ?thesis by (simp add: s)
qed

text \<open>A stereo programme beside a packed track, and an SRT destination for it.\<close>

definition ex_event :: manifest where
  "ex_event = manifest_default\<lparr>mf_video := (mf_video manifest_default)\<lparr>vi_codec := ''h264''\<rparr>,
     mf_audio_tracks := [\<lparr>at_idx = 0, at_label = ''Main'', at_codec = ''aac'', at_channels = 2, at_sample_rate = 48000,
        at_channel_labels = [], at_language = ''en''\<rparr>,
       \<lparr>at_idx = 1, at_label = ''All'', at_codec = ''aac'', at_channels = 8, at_sample_rate = 48000,
        at_channel_labels = [], at_language = []\<rparr>]\<rparr>"

definition ex_srt :: destination where
  "ex_srt = destination_default\<lparr>de_name := ''Far'', de_room_id := ''main'', de_url := ''srt://far.example.com:90?pkt_size=1316'',
     de_stream_key := ''live/abc'', de_srt_passphrase := ''0123456789''\<rparr>"

theorem banner_agrees_witness:
  "sp_ok (plan_stream ex_event ex_srt ''pipe:0'') = (if protocol_of ex_srt = Rtmp then sn_rtmp_ok (sendability ex_event) else sn_srt_ok (sendability ex_event))"
  using banner_agrees [of ex_srt ex_event "''pipe:0''"] by (simp add: ex_srt_def destination_default_def)

lemma unaffected_same_url: "\<not> affects_stream a b \<Longrightarrow> protocol_of a = protocol_of b \<and> output_url a = output_url b"
  by (simp add: affects_stream_def protocol_of_def output_url_def)

text \<open>
  An edit that does not interrupt a stream on air would not have changed it: when the two versions of a destination
  differ in nothing that rebuilds the stream, every event is planned for both in the same way.
\<close>

lemma unaffected_same_plan:
  assumes "\<not> affects_stream a b"
  shows "plan_stream m a input = plan_stream m b input"
proof -
  have "plan_args ts c a i = plan_args ts c b i" "plan_summary m a c = plan_summary m b c" "choose_tracks a p ts = choose_tracks b p ts" for ts c i p
    using assms unaffected_same_url [OF assms]
    by (simp_all add: plan_args_def plan_summary_def choose_tracks_def affects_stream_def Let_def split: option.split)
  then show ?thesis using assms unaffected_same_url [OF assms] by (simp add: plan_stream_def affects_stream_def Let_def split: sum.split option.split)
qed

section \<open>Scrubbing\<close>

lemma sublist_Cons: "sublist p (c # s) = (prefix p (c # s) \<or> sublist p s)"
  by (simp add: sublist_Cons_right)

lemma sublist_sep:
  assumes "c \<notin> set p"
  shows "sublist p (a @ c # b) = (sublist p a \<or> sublist p b)"
proof (induction a)
  case Nil
  show ?case using assms by (cases p) (auto simp: sublist_Cons)
next
  case (Cons x a)
  have "prefix p ((x # a) @ c # b) \<longleftrightarrow> prefix p (x # a)"
    using assms by (subst prefix_append) (auto simp: prefix_Cons)
  then show ?case using Cons by (auto simp: sublist_Cons)
qed

lemma prefix_starts_with: "starts_with s p = prefix p s"
  by (auto simp: starts_with_def prefix_def) (metis append_take_drop_id)

lemma find_sub_None: "find_sub p s = None \<longleftrightarrow> \<not> sublist p s"
  by (induction s) (auto simp: sublist_Cons prefix_starts_with)

lemma find_sub_first: "p \<noteq> [] \<Longrightarrow> find_sub p s = Some a \<Longrightarrow> \<not> sublist p (take a s)"
proof (induction s arbitrary: a)
  case (Cons c s)
  show ?case
  proof (cases "starts_with (c # s) p")
    case True
    then show ?thesis using Cons.prems by simp
  next
    case False
    then obtain a' where a: "a = Suc a'" "find_sub p s = Some a'" using Cons.prems by auto
    have "\<not> prefix p (c # take a' s)" using False
      by (metis prefix_starts_with prefix_order.trans take_Suc_Cons take_is_prefix)
    then show ?thesis using Cons.IH [OF Cons.prems(1) a(2)] by (simp add: a(1) sublist_Cons)
  qed
qed simp

text \<open>A replacement in angle brackets keeps what is before and behind it apart from any text without them.\<close>

definition unbracketed :: "string \<Rightarrow> bool" where
  "unbracketed p = (CHR ''<'' \<notin> set p \<and> CHR ''>'' \<notin> set p)"

lemma sublist_bracketed:
  assumes "unbracketed p"
  shows "sublist p (a @ (CHR ''<'' # w @ ''>'') @ b) = (sublist p a \<or> sublist p w \<or> sublist p b)"
proof -
  have "sublist p (a @ CHR ''<'' # (w @ CHR ''>'' # b)) = (sublist p a \<or> sublist p w \<or> sublist p b)"
    using assms sublist_sep [of "CHR ''<''" p a "w @ CHR ''>'' # b"] sublist_sep [of "CHR ''>''" p w b] by (auto simp: unbracketed_def)
  then show ?thesis by simp
qed

lemma scrub_absent:
  assumes "secret \<noteq> []" "unbracketed secret" "\<not> sublist secret w"
  shows "\<not> sublist secret (scrub secret (CHR ''<'' # w @ ''>'') s)"
proof (induction "length s" arbitrary: s rule: less_induct)
  case less
  show ?case
  proof (cases "find_sub secret s")
    case None
    then show ?thesis using find_sub_None [of secret s] assms(1) by (subst scrub.simps) simp
  next
    case (Some a)
    let ?r = "drop (a + length secret) s"
    have "\<not> sublist secret (scrub secret (CHR ''<'' # w @ ''>'') ?r)" using find_sub_shorter [OF assms(1) Some] by (intro less) simp
    then have "\<not> sublist secret (take a s @ (CHR ''<'' # w @ ''>'') @ scrub secret (CHR ''<'' # w @ ''>'') ?r)"
      unfolding sublist_bracketed [OF assms(2)] using find_sub_first [OF assms(1) Some] assms(3) by simp
    then show ?thesis using assms(1) Some by (subst scrub.simps) simp
  qed
qed

lemma scrub_keeps_absent:
  assumes "unbracketed p" "\<not> sublist p w" "\<not> sublist p s"
  shows "\<not> sublist p (scrub secret (CHR ''<'' # w @ ''>'') s)"
  using assms(3)
proof (induction "length s" arbitrary: s rule: less_induct)
  case less
  show ?case
  proof (cases "secret = [] \<or> find_sub secret s = None")
    case True
    then show ?thesis using less.prems by (subst scrub.simps) auto
  next
    case False
    then obtain a where a: "secret \<noteq> []" "find_sub secret s = Some a" by auto
    let ?r = "drop (a + length secret) s"
    have "\<not> sublist p ?r" "\<not> sublist p (take a s)"
      using less.prems by (meson sublist_drop sublist_take sublist_order.order_trans)+
    moreover have "\<not> sublist p (scrub secret (CHR ''<'' # w @ ''>'') ?r)"
      using find_sub_shorter [OF a] calculation(1) by (intro less) simp_all
    ultimately have "\<not> sublist p (take a s @ (CHR ''<'' # w @ ''>'') @ scrub secret (CHR ''<'' # w @ ''>'') ?r)"
      unfolding sublist_bracketed [OF assms(1)] using assms(2) by simp
    then show ?thesis using a by (subst scrub.simps) simp
  qed
qed

text \<open>
  A secret that can be told from its replacement: no angle brackets in it, and not a part of the word that stands for it.
\<close>

definition tellable :: "string \<Rightarrow> bool" where
  "tellable p = (p \<noteq> [] \<and> unbracketed p \<and> \<not> sublist p ''key'' \<and> \<not> sublist p ''passphrase'')"

text \<open>
  C20: Nothing that is logged or shown holds a secret: neither the stream key nor the passphrase of a destination occurs
  anywhere in a text scrubbed for it, whatever the text is and however the two overlap, as long as the secret itself has
  no angle bracket and is not a part of the words \<^verbatim>\<open>key\<close> and \<^verbatim>\<open>passphrase\<close> that stand in for it.
\<close>

theorem redact_hides_secrets:
  assumes "secret \<in> {de_stream_key d, de_srt_passphrase d}" "tellable secret"
  shows "\<not> sublist secret (redact s d) \<and> (\<forall>a \<in> set (redact_args args d). \<not> sublist secret a)"
proof -
  have w: "''<key>'' = CHR ''<'' # ''key'' @ ''>''" "''<passphrase>'' = CHR ''<'' # ''passphrase'' @ ''>''" by simp_all
  have "\<not> sublist secret (redact x d)" for x
  proof (cases "secret = de_srt_passphrase d")
    case True
    then show ?thesis using assms(2) scrub_absent [of secret "''passphrase''"] unfolding redact_def w by (simp add: tellable_def)
  next
    case False
    then have k: "secret = de_stream_key d" using assms(1) by simp
    have "\<not> sublist secret (scrub (de_stream_key d) (CHR ''<'' # ''key'' @ ''>'') x)"
      unfolding k [symmetric] using assms(2) by (intro scrub_absent) (simp_all add: tellable_def)
    then show ?thesis using scrub_keeps_absent [of secret "''passphrase''" _ "de_srt_passphrase d"] assms(2)
      unfolding redact_def w by (simp add: tellable_def)
  qed
  then show ?thesis by (auto simp: redact_args_def)
qed

theorem redact_hides_secrets_witness:
  "\<not> sublist ''live/abc'' (redact ''Error opening srt://far:9000?streamid=live/abc'' ex_srt)"
  using redact_hides_secrets [of "''live/abc''" ex_srt "''Error opening srt://far:9000?streamid=live/abc''" "[]"]
  by (simp add: ex_srt_def tellable_def unbracketed_def flip: find_sub_None) (simp add: starts_with_def)


section \<open>Tidied addresses\<close>

lemma takeWhile_until: "c \<notin> set a \<Longrightarrow> takeWhile (\<lambda>x. x \<noteq> c) (a @ c # b) = a" "c \<notin> set a \<Longrightarrow> takeWhile (\<lambda>x. x \<noteq> c) a = a"
  by (induction a) auto

definition param_ok :: "query_param \<Rightarrow> bool" where
  "param_ok p = (CHR ''='' \<notin> set (fst p) \<and> CHR ''&'' \<notin> set (fst p) \<and> CHR ''&'' \<notin> set (snd p))"

definition param_text :: "query_param \<Rightarrow> string" where
  "param_text p = fst p @ ''='' @ snd p"

lemma query_param_of_ok: "CHR ''&'' \<notin> set one \<Longrightarrow> param_ok (query_param_of one)"
  by (auto simp: param_ok_def query_param_of_def Let_def dest!: set_takeWhileD in_set_dropD)

lemma split_query_ok: "list_all param_ok (split_query q)"
proof (induction q rule: split_query.induct)
  case (1 q)
  let ?one = "takeWhile (\<lambda>c. c \<noteq> CHR ''&'') q"
  have "CHR ''&'' \<notin> set ?one" by (auto dest: set_takeWhileD)
  note ok = query_param_of_ok [OF this]
  show ?case
  proof (cases "q = []")
    case False
    note ih = 1 [OF False refl]
    show ?thesis using False ih ok by (subst split_query.simps) (auto simp: Let_def)
  qed (simp add: split_query.simps)
qed

lemma param_text_read: "param_ok p \<Longrightarrow> query_param_of (param_text p) = p"
  by (cases p) (simp add: query_param_of_def param_text_def param_ok_def takeWhile_until Let_def)

lemma join_query_acc:
  "acc \<noteq> [] \<Longrightarrow> foldl (\<lambda>out p. (if out \<noteq> [] then out @ ''&'' else out) @ fst p @ ''='' @ snd p) acc ps =
     acc @ concat (map (\<lambda>p. CHR ''&'' # param_text p) ps)"
  by (induction ps arbitrary: acc) (simp_all add: param_text_def)

lemma join_query_Cons: "join_query (p # ps) = param_text p @ concat (map (\<lambda>p. CHR ''&'' # param_text p) ps)"
  unfolding join_query_def foldl_Cons by (subst join_query_acc) (simp_all add: param_text_def)

lemma join_query_Nil [simp]: "join_query [] = []"
  by (simp add: join_query_def)

lemma join_query_step: "join_query (p # ps) = (if ps = [] then param_text p else param_text p @ CHR ''&'' # join_query ps)"
  by (cases ps) (simp_all add: join_query_Cons)

lemma join_query_empty [simp]: "join_query ps = [] \<longleftrightarrow> ps = []"
  by (cases ps) (simp_all add: join_query_Cons param_text_def)

lemma param_text_no_amp: "param_ok p \<Longrightarrow> c \<in> set (param_text p) \<Longrightarrow> c \<noteq> CHR ''&''"
  by (auto simp: param_ok_def param_text_def)

lemma split_join_query: "list_all param_ok ps \<Longrightarrow> split_query (join_query ps) = ps"
proof (induction ps)
  case (Cons p ps)
  then have p: "param_ok p" and ih: "split_query (join_query ps) = ps" by auto
  have ne: "param_text p \<noteq> []" by (simp add: param_text_def)
  have t: "takeWhile (\<lambda>c. c \<noteq> CHR ''&'') (join_query (p # ps)) = param_text p"
    unfolding join_query_step using param_text_no_amp [OF p] by (auto intro!: takeWhile_until)
  have d: "drop (Suc (length (param_text p))) (join_query (p # ps)) = join_query ps"
    unfolding join_query_step by simp
  have "join_query (p # ps) \<noteq> []" by simp
  then show ?case using ne by (subst split_query.simps) (simp add: t d ih param_text_read [OF p] del: join_query_empty)
qed (simp add: split_query.simps)

text \<open>An address with parameters, and what the code builds and takes apart of it.\<close>

definition url_of :: "string \<Rightarrow> query_param list \<Rightarrow> string" where
  "url_of base ps = (if ps = [] then base else base @ ''?'' @ join_query ps)"

lemma split_url_of: "CHR ''?'' \<notin> set base \<Longrightarrow> split_url (url_of base ps) = (base, join_query ps)"
  by (simp add: split_url_def url_of_def Let_def takeWhile_until)

lemma add_param_url_of: "CHR ''?'' \<notin> set base \<Longrightarrow> add_param k v (url_of base ps) = url_of base (ps @ [(k, v)])"
  by (cases ps) (simp_all add: add_param_def url_of_def join_query_Cons param_text_def)

definition unmanaged :: "query_param \<Rightarrow> bool" where
  "unmanaged p = (lower (fst p) \<notin> {''streamid'', ''passphrase'', ''latency'', ''mode''})"

lemma lift_param_unmanaged: "unmanaged p \<Longrightarrow> lift_param p (d, keep) = (d, keep @ [p])"
  by (simp add: lift_param_def unmanaged_def)

lemma lift_param_keep: "snd (lift_param p s) = snd s @ (if unmanaged p then [p] else [])"
  by (cases s) (simp add: lift_param_def unmanaged_def Let_def)

lemma fold_lift_keep: "snd (fold lift_param ps s) = snd s @ filter unmanaged ps"
  by (induction ps arbitrary: s) (simp_all add: lift_param_keep)

lemma fold_lift_unmanaged: "list_all unmanaged ps \<Longrightarrow> fold lift_param ps (d, keep) = (d, keep @ ps)"
  by (induction ps arbitrary: keep) (simp_all add: lift_param_unmanaged)

lemma lift_param_other [simp]:
  "de_name (fst (lift_param p s)) = de_name (fst s)" "de_url (fst (lift_param p s)) = de_url (fst s)"
  by (cases s; simp add: lift_param_def Let_def split: option.split)+

lemma fold_lift_other [simp]:
  "de_name (fst (fold lift_param ps s)) = de_name (fst s)" "de_url (fst (fold lift_param ps s)) = de_url (fst s)"
  by (induction ps arbitrary: s) simp_all

lemma strip_slashes_snoc: "strip_slashes (s @ [c]) = (if c = CHR ''/'' then strip_slashes s else s @ [c])"
  by (simp add: strip_slashes_def)

lemma strip_slashes_prefix: "\<exists>n. s = strip_slashes s @ replicate n (CHR ''/'')"
proof (induction s rule: rev_induct)
  case (snoc c s)
  then obtain n where n: "s = strip_slashes s @ replicate n (CHR ''/'')" by blast
  show ?case
  proof (cases "c = CHR ''/''")
    case True
    have "s @ [c] = strip_slashes s @ replicate (Suc n) (CHR ''/'')"
      using n True by (metis append.assoc replicate_Suc replicate_append_same)
    then show ?thesis using True unfolding strip_slashes_snoc by (intro exI [of _ "Suc n"]) simp
  qed (simp add: strip_slashes_snoc)
qed (simp add: strip_slashes_def)

lemma strip_slashes_idem [simp]: "strip_slashes (strip_slashes s) = strip_slashes s"
  by (simp add: strip_slashes_def)

lemma strip_slashes_set: "set (strip_slashes s) \<subseteq> set s"
  using strip_slashes_prefix [of s] by (metis Un_upper1 set_append)

lemma starts_with_take: "length p \<le> n \<Longrightarrow> starts_with (take n s) p = starts_with s p"
  by (simp add: starts_with_def min_absorb1)

lemma split_url_fst: "fst (split_url u) = takeWhile (\<lambda>c. c \<noteq> CHR ''?'') u"
  by (simp add: split_url_def Let_def)

text \<open>The address without its parameters, as tidying leaves it.\<close>

definition tidy_base :: "string \<Rightarrow> string" where
  "tidy_base u = strip_slashes (fst (split_url u))"

lemma tidy_base_no_query: "CHR ''?'' \<notin> set (tidy_base u)"
proof
  assume "CHR ''?'' \<in> set (tidy_base u)"
  then have "CHR ''?'' \<in> set (fst (split_url u))" using strip_slashes_set unfolding tidy_base_def by blast
  then show False by (auto simp: split_url_fst dest: set_takeWhileD)
qed

lemma tidy_base_prefix: "\<exists>r. u = tidy_base u @ r"
proof -
  have "u = fst (split_url u) @ dropWhile (\<lambda>c. c \<noteq> CHR ''?'') u" by (simp add: split_url_fst)
  moreover obtain n where "fst (split_url u) = tidy_base u @ replicate n (CHR ''/'')"
    using strip_slashes_prefix [of "fst (split_url u)"] unfolding tidy_base_def by blast
  ultimately have "u = tidy_base u @ replicate n (CHR ''/'') @ dropWhile (\<lambda>c. c \<noteq> CHR ''?'') u" by simp
  then show ?thesis by blast
qed

lemma tidy_base_scheme:
  "starts_with (lower u) kSrtScheme \<Longrightarrow> length kSrtScheme \<le> length (tidy_base u) \<Longrightarrow> starts_with (lower (tidy_base u)) kSrtScheme"
proof -
  assume s: "starts_with (lower u) kSrtScheme" and l: "length kSrtScheme \<le> length (tidy_base u)"
  obtain r where "u = tidy_base u @ r" using tidy_base_prefix by blast
  then have "lower u = lower (tidy_base u) @ lower r" by (metis lower_def map_append)
  then show ?thesis using s l by (simp add: starts_with_def lower_def)
qed

lemma normalize_srt:
  assumes "normalize d = Inr d'" "protocol_of (trim_fields d) = Srt"
  defines "ps \<equiv> split_query (snd (split_url (trim (de_url d))))"
  obtains base where "de_url d' = url_of base (filter unmanaged ps)" "CHR ''?'' \<notin> set base" "starts_with (lower base) kSrtScheme"
    "de_name d' = trim (de_name d)" "de_srt_mode d' = Caller \<Longrightarrow> strip_slashes base = base \<and> drop (length kSrtScheme) base \<noteq> [] \<and>
       hd (drop (length kSrtScheme) base) \<noteq> CHR '':''"
proof -
  let ?u = "trim (de_url d)" and ?t = "trim_fields d"
  let ?f = "fold lift_param ps (?t, [])"
  let ?h = "drop (length kSrtScheme) (tidy_base ?u)"
  let ?any = "?h = [] \<or> hd ?h = CHR '':''"
  have u: "de_url ?t = ?u" "de_name ?t = trim (de_name d)" by (simp_all add: trim_fields_def)
  have s: "starts_with (lower ?u) kSrtScheme" using assms(2) by (simp add: protocol_of_def u split: if_splits)
  have len: "length kSrtScheme \<le> length (tidy_base ?u)" and d': "d' = (let d1 = fst ?f; d2 = if ?any then d1\<lparr>de_srt_mode := Listener\<rparr> else d1;
      b = if ?any then kSrtScheme @ ''0.0.0.0'' @ ?h else tidy_base ?u; d3 = if de_srt_mode d2 = Listener then d2\<lparr>de_stream_key := []\<rparr> else d2
      in d3\<lparr>de_url := url_of b (filter unmanaged ps)\<rparr>)"
    using assms(1,2) fold_lift_keep [of ps "(?t, [])"]
    by (auto simp: normalize_def Let_def split_beta u tidy_base_def ps_def url_of_def not_less split: if_splits)
  show thesis
  proof (rule that [of "if ?any then kSrtScheme @ ''0.0.0.0'' @ ?h else tidy_base ?u"])
    show "de_url d' = url_of (if ?any then kSrtScheme @ ''0.0.0.0'' @ ?h else tidy_base ?u) (filter unmanaged ps)"
      unfolding d' by (simp add: Let_def)
    show "CHR ''?'' \<notin> set (if ?any then kSrtScheme @ ''0.0.0.0'' @ ?h else tidy_base ?u)"
      using tidy_base_no_query [of ?u] by (auto simp: kSrtScheme_def dest: in_set_dropD)
    show "starts_with (lower (if ?any then kSrtScheme @ ''0.0.0.0'' @ ?h else tidy_base ?u)) kSrtScheme"
      using tidy_base_scheme [OF s len] by (auto simp: kSrtScheme_def starts_with_def lower_def to_lower_def is_upper_def)
    show "de_name d' = trim (de_name d)" unfolding d' by (simp add: Let_def u)
    show "strip_slashes (if ?any then kSrtScheme @ ''0.0.0.0'' @ ?h else tidy_base ?u) = (if ?any then kSrtScheme @ ''0.0.0.0'' @ ?h else tidy_base ?u) \<and>
        drop (length kSrtScheme) (if ?any then kSrtScheme @ ''0.0.0.0'' @ ?h else tidy_base ?u) \<noteq> [] \<and>
        hd (drop (length kSrtScheme) (if ?any then kSrtScheme @ ''0.0.0.0'' @ ?h else tidy_base ?u)) \<noteq> CHR '':''"
      if "de_srt_mode d' = Caller"
    proof -
      have "\<not> ?any" using that unfolding d' by (auto simp: Let_def split: if_splits)
      then show ?thesis by (simp add: tidy_base_def)
    qed
  qed
qed

lemma dropWhile_rev_idem:
  assumes "dropWhile P xs = xs"
  shows "dropWhile P (rev (dropWhile P (rev xs))) = rev (dropWhile P (rev xs))"
proof -
  have "xs = rev (dropWhile P (rev xs)) @ rev (takeWhile P (rev xs))"
    by (metis rev_append rev_rev_ident takeWhile_dropWhile_id)
  then show ?thesis using assms unfolding dropWhile_eq_self_iff by (metis append_is_Nil_conv hd_append2)
qed

lemma trim_idem [simp]: "trim (trim s) = trim s"
  unfolding trim_def by (simp add: dropWhile_rev_idem dropWhile_idem)

lemma trim_id:
  assumes "s = [] \<or> \<not> is_space (hd s) \<and> \<not> is_space (last s)"
  shows "trim s = s"
proof -
  have "dropWhile is_space s = s" "dropWhile is_space (rev s) = rev s"
    using assms unfolding dropWhile_eq_self_iff by (auto simp: hd_rev)
  then show ?thesis by (simp add: trim_def)
qed

lemma starts_with_append: "starts_with s p \<Longrightarrow> starts_with (s @ t) p"
  by (simp add: prefix_starts_with)

lemma url_of_srt: "starts_with (lower base) kSrtScheme \<Longrightarrow> de_url d = url_of base ps \<Longrightarrow> protocol_of d = Srt"
  by (auto simp: protocol_of_def url_of_def lower_def intro: starts_with_append)

text \<open>
  The address that is shown back holds none of the settings kept beside it. Whatever SRT address was typed in, the
  tidied one carries exactly its other parameters, in their order: no stream id, passphrase, latency or mode is left on it.
\<close>

lemma normalize_lifts_secrets:
  assumes "normalize d = Inr d'" "protocol_of (trim_fields d) = Srt"
  shows "protocol_of d' = Srt \<and>
    split_query (snd (split_url (de_url d'))) = filter unmanaged (split_query (snd (split_url (trim (de_url d)))))"
proof (rule normalize_srt [OF assms])
  let ?ps = "filter unmanaged (split_query (snd (split_url (trim (de_url d)))))"
  fix base
  assume b: "de_url d' = url_of base ?ps" "CHR ''?'' \<notin> set base" "starts_with (lower base) kSrtScheme"
  have "list_all param_ok ?ps" using split_query_ok [of "snd (split_url (trim (de_url d)))"] by (auto simp: list_all_iff)
  then have "split_query (join_query ?ps) = ?ps" by (rule split_join_query)
  then show ?thesis using b split_url_of [OF b(2), of ?ps] url_of_srt [OF b(3) b(1)] by simp
qed

definition ex_pasted :: destination where
  "ex_pasted = destination_default\<lparr>de_name := ''Far'', de_room_id := ''main'',
     de_url := '' srt://far.example.com:90/?StreamID=live/abc&pkt_size=1316&passphrase=0123456789 ''\<rparr>"

lemma ex_pasted_tidied:
  "normalize ex_pasted = Inr ex_srt" "protocol_of (trim_fields ex_pasted) = Srt"
  by code_simp+

lemma is_digit_not_space: "is_digit c \<Longrightarrow> \<not> is_space c"
  by (auto simp: is_digit_code is_space_def)

lemma nat_str_hd: "is_digit (hd (nat_str n))"
  using nat_str_digits [of "hd (nat_str n)" n] by simp

lemma nat_str_last: "is_digit (last (nat_str n))"
  using nat_str_digits [of "last (nat_str n)" n] by simp

lemma sto_nat_str:
  assumes "lo \<le> int n" "int n \<le> hi"
  shows "sto lo hi (nat_str n) = Some (int n)"
proof -
  have h: "is_digit (hd (nat_str n))" by (rule nat_str_hd)
  have s: "dropWhile is_space (nat_str n) = nat_str n" using is_digit_not_space [OF h] by (simp add: dropWhile_eq_self_iff)
  have "hd (nat_str n) \<noteq> CHR ''-''" "hd (nat_str n) \<noteq> CHR ''+''" using h by (auto simp: is_digit_code)
  then have m: "\<not> starts_with (nat_str n) ''-''" "\<not> starts_with (nat_str n) ''+''"
    by (cases "nat_str n"; simp add: starts_with_def)+
  have "digits_value 10 (nat_str n) 0 = n"
    using digits_value_digits [of "nat_str n" 0] nat_str_digits [of _ n] read_nat_str [of n] by (simp add: read_nat_def)
  then show ?thesis using assms h m by (simp add: sto_def s)
qed

lemma latency_read:
  assumes "0 \<le> v" "v \<le> 8000"
  shows "stoll (int_str (v * kUsPerMs)) = Some (v * kUsPerMs)" "to_int32 (v * kUsPerMs sdiv kUsPerMs) = v"
proof -
  have "sto (- (2 ^ 63)) (2 ^ 63 - 1) (nat_str (nat (v * kUsPerMs))) = Some (int (nat (v * kUsPerMs)))"
    using assms by (intro sto_nat_str) (simp_all add: kUsPerMs_def)
  then show "stoll (int_str (v * kUsPerMs)) = Some (v * kUsPerMs)" using assms by (simp add: int_str_def kUsPerMs_def)
  show "to_int32 (v * kUsPerMs sdiv kUsPerMs) = v" using assms
    by (cases "v = 0") (simp_all add: to_int32_def kUsPerMs_def signed_divide_int_def)
qed

text \<open>The parameters an SRT destination that calls out is sent with.\<close>

definition call_params :: "destination \<Rightarrow> query_param list" where
  "call_params d = (if de_stream_key d \<noteq> [] then [(''streamid'', de_stream_key d)] else []) @
     (if de_srt_passphrase d \<noteq> [] then [(''passphrase'', de_srt_passphrase d)] else []) @
     [(''latency'', int_str ((if de_srt_latency_ms d > 0 then de_srt_latency_ms d else kDefaultSrtLatencyMs) * kUsPerMs))]"

lemma output_url_caller:
  assumes "protocol_of d = Srt" "de_srt_mode d = Caller" "de_url d = url_of base ps" "CHR ''?'' \<notin> set base"
  shows "output_url d = url_of base (ps @ call_params d)"
  using assms(1,2) unfolding output_url_def call_params_def assms(3) Let_def by (simp add: add_param_url_of [OF assms(4)])

lemma lower_words:
  "lower ''streamid'' = ''streamid''" "lower ''passphrase'' = ''passphrase''" "lower ''latency'' = ''latency''"
  by (simp_all add: lower_def to_lower_def is_upper_def)

lemma call_params_lifted:
  assumes "0 \<le> de_srt_latency_ms d" "de_srt_latency_ms d \<le> 8000"
  shows "fold lift_param (call_params d) (d\<lparr>de_url := u, de_stream_key := [], de_srt_passphrase := [], de_srt_latency_ms := 0\<rparr>, keep) =
    (d\<lparr>de_url := u, de_srt_latency_ms := if de_srt_latency_ms d > 0 then de_srt_latency_ms d else kDefaultSrtLatencyMs\<rparr>, keep)"
proof -
  let ?l = "if de_srt_latency_ms d > 0 then de_srt_latency_ms d else kDefaultSrtLatencyMs"
  have l: "stoll (int_str (?l * kUsPerMs)) = Some (?l * kUsPerMs)" "to_int32 (?l * kUsPerMs sdiv kUsPerMs) = ?l"
    using assms latency_read [of ?l] by (auto simp: kDefaultSrtLatencyMs_def)
  show ?thesis using l by (simp add: call_params_def lift_param_def lower_words)
qed

text \<open>A check that has passed: its message was not the answer.\<close>

lemma check_passed:
  "(if c then x # xs else r) = [] \<longleftrightarrow> \<not> c \<and> r = []" "(if c then (x # xs) @ ys else r) = [] \<longleftrightarrow> \<not> c \<and> r = []"
  by simp_all

lemma validate_srt_ok:
  assumes "validate d = []" "protocol_of d = Srt"
  shows "CHR ''&'' \<notin> set (de_stream_key d)" "CHR ''&'' \<notin> set (de_srt_passphrase d)" "0 \<le> de_srt_latency_ms d" "de_srt_latency_ms d \<le> 8000"
proof -
  have r: "protocol_of d \<noteq> Rtmp" using assms(2) by simp
  have "validate_srt d = []" using assms(1) unfolding validate_def Let_def check_passed if_not_P [OF r] by blast
  then obtain p where "after_last CHR '':'' (fst (split_url (drop (length kSrtScheme) (de_url d)))) = Some p"
    unfolding validate_srt_def Let_def by (cases "after_last CHR '':'' (fst (split_url (drop (length kSrtScheme) (de_url d))))") simp_all
  with \<open>validate_srt d = []\<close> have "\<not> (\<exists>s\<in>set [de_stream_key d, de_srt_passphrase d]. CHR ''&'' \<in> set s \<or> CHR ''#'' \<in> set s \<or> CHR '' '' \<in> set s)"
    "\<not> (de_srt_latency_ms d \<noteq> 0 \<and> (de_srt_latency_ms d < 20 \<or> de_srt_latency_ms d > 8000))"
    unfolding validate_srt_def Let_def by (simp_all only: option.case check_passed not_False_eq_True)
  then show "CHR ''&'' \<notin> set (de_stream_key d)" "CHR ''&'' \<notin> set (de_srt_passphrase d)" "0 \<le> de_srt_latency_ms d" "de_srt_latency_ms d \<le> 8000"
    by auto
qed

lemma digits_no_amp: "CHR ''&'' \<notin> set (nat_str n)"
  using nat_str_digits [of "CHR ''&''" n] by (auto simp: is_digit_code)

lemma call_params_ok:
  assumes "CHR ''&'' \<notin> set (de_stream_key d)" "CHR ''&'' \<notin> set (de_srt_passphrase d)" "0 \<le> de_srt_latency_ms d"
  shows "list_all param_ok (call_params d)"
  using assms digits_no_amp by (auto simp: call_params_def param_ok_def int_str_def kUsPerMs_def kDefaultSrtLatencyMs_def)

lemma join_query_snoc: "\<exists>u. join_query (ps @ [p]) = u @ param_text p"
  by (cases ps) (auto simp: join_query_Cons)

lemma call_url_last:
  assumes "0 \<le> de_srt_latency_ms d"
  shows "is_digit (last (url_of base (ps @ call_params d)))"
proof -
  let ?v = "(if de_srt_latency_ms d > 0 then de_srt_latency_ms d else kDefaultSrtLatencyMs) * kUsPerMs"
  obtain qs where c: "call_params d = qs @ [(''latency'', int_str ?v)]" unfolding call_params_def append_assoc [symmetric] by blast
  obtain u where "join_query ((ps @ qs) @ [(''latency'', int_str ?v)]) = u @ param_text (''latency'', int_str ?v)"
    using join_query_snoc by blast
  then have "url_of base (ps @ call_params d) = base @ ''?'' @ u @ ''latency='' @ int_str ?v" unfolding url_of_def c by (simp add: param_text_def)
  moreover have "int_str ?v = nat_str (nat ?v)" using assms by (simp add: int_str_def kUsPerMs_def kDefaultSrtLatencyMs_def)
  ultimately show ?thesis using nat_str_last [of "nat ?v"] by simp
qed

lemma scheme_hd: "starts_with (lower b) kSrtScheme \<Longrightarrow> b \<noteq> [] \<and> \<not> is_space (hd b) \<and> length kSrtScheme \<le> length b"
proof -
  assume s: "starts_with (lower b) kSrtScheme"
  then have l: "length kSrtScheme \<le> length b" using s by (metis length_map length_take lower_def min.cobounded1 starts_with_def)
  then obtain c cs where b: "b = c # cs" by (cases b) (auto simp: kSrtScheme_def)
  then have "to_lower c = CHR ''s''" using s by (simp add: starts_with_def lower_def kSrtScheme_def)
  then have "\<not> is_space c" by (auto simp: to_lower_def is_space_def is_upper_def less_eq_char_def split: if_splits)
  then show ?thesis using l b by simp
qed

lemma normalize_caller:
  assumes "trim_fields n = n" "protocol_of n = Srt" "split_url (de_url n) = (base, q)" "strip_slashes base = base"
    "length kSrtScheme \<le> length base" "drop (length kSrtScheme) base \<noteq> []" "hd (drop (length kSrtScheme) base) \<noteq> CHR '':''"
    "fold lift_param (split_query q) (n, []) = (m, ps)" "de_srt_mode m = Caller"
  shows "normalize n = Inr (m\<lparr>de_url := url_of base ps\<rparr>)"
  using assms(2-9) unfolding normalize_def assms(1) by (simp add: Let_def url_of_def not_less)



text \<open>An address that is the scheme alone is not tidied into a listener: once its slashes are gone \<^verbatim>\<open>substr\<close> throws.\<close>

lemma bare_scheme_throws: "normalize (destination_default\<lparr>de_url := ''srt://''\<rparr>) = Inl Out_of_range"
  by code_simp

end
