(* ===== verification/Room_Feeder.thy ===== *)
theory Room_Feeder
  imports Decoder_Polling Event_Catalog "HOL-Library.Multiset"
begin

text \<open>
  One room's receive side, shared by every destination (\<^verbatim>\<open>relay/src/room_feeder.{h,cpp}\<close>): the decoder session that polls
  and downloads, the event descriptor read once per event, the download window parked where the destinations read, the view
  of the room the destinations decide on, and a finished event as one download.

  The answers of the store are inputs. The loop over the pages of a listing has no bound in the code and is partial here.
  The lemmas say that parking puts the window at the lowest reader whenever storage holds its segment, and that a
  download sends the initialisation segment and then every segment once, in the order they play, with exactly the number
  of bytes that was promised.
\<close>

section \<open>The feed\<close>

record room_feeder =
  rf_session :: decoder
  rf_next_poll :: i64
  rf_poll_interval_ms :: int
  rf_lowest_reader :: u64
  rf_reader_set :: bool
  rf_info_event_id :: string
  rf_info :: event_info
  rf_have_info :: bool

definition set_lowest_reader :: "u64 \<Rightarrow> room_feeder \<Rightarrow> room_feeder" where
  "set_lowest_reader seq f = f\<lparr>rf_lowest_reader := seq, rf_reader_set := True\<rparr>"

text \<open>\<^verbatim>\<open>event.json\<close>, read when the event has changed or has not been read yet.\<close>

definition refresh_info :: "get_result \<Rightarrow> room_feeder \<Rightarrow> room_feeder" where
  "refresh_info r f =
     (let ev = dd_event_id (rf_session f)
      in if ev \<noteq> [] \<and> (ev \<noteq> rf_info_event_id f \<or> \<not> rf_have_info f) \<and> gr_success r
         then (case parsed event_info_from_json (gr_body r) of
                 Some info \<Rightarrow> f\<lparr>rf_info := info, rf_info_event_id := ev, rf_have_info := True\<rparr>
               | None \<Rightarrow> f)
         else f)"

definition park_window :: "room_feeder \<Rightarrow> room_feeder" where
  "park_window f =
     (if rf_reader_set f \<and> rf_lowest_reader f \<ge> dd_first_available_seq (rf_session f) \<and> dd_head (rf_session f) \<noteq> rf_lowest_reader f
      then f\<lparr>rf_session := fst (seek (rf_lowest_reader f) (rf_session f))\<rparr> else f)"

text \<open>The polling part of one pass of \<^verbatim>\<open>run\<close> at time \<open>t\<close>; the downloads follow with \<open>pump_downloads\<close>.\<close>

definition feeder_poll :: "i64 \<Rightarrow> poll_answers \<Rightarrow> get_result \<Rightarrow> room_feeder \<Rightarrow> room_feeder" where
  "feeder_poll t pa event_get f =
     (if t \<ge> rf_next_poll f
      then park_window (refresh_info event_get
             (f\<lparr>rf_next_poll := t + rf_poll_interval_ms f, rf_session := poll (pa\<lparr>pa_now := t\<rparr>) (rf_session f)\<rparr>))
      else f)"

definition feeder_has_segment :: "room_feeder \<Rightarrow> u64 \<Rightarrow> bool" where
  "feeder_has_segment f seq = cache_has (dd_cache (rf_session f)) seq"

definition feeder_load_segment :: "room_feeder \<Rightarrow> u64 \<Rightarrow> bytes option" where
  "feeder_load_segment f seq = cache_load (dd_cache (rf_session f)) seq"

definition feeder_load_init :: "room_feeder \<Rightarrow> bytes option" where
  "feeder_load_init f = load_init (dd_cache (rf_session f))"

record room_snapshot =
  sh_room :: room_state
  sh_event_id :: string
  sh_manifest :: manifest
  sh_have_event_info :: bool
  sh_latest_seq :: u64
  sh_first_available_seq :: u64
  sh_segment_duration_s :: double
  sh_last_error :: string
  sh_downloaded :: u64
  sh_checksum_failures :: u64

definition snapshot :: "room_feeder \<Rightarrow> room_snapshot" where
  "snapshot f =
     (let d = rf_session f;
          known = rf_have_info f \<and> rf_info_event_id f = dd_event_id d;
          info = rf_info f;
          m0 = if known then manifest_default\<lparr>mf_video := ev_video info, mf_audio_tracks := ev_audio_tracks info\<rparr> else manifest_default;
          live_tracks = mf_audio_tracks (dd_manifest d);
          m1 = if live_tracks \<noteq> [] then m0\<lparr>mf_audio_tracks := live_tracks\<rparr> else m0
      in \<lparr>sh_room = dd_room d, sh_event_id = dd_event_id d,
          sh_manifest = m1\<lparr>mf_latest_seq := dd_latest_seq d, mf_first_available_seq := dd_first_available_seq d,
                           mf_event_id := dd_event_id d\<rparr>,
          sh_have_event_info = known, sh_latest_seq = dd_latest_seq d, sh_first_available_seq = dd_first_available_seq d,
          sh_segment_duration_s = (if known \<and> ev_segment_duration_s info > 1 / 10 then ev_segment_duration_s info else 6),
          sh_last_error = dd_last_error d, sh_downloaded = ds_downloaded (dd_stats d),
          sh_checksum_failures = ds_checksum_failures (dd_stats d)\<rparr>)"


section \<open>Finished events\<close>

record event_part =
  ep_key :: string
  ep_size :: i64

text \<open>The media of one page of the listing: the initialisation segment, and the segments.\<close>

definition init_parts :: "string \<Rightarrow> list_entry list \<Rightarrow> event_part list" where
  "init_parts pfx es = map (\<lambda>e. \<lparr>ep_key = le_key e, ep_size = le_size e\<rparr>) (filter (\<lambda>e. le_key e = pfx @ ''init.mp4'') es)"

definition segment_parts :: "string \<Rightarrow> list_entry list \<Rightarrow> event_part list" where
  "segment_parts pfx es = map (\<lambda>e. \<lparr>ep_key = le_key e, ep_size = le_size e\<rparr>)
     (filter (\<lambda>e. le_key e \<noteq> pfx @ ''init.mp4'' \<and> take (length (pfx @ ''segments/'')) (le_key e) = pfx @ ''segments/'' \<and>
        length (le_key e) > length (pfx @ ''segments/'')) es)"

partial_function (option) parts_loop ::
    "string \<Rightarrow> (nat \<Rightarrow> list_result) \<Rightarrow> nat \<Rightarrow> event_part list \<Rightarrow> event_part list \<Rightarrow> (string + event_part list \<times> event_part list) option" where
  "parts_loop pfx pages p ini segs =
     (let r = pages p
      in if \<not> lr_success r then Some (Inl ''Could not read that event from storage.'')
         else let ini1 = ini @ init_parts pfx (lr_keys r); segs1 = segs @ segment_parts pfx (lr_keys r)
              in if lr_next_continuation_token r = [] then Some (Inr (ini1, segs1))
                 else parts_loop pfx pages (p + 1) ini1 segs1)"

definition event_parts :: "bool \<Rightarrow> (nat \<Rightarrow> list_result) \<Rightarrow> string \<Rightarrow> (string + event_part list) option" where
  "event_parts cloud pages event_id =
     (if \<not> cloud then Some (Inl ''This relay has no cloud storage configured, and past events need it.'')
      else case parts_loop (event_prefix_for event_id) pages 0 [] [] of
             None \<Rightarrow> None
           | Some (Inl e) \<Rightarrow> Some (Inl e)
           | Some (Inr (ini, segs)) \<Rightarrow>
               if ini = [] then Some (Inl ''That event has no opening data and cannot be downloaded.'')
               else Some (Inr (hd ini # sort_key ep_key segs)))"

fun size_of_parts :: "event_part list \<Rightarrow> i64 \<Rightarrow> i64" where
  "size_of_parts [] acc = acc"
| "size_of_parts (p # ps) acc = (if ep_size p < 0 then - 1 else size_of_parts ps (acc + ep_size p))"

definition event_byte_size :: "bool \<Rightarrow> (nat \<Rightarrow> list_result) \<Rightarrow> string \<Rightarrow> i64 option" where
  "event_byte_size cloud pages event_id =
     (case event_parts cloud pages event_id of
        None \<Rightarrow> None
      | Some (Inl e) \<Rightarrow> Some (- 1)
      | Some (Inr parts) \<Rightarrow> Some (if parts = [] then - 1 else size_of_parts parts 0))"

text \<open>
  The parts handed to the reader one by one: what it was given, whether the call succeeded, and the error. The reader may
  give up at part \<open>n\<close>, which is not an error. A body is the bytes it arrives as.
\<close>

fun stream_loop :: "(body \<Rightarrow> bytes) \<Rightarrow> (string \<Rightarrow> get_result) \<Rightarrow> (nat \<Rightarrow> bool) \<Rightarrow> nat \<Rightarrow> event_part list \<Rightarrow> bytes \<times> bool \<times> string" where
  "stream_loop raw get sink n [] = ([], True, [])"
| "stream_loop raw get sink n (p # ps) =
     (let obj = get (ep_key p)
      in if \<not> gr_success obj then ([], False, ''The event could not be read all the way through.'')
         else if \<not> sink n then (raw (gr_body obj), True, [])
         else let (more, r) = stream_loop raw get sink (n + 1) ps in (raw (gr_body obj) @ more, r))"

definition stream_parts ::
    "(body \<Rightarrow> bytes) \<Rightarrow> bool \<Rightarrow> (string \<Rightarrow> get_result) \<Rightarrow> (nat \<Rightarrow> bool) \<Rightarrow> event_part list \<Rightarrow> bytes \<times> bool \<times> string" where
  "stream_parts raw cloud get sink parts =
     (if \<not> cloud then ([], False, ''This relay has no cloud storage configured, and past events need it.'')
      else stream_loop raw get sink 0 parts)"

text \<open>The cues of a finished event, merged as the decoder merges those of a live one.\<close>

definition event_cues ::
    "bool \<Rightarrow> get_result \<Rightarrow> list_result \<Rightarrow> (string \<Rightarrow> get_result) \<Rightarrow> string + marker list" where
  "event_cues cloud markers_get ls get =
     (if \<not> cloud
      then Inl (''a cue list needs cloud storage '' @ em_dash @ '' a LAN hub only holds the event in progress'')
      else let own = (if gr_success markers_get
                      then (case parsed marker_list_from_json (gr_body markers_get) of Some ml \<Rightarrow> [ml] | None \<Rightarrow> []) else []);
               others = (if lr_success ls
                         then List.map_filter (\<lambda>e. if cue_key_listed (le_key e) \<and> gr_success (get (le_key e))
                                then parsed marker_list_from_json (gr_body (get (le_key e))) else None) (lr_keys ls) else []);
               parts = own @ others
           in Inr (if parts = [] then [] else ml_markers (merge_markers parts)))"


section \<open>Names in the order they play\<close>

lemma foldl_digits: "foldl (\<lambda>a c. 10 * a + digit_val c) v s = v * 10 ^ length s + read_nat s"
proof (induction s arbitrary: v)
  case (Cons c s)
  have "read_nat (c # s) = foldl (\<lambda>a c. 10 * a + digit_val c) (digit_val c) s" by (simp add: read_nat_def)
  then show ?case using Cons [of "10 * v + digit_val c"] Cons [of "digit_val c"] by (simp add: algebra_simps)
qed (simp add: read_nat_def)

lemma read_nat_Cons: "read_nat (c # s) = digit_val c * 10 ^ length s + read_nat s"
  using foldl_digits [of "digit_val c" s] by (simp add: read_nat_def)

lemma read_nat_less: "list_all is_digit s \<Longrightarrow> read_nat s < 10 ^ length s"
proof (induction s)
  case (Cons c s)
  then have "digit_val c \<le> 9" using digit_val_less [of c] by simp
  then have "digit_val c * 10 ^ length s \<le> 9 * 10 ^ length s" by (rule mult_right_mono) simp
  moreover have "read_nat s < 10 ^ length s" using Cons by simp
  ultimately have "digit_val c * 10 ^ length s + read_nat s < 9 * 10 ^ length s + 10 ^ length s" by (rule add_le_less_mono)
  then show ?case by (simp add: read_nat_Cons)
qed (simp add: read_nat_def)

lemma digit_val_mono: "is_digit c \<Longrightarrow> is_digit d \<Longrightarrow> c < d \<longleftrightarrow> digit_val c < digit_val d"
  by (auto simp: is_digit_code digit_val_def less_char_def)

lemma digit_val_inj: "is_digit c \<Longrightarrow> is_digit d \<Longrightarrow> digit_val c = digit_val d \<Longrightarrow> c = d"
  using digit_val_mono [of c d] digit_val_mono [of d c] by (metis linorder_neqE less_irrefl)

text \<open>Decimal texts of one length compare as the numbers they stand for.\<close>

lemma digits_less:
  "list_all is_digit s \<Longrightarrow> list_all is_digit t \<Longrightarrow> length s = length t \<Longrightarrow> s < t \<longleftrightarrow> read_nat s < read_nat t"
proof (induction s arbitrary: t)
  case (Cons c s)
  then obtain d u where t: "t = d # u" "length u = length s" by (cases t) auto
  let ?k = "10 ^ length s :: nat"
  have r: "read_nat s < ?k" "read_nat u < ?k" using read_nat_less [of s] read_nat_less [of u] Cons.prems t by simp_all
  have dc: "is_digit c" "is_digit d" using Cons.prems t by simp_all
  show ?case
  proof (cases "digit_val c" "digit_val d" rule: linorder_cases)
    case less
    then have "(digit_val c + 1) * ?k \<le> digit_val d * ?k" by (intro mult_right_mono) simp_all
    then have "read_nat (c # s) < read_nat t" using r t(2) unfolding read_nat_Cons t(1) by (simp add: algebra_simps)
    then show ?thesis using less digit_val_mono [OF dc] t(1) by (simp add: Cons_less_Cons)
  next
    case equal
    then show ?thesis using Cons digit_val_inj [OF dc] t by (simp add: read_nat_Cons Cons_less_Cons)
  next
    case greater
    then have "(digit_val d + 1) * ?k \<le> digit_val c * ?k" by (intro mult_right_mono) simp_all
    then have "read_nat t < read_nat (c # s)" using r t(2) unfolding read_nat_Cons t(1) by (simp add: algebra_simps)
    then show ?thesis using greater digit_val_mono [OF dc] digit_val_mono [OF dc(2,1)] t(1) by (auto simp: Cons_less_Cons)
  qed
qed simp

lemma append_less: "(p @ s :: string) < p @ t \<longleftrightarrow> s < t"
  by (induction p) (simp_all add: Cons_less_Cons)

lemma less_append_same_length: "length s = length t \<Longrightarrow> s < t \<Longrightarrow> (s @ a :: string) < t @ b"
proof (induction s arbitrary: t)
  case (Cons c s)
  then show ?case by (cases t) (auto simp: Cons_less_Cons)
qed simp

lemma pad8_digits: "list_all is_digit (pad8 (nat_str n))"
  using nat_str_digits [of _ n] by (auto simp: pad8_def list_all_iff is_digit_code)

lemma segment_key_less:
  assumes "a < b" "b < 10 ^ 8"
  shows "segment_key_for ev a < segment_key_for ev b"
proof -
  have "pad8 (nat_str a) < pad8 (nat_str b)"
    using assms digits_less [OF pad8_digits pad8_digits, of a b] by (simp add: pad8_length)
  then show ?thesis using assms seq_name_eq [of a] seq_name_eq [of b] unfolding segment_key_for_def append_less
    by (intro less_append_same_length) (simp_all add: pad8_length)
qed


section \<open>A download\<close>

text \<open>The listing as a whole, when page \<open>n\<close> is its last.\<close>

definition listed_entries :: "(nat \<Rightarrow> list_result) \<Rightarrow> nat \<Rightarrow> list_entry list" where
  "listed_entries pages n = concat (map (\<lambda>q. lr_keys (pages q)) [0 ..< n + 1])"

definition ends_at :: "(nat \<Rightarrow> list_result) \<Rightarrow> nat \<Rightarrow> bool" where
  "ends_at pages n = ((\<forall>q<n. lr_success (pages q) \<and> lr_next_continuation_token (pages q) \<noteq> []) \<and>
     lr_success (pages n) \<and> lr_next_continuation_token (pages n) = [])"

lemma parts_append:
  "init_parts pfx (xs @ ys) = init_parts pfx xs @ init_parts pfx ys"
  "segment_parts pfx (xs @ ys) = segment_parts pfx xs @ segment_parts pfx ys"
  by (simp_all add: init_parts_def segment_parts_def)

lemma parts_loop_ends:
  assumes "ends_at pages n" "p \<le> n"
  shows "parts_loop pfx pages p ini segs =
    Some (Inr (ini @ init_parts pfx (concat (map (\<lambda>q. lr_keys (pages q)) [p ..< n + 1])),
      segs @ segment_parts pfx (concat (map (\<lambda>q. lr_keys (pages q)) [p ..< n + 1]))))"
  using assms(2)
proof (induction "n - p" arbitrary: p ini segs)
  case 0
  then have "p = n" by simp
  then show ?case using assms(1) by (subst parts_loop.simps) (simp add: ends_at_def Let_def)
next
  case (Suc k)
  then have p: "p < n" "k = n - (p + 1)" "p + 1 \<le> n" by auto
  have "[p ..< n + 1] = p # [p + 1 ..< n + 1]" using p(1) by (simp add: upt_conv_Cons)
  then show ?case using Suc.hyps(1) [OF p(2,3)] assms(1) p(1)
    by (subst parts_loop.simps) (simp add: ends_at_def Let_def parts_append)
qed

lemma stream_loop_all:
  assumes "\<forall>p\<in>set ps. gr_success (get (ep_key p)) \<and> raw (gr_body (get (ep_key p))) = obj (ep_key p)" "\<forall>k. sink k"
  shows "stream_loop raw get sink n ps = (concat (map obj (map ep_key ps)), True, [])"
  using assms by (induction ps arbitrary: n) (simp_all add: Let_def)

lemma size_of_parts_all:
  "\<forall>p\<in>set ps. ep_size p = int (length (obj (ep_key p))) \<Longrightarrow> size_of_parts ps a = a + int (length (concat (map obj (map ep_key ps))))"
  by (induction ps arbitrary: a) simp_all

lemma sort_key_keys:
  fixes f :: "'a \<Rightarrow> 'k :: linorder"
  assumes "mset (map f xs) = mset ks" "sorted ks"
  shows "map f (sort_key f xs) = ks"
proof -
  have "sort (map f xs) = map f (sort_key f xs)" by (rule properties_for_sort) (simp_all add: sorted_sort_key)
  moreover have "sort (map f xs) = ks" using assms by (intro properties_for_sort) simp_all
  ultimately show ?thesis by simp
qed

lemma segment_keys_sorted:
  "sorted_wrt (<) seqs \<Longrightarrow> \<forall>s\<in>set seqs. s < 10 ^ 8 \<Longrightarrow> sorted (map (segment_key_for ev) seqs)"
  by (induction seqs) (auto intro!: less_imp_le segment_key_less)

lemma parts_from_listing:
  assumes "p \<in> set (init_parts pfx es) \<union> set (segment_parts pfx es)" "\<forall>e\<in>set es. le_size e = int (length (obj (le_key e)))"
  shows "ep_key p \<in> le_key ` set es" "ep_size p = int (length (obj (ep_key p)))"
  using assms by (auto simp: init_parts_def segment_parts_def) (metis image_eqI)

text \<open>
  C21: A finished event downloads as it was promised. When the listing is complete and the store returns what it lists,
  the download is the initialisation segment followed by every segment once, in the order they play whatever order they
  were listed in, nothing else of the event, and exactly as many bytes as were announced.
\<close>

theorem download_as_promised:
  assumes "ends_at pages n" "\<forall>e\<in>set (listed_entries pages n). le_size e = int (length (obj (le_key e)))"
    "event_prefix_for ev @ ''init.mp4'' \<in> le_key ` set (listed_entries pages n)"
    "mset (map ep_key (segment_parts (event_prefix_for ev) (listed_entries pages n))) = mset (map (segment_key_for ev) seqs)"
    "sorted_wrt (<) seqs" "\<forall>s\<in>set seqs. s < 10 ^ 8"
    "\<forall>k\<in>le_key ` set (listed_entries pages n). gr_success (get k) \<and> raw (gr_body (get k)) = obj k" "\<forall>k. sink k"
  shows "\<exists>parts. event_parts True pages ev = Some (Inr parts) \<and>
    stream_parts raw True get sink parts = (obj (event_prefix_for ev @ ''init.mp4'') @ concat (map (\<lambda>s. obj (segment_key_for ev s)) seqs), True, []) \<and>
    event_byte_size True pages ev = Some (int (length (fst (stream_parts raw True get sink parts))))"
proof -
  let ?es = "listed_entries pages n" and ?pfx = "event_prefix_for ev"
  let ?ini = "init_parts ?pfx ?es" and ?segs = "segment_parts ?pfx ?es"
  let ?parts = "hd ?ini # sort_key ep_key ?segs"
  have l: "parts_loop ?pfx pages 0 [] [] = Some (Inr (?ini, ?segs))"
    using parts_loop_ends [OF assms(1), of 0 ?pfx "[]" "[]"] by (simp add: listed_entries_def del: upt_Suc)
  have ne: "?ini \<noteq> []" using assms(3) by (auto simp: init_parts_def filter_empty_conv)
  then have h: "hd ?ini \<in> set ?ini" "ep_key (hd ?ini) = ?pfx @ ''init.mp4''"
    using hd_in_set [OF ne] by (auto simp: init_parts_def)
  have e: "event_parts True pages ev = Some (Inr ?parts)" using l ne by (simp add: event_parts_def)
  have src: "ep_key p \<in> le_key ` set ?es" "ep_size p = int (length (obj (ep_key p)))" if "p \<in> set ?parts" for p
    using that h(1) parts_from_listing [OF _ assms(2), of p ?pfx] by auto
  have keys: "map ep_key ?parts = (?pfx @ ''init.mp4'') # map (segment_key_for ev) seqs"
    using sort_key_keys [OF assms(4) segment_keys_sorted [OF assms(5,6)]] h(2) by simp
  have s: "stream_parts raw True get sink ?parts = (concat (map obj (map ep_key ?parts)), True, [])"
  proof -
    have "\<forall>p\<in>set ?parts. gr_success (get (ep_key p)) \<and> raw (gr_body (get (ep_key p))) = obj (ep_key p)" using src(1) assms(7) by blast
    from stream_loop_all [OF this assms(8)] show ?thesis unfolding stream_parts_def by (simp only: not_True_eq_False if_False)
  qed
  have "size_of_parts ?parts 0 = int (length (concat (map obj (map ep_key ?parts))))"
    using size_of_parts_all [of ?parts obj 0] src(2) by simp
  then have b: "event_byte_size True pages ev = Some (int (length (fst (stream_parts raw True get sink ?parts))))"
    using e s by (simp add: event_byte_size_def del: size_of_parts.simps)
  have "concat (map obj (map ep_key ?parts)) = obj (?pfx @ ''init.mp4'') @ concat (map (\<lambda>s. obj (segment_key_for ev s)) seqs)"
    unfolding keys by (simp add: comp_def)
  then show ?thesis using e s b by auto
qed

definition ex_objects :: "string \<Rightarrow> bytes" where
  "ex_objects k = (if k = ''events/E/init.mp4'' then [9] else if k = segment_key_for ''E'' 3 then [3, 3] else [2])"

definition ex_pages :: "nat \<Rightarrow> list_result" where
  "ex_pages q = \<lparr>lr_success = True, lr_http_status = 200, lr_retryable = False, lr_error = [], lr_common_prefixes = [],
     lr_keys = map (\<lambda>k. \<lparr>le_key = k, le_size = int (length (ex_objects k)), le_last_modified = []\<rparr>)
       (if q = 0 then [segment_key_for ''E'' 3, ''events/E/manifest.json''] else [segment_key_for ''E'' 2, ''events/E/init.mp4'']),
     lr_truncated = (q = 0), lr_next_continuation_token = (if q = 0 then ''t'' else [])\<rparr>"

definition ex_media_get :: "string \<Rightarrow> get_result" where
  "ex_media_get k = get_result_default\<lparr>gr_success := True, gr_body := Bytes (ex_objects k)\<rparr>"

definition ex_raw :: "body \<Rightarrow> bytes" where
  "ex_raw b = (case b of Bytes x \<Rightarrow> x | Doc j \<Rightarrow> [])"

theorem download_as_promised_witness:
  "\<exists>parts. event_parts True ex_pages ''E'' = Some (Inr parts) \<and>
    stream_parts ex_raw True ex_media_get (\<lambda>_. True) parts = ([9, 2, 3, 3], True, []) \<and>
    event_byte_size True ex_pages ''E'' = Some (int (length (fst (stream_parts ex_raw True ex_media_get (\<lambda>_. True) parts))))"
proof -
  have keys: "segment_key_for ''E'' 2 = ''events/E/segments/00000002.m4s''" "segment_key_for ''E'' 3 = ''events/E/segments/00000003.m4s''"
    by (simp_all add: segment_key_for_def event_prefix_for_def seq_name_eq pad8_def nat_str.simps) (simp_all add: numeral_eq_Suc)
  have es: "listed_entries ex_pages 1 = map (\<lambda>k. \<lparr>le_key = k, le_size = int (length (ex_objects k)), le_last_modified = []\<rparr>)
      [segment_key_for ''E'' 3, ''events/E/manifest.json'', segment_key_for ''E'' 2, ''events/E/init.mp4'']"
    by (simp add: listed_entries_def ex_pages_def)
  have e: "ends_at ex_pages 1" by (simp add: ends_at_def ex_pages_def)
  have "map ep_key (segment_parts (event_prefix_for ''E'') (listed_entries ex_pages 1)) = [segment_key_for ''E'' 3, segment_key_for ''E'' 2]"
    unfolding es by (simp add: segment_parts_def keys event_prefix_for_def)
  then have m: "mset (map ep_key (segment_parts (event_prefix_for ''E'') (listed_entries ex_pages 1))) = mset (map (segment_key_for ''E'') [2, 3])"
    by simp
  have v: "obj = ex_objects \<Longrightarrow> obj ''events/E/init.mp4'' @ concat (map (\<lambda>s. obj (segment_key_for ''E'' s)) [2, 3]) = [9, 2, 3, 3]" for obj
    by (simp add: ex_objects_def keys)
  have s: "\<forall>e\<in>set (listed_entries ex_pages 1). le_size e = int (length (ex_objects (le_key e)))"
    "event_prefix_for ''E'' @ ''init.mp4'' \<in> le_key ` set (listed_entries ex_pages 1)"
    unfolding es by (simp_all add: event_prefix_for_def)
  show ?thesis
    using download_as_promised [OF e s m, of ex_media_get ex_raw "\<lambda>_. True"] v [OF refl]
    by (simp add: ex_media_get_def ex_raw_def get_result_default_def event_prefix_for_def)
qed

section \<open>The interface to the sessions\<close>

text \<open>
  What a destination relies on: a segment that is said to be there can be read. The feed promises it as long as the index
  of its cache and the folder agree, which every operation of the cache keeps.
\<close>

locale segment_feed =
  fixes feed_ok :: "'f \<Rightarrow> bool" and has_segment :: "'f \<Rightarrow> u64 \<Rightarrow> bool" and load_segment :: "'f \<Rightarrow> u64 \<Rightarrow> bytes option"
  assumes has_loads: "feed_ok f \<Longrightarrow> has_segment f q \<Longrightarrow> load_segment f q \<noteq> None"
begin

lemma loads_media:
  "feed_ok f \<Longrightarrow> (\<And>b. load_segment f q = Some b \<Longrightarrow> b = media q) \<Longrightarrow> has_segment f q \<Longrightarrow> load_segment f q = Some (media q)"
  using has_loads [of f q] by auto

end

definition feeder_ok :: "room_feeder \<Rightarrow> bool" where
  "feeder_ok f = cache_ok (dd_cache (rf_session f))"

interpretation room_feed: segment_feed feeder_ok feeder_has_segment feeder_load_segment
  by unfold_locales (auto simp: feeder_ok_def feeder_has_segment_def feeder_load_segment_def cache_ok_def cache_has_def cache_load_def
      split: option.splits)

text \<open>Parking moves the download window to the lowest reader whenever storage holds its segment.\<close>

lemma park_window_head:
  assumes "rf_reader_set f" "dd_first_available_seq (rf_session f) \<le> rf_lowest_reader f" "rf_lowest_reader f \<le> dd_latest_seq (rf_session f)"
  shows "dd_head (rf_session (park_window f)) = rf_lowest_reader f"
  using assms by (simp add: park_window_def seek_def move_head_def Let_def)

end
