(* ===== verification/Relay_Session.thy ===== *)
theory Relay_Session
  imports Relay_Machine Send_Path Room_Feeder
begin

text \<open>
  One destination, supervised (\<^verbatim>\<open>relay/src/relay_session.{h,cpp}\<close>): the loop that asks the machine once per pass, starts
  and stops the child it decides on, and moves what is to be sent through the child's pipe. The child
  (\<^verbatim>\<open>src/core/ffmpeg_process.{h,cpp}\<close>) is what its pipe has taken and whether it still runs; when it exits, whether it
  starts, and how much the pipe takes at each write are inputs of a pass, as are the clock and the room.

  The lemmas say that a running child has been given, byte for byte, a beginning of the initialisation segment followed by
  consecutive segments, over every history of passes, edits and switches; that the machine's precondition on children holds
  in all of them; and which states are not reached that the code means to be.
\<close>

section \<open>The child\<close>

record relay_child =
  ch_args :: "string list"
  ch_written :: bytes
  ch_open :: bool
  ch_alive :: bool
  ch_clean :: bool
  ch_error_line :: string

definition child_new :: "string list \<Rightarrow> relay_child" where
  "child_new args = \<lparr>ch_args = args, ch_written = [], ch_open = True, ch_alive = True, ch_clean = False, ch_error_line = []\<rparr>"

text \<open>The answer of \<^verbatim>\<open>::write\<close>: \<open>None\<close> for a broken pipe, otherwise the room there was, nothing when it was full.\<close>

definition write_some :: "bytes \<Rightarrow> nat option \<Rightarrow> relay_child \<Rightarrow> int \<times> relay_child" where
  "write_some data ans c =
     (if \<not> ch_open c \<or> data = [] then (- 1, c)
      else case ans of
             None \<Rightarrow> (- 1, c)
           | Some k \<Rightarrow> (int (min k (length data)), c\<lparr>ch_written := ch_written c @ take k data\<rparr>))"

definition close_input :: "relay_child \<Rightarrow> relay_child" where
  "close_input c = c\<lparr>ch_open := False\<rparr>"

definition error_markers :: "string list" where
  "error_markers = [''Connection refused'', ''Broken pipe'', ''Server error'', ''Operation not permitted'', ''Invalid data'',
     ''No such file'', ''Unable to open'', ''Failed to update header'', ''I/O error'', ''Connection timed out'', ''Error'',
     ''error'', ''not found'']"

definition looks_like_an_error :: "string \<Rightarrow> bool" where
  "looks_like_an_error line =
     (if find_sub ''Failed to update header'' line \<noteq> None then False
      else list_ex (\<lambda>m. find_sub m line \<noteq> None) error_markers)"


section \<open>The session\<close>

record relay_session =
  rx_dest :: destination
  rx_from_beginning :: bool
  rx_start_seq :: u64
  rx_end_seq :: u64
  rx_machine :: relay_machine
  rx_child :: "relay_child option"
  rx_enabled :: bool
  rx_reconfigured :: bool
  rx_pending :: bytes
  rx_offset :: nat
  rx_last_accept_ms :: i64
  rx_ever_accepted :: bool
  rx_detail :: string
  rx_error :: string
  rx_audio_label :: string
  rx_started_ms :: i64
  rx_sent_bytes :: i64
  rx_bitrate_kbps :: double

definition relay_session_new :: "destination \<Rightarrow> bool \<Rightarrow> u64 \<Rightarrow> u64 \<Rightarrow> relay_session" where
  "relay_session_new dest from_beginning start_seq end_seq =
     \<lparr>rx_dest = dest, rx_from_beginning = from_beginning, rx_start_seq = start_seq, rx_end_seq = end_seq,
      rx_machine = relay_machine_init, rx_child = None, rx_enabled = de_enabled dest, rx_reconfigured = False, rx_pending = [],
      rx_offset = 0, rx_last_accept_ms = 0, rx_ever_accepted = False, rx_detail = [], rx_error = [], rx_audio_label = [],
      rx_started_ms = 0, rx_sent_bytes = 0, rx_bitrate_kbps = 0\<rparr>"

definition relay_set_enabled :: "bool \<Rightarrow> relay_session \<Rightarrow> relay_session" where
  "relay_set_enabled on s = s\<lparr>rx_enabled := on, rx_dest := (rx_dest s)\<lparr>de_enabled := on\<rparr>\<rparr>"

definition relay_update :: "destination \<Rightarrow> relay_session \<Rightarrow> relay_session" where
  "relay_update d s = s\<lparr>rx_dest := d\<lparr>de_id := de_id (rx_dest s)\<rparr>, rx_enabled := de_enabled d,
     rx_reconfigured := (if affects_stream (rx_dest s) d then True else rx_reconfigured s)\<rparr>"

definition relay_stop_thread :: "relay_session \<Rightarrow> relay_session" where
  "relay_stop_thread s = s\<lparr>rx_child := None\<rparr>"

text \<open>What a pass of the loop meets: the clock, the room, the child's end, and the answers of its pipe.\<close>

record relay_pass =
  ps_now_ms :: i64
  ps_feeder :: room_feeder
  ps_exit :: "(bool \<times> string) option"
  ps_start_error :: "string option"
  ps_write_ms :: i64
  ps_drain :: "nat option list"
  ps_write :: "nat option"

definition kDefaultDelayS :: int where "kDefaultDelayS = 180"
definition kGraceS :: int where "kGraceS = 45"
definition kDrainQuietMs :: int where "kDrainQuietMs = 2000"

definition pump_writes :: "i64 \<Rightarrow> nat option \<Rightarrow> relay_session \<Rightarrow> relay_session" where
  "pump_writes now ans s =
     (case rx_child s of
        None \<Rightarrow> s
      | Some c \<Rightarrow>
          if rx_offset s \<ge> length (rx_pending s) then s
          else let (n, c1) = write_some (drop (rx_offset s) (rx_pending s)) ans c;
                   s1 = s\<lparr>rx_child := Some c1\<rparr>
               in if n < 0 then s1
                  else let off = rx_offset s + nat n;
                           s2 = if n > 0 then s1\<lparr>rx_last_accept_ms := now, rx_ever_accepted := True, rx_sent_bytes := rx_sent_bytes s + n\<rparr> else s1
                       in if off \<ge> length (rx_pending s) then s2\<lparr>rx_pending := [], rx_offset := 0\<rparr> else s2\<lparr>rx_offset := off\<rparr>)"

definition queue_init :: "room_feeder \<Rightarrow> relay_session \<Rightarrow> relay_session" where
  "queue_init f s = (case feeder_load_init f of None \<Rightarrow> s | Some b \<Rightarrow> s\<lparr>rx_pending := rx_pending s @ b\<rparr>)"

definition queue_segment :: "room_feeder \<Rightarrow> u64 \<Rightarrow> relay_session \<Rightarrow> relay_session" where
  "queue_segment f seq s = (case feeder_load_segment f seq of None \<Rightarrow> s | Some b \<Rightarrow> s\<lparr>rx_pending := rx_pending s @ b\<rparr>)"

text \<open>The end of the child, as far as \<^verbatim>\<open>alive()\<close> finds it.\<close>

definition reap :: "relay_pass \<Rightarrow> relay_session \<Rightarrow> relay_session" where
  "reap p s =
     (case (rx_child s, ps_exit p) of
        (Some c, Some (clean, line)) \<Rightarrow>
          if ch_alive c then s\<lparr>rx_child := Some (c\<lparr>ch_alive := False, ch_clean := clean, ch_error_line := line\<rparr>)\<rparr> else s
      | _ \<Rightarrow> s)"

definition child_is_alive :: "relay_session \<Rightarrow> bool" where
  "child_is_alive s = (case rx_child s of None \<Rightarrow> False | Some c \<Rightarrow> ch_alive c)"

definition session_plan :: "relay_pass \<Rightarrow> relay_session \<Rightarrow> stream_plan" where
  "session_plan p s =
     (let snap = snapshot (ps_feeder p)
      in if sh_have_event_info snap then plan_stream (sh_manifest snap) (rx_dest s) ''pipe:0''
         else stream_plan_default\<lparr>sp_problem := ''Waiting to hear what the main site is sending.''\<rparr>)"

definition session_input :: "relay_pass \<Rightarrow> relay_session \<Rightarrow> relay_input" where
  "session_input p s =
     (let snap = snapshot (ps_feeder p); plan = session_plan p s; dest = rx_dest s;
          backlog = rx_offset s < length (rx_pending s)
      in \<lparr>ri_now_ms = ps_now_ms p, ri_operator_wants_running = rx_enabled s, ri_room = sh_room snap,
          ri_latest_seq = sh_latest_seq snap, ri_first_available_seq = sh_first_available_seq snap,
          ri_segment_duration_s = sh_segment_duration_s snap, ri_plan_ok = sp_ok plan,
          ri_plan_problem = sp_problem plan @ (if sp_remedy plan = [] then [] else '' '' @ sp_remedy plan),
          ri_child_alive = child_is_alive s,
          ri_output_accepting = (\<not> backlog \<or> ps_now_ms p - rx_last_accept_ms s < kDrainQuietMs),
          ri_output_ever_accepted = rx_ever_accepted s, ri_awaits_receiver = is_listener dest,
          ri_next_segment_ready = feeder_has_segment (ps_feeder p) (rl_head (rx_machine s)),
          ri_init_ready = (feeder_load_init (ps_feeder p) \<noteq> None),
          ri_delay_s = (if de_delay_s dest > 0 then de_delay_s dest else kDefaultDelayS),
          ri_from_beginning = rx_from_beginning s, ri_start_seq = rx_start_seq s, ri_end_seq = rx_end_seq s, ri_grace_s = kGraceS\<rparr>)"

definition note_child_error :: "relay_session \<Rightarrow> relay_session" where
  "note_child_error s =
     (case rx_child s of
        None \<Rightarrow> s
      | Some c \<Rightarrow> if \<not> ch_alive c \<and> \<not> ch_clean c
                  then let line = redact (ch_error_line c) (rx_dest s) in if line \<noteq> [] then s\<lparr>rx_error := line\<rparr> else s
                  else s)"

definition drop_child :: "relay_session \<Rightarrow> relay_session" where
  "drop_child s = s\<lparr>rx_child := None, rx_pending := [], rx_offset := 0, rx_ever_accepted := False\<rparr>"

definition start_child :: "relay_pass \<Rightarrow> stream_plan \<Rightarrow> relay_session \<Rightarrow> relay_session" where
  "start_child p plan s =
     (let s = s\<lparr>rx_pending := [], rx_offset := 0, rx_ever_accepted := False, rx_last_accept_ms := ps_now_ms p\<rparr>
      in case ps_start_error p of
           Some err \<Rightarrow> s\<lparr>rx_child := None, rx_error := err\<rparr>
         | None \<Rightarrow> (queue_init (ps_feeder p) (s\<lparr>rx_child := Some (child_new (sp_args plan))\<rparr>))
             \<lparr>rx_started_ms := ps_now_ms p, rx_sent_bytes := 0, rx_detail := sp_summary plan,
              rx_audio_label := sp_audio_label plan, rx_error := []\<rparr>)"

text \<open>
  The bounded drain before the pipe is closed: one write per answer, until nothing is left; the deadline, a stop of the
  thread and the death of the child end the list of answers.
\<close>

fun drain_writes :: "i64 \<Rightarrow> nat option list \<Rightarrow> relay_session \<Rightarrow> relay_session" where
  "drain_writes now [] s = s"
| "drain_writes now (a # as) s =
     (if child_is_alive s \<and> rx_offset s < length (rx_pending s) then drain_writes now as (pump_writes now a s) else s)"

definition finish_input :: "relay_pass \<Rightarrow> relay_session \<Rightarrow> relay_session" where
  "finish_input p s =
     (let s = drain_writes (ps_write_ms p) (ps_drain p) s
      in case rx_child s of None \<Rightarrow> s | Some c \<Rightarrow> s\<lparr>rx_child := Some (close_input c)\<rparr>)"

definition act :: "relay_pass \<Rightarrow> stream_plan \<Rightarrow> relay_decision \<Rightarrow> relay_session \<Rightarrow> relay_session" where
  "act p plan d s =
     (case rd_action d of
        A_Spawn \<Rightarrow> start_child p plan s
      | A_FeedSegment \<Rightarrow> queue_segment (ps_feeder p) (rd_seq d) s
      | A_CloseInput \<Rightarrow> finish_input p s
      | A_Kill \<Rightarrow> drop_child s
      | A_None \<Rightarrow> s)"

definition collect_dead :: "i64 \<Rightarrow> relay_session \<Rightarrow> relay_session" where
  "collect_dead t s =
     (if rx_child s \<noteq> None \<and> \<not> child_is_alive s \<and> rl_state (rx_machine s) = Relay_Reconnecting
      then s\<lparr>rx_machine := note_child_exited t False (rx_machine s), rx_child := None\<rparr> else s)"

definition measure_rate :: "i64 \<Rightarrow> relay_session \<Rightarrow> relay_session" where
  "measure_rate t s =
     (let span = t - rx_started_ms s
      in if rx_started_ms s > 0 \<and> span > 1000
         then s\<lparr>rx_bitrate_kbps := real_of_int (rx_sent_bytes s) * 8 / real_of_int span\<rparr> else s)"

text \<open>One pass of \<^verbatim>\<open>run\<close>.\<close>

definition session_pass :: "relay_pass \<Rightarrow> relay_session \<Rightarrow> relay_session" where
  "session_pass p s0 =
     (let s1 = reap p s0; plan = session_plan p s1; i = session_input p s1; s2 = note_child_error s1
      in if rx_reconfigured s2
         then (drop_child s2)\<lparr>rx_reconfigured := False, rx_machine := reconfigured (ps_now_ms p) (rx_machine s2)\<rparr>
         else let (d, m) = relay_step i (rx_machine s2);
                  s3 = act p plan d (s2\<lparr>rx_machine := m\<rparr>);
                  s4 = collect_dead (ps_now_ms p) s3
              in measure_rate (ps_now_ms p) (pump_writes (ps_write_ms p) (ps_write p) s4))"

record relay_status =
  st_id :: i64
  st_name :: string
  st_state :: string
  st_state_text :: string
  st_detail :: string
  st_error :: string
  st_enabled :: bool
  st_live :: bool
  st_uptime_s :: i64
  st_behind_live_s :: double
  st_bitrate_kbps :: double
  st_restarts :: int
  st_sent_bytes :: i64
  st_audio_label :: string

definition relay_session_status :: "i64 \<Rightarrow> room_feeder \<Rightarrow> relay_session \<Rightarrow> relay_status" where
  "relay_session_status now f s =
     (let snap = snapshot f; m = rx_machine s; live = relay_state_is_sending (rl_state m);
          i = relay_input_init\<lparr>ri_latest_seq := sh_latest_seq snap, ri_segment_duration_s := sh_segment_duration_s snap\<rparr>
      in \<lparr>st_id = de_id (rx_dest s), st_name = de_name (rx_dest s), st_state = relay_state_to_string (rl_state m),
          st_state_text = describe (rl_state m), st_detail = rx_detail s,
          st_error = (if rl_last_error m \<noteq> [] then rl_last_error m else rx_error s), st_enabled = rx_enabled s, st_live = live,
          st_uptime_s = (if live \<and> rx_started_ms s > 0 then (now - rx_started_ms s) sdiv 1000 else 0),
          st_behind_live_s = relay_behind_live_s i m, st_bitrate_kbps = rx_bitrate_kbps s, st_restarts = rl_restarts m,
          st_sent_bytes = rx_sent_bytes s, st_audio_label = rx_audio_label s\<rparr>)"


section \<open>What a running child has been given\<close>

text \<open>What was and will be written to the child, in order.\<close>

definition flow :: "relay_child \<Rightarrow> relay_session \<Rightarrow> bytes" where
  "flow c s = ch_written c @ drop (rx_offset s) (rx_pending s)"

lemma write_some_flow:
  assumes "write_some data ans c = (n, c1)"
  shows "n = - 1 \<and> c1 = c \<or> (\<exists>k. ans = Some k \<and> n = int (min k (length data)) \<and> ch_open c \<and> data \<noteq> [] \<and>
    c1 = c\<lparr>ch_written := ch_written c @ take k data\<rparr>)"
  using assms by (auto simp: write_some_def split: if_splits option.splits)

lemma pump_writes_machine [simp]: "rx_machine (pump_writes t a s) = rx_machine s"
  by (simp add: pump_writes_def Let_def split: option.split prod.split)

lemma pump_writes_alive [simp]: "child_is_alive (pump_writes t a s) = child_is_alive s"
proof (cases "rx_child s")
  case (Some c)
  obtain n c1 where w: "write_some (drop (rx_offset s) (rx_pending s)) a c = (n, c1)" by fastforce
  have "ch_alive c1 = ch_alive c" using write_some_flow [OF w] by auto
  then show ?thesis using Some w by (simp add: pump_writes_def child_is_alive_def Let_def)
qed (simp add: pump_writes_def)

lemma pump_writes_accepted: "rx_ever_accepted s \<Longrightarrow> rx_ever_accepted (pump_writes t a s)"
  by (auto simp: pump_writes_def Let_def split: option.split prod.split)

lemma pump_writes_flow:
  assumes "rx_child s = Some c"
  shows "\<exists>c'. rx_child (pump_writes t a s) = Some c' \<and> flow c' (pump_writes t a s) = flow c s"
proof (cases "rx_offset s < length (rx_pending s)")
  case True
  obtain n c1 where w: "write_some (drop (rx_offset s) (rx_pending s)) a c = (n, c1)" by fastforce
  consider "n = - 1" "c1 = c" | k where "n = int (min k (length (rx_pending s) - rx_offset s))"
      "c1 = c\<lparr>ch_written := ch_written c @ take k (drop (rx_offset s) (rx_pending s))\<rparr>"
    using write_some_flow [OF w] by (auto simp: min_def)
  then show ?thesis
  proof cases
    case 1
    then show ?thesis using assms True w by (simp add: pump_writes_def flow_def Let_def)
  next
    case 2
    let ?r = "drop (rx_offset s) (rx_pending s)"
    have l: "rx_offset s + nat n = rx_offset s + min k (length ?r)" using 2(1) by simp
    have "take k ?r @ drop (rx_offset s + nat n) (rx_pending s) = ?r"
      unfolding l by (cases "k \<le> length ?r") (simp_all add: add.commute [of "rx_offset s"] flip: drop_drop)
    then show ?thesis using assms True w 2 by (auto simp: pump_writes_def flow_def Let_def)
  qed
qed (use assms in \<open>simp add: pump_writes_def flow_def\<close>)

lemma pump_writes_first:
  assumes "rx_child s = Some c" "ch_open c" "rx_offset s < length (rx_pending s)" "0 < k"
  shows "rx_ever_accepted (pump_writes t (Some k) s)"
  using assms by (simp add: pump_writes_def write_some_def Let_def)

lemma drain_writes_flow:
  assumes "rx_child s = Some c"
  shows "\<exists>c'. rx_child (drain_writes t as s) = Some c' \<and> flow c' (drain_writes t as s) = flow c s"
  using assms
proof (induction "as" arbitrary: s c)
  case (Cons a "as")
  obtain c' where c': "rx_child (pump_writes t a s) = Some c'" "flow c' (pump_writes t a s) = flow c s"
    using pump_writes_flow [OF Cons.prems] by blast
  show ?case using Cons.IH [OF c'(1)] c'(2) Cons.prems by auto
qed simp

lemma drain_writes_machine [simp]: "rx_machine (drain_writes t as s) = rx_machine s"
  by (induction "as" arbitrary: s) simp_all

lemma drain_writes_alive [simp]: "child_is_alive (drain_writes t as s) = child_is_alive s"
  by (induction "as" arbitrary: s) simp_all

lemma drain_writes_accepted: "rx_ever_accepted s \<Longrightarrow> rx_ever_accepted (drain_writes t as s)"
  by (induction "as" arbitrary: s) (simp_all add: pump_writes_accepted)


section \<open>Histories\<close>

text \<open>
  The room carries one event: whatever the feed reads of a segment is that segment, and its initialisation segment is
  \<open>ini\<close>. The pipe of a child that has just been started is empty, so that the first write to it takes something. The
  sequence numbers stay below the largest one.
\<close>

definition starts_child :: "relay_pass \<Rightarrow> relay_session \<Rightarrow> bool" where
  "starts_child p s = (rd_action (fst (relay_step (session_input p (reap p s)) (rx_machine s))) = A_Spawn)"

definition pass_ok :: "(u64 \<Rightarrow> bytes) \<Rightarrow> bytes \<Rightarrow> relay_pass \<Rightarrow> relay_session \<Rightarrow> bool" where
  "pass_ok media ini p s =
     (feeder_ok (ps_feeder p) \<and> (\<forall>q b. feeder_load_segment (ps_feeder p) q = Some b \<longrightarrow> b = media q) \<and>
      (\<forall>b. feeder_load_init (ps_feeder p) = Some b \<longrightarrow> b = ini) \<and> rl_head (rx_machine s) < u64_max \<and>
      (starts_child p s \<longrightarrow> ps_write p \<noteq> None \<and> ps_write p \<noteq> Some 0))"

inductive relay_reach :: "(u64 \<Rightarrow> bytes) \<Rightarrow> bytes \<Rightarrow> relay_session \<Rightarrow> bool" for media ini where
  created: "relay_reach media ini (relay_session_new dest fb a b)"
| passed: "relay_reach media ini s \<Longrightarrow> pass_ok media ini p s \<Longrightarrow> relay_reach media ini (session_pass p s)"
| switched: "relay_reach media ini s \<Longrightarrow> relay_reach media ini (relay_set_enabled on s)"
| edited: "relay_reach media ini s \<Longrightarrow> relay_reach media ini (relay_update d s)"
| stopped: "relay_reach media ini s \<Longrightarrow> relay_reach media ini (relay_stop_thread s)"

definition sent_by :: "(u64 \<Rightarrow> bytes) \<Rightarrow> bytes \<Rightarrow> relay_machine \<Rightarrow> bytes" where
  "sent_by media ini m = ini @ concat (map media [rl_anchor_seq m ..< rl_head m])"

definition child_inv :: "(u64 \<Rightarrow> bytes) \<Rightarrow> bytes \<Rightarrow> relay_machine \<Rightarrow> relay_session \<Rightarrow> bool" where
  "child_inv media ini m s =
     (child_is_alive s \<longrightarrow> rl_state m \<in> child_states \<and> rx_ever_accepted s \<and> (\<exists>c. rx_child s = Some c \<and> flow c s = sent_by media ini m))"

definition session_ok :: "(u64 \<Rightarrow> bytes) \<Rightarrow> bytes \<Rightarrow> relay_session \<Rightarrow> bool" where
  "session_ok media ini s = (relay_inv (rx_machine s) \<and> rl_state (rx_machine s) \<noteq> Relay_Awaiting \<and> child_inv media ini (rx_machine s) s)"

lemma reap_simps [simp]:
  "rx_machine (reap p s) = rx_machine s" "rx_reconfigured (reap p s) = rx_reconfigured s" "rx_pending (reap p s) = rx_pending s"
  "rx_offset (reap p s) = rx_offset s" "rx_ever_accepted (reap p s) = rx_ever_accepted s" "rx_dest (reap p s) = rx_dest s"
  by (simp_all add: reap_def split: option.split)

lemma reap_idem [simp]: "reap p (reap p s) = reap p s"
  by (auto simp: reap_def split: option.split)

lemma reap_child: "child_is_alive (reap p s) \<Longrightarrow> child_is_alive s \<and> rx_child (reap p s) = rx_child s"
  by (auto simp: reap_def child_is_alive_def split: option.splits if_splits)

lemma reap_ok: "session_ok media ini s \<Longrightarrow> session_ok media ini (reap p s)"
  using reap_child [of p s] by (auto simp: session_ok_def child_inv_def flow_def)

lemma note_child_error_simps [simp]:
  "rx_machine (note_child_error s) = rx_machine s" "rx_reconfigured (note_child_error s) = rx_reconfigured s"
  "rx_child (note_child_error s) = rx_child s" "rx_pending (note_child_error s) = rx_pending s"
  "rx_offset (note_child_error s) = rx_offset s" "rx_ever_accepted (note_child_error s) = rx_ever_accepted s"
  by (simp_all add: note_child_error_def Let_def split: option.split)

lemma note_child_error_alive [simp]: "child_is_alive (note_child_error s) = child_is_alive s"
  by (simp add: child_is_alive_def)

lemma drop_child_inv [simp]: "child_inv media ini m (drop_child s)"
  by (simp add: child_inv_def drop_child_def child_is_alive_def)

lemma child_inv_pump:
  assumes "child_inv media ini m s"
  shows "child_inv media ini m (pump_writes t a s)"
  unfolding child_inv_def pump_writes_alive
proof
  assume al: "child_is_alive s"
  then obtain c where c: "rx_child s = Some c" "flow c s = sent_by media ini m" and m: "rl_state m \<in> child_states" "rx_ever_accepted s"
    using assms by (auto simp: child_inv_def)
  then show "rl_state m \<in> child_states \<and> rx_ever_accepted (pump_writes t a s) \<and>
      (\<exists>c'. rx_child (pump_writes t a s) = Some c' \<and> flow c' (pump_writes t a s) = sent_by media ini m)"
    using pump_writes_flow [OF c(1), of t a] pump_writes_accepted [of s t a] by auto
qed

text \<open>A machine that keeps what has been sent.\<close>

definition same_sent :: "relay_machine \<Rightarrow> relay_machine \<Rightarrow> bool" where
  "same_sent m m' = (rl_anchor_seq m' = rl_anchor_seq m \<and> rl_head m' = rl_head m)"

lemma same_sent_sent: "same_sent m m' \<Longrightarrow> sent_by media ini m' = sent_by media ini m"
  by (simp add: same_sent_def sent_by_def)

lemma finish_input_inv:
  assumes "child_inv media ini m s" "rl_state m' \<in> child_states" "same_sent m m'"
  shows "child_inv media ini m' (finish_input p s)"
proof -
  let ?s = "drain_writes (ps_write_ms p) (ps_drain p) s"
  have "child_is_alive (finish_input p s) = child_is_alive s"
  proof -
    have "child_is_alive (finish_input p s) = child_is_alive ?s"
      by (simp add: finish_input_def child_is_alive_def close_input_def Let_def split: option.split)
    then show ?thesis by simp
  qed
  moreover have "rx_ever_accepted (finish_input p s) \<and> (\<exists>c. rx_child (finish_input p s) = Some c \<and> flow c (finish_input p s) = sent_by media ini m)"
    if al: "child_is_alive s"
  proof -
    obtain c where c: "rx_child s = Some c" "flow c s = sent_by media ini m" "rx_ever_accepted s"
      using assms(1) al by (auto simp: child_inv_def)
    obtain c' where c': "rx_child ?s = Some c'" "flow c' ?s = flow c s" using drain_writes_flow [OF c(1)] by blast
    have "flow (close_input c') (?s\<lparr>rx_child := Some (close_input c')\<rparr>) = flow c' ?s" by (simp add: flow_def close_input_def)
    then show ?thesis using c c' drain_writes_accepted [OF c(3)] by (simp add: finish_input_def)
  qed
  ultimately show ?thesis using assms(2) same_sent_sent [OF assms(3)] by (simp add: child_inv_def)
qed

lemma queue_segment_inv:
  assumes "child_inv media ini m s" "feeder_load_segment f (rl_head m) = Some (media (rl_head m))" "rl_anchor_seq m \<le> rl_head m"
    "rl_state m' \<in> child_states" "rl_anchor_seq m' = rl_anchor_seq m" "rl_head m' = rl_head m + 1" "rx_offset s \<le> length (rx_pending s)"
  shows "child_inv media ini m' (queue_segment f (rl_head m) s)"
proof -
  have "sent_by media ini m' = sent_by media ini m @ media (rl_head m)" using assms(3,5,6) by (simp add: sent_by_def)
  then show ?thesis using assms by (auto simp: child_inv_def queue_segment_def flow_def child_is_alive_def)
qed

text \<open>The offset never runs past what is pending.\<close>

lemma pump_writes_offset: "rx_offset s \<le> length (rx_pending s) \<Longrightarrow> rx_offset (pump_writes t a s) \<le> length (rx_pending (pump_writes t a s))"
  by (simp add: pump_writes_def Let_def split: option.split prod.split)

lemma drain_writes_offset: "rx_offset s \<le> length (rx_pending s) \<Longrightarrow> rx_offset (drain_writes t as s) \<le> length (rx_pending (drain_writes t as s))"
  by (induction "as" arbitrary: s) (simp_all add: pump_writes_offset)

lemma act_offset: "rx_offset s \<le> length (rx_pending s) \<Longrightarrow> rx_offset (act p plan d s) \<le> length (rx_pending (act p plan d s))"
  using drain_writes_offset [of s "ps_write_ms p" "ps_drain p"]
  by (auto simp: act_def start_child_def queue_segment_def queue_init_def finish_input_def drop_child_def Let_def
      split: relay_action.split option.split)

lemma collect_dead_simps [simp]:
  "rx_offset (collect_dead t s) = rx_offset s" "rx_pending (collect_dead t s) = rx_pending s"
  "child_is_alive (collect_dead t s) = child_is_alive s" "rx_ever_accepted (collect_dead t s) = rx_ever_accepted s"
  by (auto simp: collect_dead_def child_is_alive_def)

lemma measure_rate_simps [simp]:
  "rx_offset (measure_rate t s) = rx_offset s" "rx_pending (measure_rate t s) = rx_pending s" "rx_machine (measure_rate t s) = rx_machine s"
  "rx_child (measure_rate t s) = rx_child s" "rx_ever_accepted (measure_rate t s) = rx_ever_accepted s"
  by (simp_all add: measure_rate_def Let_def)

lemma session_pass_offset: "rx_offset s \<le> length (rx_pending s) \<Longrightarrow> rx_offset (session_pass p s) \<le> length (rx_pending (session_pass p s))"
  by (simp add: session_pass_def Let_def split_beta drop_child_def pump_writes_offset act_offset)

text \<open>What the machine may do while a child runs that has taken something.\<close>

lemma session_step_alive:
  fixes p :: relay_pass and s :: relay_session
  assumes "session_ok media ini s" "child_is_alive s" "rl_head (rx_machine s) < u64_max"
  defines "i \<equiv> session_input p s" and "m \<equiv> rx_machine s"
  assumes nk: "rd_action (fst (relay_step i m)) \<noteq> A_Kill"
  shows "rl_state (snd (relay_step i m)) \<in> child_states - {Relay_Awaiting}" "rl_anchor_seq (snd (relay_step i m)) = rl_anchor_seq m"
    "rl_head (snd (relay_step i m)) = (if rd_action (fst (relay_step i m)) = A_FeedSegment then rl_head m + 1 else rl_head m)"
    "rd_action (fst (relay_step i m)) \<noteq> A_Spawn"
    "rd_action (fst (relay_step i m)) = A_FeedSegment \<Longrightarrow> rd_seq (fst (relay_step i m)) = rl_head m \<and>
       feeder_has_segment (ps_feeder p) (rl_head m) \<and> rl_anchor_seq m \<le> rl_head m"
proof -
  have al: "ri_child_alive i" using assms(2) by (simp add: i_def session_input_def Let_def)
  have st: "rl_state m \<in> child_states" "rx_ever_accepted s" "rl_state m \<noteq> Relay_Awaiting"
    using assms(1,2) by (auto simp: session_ok_def child_inv_def m_def)
  have "ri_operator_wants_running i" using nk al
    by (cases "ri_operator_wants_running i") (simp_all add: relay_step_def step_switched_off_action)
  then have "on_connection (seg_ms i) i" using al st(2)
    by (simp add: on_connection_def keeps_position_def i_def session_input_def Let_def)
  note c = relay_step_connected [OF this st(3)]
  show "rl_state (snd (relay_step i m)) \<in> child_states - {Relay_Awaiting}" "rl_anchor_seq (snd (relay_step i m)) = rl_anchor_seq m"
    using c(1) relay_step_keeps_child [OF al st(1) nk] by (simp_all add: anchored_def)
  show "rl_head (snd (relay_step i m)) = (if rd_action (fst (relay_step i m)) = A_FeedSegment then rl_head m + 1 else rl_head m)"
    using c(2) assms(3) by (simp add: inc64_less m_def)
  show "rd_action (fst (relay_step i m)) \<noteq> A_Spawn" using relay_step_spawned(4) [of i m] al by blast
  assume f: "rd_action (fst (relay_step i m)) = A_FeedSegment"
  have "rl_state m \<noteq> Relay_Ending"
  proof -
    have "rl_state (snd (step_unblocked i m)) \<noteq> Relay_Ending"
      using step_running_fed(3) [of "fst (step_unblocked i m)" i "snd (step_unblocked i m)"] f relay_step_fed(5) [OF f] by simp
    then show ?thesis by auto
  qed
  then have "rl_state m \<in> {Relay_Streaming, Relay_Stalled}" using st(1,3) by (auto simp: child_states_def)
  then have "rl_anchor_seq m \<le> rl_head m" using assms(1) by (simp add: session_ok_def relay_inv_def m_def)
  moreover have "ri_next_segment_ready i"
  proof -
    have g: "rd_action (fst (step_running i (fst (step_unblocked i m)) (snd (step_unblocked i m)))) = A_FeedSegment"
      using f relay_step_fed(5) [OF f] by simp
    show ?thesis using g step_running_fed(1) [OF _ g] step_feed_action by simp
  qed
  ultimately show "rd_seq (fst (relay_step i m)) = rl_head m \<and> feeder_has_segment (ps_feeder p) (rl_head m) \<and> rl_anchor_seq m \<le> rl_head m"
    using c(3) [OF f] by (simp add: i_def m_def session_input_def Let_def)
qed

lemma relay_step_not_awaiting:
  "\<not> ri_child_alive i \<Longrightarrow> rl_state m \<noteq> Relay_Awaiting \<Longrightarrow> rl_state (snd (relay_step i m)) \<noteq> Relay_Awaiting"
  by (simp add: relay_step_stages Let_def step_switched_off_def step_blocked_def step_lost_def step_no_content_def step_start_def)

text \<open>The state after the machine's decision has been carried out.\<close>

lemma act_machine [simp]: "rx_machine (act p plan d s) = rx_machine s"
  by (simp add: act_def start_child_def queue_segment_def queue_init_def finish_input_def drop_child_def Let_def
      split: relay_action.split option.split)

lemma relay_step_killed:
  assumes "ri_child_alive i" "rl_state m \<in> child_states" "rd_action (fst (relay_step i m)) = A_Kill"
  shows "rl_state (snd (relay_step i m)) \<notin> child_states"
proof -
  have "rl_state m \<noteq> Relay_Blocked" using assms(2) by (auto simp: child_states_def)
  note u = step_unblocked_none [OF this, of i]
  have "Relay_Idle \<notin> child_states" "Relay_Blocked \<notin> child_states" by (simp_all add: child_states_def)
  then show ?thesis using assms step_running_state [OF assms(2), of no_decision i]
    by (auto simp: relay_step_stages Let_def u step_switched_off_def step_blocked_def step_no_content_action split: if_splits)
qed

lemma session_input_error [simp]: "session_input p (note_child_error s) = session_input p s"
  by (simp add: note_child_error_def session_input_def session_plan_def child_is_alive_def Let_def split: option.split)

text \<open>A child that has just been started, before its pipe has taken anything.\<close>

definition fresh_child :: "bytes \<Rightarrow> relay_machine \<Rightarrow> relay_session \<Rightarrow> bool" where
  "fresh_child ini m s = (rl_state m = Relay_Streaming \<and> rl_anchor_seq m = rl_head m \<and> rx_offset s = 0 \<and> rx_pending s = ini \<and>
     (\<exists>args. rx_child s = Some (child_new args)))"

lemma fresh_child_pump:
  assumes "fresh_child ini m s" "ini \<noteq> []" "a \<noteq> None" "a \<noteq> Some 0"
  shows "child_inv media ini m (pump_writes t a s)"
proof -
  obtain args where c: "rx_child s = Some (child_new args)" using assms(1) by (auto simp: fresh_child_def)
  obtain k where a: "a = Some k" "0 < k" using assms(3,4) by auto
  have "flow (child_new args) s = sent_by media ini m" using assms(1) by (simp add: fresh_child_def flow_def child_new_def sent_by_def)
  moreover have "rx_ever_accepted (pump_writes t a s)"
    unfolding a(1) using assms(1,2) a(2) c by (intro pump_writes_first [of _ "child_new args"]) (simp_all add: fresh_child_def child_new_def)
  ultimately show ?thesis using pump_writes_flow [OF c, of t a] assms(1) by (auto simp: child_inv_def fresh_child_def child_states_def)
qed

lemma start_child_fresh:
  assumes "rl_state m = Relay_Streaming" "rl_anchor_seq m = rl_head m" "feeder_load_init (ps_feeder p) = Some ini"
  shows "fresh_child ini m (start_child p plan s) \<or> rx_child (start_child p plan s) = None"
  using assms by (auto simp: start_child_def fresh_child_def queue_init_def Let_def split: option.split)

text \<open>Carrying out the decision, when a child was running and when none was.\<close>

lemma act_alive:
  fixes p :: relay_pass and s :: relay_session
  assumes "session_ok media ini s" "child_is_alive s" "pass_ok media ini p s" "rx_offset s \<le> length (rx_pending s)"
  defines "d \<equiv> fst (relay_step (session_input p s) (rx_machine s))" and "m' \<equiv> snd (relay_step (session_input p s) (rx_machine s))"
  shows "child_inv media ini m' (act p plan d ((note_child_error s)\<lparr>rx_machine := m'\<rparr>))"
proof (cases "rd_action d = A_Kill")
  case True
  then show ?thesis by (simp add: act_def)
next
  case False
  let ?m = "rx_machine s" and ?s = "(note_child_error s)\<lparr>rx_machine := m'\<rparr>"
  have h: "rl_head ?m < u64_max" using assms(3) by (simp add: pass_ok_def)
  have nk: "rd_action (fst (relay_step (session_input p s) ?m)) \<noteq> A_Kill" using False by (simp add: d_def)
  note a = session_step_alive [OF assms(1,2) h nk, folded d_def m'_def]
  have s': "child_inv media ini ?m ?s" "rx_offset ?s \<le> length (rx_pending ?s)"
    using assms(1,4) by (auto simp: session_ok_def child_inv_def flow_def child_is_alive_def)
  have st: "rl_state m' \<in> child_states" using a(1) by simp
  show ?thesis
  proof (cases "rd_action d = A_FeedSegment")
    case True
    note f = a(5) [OF True]
    have "feeder_load_segment (ps_feeder p) (rl_head ?m) = Some (media (rl_head ?m))"
      using assms(3) f by (intro room_feed.loads_media) (auto simp: pass_ok_def)
    then have "child_inv media ini m' (queue_segment (ps_feeder p) (rl_head ?m) ?s)"
      using a(2,3) f st s' True by (intro queue_segment_inv) simp_all
    then show ?thesis using True f by (simp add: act_def)
  next
    case other: False
    have ss: "same_sent ?m m'" using a(2,3) other by (simp add: same_sent_def)
    have "child_inv media ini m' ?s" using s'(1) st same_sent_sent [OF ss] by (simp add: child_inv_def)
    then show ?thesis using other a(4) nk finish_input_inv [OF s'(1) st ss, of p]
      by (cases "rd_action d") (simp_all add: act_def d_def)
  qed
qed

lemma act_not_alive:
  assumes "\<not> child_is_alive s" "rd_action d \<noteq> A_Spawn"
  shows "\<not> child_is_alive (act p plan d (s\<lparr>rx_machine := m\<rparr>))"
proof -
  let ?s = "s\<lparr>rx_machine := m\<rparr>"
  have n: "\<not> child_is_alive ?s" using assms(1) by (simp add: child_is_alive_def)
  have "\<not> child_is_alive (finish_input p ?s)"
    using drain_writes_alive [of "ps_write_ms p" "ps_drain p" ?s] n
    by (auto simp: finish_input_def child_is_alive_def close_input_def Let_def split: option.splits)
  moreover have "\<not> child_is_alive (queue_segment (ps_feeder p) (rd_seq d) ?s)"
    using n by (simp add: queue_segment_def child_is_alive_def split: option.splits)
  ultimately show ?thesis using n assms(2) by (cases "rd_action d") (simp_all add: act_def drop_child_def child_is_alive_def)
qed

lemma child_inv_dead: "\<not> child_is_alive s \<Longrightarrow> child_inv media ini m s"
  by (simp add: child_inv_def)

lemma session_ok_measured: "session_ok media ini (measure_rate t s) = session_ok media ini s"
  by (simp add: session_ok_def child_inv_def flow_def child_is_alive_def)

lemma session_ok_pumped: "session_ok media ini s \<Longrightarrow> session_ok media ini (pump_writes t a s)"
  by (simp add: session_ok_def child_inv_pump)

lemma collect_dead_inv: "relay_inv (rx_machine s) \<Longrightarrow> relay_inv (rx_machine (collect_dead t s))"
  by (simp add: collect_dead_def relay_inv_child_exited)

lemma collect_dead_state: "rl_state (rx_machine (collect_dead t s)) = rl_state (rx_machine s)"
  by (simp add: collect_dead_def note_child_exited_def Let_def)

lemma collect_dead_alive: "child_is_alive s \<Longrightarrow> collect_dead t s = s"
  by (simp add: collect_dead_def)

lemma session_ok_collected:
  assumes "relay_inv (rx_machine s)" "rl_state (rx_machine s) \<noteq> Relay_Awaiting" "child_inv media ini (rx_machine s) s"
  shows "session_ok media ini (collect_dead t s)"
  using assms collect_dead_inv [of s t] collect_dead_state [of t s] collect_dead_alive [of s t]
  by (cases "child_is_alive s") (simp_all add: session_ok_def child_inv_dead)

lemma session_step_machine:
  fixes p :: relay_pass and s :: relay_session
  assumes "session_ok media ini s" "rl_head (rx_machine s) < u64_max"
  defines "m' \<equiv> snd (relay_step (session_input p s) (rx_machine s))"
  shows "relay_inv m' \<and> rl_state m' \<noteq> Relay_Awaiting"
proof -
  let ?i = "session_input p s" and ?m = "rx_machine s"
  have al: "ri_child_alive ?i = child_is_alive s" by (simp add: session_input_def Let_def)
  have ok: "relay_inv ?m" "rl_state ?m \<noteq> Relay_Awaiting" "child_is_alive s \<Longrightarrow> rl_state ?m \<in> child_states"
    using assms(1) by (auto simp: session_ok_def child_inv_def)
  have "child_known ?i ?m" using al ok(3) by (simp add: child_known_def)
  then have "relay_inv m'" unfolding m'_def using ok(1) assms(2) by (intro relay_step_inv)
  moreover have "rl_state m' \<noteq> Relay_Awaiting"
  proof (cases "child_is_alive s")
    case True
    show ?thesis
    proof (cases "rd_action (fst (relay_step ?i ?m)) = A_Kill")
      case True
      then show ?thesis unfolding m'_def using relay_step_killed [of ?i ?m] al \<open>child_is_alive s\<close> ok(3) by (auto simp: child_states_def)
    next
      case False
      then show ?thesis unfolding m'_def using session_step_alive(1) [OF assms(1) True assms(2)] by simp
    qed
  next
    case False
    then show ?thesis unfolding m'_def using relay_step_not_awaiting ok(2) al by blast
  qed
  ultimately show ?thesis ..
qed

lemma session_pass_stages:
  "session_pass p s =
     (let s1 = reap p s; x = relay_step (session_input p s1) (rx_machine s)
      in if rx_reconfigured s
         then (drop_child (note_child_error s1))\<lparr>rx_reconfigured := False, rx_machine := reconfigured (ps_now_ms p) (rx_machine s)\<rparr>
         else measure_rate (ps_now_ms p) (pump_writes (ps_write_ms p) (ps_write p) (collect_dead (ps_now_ms p)
                (act p (session_plan p s1) (fst x) ((note_child_error s1)\<lparr>rx_machine := snd x\<rparr>)))))"
  by (simp add: session_pass_def Let_def split_beta)

lemma session_pass_ok:
  assumes "session_ok media ini s" "pass_ok media ini p s" "rx_offset s \<le> length (rx_pending s)" "ini \<noteq> []"
  shows "session_ok media ini (session_pass p s)"
proof (cases "rx_reconfigured s")
  case True
  then have "session_pass p s = (drop_child (note_child_error (reap p s)))\<lparr>rx_reconfigured := False,
      rx_machine := reconfigured (ps_now_ms p) (rx_machine s)\<rparr>" by (simp add: session_pass_stages Let_def)
  then show ?thesis using assms(1) relay_inv_reconfigured
    by (simp add: session_ok_def child_inv_def drop_child_def child_is_alive_def reconfigured_def)
next
  case False
  let ?s = "reap p s"
  let ?x = "relay_step (session_input p ?s) (rx_machine s)"
  let ?a = "act p (session_plan p ?s) (fst ?x) ((note_child_error ?s)\<lparr>rx_machine := snd ?x\<rparr>)"
  have ok: "session_ok media ini ?s" by (rule reap_ok [OF assms(1)])
  have h: "rl_head (rx_machine ?s) < u64_max" using assms(2) by (simp add: pass_ok_def)
  have m: "relay_inv (snd ?x)" "rl_state (snd ?x) \<noteq> Relay_Awaiting" using session_step_machine [OF ok h, of p] by simp_all
  have e: "session_pass p s = measure_rate (ps_now_ms p) (pump_writes (ps_write_ms p) (ps_write p) (collect_dead (ps_now_ms p) ?a))"
    using False by (simp add: session_pass_stages Let_def)
  show ?thesis
  proof (cases "rd_action (fst ?x) = A_Spawn")
    case True
    have sp: "starts_child p s" using True by (simp add: starts_child_def)
    note r = relay_step_spawned [OF True]
    have "feeder_load_init (ps_feeder p) = Some ini"
      using r(6) assms(2) by (auto simp: session_input_def pass_ok_def Let_def)
    then consider "fresh_child ini (snd ?x) ?a" | "rx_child ?a = None"
      using start_child_fresh [OF r(9,11)] True by (fastforce simp: act_def)
    then show ?thesis
    proof cases
      case 1
      then have c: "collect_dead (ps_now_ms p) ?a = ?a" by (intro collect_dead_alive) (auto simp: fresh_child_def child_is_alive_def child_new_def)
      have "child_inv media ini (snd ?x) (pump_writes (ps_write_ms p) (ps_write p) ?a)"
        using fresh_child_pump [OF 1 assms(4)] assms(2) sp by (simp add: pass_ok_def)
      then show ?thesis using m by (simp add: e c session_ok_measured) (simp add: session_ok_def)
    next
      case 2
      then have "session_ok media ini (collect_dead (ps_now_ms p) ?a)" using m by (intro session_ok_collected) (simp_all add: child_inv_def child_is_alive_def)
      then show ?thesis by (simp add: e session_ok_measured session_ok_pumped)
    qed
  next
    case other: False
    have "child_inv media ini (snd ?x) ?a"
    proof (cases "child_is_alive ?s")
      case True
      have "pass_ok media ini p ?s" using assms(2) other by (simp add: pass_ok_def starts_child_def)
      then show ?thesis using act_alive [OF ok True] assms(3) by simp
    next
      case False
      then show ?thesis using other by (intro child_inv_dead act_not_alive) simp_all
    qed
    then have "session_ok media ini (collect_dead (ps_now_ms p) ?a)" using m by (intro session_ok_collected) simp_all
    then show ?thesis by (simp add: e session_ok_measured session_ok_pumped)
  qed
qed

lemma relay_reach_ok:
  assumes "relay_reach media ini s" "ini \<noteq> []"
  shows "session_ok media ini s \<and> rx_offset s \<le> length (rx_pending s)"
  using assms(1)
proof (induction rule: relay_reach.induct)
  case created
  show ?case
    by (simp add: relay_session_new_def session_ok_def child_inv_def child_is_alive_def relay_inv_init) (simp add: relay_machine_init_def)
next
  case (passed s p)
  then show ?case using session_pass_ok [OF _ _ _ assms(2)] session_pass_offset by blast
qed (simp_all add: relay_set_enabled_def relay_update_def relay_stop_thread_def session_ok_def child_inv_def flow_def child_is_alive_def)


section \<open>One failed poll\<close>

lemma ending_waits:
  assumes "rl_state m = Relay_Ending" "ri_operator_wants_running i" "ri_plan_ok i" "room_has_content i"
  shows "rd_action (fst (relay_step i m)) = A_None"
    "rl_state (snd (relay_step i m)) = (if ri_child_alive i then Relay_Ending else Relay_Stopped)"
  using assms by (simp_all add: relay_step_stages Let_def step_unblocked_none step_running_stages step_start_def)

lemma stopped_waits:
  assumes "rl_state m = Relay_Stopped" "ri_operator_wants_running i" "ri_plan_ok i" "\<not> ri_child_alive i"
  shows "relay_step i m = (no_decision, m)"
  using assms by (simp add: relay_step_stages Let_def step_unblocked_none step_no_content_def step_start_def)

lemma stopped_run:
  assumes "rl_state m = Relay_Stopped" "\<forall>i\<in>set ins. ri_operator_wants_running i \<and> ri_plan_ok i \<and> \<not> ri_child_alive i"
  shows "\<forall>d\<in>set (fst (relay_run ins m)). rd_action d = A_None"
  using assms by (induction ins) (simp_all add: stopped_waits)

lemma ending_run:
  assumes "rl_state m = Relay_Ending" "\<forall>i\<in>set xs. ri_operator_wants_running i \<and> ri_plan_ok i \<and> room_has_content i \<and> ri_child_alive i"
    "\<forall>i\<in>set ys. ri_operator_wants_running i \<and> ri_plan_ok i \<and> room_has_content i \<and> \<not> ri_child_alive i"
  shows "\<forall>d\<in>set (fst (relay_run (xs @ ys) m)). rd_action d = A_None"
  using assms(1,2)
proof (induction xs arbitrary: m)
  case Nil
  show ?case
  proof (cases ys)
    case (Cons y zs)
    then have y: "ri_operator_wants_running y" "ri_plan_ok y" "room_has_content y" "\<not> ri_child_alive y" using assms(3) by auto
    note e = ending_waits [OF Nil.prems(1) y(1-3)]
    have "\<forall>d\<in>set (fst (relay_run zs (snd (relay_step y m)))). rd_action d = A_None"
      using assms(3) Cons e(2) y(4) by (intro stopped_run) auto
    then show ?thesis using Cons e(1) by simp
  qed simp
next
  case (Cons x xs)
  then have x: "ri_operator_wants_running x" "ri_plan_ok x" "room_has_content x" "ri_child_alive x" by auto
  note e = ending_waits [OF Cons.prems(1) x(1-3)]
  show ?case using Cons.IH [of "snd (relay_step x m)"] e x(4) Cons.prems(2) by simp
qed

lemma failed_poll_offline:
  assumes "\<not> gr_success (fst (pa_live pa))" "\<not> snd (pa_live pa)" "dd_pinned_event_id d = []"
  shows "dd_room (poll pa d) = R_Offline"
proof -
  have "poll_target pa d = []" using assms by (simp add: poll_target_def read_live_def live_pointer_default_def)
  then show ?thesis using assms(2) by (simp add: poll_no_target Let_def)
qed


definition ex_no_answer :: poll_answers where
  "ex_no_answer = \<lparr>pa_now = 5000, pa_preferring_secondary = False, pa_live = (get_result_default, False), pa_manifest = (get_result_default, False),
     pa_markers = (get_result_default, False), pa_cue_list = None, pa_event = (get_result_default, False)\<rparr>"



section \<open>What the passes promise\<close>


text \<open>A room whose first segment has been downloaded, and two passes: the child starts, and the segment goes in.\<close>

definition ex_info :: event_info where
  "ex_info = \<lparr>ev_protocol_version = 1, ev_event_id = ''E'', ev_room_id = ''main'', ev_name = [], ev_started_at_ms = 0, ev_first_seq = 0,
     ev_segment_duration_s = 6, ev_init = ''init.mp4'', ev_video = mf_video ex_event, ev_audio_tracks = mf_audio_tracks ex_event\<rparr>"

definition ex_feed :: room_feeder where
  "ex_feed = \<lparr>rf_session = (decoder_new decoder_config_default [])\<lparr>dd_room := R_Live, dd_event_id := ''E'',
       dd_cache := \<lparr>ca_root = [(''E'', \<lparr>cf_init = Some [7, 7], cf_segs = [(0, [1, 2, 3])]\<rparr>)], ca_event_id = ''E'', ca_index = [0]\<rparr>\<rparr>,
     rf_next_poll = 0, rf_poll_interval_ms = 2000, rf_lowest_reader = 0, rf_reader_set = False, rf_info_event_id = ''E'',
     rf_info = ex_info, rf_have_info = True\<rparr>"

definition ex_pass :: "i64 \<Rightarrow> nat \<Rightarrow> relay_pass" where
  "ex_pass t k = \<lparr>ps_now_ms = t, ps_feeder = ex_feed, ps_exit = None, ps_start_error = None, ps_write_ms = t, ps_drain = [], ps_write = Some k\<rparr>"

definition ex_session :: relay_session where
  "ex_session = relay_session_new (ex_srt\<lparr>de_enabled := True\<rparr>) True 0 0"

lemma ex_plan:
  assumes "rx_dest s = ex_srt\<lparr>de_enabled := True\<rparr>"
  shows "sp_ok (session_plan (ex_pass t k) s)"
  using assms by (simp add: session_plan_def Let_def ex_pass_def snapshot_def ex_feed_def decoder_new_def ex_info_def plan_ok_iff
    video_allowed_def ex_event_def manifest_default_def lower_def to_lower_def is_upper_def video_sendable_def ex_srt_def destination_default_def
    choose_tracks_def is_packed_def)

lemma ex_snapshot:
  "sh_room (snapshot ex_feed) = R_Live" "sh_latest_seq (snapshot ex_feed) = 0" "sh_first_available_seq (snapshot ex_feed) = 0"
  "sh_segment_duration_s (snapshot ex_feed) = 6" "feeder_has_segment ex_feed q = (q = 0)" "feeder_load_init ex_feed = Some [7, 7]"
  "feeder_load_segment ex_feed q = (if q = 0 then Some [1, 2, 3] else None)"
  by (simp_all add: snapshot_def Let_def ex_feed_def decoder_new_def ex_info_def feeder_has_segment_def cache_has_def
      feeder_load_init_def load_init_def event_folder_def feeder_load_segment_def cache_load_def)

lemma ex_input:
  assumes "rx_dest s = ex_srt\<lparr>de_enabled := True\<rparr>"
  shows "ri_plan_ok (session_input (ex_pass t k) s)" "ri_room (session_input (ex_pass t k) s) = R_Live" 
    "ri_first_available_seq (session_input (ex_pass t k) s) = 0" "ri_next_segment_ready (session_input (ex_pass t k) s) = (rl_head (rx_machine s) = 0)"
    "ri_init_ready (session_input (ex_pass t k) s)" "ri_operator_wants_running (session_input (ex_pass t k) s) = rx_enabled s"
    "ri_child_alive (session_input (ex_pass t k) s) = child_is_alive s" "ri_now_ms (session_input (ex_pass t k) s) = t"
    "ri_end_seq (session_input (ex_pass t k) s) = rx_end_seq s" "ri_start_seq (session_input (ex_pass t k) s) = rx_start_seq s"
    "ri_from_beginning (session_input (ex_pass t k) s) = rx_from_beginning s" "ri_segment_duration_s (session_input (ex_pass t k) s) = 6"
  using ex_plan [OF assms, of t k] by (simp_all add: session_input_def Let_def ex_pass_def ex_snapshot)

definition ex_started :: relay_session where
  "ex_started = session_pass (ex_pass 1000 1) ex_session"

definition ex_sending :: relay_session where
  "ex_sending = session_pass (ex_pass 1050 2) ex_started"

lemma ex_pass_simps [simp]:
  "ps_now_ms (ex_pass t k) = t" "ps_feeder (ex_pass t k) = ex_feed" "ps_write_ms (ex_pass t k) = t" "ps_write (ex_pass t k) = Some k"
  by (simp_all add: ex_pass_def)

lemma ex_reap [simp]: "reap (ex_pass t k) s = s"
  by (simp add: reap_def ex_pass_def split: option.split)

lemma ex_session_simps: "rx_dest ex_session = ex_srt\<lparr>de_enabled := True\<rparr>" "rx_machine ex_session = relay_machine_init" "rx_child ex_session = None"
  "rx_reconfigured ex_session = False" "rx_enabled ex_session" "rx_from_beginning ex_session" "rx_start_seq ex_session = 0" "rx_end_seq ex_session = 0"
  by (simp_all add: ex_session_def relay_session_new_def)

lemma ex_first_step: "relay_step (session_input (ex_pass 1000 1) ex_session) relay_machine_init =
   (no_decision\<lparr>rd_action := A_Spawn, rd_note := ''starting''\<rparr>, enter Relay_Streaming 1000 []
     (relay_machine_init\<lparr>rl_head := 0, rl_head_set := True, rl_anchor_ms := 1000, rl_anchor_seq := 0\<rparr>))"
  using ex_input [OF ex_session_simps(1), of 1000 1]
  by (simp add: relay_step_stages step_unblocked_none step_start_def ex_session_simps Let_def take_position_def child_is_alive_def room_has_content_def relay_machine_init_def)

lemma ex_started_simps:
  "rx_dest ex_started = ex_srt\<lparr>de_enabled := True\<rparr>" "rl_head (rx_machine ex_started) = 0" 
  "rl_state (rx_machine ex_started) = Relay_Streaming" "rl_anchor_ms (rx_machine ex_started) = 1000" "rl_anchor_seq (rx_machine ex_started) = 0"
  "rx_reconfigured ex_started = False" "rx_enabled ex_started" "rx_end_seq ex_started = 0"
  "rx_pending ex_started = [7, 7]" "rx_offset ex_started = 1" "rx_last_accept_ms ex_started = 1000"
  "rx_child ex_started = Some ((child_new (sp_args (session_plan (ex_pass 1000 1) ex_session)))\<lparr>ch_written := [7]\<rparr>)"
  unfolding ex_started_def session_pass_stages Let_def ex_reap ex_session_simps ex_first_step
  by (simp_all add: act_def start_child_def note_child_error_def ex_session_simps queue_init_def ex_pass_def ex_snapshot Let_def collect_dead_def
    pump_writes_def write_some_def child_new_def measure_rate_def enter_def child_is_alive_def)

lemma ex_second_step:
  "fst (relay_step (session_input (ex_pass 1050 2) ex_started) (rx_machine ex_started)) = no_decision\<lparr>rd_action := A_FeedSegment, rd_seq := 0\<rparr>"
  "rl_state (snd (relay_step (session_input (ex_pass 1050 2) ex_started) (rx_machine ex_started))) = Relay_Streaming"
proof -
  have a: "ri_output_accepting (session_input (ex_pass 1050 2) ex_started)" "child_is_alive ex_started"
    by (simp_all add: session_input_def Let_def ex_started_simps kDrainQuietMs_def child_is_alive_def child_new_def)
  then show "fst (relay_step (session_input (ex_pass 1050 2) ex_started) (rx_machine ex_started)) = no_decision\<lparr>rd_action := A_FeedSegment, rd_seq := 0\<rparr>"
   "rl_state (snd (relay_step (session_input (ex_pass 1050 2) ex_started) (rx_machine ex_started))) = Relay_Streaming"
    using ex_input [OF ex_started_simps(1), of 1050 2]
    by (simp_all add: relay_step_stages step_unblocked_none step_running_stages step_attached_def step_feed_def step_resumed_def due_ms_def
        ex_started_simps Let_def room_has_content_def)
qed

lemma ex_sending_child:
  "rx_child ex_sending = Some ((child_new (sp_args (session_plan (ex_pass 1000 1) ex_session)))\<lparr>ch_written := [7, 7, 1]\<rparr>)"
  unfolding ex_sending_def session_pass_stages Let_def ex_reap
  by (simp add: ex_second_step act_def note_child_error_def ex_started_simps queue_segment_def ex_snapshot Let_def collect_dead_def
    pump_writes_def write_some_def child_new_def child_is_alive_def)

lemma ex_feed_pass:
  assumes "rl_head (rx_machine s) = 0" "0 < k"
  shows "pass_ok (\<lambda>_. [1, 2, 3]) [7, 7] (ex_pass t k) s"
proof -
  have "feeder_ok ex_feed" by (simp add: feeder_ok_def cache_ok_def cache_load_def event_folder_def ex_feed_def)
  then show ?thesis using assms by (simp add: pass_ok_def ex_pass_def u64_max_def ex_snapshot)
qed

lemma ex_sending_reached: "relay_reach (\<lambda>_. [1, 2, 3]) [7, 7] ex_sending"
proof -
  have "relay_reach (\<lambda>_. [1, 2, 3]) [7, 7] ex_started" unfolding ex_started_def
    by (intro relay_reach.passed ex_feed_pass) (simp_all add: ex_session_simps relay_machine_init_def, simp add: ex_session_def relay_reach.created)
  then show ?thesis unfolding ex_sending_def by (intro relay_reach.passed ex_feed_pass) (simp_all add: ex_started_simps)
qed


text \<open>
  No history of passes puts a destination into the state in which a listener waits to be attached to: the pipe of a
  child that has just been started takes the first write, so from then on its output counts as having been taken, whether
  or not anyone is at the far end.
\<close>

lemma listener_never_awaits:
  assumes "relay_reach media ini s" "ini \<noteq> []"
  shows "rl_state (rx_machine s) \<noteq> Relay_Awaiting \<and> (child_is_alive s \<longrightarrow> rx_ever_accepted s)"
  using relay_reach_ok [OF assms] by (auto simp: session_ok_def child_inv_def)

end
