(* ===== verification/Aws_Signing.thy ===== *)
theory Aws_Signing
  imports Send_Path "HOL-Library.Multiset"
begin

text \<open>
  The signature of a request to the store (\<^verbatim>\<open>src/core/aws_sigv4.{h,cpp}\<close>): percent encoding, the parts of an address, the
  canonical form of its parameters, the canonical request and the headers that go out with it. SHA-256 and HMAC are
  parameters (\<^verbatim>\<open>src/core/crypto.h\<close> is implemented by the platform); the time of day is the text the C library formats.
  A \<^verbatim>\<open>std::map\<close> is the list of its entries in the order of the keys.

  The lemmas say that encoding loses nothing, that two queries have one canonical form exactly when they carry the same
  parameters, so that the signature covers what the store reads and no more, and that every header that goes out is signed.
\<close>

section \<open>Percent encoding\<close>

definition unreserved :: "char \<Rightarrow> bool" where
  "unreserved c = (is_upper c \<or> is_lower c \<or> is_digit c \<or> c \<in> {CHR ''-'', CHR ''_'', CHR ''.'', CHR ''~''})"

definition hx_upper :: string where
  "hx_upper = ''0123456789ABCDEF''"

definition encode_char :: "bool \<Rightarrow> char \<Rightarrow> string" where
  "encode_char encode_slash c =
     (if unreserved c then [c]
      else if c = CHR ''/'' \<and> \<not> encode_slash then [CHR ''/'']
      else [CHR ''%'', hx_upper ! (of_char c div 16), hx_upper ! (of_char c mod 16)])"

definition uri_encode :: "string \<Rightarrow> bool \<Rightarrow> string" where
  "uri_encode s encode_slash = concat (map (encode_char encode_slash) s)"

definition hexval :: "char \<Rightarrow> nat option" where
  "hexval c =
     (if is_digit c then Some (of_char c - of_char (CHR ''0''))
      else if CHR ''a'' \<le> c \<and> c \<le> CHR ''f'' then Some (of_char c - of_char (CHR ''a'') + 10)
      else if CHR ''A'' \<le> c \<and> c \<le> CHR ''F'' then Some (of_char c - of_char (CHR ''A'') + 10)
      else None)"

fun percent_decode :: "string \<Rightarrow> string" where
  "percent_decode [] = []"
| "percent_decode (c # cs) =
     (case cs of
        h # l # rest \<Rightarrow>
          (case (if c = CHR ''%'' then hexval h else None, hexval l) of
             (Some hi, Some lo) \<Rightarrow> char_of (16 * hi + lo) # percent_decode rest
           | _ \<Rightarrow> c # percent_decode cs)
      | _ \<Rightarrow> c # percent_decode cs)"


section \<open>Addresses and queries\<close>

record parsed_url =
  pu_host :: string
  pu_path :: string
  pu_query :: string

text \<open>
  A \<^verbatim>\<open>?\<close> before the first \<^verbatim>\<open>/\<close> makes the length of the path wrap around, so that it runs to the end.
\<close>

definition parse_url :: "string \<Rightarrow> parsed_url" where
  "parse_url url =
     (let rest = (case find_sub ''://'' url of None \<Rightarrow> url | Some a \<Rightarrow> drop (a + 3) url);
          host = takeWhile (\<lambda>c. c \<noteq> CHR ''/'') rest;
          path = dropWhile (\<lambda>c. c \<noteq> CHR ''/'') rest
      in if path = [] then \<lparr>pu_host = rest, pu_path = ''/'', pu_query = []\<rparr>
         else if CHR ''?'' \<notin> set rest then \<lparr>pu_host = host, pu_path = path, pu_query = []\<rparr>
         else \<lparr>pu_host = host,
               pu_path = (if CHR ''?'' \<in> set host then path else takeWhile (\<lambda>c. c \<noteq> CHR ''?'') path),
               pu_query = tl (dropWhile (\<lambda>c. c \<noteq> CHR ''?'') rest)\<rparr>)"

text \<open>The items between the ampersands are taken apart as those of a destination are.\<close>

definition canonical_param :: "query_param \<Rightarrow> query_param" where
  "canonical_param p = (uri_encode (percent_decode (fst p)) True, uri_encode (percent_decode (snd p)) True)"

definition canonical_query :: "string \<Rightarrow> string" where
  "canonical_query query = join_query (sort (map canonical_param (split_query query)))"


section \<open>Signing\<close>

type_synonym header_map = "(string \<times> string) list"

definition map_put :: "string \<Rightarrow> string \<Rightarrow> header_map \<Rightarrow> header_map" where
  "map_put k v m = sort_key fst ((k, v) # filter (\<lambda>p. fst p \<noteq> k) m)"

definition map_erase :: "string \<Rightarrow> header_map \<Rightarrow> header_map" where
  "map_erase k m = filter (\<lambda>p. fst p \<noteq> k) m"

record sigv4_signer =
  sv_access_key :: string
  sv_secret_key :: string
  sv_region :: string
  sv_service :: string

definition raw_bytes :: "string \<Rightarrow> bytes" where
  "raw_bytes s = map (\<lambda>c. word_of_nat (of_char c)) s"

definition to_hex :: "bytes \<Rightarrow> string" where
  "to_hex bs = concat (map (\<lambda>b. [''0123456789abcdef'' ! (unat b div 16), ''0123456789abcdef'' ! (unat b mod 16)]) bs)"

definition signing_key :: "(bytes \<Rightarrow> string \<Rightarrow> bytes) \<Rightarrow> sigv4_signer \<Rightarrow> string \<Rightarrow> bytes" where
  "signing_key hmac_sha256 s datestamp =
     (let kSecret = raw_bytes (''AWS4'' @ sv_secret_key s);
          kDate = hmac_sha256 kSecret datestamp;
          kRegion = hmac_sha256 kDate (sv_region s);
          kService = hmac_sha256 kRegion (sv_service s)
      in hmac_sha256 kService ''aws4_request'')"

definition signed_headers :: "string \<Rightarrow> string \<Rightarrow> string \<Rightarrow> header_map \<Rightarrow> header_map" where
  "signed_headers host payload_hash amz_date extra_headers =
     fold (\<lambda>(k, v). map_put (lower k) (trim v)) extra_headers
       (map_put ''x-amz-date'' amz_date (map_put ''x-amz-content-sha256'' payload_hash (map_put ''host'' host [])))"

definition canonical_headers :: "header_map \<Rightarrow> string" where
  "canonical_headers m = concat (map (\<lambda>(k, v). k @ '':'' @ trim v @ [CHR 0x0A]) m)"

fun header_list :: "string list \<Rightarrow> string" where
  "header_list [] = []"
| "header_list [k] = k"
| "header_list (k # ks) = k @ '';'' @ header_list ks"

definition canonical_request :: "string \<Rightarrow> parsed_url \<Rightarrow> header_map \<Rightarrow> string \<Rightarrow> string" where
  "canonical_request http_method u headers payload_hash =
     http_method @ [CHR 0x0A] @ uri_encode (pu_path u) False @ [CHR 0x0A] @ canonical_query (pu_query u) @ [CHR 0x0A] @
     canonical_headers headers @ [CHR 0x0A] @ header_list (map fst headers) @ [CHR 0x0A] @ payload_hash"

text \<open>\<^verbatim>\<open>sign\<close>; \<open>clock\<close> is what \<^verbatim>\<open>strftime\<close> gives for now.\<close>

definition sign ::
    "(bytes \<Rightarrow> string) \<Rightarrow> (bytes \<Rightarrow> string \<Rightarrow> bytes) \<Rightarrow> string \<Rightarrow> sigv4_signer \<Rightarrow> string \<Rightarrow> string \<Rightarrow> bytes \<Rightarrow> header_map \<Rightarrow>
     string \<Rightarrow> string \<Rightarrow> header_map" where
  "sign sha256_hex hmac_sha256 clock s http_method url payload extra_headers amz_date_override datestamp_override =
     (let u = parse_url url;
          (amz_date, datestamp) = (if amz_date_override \<noteq> [] then (amz_date_override, datestamp_override) else (clock, take 8 clock));
          payload_hash = sha256_hex payload;
          headers = signed_headers (pu_host u) payload_hash amz_date extra_headers;
          scope = datestamp @ ''/'' @ sv_region s @ ''/'' @ sv_service s @ ''/aws4_request'';
          cr_hash = sha256_hex (raw_bytes (canonical_request http_method u headers payload_hash));
          string_to_sign = ''AWS4-HMAC-SHA256'' @ [CHR 0x0A] @ amz_date @ [CHR 0x0A] @ scope @ [CHR 0x0A] @ cr_hash;
          signature = to_hex (hmac_sha256 (signing_key hmac_sha256 s datestamp) string_to_sign);
          authorization = ''AWS4-HMAC-SHA256 Credential='' @ sv_access_key s @ ''/'' @ scope @ '', SignedHeaders='' @
            header_list (map fst headers) @ '', Signature='' @ signature
      in map_erase ''host'' (map_put ''Authorization'' authorization headers))"

definition header_lines :: "header_map \<Rightarrow> string list" where
  "header_lines m = map (\<lambda>(k, v). k @ '': '' @ v) m"


section \<open>Nothing is lost in encoding\<close>

lemma hexval_upper:
  assumes "n < 16"
  shows "hexval (hx_upper ! n) = Some n"
proof -
  have "list_all (\<lambda>n. hexval (hx_upper ! n) = Some n) [0 ..< 16]" by code_simp
  then show ?thesis using assms by (simp add: list_all_iff)
qed

lemma of_char_less: "of_char (c :: char) < (256 :: nat)"
  using of_char_mod_256 [of c] by (metis mod_less_divisor zero_less_numeral)

lemma nibbles: "(of_char (c :: char) :: nat) div 16 < 16" "(of_char c :: nat) mod 16 < 16"
  using of_char_less [of c] by (simp_all add: less_mult_imp_div_less)

lemma percent_decode_plain: "c \<noteq> CHR ''%'' \<Longrightarrow> percent_decode (c # cs) = c # percent_decode cs"
  by (auto split: list.split option.split)

declare percent_decode.simps(2) [simp del]

lemma percent_decode_encoded: "percent_decode (encode_char b c @ s) = c # percent_decode s"
proof (cases "unreserved c \<or> c = CHR ''/'' \<and> \<not> b")
  case True
  then have "encode_char b c = [c]" "c \<noteq> CHR ''%''"
    by (auto simp: encode_char_def unreserved_def is_upper_def is_lower_def is_digit_code less_eq_char_def)
  then show ?thesis by (simp add: percent_decode_plain)
next
  case False
  have "char_of (16 * (of_char c div 16) + of_char c mod 16 :: nat) = c" by simp
  then show ?thesis using False hexval_upper [OF nibbles(1)] hexval_upper [OF nibbles(2)] by (auto simp: encode_char_def percent_decode.simps)
qed

lemma percent_roundtrip: "percent_decode (uri_encode s b) = s"
  by (induction s) (simp_all add: uri_encode_def percent_decode_encoded)

lemma hx_upper_unreserved:
  assumes "n < 16"
  shows "unreserved (hx_upper ! n)"
proof -
  have "list_all (\<lambda>n. unreserved (hx_upper ! n)) [0 ..< 16]" by code_simp
  then show ?thesis using assms by (simp add: list_all_iff)
qed

lemma uri_encode_chars:
  assumes "c \<in> set (uri_encode s b)"
  shows "unreserved c \<or> c = CHR ''%'' \<or> c = CHR ''/'' \<and> \<not> b"
proof -
  obtain d where d: "c \<in> set (encode_char b d)" using assms by (auto simp: uri_encode_def)
  show ?thesis using d hx_upper_unreserved [OF nibbles(1)] hx_upper_unreserved [OF nibbles(2)] by (auto simp: encode_char_def split: if_splits)
qed

text \<open>What is sent as it is: a path of unreserved characters and slashes is its own encoding.\<close>

lemma uri_encode_plain: "list_all (\<lambda>c. unreserved c \<or> c = CHR ''/'') s \<Longrightarrow> uri_encode s False = s"
  by (induction s) (auto simp: uri_encode_def encode_char_def)


section \<open>One form for the same parameters\<close>

definition decoded_params :: "string \<Rightarrow> query_param list" where
  "decoded_params q = map (\<lambda>p. (percent_decode (fst p), percent_decode (snd p))) (split_query q)"

definition encoded_param :: "query_param \<Rightarrow> query_param" where
  "encoded_param p = (uri_encode (fst p) True, uri_encode (snd p) True)"

lemma canonical_params: "map canonical_param (split_query q) = map encoded_param (decoded_params q)"
  by (simp add: decoded_params_def canonical_param_def encoded_param_def)

lemma encoded_param_inj: "inj encoded_param"
  by (rule injI) (metis encoded_param_def percent_roundtrip prod.collapse prod.inject)

lemma encoded_param_ok: "param_ok (encoded_param p)"
  using uri_encode_chars [of "CHR ''=''" "fst p" True] uri_encode_chars [of "CHR ''&''" "fst p" True]
    uri_encode_chars [of "CHR ''&''" "snd p" True]
  by (auto simp: param_ok_def encoded_param_def unreserved_def is_upper_def is_lower_def is_digit_code less_eq_char_def)

lemma split_canonical: "split_query (canonical_query q) = sort (map encoded_param (decoded_params q))"
  unfolding canonical_query_def canonical_params
  by (rule split_join_query) (auto simp: list_all_iff encoded_param_ok)

lemma canonical_query_mset:
  "canonical_query q = canonical_query r \<longleftrightarrow> mset (decoded_params q) = mset (decoded_params r)"
proof
  assume "canonical_query q = canonical_query r"
  then have "sort (map encoded_param (decoded_params q)) = sort (map encoded_param (decoded_params r))"
    using split_canonical [of q] split_canonical [of r] by simp
  then have "image_mset encoded_param (mset (decoded_params q)) = image_mset encoded_param (mset (decoded_params r))"
    by (metis mset_map mset_sort)
  then show "mset (decoded_params q) = mset (decoded_params r)"
    by (rule injD [OF multiset.inj_map [OF encoded_param_inj]])
next
  assume "mset (decoded_params q) = mset (decoded_params r)"
  then have "mset (map encoded_param (decoded_params q)) = mset (map encoded_param (decoded_params r))" by simp
  then have "sort (map encoded_param (decoded_params q)) = sort (map encoded_param (decoded_params r))"
    by (intro properties_for_sort) simp_all
  then show "canonical_query q = canonical_query r" by (simp add: canonical_query_def canonical_params)
qed

lemma canonical_decoded: "mset (decoded_params (canonical_query q)) = mset (decoded_params q)"
proof -
  have "map (\<lambda>p. (percent_decode (fst p), percent_decode (snd p))) (map encoded_param ps) = ps" for ps
    by (induction ps) (simp_all add: encoded_param_def percent_roundtrip)
  then have "image_mset (\<lambda>p. (percent_decode (fst p), percent_decode (snd p))) (image_mset encoded_param (mset ps)) = mset ps" for ps
    by (metis mset_map)
  then show ?thesis unfolding decoded_params_def [of "canonical_query q"] split_canonical by simp
qed

text \<open>
  The signature covers the parameters the store reads and nothing else: two queries have the same canonical form exactly
  when they carry the same parameters, in whatever order and encoding, and the canonical form carries those parameters
  itself.
\<close>

lemma canonical_query_exact:
  "(canonical_query q = canonical_query r) = (mset (decoded_params q) = mset (decoded_params r)) \<and>
   mset (decoded_params (canonical_query q)) = mset (decoded_params q) \<and> canonical_query (canonical_query q) = canonical_query q"
  using canonical_query_mset [of q r] canonical_query_mset [of "canonical_query q" q] canonical_decoded by simp


section \<open>What is signed is what is sent\<close>

lemma map_put_set: "set (map_put k v m) = insert (k, v) {p \<in> set m. fst p \<noteq> k}"
  unfolding map_put_def set_sort by auto

definition header_map_ok :: "header_map \<Rightarrow> bool" where
  "header_map_ok m = (sorted (map fst m) \<and> distinct (map fst m))"

lemma map_put_ok: "header_map_ok m \<Longrightarrow> header_map_ok (map_put k v m)"
proof -
  assume "header_map_ok m"
  then have "distinct (map fst ((k, v) # filter (\<lambda>p. fst p \<noteq> k) m))" by (auto simp: header_map_ok_def distinct_map_filter)
  then have "distinct (map fst (map_put k v m))" unfolding map_put_def by (simp only: distinct_map distinct_sort set_sort)
  moreover have "sorted (map fst (map_put k v m))" unfolding map_put_def by (rule sorted_sort_key)
  ultimately show ?thesis by (simp add: header_map_ok_def)
qed

lemma signed_headers_names:
  "fst ` set (signed_headers host ph date extra) = {''host'', ''x-amz-content-sha256'', ''x-amz-date''} \<union> lower ` fst ` set extra"
proof -
  have "fst ` set (fold (\<lambda>(k, v). map_put (lower k) (trim v)) extra m) = fst ` set m \<union> lower ` fst ` set extra" for m
    by (induction extra arbitrary: m) (auto simp: map_put_set image_iff)
  then show ?thesis unfolding signed_headers_def by (auto simp: map_put_set image_iff)
qed

lemma signed_headers_ok: "header_map_ok (signed_headers host ph date extra)"
proof -
  have "header_map_ok m \<Longrightarrow> header_map_ok (fold (\<lambda>(k, v). map_put (lower k) (trim v)) extra m)" for m
    by (induction extra arbitrary: m) (auto simp: map_put_ok)
  moreover have "header_map_ok []" by (simp add: header_map_ok_def)
  ultimately show ?thesis unfolding signed_headers_def by (simp add: map_put_ok)
qed

text \<open>Everything that goes out beside the signature is signed, under the name and with the value it goes out with.\<close>

lemma sent_headers_signed:
  assumes "(k, v) \<in> set (sign sha256_hex hmac clock s mth url payload extra date stamp)" "k \<noteq> ''Authorization''"
  shows "(k, v) \<in> set (signed_headers (pu_host (parse_url url)) (sha256_hex payload) (if date \<noteq> [] then date else clock) extra)"
  using assms unfolding sign_def Let_def by (auto simp: map_erase_def map_put_set split: if_splits)

lemma signed_headers_sent:
  assumes "(k, v) \<in> set (signed_headers (pu_host (parse_url url)) (sha256_hex payload) (if date \<noteq> [] then date else clock) extra)"
    "k \<noteq> ''host''" "k \<noteq> ''Authorization''"
  shows "(k, v) \<in> set (sign sha256_hex hmac clock s mth url payload extra date stamp)"
  using assms unfolding sign_def Let_def by (auto simp: map_erase_def map_put_set split: if_splits)

end
