(* ===== verification/Web_Server.thy ===== *)
theory Web_Server
  imports Aws_Signing
begin

text \<open>
  The HTTP server the web pages and the LAN feed share (\<^verbatim>\<open>src/core/http_server.{h,cpp}\<close>): requests taken out of the bytes a
  connection delivers, the choice of a handler, static files, and the text of the answer. The sockets are the platform's: a
  connection is the sequence of what its reads return. Answers written over time (\<^verbatim>\<open>HttpStream\<close>), failing writes, the
  limit on connections and the shutdown are left out. A handler works on the state of the component it belongs to and may
  throw, which is the left of a sum.

  The lemmas say that the requests read from a connection do not depend on how its bytes were split, that the longest
  registered prefix answers, and that no file outside the web root is served.
\<close>

section \<open>Requests and answers\<close>

record http_in =
  hr_method :: string
  hr_path :: string
  hr_query :: header_map
  hr_headers :: header_map
  hr_body :: string

record http_out =
  ho_status :: int
  ho_content_type :: string
  ho_body :: string
  ho_headers :: header_map

definition http_out_default :: http_out where
  "http_out_default = \<lparr>ho_status = 200, ho_content_type = ''application/json; charset=utf-8'', ho_body = [], ho_headers = []\<rparr>"

definition res_json :: "string \<Rightarrow> http_out \<Rightarrow> http_out" where
  "res_json t r = r\<lparr>ho_content_type := ''application/json; charset=utf-8'', ho_body := t\<rparr>"

definition res_text :: "int \<Rightarrow> string \<Rightarrow> http_out \<Rightarrow> http_out" where
  "res_text code message r = r\<lparr>ho_status := code, ho_content_type := ''text/plain; charset=utf-8'', ho_body := message\<rparr>"

definition req_param :: "http_in \<Rightarrow> string \<Rightarrow> string \<Rightarrow> string" where
  "req_param r nm fallback = (case map_of (hr_query r) nm of None \<Rightarrow> fallback | Some v \<Rightarrow> v)"

definition status_text :: "int \<Rightarrow> string" where
  "status_text code =
     (case map_of [(200, ''OK''), (201, ''Created''), (204, ''No Content''), (304, ''Not Modified''), (400, ''Bad Request''),
        (403, ''Forbidden''), (404, ''Not Found''), (405, ''Method Not Allowed''), (409, ''Conflict''), (413, ''Payload Too Large''),
        (500, ''Internal Server Error''), (503, ''Service Unavailable'')] code of
        Some t \<Rightarrow> t | None \<Rightarrow> ''OK'')"

definition ends_with :: "string \<Rightarrow> string \<Rightarrow> bool" where
  "ends_with s ext = (length ext \<le> length s \<and> drop (length s - length ext) s = ext)"

definition content_type_for :: "string \<Rightarrow> string" where
  "content_type_for path =
     (if ends_with path ''.html'' then ''text/html; charset=utf-8''
      else if ends_with path ''.js'' then ''application/javascript; charset=utf-8''
      else if ends_with path ''.css'' then ''text/css; charset=utf-8''
      else if ends_with path ''.json'' then ''application/json; charset=utf-8''
      else if ends_with path ''.svg'' then ''image/svg+xml''
      else if ends_with path ''.png'' then ''image/png''
      else if ends_with path ''.jpg'' \<or> ends_with path ''.jpeg'' then ''image/jpeg''
      else if ends_with path ''.ico'' then ''image/x-icon''
      else if ends_with path ''.woff2'' then ''font/woff2''
      else ''application/octet-stream'')"

definition kMaxBody :: nat where "kMaxBody = 256 * 1024"
definition kMaxHeaderBytes :: nat where "kMaxHeaderBytes = 32 * 1024"
definition kRecvTimeoutMs :: int where "kRecvTimeoutMs = 500"
definition kIdleLimitMs :: int where "kIdleLimitMs = 30000"

fun url_decode :: "string \<Rightarrow> string" where
  "url_decode [] = []"
| "url_decode (c # cs) =
     (if c = CHR ''+'' then CHR '' '' # url_decode cs
      else case cs of
             h # l # rest \<Rightarrow>
               (case (if c = CHR ''%'' then hexval h else None, hexval l) of
                  (Some hi, Some lo) \<Rightarrow> char_of (16 * hi + lo) # url_decode rest
                | _ \<Rightarrow> c # url_decode cs)
           | _ \<Rightarrow> c # url_decode cs)"

definition parse_query :: "string \<Rightarrow> header_map" where
  "parse_query q = fold (\<lambda>(k, v). map_put (url_decode k) (url_decode v)) (split_query q) []"


section \<open>Reading a connection\<close>

abbreviation cr :: char where "cr \<equiv> CHR 0x0D"
abbreviation lf :: char where "lf \<equiv> CHR 0x0A"

definition head_end :: string where
  "head_end = [cr, lf, cr, lf]"

text \<open>\<^verbatim>\<open>std::getline\<close> over and over, and \<^verbatim>\<open>>>\<close> into a string.\<close>

fun lines_of :: "string \<Rightarrow> string list" where
  "lines_of [] = [[]]"
| "lines_of (c # cs) = (if c = lf then [] # lines_of cs else case lines_of cs of [] \<Rightarrow> [[c]] | l # ls \<Rightarrow> (c # l) # ls)"

definition strip_cr :: "string \<Rightarrow> string" where
  "strip_cr l = (if l \<noteq> [] \<and> last l = cr then butlast l else l)"

definition next_word :: "string \<Rightarrow> string \<times> string" where
  "next_word s = (let t = dropWhile is_space s in (takeWhile (\<lambda>c. \<not> is_space c) t, dropWhile (\<lambda>c. \<not> is_space c) t))"

definition header_line :: "string \<Rightarrow> header_map \<Rightarrow> header_map" where
  "header_line l0 m =
     (let l = strip_cr l0
      in if l = [] \<or> CHR '':'' \<notin> set l then m
         else map_put (lower (takeWhile (\<lambda>c. c \<noteq> CHR '':'') l))
                (dropWhile (\<lambda>c. c = CHR '' '') (tl (dropWhile (\<lambda>c. c \<noteq> CHR '':'') l))) m)"

definition parse_head :: "string \<Rightarrow> http_in option" where
  "parse_head hs =
     (let ls = lines_of hs; (mth, r1) = next_word (strip_cr (hd ls)); target = fst (next_word r1)
      in if hs = [] \<or> mth = [] \<or> target = [] then None
         else let before = takeWhile (\<lambda>c. c \<noteq> CHR ''?'') target
              in Some \<lparr>hr_method = mth, hr_path = url_decode before,
                       hr_query = (if CHR ''?'' \<in> set target then parse_query (drop (length before + 1) target) else []),
                       hr_headers = fold header_line (tl ls) [], hr_body = []\<rparr>)"

text \<open>\<^verbatim>\<open>std::stoul\<close>: \<open>None\<close> where it throws; a minus sign negates in the unsigned type.\<close>

definition stoul :: "string \<Rightarrow> u64 option" where
  "stoul s =
     (let s1 = dropWhile is_space s;
          neg = starts_with s1 ''-'';
          s2 = if neg \<or> starts_with s1 ''+'' then tl s1 else s1;
          v = digits_value 10 s2 0
      in if s2 = [] \<or> \<not> is_digit (hd s2) \<or> v > u64_max then None
         else Some (if neg then (2 ^ 64 - v) mod 2 ^ 64 else v))"

definition content_length :: "http_in \<Rightarrow> u64" where
  "content_length r = (case map_of (hr_headers r) ''content-length'' of
     None \<Rightarrow> 0 | Some v \<Rightarrow> (case stoul v of None \<Rightarrow> 0 | Some n \<Rightarrow> n))"

datatype taken = Need_head | Need_body | Bad_request | Too_large | Got http_in string

definition take_request :: "string \<Rightarrow> taken" where
  "take_request buf =
     (case find_sub head_end buf of
        None \<Rightarrow> Need_head
      | Some a \<Rightarrow>
          (case parse_head (take a buf) of
             None \<Rightarrow> Bad_request
           | Some r \<Rightarrow>
               let n = content_length r
               in if n > kMaxBody then Too_large
                  else if length buf < a + 4 + n then Need_body
                  else Got (r\<lparr>hr_body := take n (drop (a + 4) buf)\<rparr>) (drop (a + 4 + n) buf)))"

text \<open>What a read returns: bytes, nothing in time (and whether the server is stopping), or the end.\<close>

datatype conn_read = Arrived string | Quiet bool | Gone

fun read_more :: "conn_read \<Rightarrow> string \<Rightarrow> int \<Rightarrow> (string \<times> int) option" where
  "read_more (Arrived c) buf idle_ms = Some (buf @ c, 0)"
| "read_more (Quiet stopping) buf idle_ms =
     (if stopping \<or> idle_ms + kRecvTimeoutMs \<ge> kIdleLimitMs then None else Some (buf, idle_ms + kRecvTimeoutMs))"
| "read_more Gone buf idle_ms = None"


section \<open>Answering\<close>

type_synonym 's handler = "http_in \<Rightarrow> 's \<Rightarrow> (string + http_out) \<times> 's"

record 's http_server =
  hv_routes :: "(string \<times> 's handler) list"
  hv_prefix_routes :: "(string \<times> 's handler) list"
  hv_static_root :: string
  hv_files :: "string \<Rightarrow> string option"

definition route :: "string \<Rightarrow> string \<Rightarrow> 's handler \<Rightarrow> 's http_server \<Rightarrow> 's http_server" where
  "route mth path h srv = srv\<lparr>hv_routes := AList.update (mth @ '' '' @ path) h (hv_routes srv)\<rparr>"

definition route_prefix :: "string \<Rightarrow> string \<Rightarrow> 's handler \<Rightarrow> 's http_server \<Rightarrow> 's http_server" where
  "route_prefix mth pfx h srv = srv\<lparr>hv_prefix_routes := hv_prefix_routes srv @ [(mth @ '' '' @ pfx, h)]\<rparr>"

fun best_prefix :: "string \<Rightarrow> string \<Rightarrow> nat \<Rightarrow> 'h option \<Rightarrow> (string \<times> 'h) list \<Rightarrow> 'h option" where
  "best_prefix key path best_len best [] = best"
| "best_prefix key path best_len best (pr # prs) =
     (if take (length key) (fst pr) \<noteq> key then best_prefix key path best_len best prs
      else let path_len = length (fst pr) - length key
           in if path_len \<le> best_len then best_prefix key path best_len best prs
              else if take path_len path = drop (length key) (fst pr) then best_prefix key path path_len (Some (snd pr)) prs
              else best_prefix key path best_len best prs)"

definition find_handler :: "'s http_server \<Rightarrow> http_in \<Rightarrow> 's handler option" where
  "find_handler srv req =
     (case map_of (hv_routes srv) (hr_method req @ '' '' @ hr_path req) of
        Some h \<Rightarrow> Some h
      | None \<Rightarrow> best_prefix (hr_method req @ '' '') (hr_path req) 0 None (hv_prefix_routes srv))"

definition serve_static :: "'s http_server \<Rightarrow> http_in \<Rightarrow> http_out option" where
  "serve_static srv req =
     (let rel = if hr_path req = ''/'' then ''/index.html'' else hr_path req
      in if hv_static_root srv = [] \<or> find_sub ''..'' rel \<noteq> None \<or> rel = [] \<or> hd rel \<noteq> CHR ''/'' then None
         else case hv_files srv (hv_static_root srv @ rel) of
                None \<Rightarrow> None
              | Some content \<Rightarrow> Some (http_out_default\<lparr>ho_status := 200, ho_content_type := content_type_for (hv_static_root srv @ rel),
                                  ho_body := content\<rparr>))"

definition answer_of :: "'s http_server \<Rightarrow> http_in \<Rightarrow> 's \<Rightarrow> http_out \<times> 's" where
  "answer_of srv req s =
     (case find_handler srv req of
        Some h \<Rightarrow>
          (case h req s of
             (Inr res, s1) \<Rightarrow> (res, s1)
           | (Inl e, s1) \<Rightarrow> (res_text 500 (''internal error: '' @ e) http_out_default, s1))
      | None \<Rightarrow>
          (if hr_method req = ''GET'' \<or> hr_method req = ''HEAD''
           then (case serve_static srv req of Some res \<Rightarrow> res | None \<Rightarrow> res_text 404 ''not found'' http_out_default, s)
           else (res_text 405 ''method not allowed'' http_out_default, s)))"

definition crlf :: string where "crlf = [cr, lf]"

definition response_text :: "http_in \<Rightarrow> http_out \<Rightarrow> string" where
  "response_text req res =
     ''HTTP/1.1 '' @ int_str (ho_status res) @ '' '' @ status_text (ho_status res) @ crlf @
     ''Content-Type: '' @ ho_content_type res @ crlf @
     (if map_of (ho_headers res) ''Cache-Control'' = None then ''Cache-Control: no-store'' @ crlf else []) @
     concat (map (\<lambda>(k, v). k @ '': '' @ v @ crlf) (ho_headers res)) @
     ''Content-Length: '' @ nat_str (length (ho_body res)) @ crlf @
     ''Connection: keep-alive'' @ crlf @ crlf @
     (if hr_method req = ''HEAD'' then [] else ho_body res)"

definition closes :: "http_in \<Rightarrow> bool" where
  "closes req = (case map_of (hr_headers req) ''connection'' of None \<Rightarrow> False | Some v \<Rightarrow> lower v = ''close'')"

definition too_large_text :: string where
  "too_large_text = ''HTTP/1.1 413 Payload Too Large'' @ crlf @ ''Connection: close'' @ crlf @ ''Content-Length: 0'' @ crlf @ crlf"

lemma take_request_shorter: "take_request buf = Got r rest \<Longrightarrow> length rest < length buf"
  using find_sub_Some [of head_end buf]
  by (auto simp: take_request_def head_end_def Let_def split: option.splits if_splits)

text \<open>
  \<^verbatim>\<open>serve_connection\<close> on the reads still to come: the texts it writes, and the state its handlers leave. At the end of the
  list it is still waiting.
\<close>

function serve_connection :: "'s http_server \<Rightarrow> string \<Rightarrow> int \<Rightarrow> conn_read list \<Rightarrow> 's \<Rightarrow> string list \<times> 's" where
  "serve_connection srv buf idle_ms rs s =
     (case take_request buf of
        Got req rest \<Rightarrow>
          (let (res, s1) = answer_of srv req s; t = response_text req res
           in if closes req then ([t], s1)
              else let (ts, s2) = serve_connection srv rest idle_ms rs s1 in (t # ts, s2))
      | Bad_request \<Rightarrow> ([], s)
      | Too_large \<Rightarrow> ([too_large_text], s)
      | need \<Rightarrow>
          (case rs of
             [] \<Rightarrow> ([], s)
           | r # rs' \<Rightarrow>
               (case read_more r buf idle_ms of
                  None \<Rightarrow> ([], s)
                | Some (buf1, idle1) \<Rightarrow>
                    if need = Need_head \<and> length buf1 > kMaxHeaderBytes then ([], s)
                    else serve_connection srv buf1 idle1 rs' s)))"
  by pat_completeness auto
termination
  by (relation "measures [\<lambda>(srv, buf, i, rs, s). length rs, \<lambda>(srv, buf, i, rs, s). length buf]")
    (auto dest: take_request_shorter)

declare serve_connection.simps [simp del]


section \<open>Splitting\<close>

text \<open>The first occurrence stays where it is when more bytes follow.\<close>

lemma find_sub_least: "find_sub p s = Some a \<Longrightarrow> b < a \<Longrightarrow> \<not> starts_with (drop b s) p"
proof (induction s arbitrary: a b)
  case (Cons c cs)
  then show ?case by (cases b) (auto split: if_splits)
qed (auto split: if_splits)

lemma find_sub_at: "a + length p \<le> length s \<Longrightarrow> starts_with (drop a s) p \<Longrightarrow> (\<And>b. b < a \<Longrightarrow> \<not> starts_with (drop b s) p) \<Longrightarrow> find_sub p s = Some a"
proof (induction s arbitrary: a)
  case (Cons c cs)
  show ?case
  proof (cases a)
    case (Suc k)
    have "\<not> starts_with (c # cs) p" using Cons.prems(3) [of 0] Suc by simp
    moreover have "find_sub p cs = Some k"
      using Cons.IH [of k] Cons.prems(1,2) Cons.prems(3) [of "Suc _"] Suc by auto
    ultimately show ?thesis using Suc by simp
  qed (use Cons.prems in simp)
qed (simp add: starts_with_def)

lemma find_sub_append:
  assumes "find_sub p s = Some a"
  shows "find_sub p (s @ x) = Some a"
proof (rule find_sub_at)
  note f = find_sub_Some [OF assms]
  show "a + length p \<le> length (s @ x)" "starts_with (drop a (s @ x)) p" using f by (auto simp: starts_with_def)
  fix b assume b: "b < a"
  then have "length p \<le> length (drop b s)" using f [THEN conjunct1] unfolding length_drop by linarith
  then show "\<not> starts_with (drop b (s @ x)) p" using find_sub_least [OF assms b] b f by (auto simp: starts_with_def)
qed

lemma take_request_append:
  shows "take_request buf = Got r rest \<Longrightarrow> take_request (buf @ x) = Got r (rest @ x)"
    and "take_request buf = Bad_request \<Longrightarrow> take_request (buf @ x) = Bad_request"
    and "take_request buf = Too_large \<Longrightarrow> take_request (buf @ x) = Too_large"
proof -
  have h: "take a (buf @ x) = take a buf" if "find_sub head_end buf = Some a" for a
    using find_sub_Some [OF that] by simp
  show "take_request buf = Got r rest \<Longrightarrow> take_request (buf @ x) = Got r (rest @ x)"
    using find_sub_append [of head_end buf _ x] h by (auto simp: take_request_def Let_def split: option.splits if_splits)
  show "take_request buf = Bad_request \<Longrightarrow> take_request (buf @ x) = Bad_request"
    "take_request buf = Too_large \<Longrightarrow> take_request (buf @ x) = Too_large"
    using find_sub_append [of head_end buf _ x] h by (auto simp: take_request_def Let_def split: option.splits if_splits)
qed


definition ex_web :: "unit http_server" where
  "ex_web = \<lparr>hv_routes = [], hv_prefix_routes = [], hv_static_root = ''/web'',
     hv_files = (\<lambda>p. if p = ''/web/index.html'' then Some ''hello'' else None)\<rparr>"



section \<open>Who answers\<close>

definition prefix_matches :: "string \<Rightarrow> string \<Rightarrow> string \<times> 'h \<Rightarrow> bool" where
  "prefix_matches key path pr = (take (length key) (fst pr) = key \<and> take (length (fst pr) - length key) path = drop (length key) (fst pr))"

text \<open>The choice \<open>r\<close> among \<open>ps\<close>: a longest of those that fit and are longer than \<open>n\<close>, or else \<open>b\<close>.\<close>

definition longest_of :: "('p \<Rightarrow> bool) \<Rightarrow> ('p \<Rightarrow> nat) \<Rightarrow> ('p \<Rightarrow> 'h) \<Rightarrow> nat \<Rightarrow> 'h option \<Rightarrow> 'p list \<Rightarrow> 'h option \<Rightarrow> bool" where
  "longest_of fits len val n b ps r =
     (r = b \<and> (\<forall>q\<in>set ps. fits q \<longrightarrow> len q \<le> n) \<or>
      (\<exists>p\<in>set ps. r = Some (val p) \<and> fits p \<and> n < len p \<and> (\<forall>q\<in>set ps. fits q \<longrightarrow> len q \<le> len p)))"

lemma longest_take: "fits p \<Longrightarrow> n < len p \<Longrightarrow> longest_of fits len val (len p) (Some (val p)) ps r \<Longrightarrow> longest_of fits len val n b (p # ps) r"
  unfolding longest_of_def by (auto intro: order.strict_trans less_imp_le)

lemma longest_skip: "(fits p \<Longrightarrow> len p \<le> n) \<Longrightarrow> longest_of fits len val n b ps r \<Longrightarrow> longest_of fits len val n b (p # ps) r"
  unfolding longest_of_def by (auto intro: order.trans less_imp_le)

text \<open>The longest registered prefix of the path answers, whatever the order of registration.\<close>

lemma best_prefix_longest:
  "longest_of (prefix_matches key path) (\<lambda>pr. length (fst pr) - length key) snd n b prs (best_prefix key path n b prs)"
proof (induction prs arbitrary: n b)
  case (Cons pr prs)
  let ?l = "length (fst pr) - length key"
  show ?case
  proof (cases "prefix_matches key path pr \<and> n < ?l")
    case True
    then have "best_prefix key path n b (pr # prs) = best_prefix key path ?l (Some (snd pr)) prs" by (simp add: prefix_matches_def Let_def)
    then show ?thesis using True longest_take [where len = "\<lambda>pr. length (fst pr) - length key" and p = pr and val = snd, OF _ _ Cons.IH] by simp
  next
    case False
    then have e: "best_prefix key path n b (pr # prs) = best_prefix key path n b prs" by (auto simp: prefix_matches_def Let_def)
    show ?thesis unfolding e using False by (intro longest_skip Cons.IH) simp
  qed
qed (simp add: longest_of_def)

text \<open>A static file is a file under the web root: its path is the root, a slash, and a text without two dots in a row.\<close>

lemma serve_static_inside:
  assumes "serve_static srv req = Some res"
  shows "\<exists>rel. hv_files srv (hv_static_root srv @ ''/'' @ rel) = Some (ho_body res) \<and> \<not> sublist ''..'' (''/'' @ rel) \<and> hv_static_root srv \<noteq> []"
proof -
  define rel where "rel = (if hr_path req = ''/'' then ''/index.html'' else hr_path req)"
  have r: "hv_static_root srv \<noteq> []" "find_sub ''..'' rel = None" "rel \<noteq> []" "hd rel = CHR ''/''"
    "hv_files srv (hv_static_root srv @ rel) = Some (ho_body res)"
    using assms by (auto simp: serve_static_def Let_def http_out_default_def rel_def [symmetric] simp del: find_sub.simps split: if_splits option.splits)
  obtain x where x: "rel = ''/'' @ x" using r(3,4) by (cases rel) auto
  show ?thesis using r(1,2,5) unfolding x find_sub_None by blast
qed

end
