(* ===== verification/S3_Access.thy ===== *)
theory S3_Access
  imports Aws_Signing
begin

text \<open>
  Requests to an S3 bucket (\<^verbatim>\<open>src/core/s3_transport.{h,cpp}\<close>): the address built from what the operator pasted, the signed
  request for each kind of access, what an answer is taken for, and what is noticed about the connection on the way. The
  transfer itself is libcurl's: a request is the method, address, header lines and body it is given, and how it ends is an
  input, either the text of its error or a status and a body.

  The lemmas say that a request for any key the program makes goes to the address that was signed, that a listing asks for
  the prefix it was given whatever characters it has, that temporary credentials are signed into every request, and which
  answers count as final.
\<close>

section \<open>Addresses\<close>

record s3_config =
  cf_endpoint_host :: string
  cf_r2_account_id :: string
  cf_bucket :: string
  cf_access_key_id :: string
  cf_secret_access_key :: string
  cf_region :: string
  cf_use_https :: bool
  cf_session_token :: string

definition trim_chars :: "string \<Rightarrow> string \<Rightarrow> string" where
  "trim_chars ws v = rev (dropWhile (\<lambda>c. c \<in> set ws) (rev (dropWhile (\<lambda>c. c \<in> set ws) v)))"

definition paste_space :: string where
  "paste_space = [CHR '' '', CHR 0x09, CHR 0x0D, CHR 0x0A]"

definition strip_scheme :: "string \<Rightarrow> string" where
  "strip_scheme v =
     (if length v > 8 \<and> starts_with v ''https://'' then drop 8 v
      else if length v > 7 \<and> starts_with v ''http://'' then drop 7 v else v)"

definition clean_host :: "string \<Rightarrow> string" where
  "clean_host v = takeWhile (\<lambda>c. c \<noteq> CHR ''/'') (strip_scheme (trim_chars paste_space v))"

definition clean_segment :: "string \<Rightarrow> string" where
  "clean_segment v = trim_chars (CHR ''/'' # paste_space) v"

definition s3_host :: "s3_config \<Rightarrow> string" where
  "s3_host cfg =
     (let ep = clean_host (cf_endpoint_host cfg); acct = clean_host (cf_r2_account_id cfg)
      in if ep \<noteq> [] then ep
         else if acct = [] then []
         else if CHR ''.'' \<in> set acct then acct
         else acct @ ''.r2.cloudflarestorage.com'')"

definition s3_scheme :: "s3_config \<Rightarrow> string" where
  "s3_scheme cfg = (if cf_use_https cfg then ''https://'' else ''http://'')"

definition bucket_url :: "s3_config \<Rightarrow> string" where
  "bucket_url cfg = s3_scheme cfg @ s3_host cfg @ ''/'' @ clean_segment (cf_bucket cfg)"

definition url_for :: "s3_config \<Rightarrow> string \<Rightarrow> string" where
  "url_for cfg key = bucket_url cfg @ ''/'' @ key"

definition base_url :: "s3_config \<Rightarrow> string" where
  "base_url cfg = (if s3_host cfg = [] then ''<no endpoint configured>'' else bucket_url cfg)"


section \<open>Requests\<close>

record http_request =
  rq_method :: string
  rq_url :: string
  rq_headers :: "string list"
  rq_body :: bytes

definition add_session_token :: "s3_config \<Rightarrow> header_map \<Rightarrow> header_map" where
  "add_session_token cfg extra = (if cf_session_token cfg \<noteq> [] then map_put ''X-Amz-Security-Token'' (cf_session_token cfg) extra else extra)"

definition tag_header :: "header_map \<Rightarrow> string" where
  "tag_header tags = foldl (\<lambda>out (k, v). (if out \<noteq> [] then out @ ''&'' else out) @ uri_encode k True @ ''='' @ uri_encode v True) [] tags"

definition s3_signer :: "s3_config \<Rightarrow> sigv4_signer" where
  "s3_signer cfg = \<lparr>sv_access_key = cf_access_key_id cfg, sv_secret_key = cf_secret_access_key cfg, sv_region = cf_region cfg, sv_service = ''s3''\<rparr>"

definition s3_request ::
    "(bytes \<Rightarrow> string) \<Rightarrow> (bytes \<Rightarrow> string \<Rightarrow> bytes) \<Rightarrow> string \<Rightarrow> s3_config \<Rightarrow> string \<Rightarrow> string \<Rightarrow> bytes \<Rightarrow> header_map \<Rightarrow> http_request" where
  "s3_request sha256_hex hmac_sha256 clock cfg mth url data extra =
     \<lparr>rq_method = mth, rq_url = url,
      rq_headers = header_lines (sign sha256_hex hmac_sha256 clock (s3_signer cfg) mth url data (add_session_token cfg extra) [] []),
      rq_body = data\<rparr>"

definition put_extra :: "string \<Rightarrow> header_map \<Rightarrow> header_map" where
  "put_extra content_type tags =
     (let e1 = if content_type \<noteq> [] then map_put ''Content-Type'' content_type [] else [];
          tg = tag_header tags;
          e2 = if tg \<noteq> [] then map_put ''x-amz-tagging'' tg e1 else e1
      in map_put ''Cache-Control'' ''max-age=604800'' e2)"

definition put_request where
  "put_request sha256_hex hmac_sha256 clock cfg key data content_type tags =
     s3_request sha256_hex hmac_sha256 clock cfg ''PUT'' (url_for cfg key) data (put_extra content_type tags)"

definition get_request where
  "get_request sha256_hex hmac_sha256 clock cfg key = s3_request sha256_hex hmac_sha256 clock cfg ''GET'' (url_for cfg key) [] []"

definition delete_request where
  "delete_request sha256_hex hmac_sha256 clock cfg key = s3_request sha256_hex hmac_sha256 clock cfg ''DELETE'' (url_for cfg key) [] []"

definition head_request where
  "head_request sha256_hex hmac_sha256 clock cfg key = s3_request sha256_hex hmac_sha256 clock cfg ''HEAD'' (url_for cfg key) [] []"

definition list_param :: "string \<Rightarrow> string \<Rightarrow> string" where
  "list_param k v = ''&'' @ k @ ''='' @ uri_encode v True"

definition list_url :: "s3_config \<Rightarrow> string \<Rightarrow> string \<Rightarrow> string \<Rightarrow> int \<Rightarrow> string" where
  "list_url cfg pfx delimiter continuation_token max_keys =
     bucket_url cfg @ ''/?list-type=2'' @
     (if pfx \<noteq> [] then list_param ''prefix'' pfx else []) @
     (if delimiter \<noteq> [] then list_param ''delimiter'' delimiter else []) @
     (if continuation_token \<noteq> [] then list_param ''continuation-token'' continuation_token else []) @
     (if max_keys > 0 then list_param ''max-keys'' (int_str max_keys) else [])"

definition list_request where
  "list_request sha256_hex hmac_sha256 clock cfg pfx delimiter continuation_token max_keys =
     s3_request sha256_hex hmac_sha256 clock cfg ''GET'' (list_url cfg pfx delimiter continuation_token max_keys) [] []"


section \<open>Answers\<close>

text \<open>How a request of libcurl ends: with an error and what had arrived by then, or with a status and a body.\<close>

datatype 'b http_answer = Not_performed string 'b | Answered int 'b

definition status_ok :: "int \<Rightarrow> bool" where
  "status_ok code = (200 \<le> code \<and> code < 300)"

definition status_retryable :: "int \<Rightarrow> bool" where
  "status_retryable code = (\<not> (400 \<le> code \<and> code < 500) \<or> code = 408 \<or> code = 429)"

definition put_result_default :: put_result where
  "put_result_default = \<lparr>pr_success = False, pr_http_status = 0, pr_retryable = True, pr_error = []\<rparr>"

definition status_error :: "int \<Rightarrow> string" where
  "status_error code = ''HTTP '' @ int_str code"

fun put_answer :: "string http_answer \<Rightarrow> put_result" where
  "put_answer (Not_performed e b) = put_result_default\<lparr>pr_error := e\<rparr>"
| "put_answer (Answered code resp) =
     (if status_ok code then put_result_default\<lparr>pr_success := True, pr_http_status := code\<rparr>
      else put_result_default\<lparr>pr_http_status := code, pr_retryable := status_retryable code,
             pr_error := status_error code @ '' '' @ take 400 resp\<rparr>)"

text \<open>\<^verbatim>\<open>do_get\<close>, and \<^verbatim>\<open>get\<close> on top of it.\<close>

fun do_get_answer :: "body http_answer \<Rightarrow> put_result" where
  "do_get_answer (Not_performed e b) = put_result_default\<lparr>pr_error := e\<rparr>"
| "do_get_answer (Answered code b) =
     put_result_default\<lparr>pr_success := status_ok code, pr_http_status := code, pr_error := (if status_ok code then [] else status_error code)\<rparr>"

definition got_answer :: "body http_answer \<Rightarrow> get_result" where
  "got_answer a =
     (let r = do_get_answer a
      in \<lparr>gr_success = pr_success r, gr_http_status = pr_http_status r, gr_retryable = status_retryable (pr_http_status r),
          gr_error = pr_error r, gr_body = (case a of Answered code b \<Rightarrow> b | Not_performed e b \<Rightarrow> b)\<rparr>)"

fun delete_answer :: "unit http_answer \<Rightarrow> delete_result" where
  "delete_answer (Not_performed e b) = \<lparr>dl_success = False, dl_http_status = 0, dl_retryable = True, dl_error = e\<rparr>"
| "delete_answer (Answered code u) =
     \<lparr>dl_success = (status_ok code \<or> code = 404), dl_http_status = code, dl_retryable = (code \<in> {500, 503, 502, 408, 429}),
      dl_error = (if status_ok code \<or> code = 404 then [] else status_error code)\<rparr>"

definition list_result_default :: list_result where
  "list_result_default = \<lparr>lr_success = False, lr_http_status = 0, lr_retryable = True, lr_error = [], lr_common_prefixes = [], lr_keys = [],
     lr_truncated = False, lr_next_continuation_token = []\<rparr>"

fun list_answer :: "string http_answer \<Rightarrow> list_result" where
  "list_answer (Not_performed e b) = list_result_default\<lparr>lr_error := e\<rparr>"
| "list_answer (Answered code xml) =
     (let out = list_result_default\<lparr>lr_http_status := code, lr_retryable := status_retryable code\<rparr>
      in if \<not> status_ok code
         then let err = lr_error (fst (parse_list_objects_v2 xml list_result_default))
              in out\<lparr>lr_error := status_error code @ (if err \<noteq> [] then '' '' @ err else []) @
                   (if code = 403 then '' '' @ em_dash @ '' listing requires the s3:ListBucket permission; this key appears to be object-scoped''
                    else [])\<rparr>
         else let (out1, ok) = parse_list_objects_v2 xml out
              in if \<not> ok
                 then out1\<lparr>lr_retryable := False, lr_error := (if lr_error out1 = [] then ''unparseable listing response'' else lr_error out1)\<rparr>
                 else out1\<lparr>lr_success := True\<rparr>)"

text \<open>\<^verbatim>\<open>object_size\<close>; the answer to a HEAD is the length libcurl reports.\<close>

fun size_answer :: "i64 http_answer \<Rightarrow> i64" where
  "size_answer (Not_performed e b) = - 1"
| "size_answer (Answered code len) = (if status_ok code then len else - 1)"

text \<open>\<^verbatim>\<open>self_test\<close>: the probe object is written and read back.\<close>

definition probe_text :: string where
  "probe_text = ''obs-multisite connectivity probe''"

definition self_test :: "string http_answer \<Rightarrow> bytes http_answer \<Rightarrow> string" where
  "self_test pa ga =
     (let p = put_answer pa; g = do_get_answer (case ga of Answered code b \<Rightarrow> Answered code (Bytes b) | Not_performed e b \<Rightarrow> Not_performed e (Bytes b));
          got = (case ga of Answered code b \<Rightarrow> b | Not_performed e b \<Rightarrow> b)
      in if \<not> pr_success p then ''write failed: '' @ pr_error p
         else if \<not> pr_success g then ''read-back failed: '' @ pr_error g
         else if length got \<noteq> length probe_text
         then ''read-back mismatch (wrote '' @ nat_str (length probe_text) @ '' bytes, read '' @ nat_str (length got) @ '')''
         else [])"


section \<open>What the traffic shows\<close>

record header_ctx =
  hc_cf_ray :: string
  hc_server :: string
  hc_date :: string

definition header_ctx_init :: header_ctx where
  "header_ctx_init = \<lparr>hc_cf_ray = [], hc_server = [], hc_date = []\<rparr>"

definition collect_headers :: "string \<Rightarrow> header_ctx \<Rightarrow> header_ctx" where
  "collect_headers line hc =
     (case header_is line ''cf-ray'' of
        Some v \<Rightarrow> hc\<lparr>hc_cf_ray := v\<rparr>
      | None \<Rightarrow>
          (case header_is line ''server'' of
             Some v \<Rightarrow> hc\<lparr>hc_server := v\<rparr>
           | None \<Rightarrow> (case header_is line ''date'' of Some v \<Rightarrow> hc\<lparr>hc_date := v\<rparr> | None \<Rightarrow> hc)))"

record s3_seen =
  se_last_colo :: string
  se_last_server :: string
  se_last_skew_ms :: i64
  se_down :: rate_meter
  se_up :: rate_meter

definition transfer_s :: "i64 \<Rightarrow> i64 \<Rightarrow> double" where
  "transfer_s start_us total_us = (if total_us > start_us then real_of_int (total_us - start_us) / 1000000 else 0)"

definition s3_observe :: "i64 \<Rightarrow> header_ctx \<Rightarrow> u64 \<Rightarrow> double \<Rightarrow> bool \<Rightarrow> s3_seen \<Rightarrow> s3_seen" where
  "s3_observe local_ms hc bytes seconds uploading s =
     (let colo = cloudflare_colo (hc_cf_ray hc);
          s1 = if colo \<noteq> [] then s\<lparr>se_last_colo := colo\<rparr> else s;
          s2 = if hc_server hc \<noteq> [] then s1\<lparr>se_last_server := hc_server hc\<rparr> else s1;
          s3 = (case if hc_date hc \<noteq> [] then parse_http_date_ms (hc_date hc) else None of
                  Some server_ms \<Rightarrow> s2\<lparr>se_last_skew_ms := server_ms - local_ms\<rparr>
                | None \<Rightarrow> s2)
      in if uploading then s3\<lparr>se_up := rate_add bytes seconds (se_up s3)\<rparr> else s3\<lparr>se_down := rate_add bytes seconds (se_down s3)\<rparr>)"

record storage_probe =
  sb_reachable :: bool
  sb_readable :: bool
  sb_http_status :: int
  sb_error :: string
  sb_round_trip_ms :: i64
  sb_colo :: string
  sb_server :: string
  sb_endpoint :: string

definition probe_error :: "string \<Rightarrow> put_result \<Rightarrow> string" where
  "probe_error key r =
     (if pr_success r then []
      else if \<not> pr_http_status r > 0 then (if pr_error r = [] then ''the endpoint could not be reached'' else pr_error r)
      else if pr_http_status r = 404
      then ''reached the bucket, but '' @ key @ '' is not there '' @ em_dash @
           '' check the feed name, or nothing has been broadcast to it yet''
      else if pr_http_status r = 403 \<or> pr_http_status r = 401
      then ''reached the bucket, but the key was refused '' @ em_dash @ '' check the access key, the secret and the bucket name''
      else ''reached the bucket, but it answered HTTP '' @ int_str (pr_http_status r))"

definition storage_probe_of :: "s3_config \<Rightarrow> string \<Rightarrow> body http_answer \<Rightarrow> header_ctx \<Rightarrow> i64 \<Rightarrow> storage_probe" where
  "storage_probe_of cfg key a hc ms =
     (if s3_host cfg = []
      then \<lparr>sb_reachable = False, sb_readable = False, sb_http_status = 0, sb_error = ''no endpoint or account id has been set'',
            sb_round_trip_ms = 0, sb_colo = [], sb_server = [], sb_endpoint = []\<rparr>
      else let r = do_get_answer a
           in \<lparr>sb_reachable = pr_http_status r > 0, sb_readable = pr_success r, sb_http_status = pr_http_status r, sb_error = probe_error key r,
               sb_round_trip_ms = ms, sb_colo = cloudflare_colo (hc_cf_ray hc), sb_server = hc_server hc, sb_endpoint = s3_host cfg\<rparr>)"


section \<open>The address that is signed is the one that is asked\<close>

text \<open>Characters that mean themselves in a path.\<close>

definition path_plain :: "string \<Rightarrow> bool" where
  "path_plain s = list_all (\<lambda>c. unreserved c \<or> c = CHR ''/'') s"

definition s3_config_ok :: "s3_config \<Rightarrow> bool" where
  "s3_config_ok cfg = (CHR ''?'' \<notin> set (s3_host cfg) \<and> path_plain (clean_segment (cf_bucket cfg)))"

lemma path_plain_append [simp]: "path_plain (s @ t) = (path_plain s \<and> path_plain t)"
  by (simp add: path_plain_def)

lemma path_plain_chars: "path_plain s \<Longrightarrow> CHR ''?'' \<notin> set s"
  by (auto simp: path_plain_def list_all_iff unreserved_def is_upper_def is_lower_def is_digit_code less_eq_char_def)

lemma clean_host_no_slash: "CHR ''/'' \<notin> set (clean_host v)"
  by (auto simp: clean_host_def dest: set_takeWhileD)

lemma s3_host_no_slash: "CHR ''/'' \<notin> set (s3_host cfg)"
  using clean_host_no_slash [of "cf_endpoint_host cfg"] clean_host_no_slash [of "cf_r2_account_id cfg"]
  by (auto simp: s3_host_def Let_def)

lemma after_scheme: "(case find_sub ''://'' (s3_scheme cfg @ s) of None \<Rightarrow> s3_scheme cfg @ s | Some a \<Rightarrow> drop (a + 3) (s3_scheme cfg @ s)) = s"
  by (simp add: s3_scheme_def starts_with_def)

lemma parse_bucket_url:
  assumes "s3_config_ok cfg" "CHR ''?'' \<notin> set key"
  shows "parse_url (url_for cfg (key @ q)) =
    \<lparr>pu_host = s3_host cfg, pu_path = ''/'' @ clean_segment (cf_bucket cfg) @ ''/'' @ key @ takeWhile (\<lambda>c. c \<noteq> CHR ''?'') q,
     pu_query = tl (dropWhile (\<lambda>c. c \<noteq> CHR ''?'') q)\<rparr>"
proof -
  let ?b = "clean_segment (cf_bucket cfg)"
  let ?p = "''/'' @ ?b @ ''/'' @ key @ q"
  have h: "CHR ''?'' \<notin> set (s3_host cfg)" "CHR ''/'' \<notin> set (s3_host cfg)" "CHR ''?'' \<notin> set ?b"
    using assms(1) s3_host_no_slash path_plain_chars by (auto simp: s3_config_ok_def)
  have u: "url_for cfg (key @ q) = s3_scheme cfg @ s3_host cfg @ ?p" by (simp add: url_for_def bucket_url_def)
  have w: "takeWhile (\<lambda>c. c \<noteq> d) (x @ y) = x @ takeWhile (\<lambda>c. c \<noteq> d) y"
    "dropWhile (\<lambda>c. c \<noteq> d) (x @ y) = dropWhile (\<lambda>c. c \<noteq> d) y" if "d \<notin> set x" for d :: char and x y
    by (rule takeWhile_append2, use that in blast) (rule dropWhile_append2, use that in blast)
  have t: "takeWhile (\<lambda>c. c \<noteq> CHR ''/'') (s3_host cfg @ ?p) = s3_host cfg" "dropWhile (\<lambda>c. c \<noteq> CHR ''/'') (s3_host cfg @ ?p) = ?p"
    using w [OF h(2), of ?p] by simp_all
  have e: "takeWhile (\<lambda>c. c \<noteq> CHR ''?'') q = q \<and> dropWhile (\<lambda>c. c \<noteq> CHR ''?'') q = []" if "CHR ''?'' \<notin> set q"
    using w [OF that, of "[]"] by simp
  have ne: "CHR ''?'' \<notin> set (''/'' @ ?b @ ''/'' @ key)" using h assms(2) by simp
  have p: "takeWhile (\<lambda>c. c \<noteq> CHR ''?'') ?p = ''/'' @ ?b @ ''/'' @ key @ takeWhile (\<lambda>c. c \<noteq> CHR ''?'') q"
    using w(1) [OF ne, of q] by simp
  have d: "dropWhile (\<lambda>c. c \<noteq> CHR ''?'') (s3_host cfg @ ?p) = dropWhile (\<lambda>c. c \<noteq> CHR ''?'') q"
    using w(2) [OF h(1), of ?p] w(2) [OF ne, of q] by simp
  have m: "(CHR ''?'' \<notin> set (s3_host cfg @ ?p)) = (CHR ''?'' \<notin> set q)" using h assms(2) by simp
  show ?thesis
  proof (cases "CHR ''?'' \<in> set q")
    case True
    then show ?thesis unfolding parse_url_def u after_scheme Let_def t m p d using h(1) by simp
  next
    case False
    then show ?thesis unfolding parse_url_def u after_scheme Let_def t m p d by (simp add: e)
  qed
qed

text \<open>The objects of an event.\<close>

definition event_object :: "string \<Rightarrow> string \<Rightarrow> bool" where
  "event_object ev key = ((\<exists>n. key = segment_key_for ev n) \<or>
     (\<exists>x\<in>{''manifest.json'', ''event.json'', ''init.mp4'', ''markers.json''}. key = event_prefix_for ev @ x))"

lemma seq_name_plain: "path_plain (seq_name n)"
  using nat_str_digits [of _ n]
  by (auto simp: path_plain_def seq_name_def pad8_def list_all_iff unreserved_def is_digit_code dest!: in_set_takeD)

lemma event_object_plain:
  assumes "list_all unreserved ev" "event_object ev key"
  shows "path_plain key"
proof -
  have e: "path_plain ev" using assms(1) by (auto simp: path_plain_def list_all_iff)
  have p: "path_plain ''events/''" "path_plain ''/''" "path_plain ''segments/''" "path_plain ''.m4s''"
    "list_all path_plain [''manifest.json'', ''event.json'', ''init.mp4'', ''markers.json'']" by code_simp+
  have "path_plain (event_prefix_for ev)" unfolding event_prefix_for_def path_plain_append using e p by blast
  moreover have "path_plain (segment_key_for ev n)" for n
    unfolding segment_key_for_def event_prefix_for_def path_plain_append using e p seq_name_plain by blast
  ultimately show ?thesis using assms(2) p(5) by (auto simp: event_object_def)
qed


definition ex_r2 :: s3_config where
  "ex_r2 = \<lparr>cf_endpoint_host = [], cf_r2_account_id = '' https://abc.example.com/ '', cf_bucket = '' media/ '', cf_access_key_id = ''k'',
     cf_secret_access_key = ''s'', cf_region = ''auto'', cf_use_https = True, cf_session_token = ''t''\<rparr>"


text \<open>A key with a question mark in it is cut: what follows is taken for parameters and is not part of the path.\<close>

lemma question_mark_cuts_key:
  "parse_url (url_for ex_r2 (live_pointer_key ''who?'')) = \<lparr>pu_host = ''abc.example.com'', pu_path = ''/media/rooms/who'', pu_query = ''/live.json''\<rparr>"
  by code_simp


section \<open>Listings\<close>

lemma list_param_chars: "k \<noteq> [] \<Longrightarrow> CHR ''='' \<notin> set k \<Longrightarrow> CHR ''&'' \<notin> set k \<Longrightarrow> param_ok (k, uri_encode v True)"
  using uri_encode_chars [of "CHR ''&''" v True]
  by (auto simp: param_ok_def unreserved_def is_upper_def is_lower_def is_digit_code less_eq_char_def)

definition list_params :: "string \<Rightarrow> string \<Rightarrow> string \<Rightarrow> int \<Rightarrow> query_param list" where
  "list_params pfx delimiter token max_keys =
     (if pfx \<noteq> [] then [(''prefix'', pfx)] else []) @ (if delimiter \<noteq> [] then [(''delimiter'', delimiter)] else []) @
     (if token \<noteq> [] then [(''continuation-token'', token)] else []) @ (if max_keys > 0 then [(''max-keys'', int_str max_keys)] else [])"

lemma percent_decode_id: "CHR ''%'' \<notin> set s \<Longrightarrow> percent_decode s = s"
  by (induction s) (auto simp: percent_decode_plain)

lemma list_params_names:
  "p \<in> set (list_params pfx d t n) \<Longrightarrow> fst p \<in> {''prefix'', ''delimiter'', ''continuation-token'', ''max-keys''}"
  by (auto simp: list_params_def split: if_splits)

lemma list_url_query:
  "list_url cfg pfx d t n = url_for cfg ([] @ ''?'' @ join_query ((''list-type'', ''2'') # map (\<lambda>p. (fst p, uri_encode (snd p) True)) (list_params pfx d t n)))"
  by (simp add: list_url_def url_for_def list_params_def join_query_Cons param_text_def list_param_def)

text \<open>
  C31: A listing asks for what it was asked for. Whatever characters the prefix, the delimiter and the continuation token
  have, the parameters the store reads from the address are those values, and so are those of the signed form of it, in the
  order the signature wants.
\<close>

theorem list_asks_for:
  assumes "s3_config_ok cfg"
  shows "decoded_params (pu_query (parse_url (list_url cfg pfx d t n))) = (''list-type'', ''2'') # list_params pfx d t n \<and>
    mset (decoded_params (canonical_query (pu_query (parse_url (list_url cfg pfx d t n))))) =
      mset ((''list-type'', ''2'') # list_params pfx d t n)"
proof -
  let ?ps = "(''list-type'', ''2'') # map (\<lambda>p. (fst p, uri_encode (snd p) True)) (list_params pfx d t n)"
  have q: "pu_query (parse_url (list_url cfg pfx d t n)) = join_query ?ps"
    unfolding list_url_query using parse_bucket_url [OF assms, of "[]"] by simp
  have "param_ok (fst p, uri_encode (snd p) True)" if "p \<in> set (list_params pfx d t n)" for p
    using list_params_names [OF that] by (intro list_param_chars) auto
  then have "list_all param_ok ?ps" by (auto simp: list_all_iff param_ok_def)
  then have s: "split_query (join_query ?ps) = ?ps" by (rule split_join_query)
  have "percent_decode (fst p) = fst p" if "p \<in> set (list_params pfx d t n)" for p
    using list_params_names [OF that] by (intro percent_decode_id) auto
  then have "map (\<lambda>p. (percent_decode (fst p), percent_decode (snd p))) ?ps = (''list-type'', ''2'') # list_params pfx d t n"
    using percent_decode_id [of "''list-type''"] percent_decode_id [of "''2''"]
    by (simp add: comp_def percent_roundtrip) (rule map_idI, simp)
  then have "decoded_params (pu_query (parse_url (list_url cfg pfx d t n))) = (''list-type'', ''2'') # list_params pfx d t n"
    unfolding q decoded_params_def s .
  then show ?thesis using canonical_decoded [of "pu_query (parse_url (list_url cfg pfx d t n))"] by simp
qed

theorem list_asks_for_witness:
  "decoded_params (pu_query (parse_url (list_url ex_r2 ''rooms/Grace & Co?/'' ''/'' [] 0))) =
     [(''list-type'', ''2''), (''prefix'', ''rooms/Grace & Co?/''), (''delimiter'', ''/'')]"
proof -
  have "s3_config_ok ex_r2" by code_simp
  then show ?thesis using list_asks_for [of ex_r2 "''rooms/Grace & Co?/''" "''/''" "[]" 0] by (simp add: list_params_def)
qed


section \<open>Credentials and answers\<close>

text \<open>A session token is part of every request, and signed.\<close>

lemma fold_put_kept:
  assumes "(k, v) \<in> set m" "\<forall>(k', v')\<in>set extra. lower k' = k \<longrightarrow> trim v' = v"
  shows "(k, v) \<in> set (fold (\<lambda>(k, v). map_put (lower k) (trim v)) extra m)"
  using assms by (induction extra arbitrary: m) (auto simp: map_put_set)

lemma fold_put_added:
  assumes "(k, v) \<in> set extra" "\<forall>(k', v')\<in>set extra. lower k' = lower k \<longrightarrow> trim v' = trim v"
  shows "(lower k, trim v) \<in> set (fold (\<lambda>(k, v). map_put (lower k) (trim v)) extra m)"
  using assms
proof (induction extra arbitrary: m)
  case (Cons e extra)
  show ?case
  proof (cases "(k, v) \<in> set extra")
    case True
    then show ?thesis using Cons by (cases e) auto
  next
    case False
    then have "e = (k, v)" using Cons.prems(1) by simp
    then show ?thesis using Cons.prems(2) fold_put_kept [of "lower k" "trim v" "map_put (lower k) (trim v) m" extra] by (auto simp: map_put_set)
  qed
qed simp

lemma session_token_signed:
  assumes "cf_session_token cfg \<noteq> []" "\<forall>(k, v)\<in>set extra. lower k \<noteq> ''x-amz-security-token''"
  shows "(''x-amz-security-token'', trim (cf_session_token cfg)) \<in> set (signed_headers host ph date (add_session_token cfg extra))"
proof -
  have l: "lower ''X-Amz-Security-Token'' = ''x-amz-security-token''" by code_simp
  have "set (add_session_token cfg extra) \<subseteq> insert (''X-Amz-Security-Token'', cf_session_token cfg) (set extra)"
    "(''X-Amz-Security-Token'', cf_session_token cfg) \<in> set (add_session_token cfg extra)"
    using assms(1) by (auto simp: add_session_token_def map_put_set)
  then show ?thesis unfolding signed_headers_def l [symmetric] using assms(2) l by (intro fold_put_added) auto
qed

lemma put_extra_names: "(k, v) \<in> set (put_extra content_type tags) \<Longrightarrow> k \<in> {''Content-Type'', ''x-amz-tagging'', ''Cache-Control''}"
  by (auto simp: put_extra_def Let_def map_put_set split: if_splits)

text \<open>
  Which answers end a retry. A request is given up on exactly when the store refused it with a client error that is
  neither a timeout nor a throttle; no answer at all, a server error and a redirect are all tried again; and an upload that
  did not succeed always says why.
\<close>

lemma answers_classified:
  "(\<not> pr_retryable (put_answer a)) = (\<exists>code resp. a = Answered code resp \<and> 400 \<le> code \<and> code < 500 \<and> code \<noteq> 408 \<and> code \<noteq> 429) \<and>
   (\<not> gr_retryable (got_answer b)) = (\<exists>code resp. b = Answered code resp \<and> 400 \<le> code \<and> code < 500 \<and> code \<noteq> 408 \<and> code \<noteq> 429) \<and>
   pr_success (put_answer a) = (\<exists>code resp. a = Answered code resp \<and> 200 \<le> code \<and> code < 300) \<and>
   gr_success (got_answer b) = (\<exists>code resp. b = Answered code resp \<and> 200 \<le> code \<and> code < 300)"
  by (cases a; cases b) (auto simp: status_retryable_def status_ok_def got_answer_def put_result_default_def Let_def)

text \<open>An answer the listing cannot be read from is never taken for an empty bucket.\<close>

lemma parse_keeps_success: "lr_success (fst (parse_list_objects_v2 xml out)) = lr_success out"
  by (simp add: parse_list_objects_v2_def Let_def)

lemma list_success_only_parsed:
  assumes "lr_success (list_answer (Answered code xml))"
  shows "200 \<le> code \<and> code < 300 \<and> snd (parse_list_objects_v2 xml (list_result_default\<lparr>lr_http_status := code, lr_retryable := status_retryable code\<rparr>))"
  using assms parse_keeps_success [of xml "list_result_default\<lparr>lr_http_status := code, lr_retryable := status_retryable code\<rparr>"]
  by (auto simp: list_result_default_def Let_def status_ok_def split: if_splits prod.splits)

end
