(* ===== verification/Lan_Hub.thy ===== *)
theory Lan_Hub
  imports Web_Server S3_Access Segment_Cache
begin

text \<open>
  The feed of the event in progress on the local network: the server beside the encoder that keeps a copy of what the
  session publishes and answers with it under the keys of the bucket (\<^verbatim>\<open>src/core/lan_object_server.{h,cpp}\<close>, on the server
  of \<^verbatim>\<open>http_server\<close> and the cache of \<^verbatim>\<open>segment_cache\<close>), and the transport a satellite reads it with
  (\<^verbatim>\<open>src/core/lan_transport.{h,cpp}\<close>). The texts the session publishes are kept as they are. Whether the disk takes a write
  is an input, as is how a request of libcurl ends. The encoder's handler of a cue is a parameter, as is the JSON parser.

  The lemmas say that a segment that is answered was confirmed under that number for the event that was asked for, that the
  newest confirmed segment is always there, that nothing is answered without the token, and that what the server sends is
  what the transport hands on.
\<close>

section \<open>The hub\<close>

record lan_config =
  lc_room_id :: string
  lc_auth_token :: string
  lc_max_cached_segments :: int

record lan_hub =
  lh_cfg :: lan_config
  lh_cache :: segment_cache
  lh_event_id :: string
  lh_event_json :: string
  lh_manifest_json :: string
  lh_live_json :: string
  lh_markers_json :: string

definition lan_hub_new :: "lan_config \<Rightarrow> (string, cache_folder) dir \<Rightarrow> lan_hub" where
  "lan_hub_new cfg rt = \<lparr>lh_cfg = cfg, lh_cache = cache_open rt ''pending'', lh_event_id = [], lh_event_json = [], lh_manifest_json = [],
     lh_live_json = [], lh_markers_json = []\<rparr>"

definition check_auth :: "lan_hub \<Rightarrow> http_in \<Rightarrow> bool" where
  "check_auth h req = (lc_auth_token (lh_cfg h) = [] \<or> map_of (hr_headers req) ''authorization'' = Some (''Bearer '' @ lc_auth_token (lh_cfg h)))"

definition chars_of :: "bytes \<Rightarrow> string" where
  "chars_of bs = map (\<lambda>b. char_of (unat b)) bs"

definition answer_404 :: http_out where
  "answer_404 = res_text 404 ''not found'' http_out_default"

definition unauthorized :: http_out where
  "unauthorized = res_text 401 ''unauthorized'' http_out_default"

definition media_out :: "bytes option \<Rightarrow> http_out" where
  "media_out m = (case m of None \<Rightarrow> answer_404 | Some b \<Rightarrow> http_out_default\<lparr>ho_content_type := ''video/mp4'', ho_body := chars_of b\<rparr>)"

text \<open>The number in \<^verbatim>\<open>segments/<seq>.m4s\<close>; \<^verbatim>\<open>stoull\<close> throws beyond 64 bits.\<close>

definition segment_number :: "string \<Rightarrow> u64 option" where
  "segment_number fname =
     (let digits = take (length fname - 4) fname
      in if length fname > 4 \<and> ends_with fname ''.m4s'' \<and> list_all is_digit digits \<and> read_nat digits \<le> u64_max
         then Some (read_nat digits) else None)"

text \<open>The objects of the event in progress.\<close>

definition event_file :: "string \<Rightarrow> lan_hub \<Rightarrow> http_out" where
  "event_file tail h =
     (if tail = ''manifest.json'' then res_json (lh_manifest_json h) http_out_default
      else if tail = ''event.json'' then res_json (lh_event_json h) http_out_default
      else if tail = ''markers.json''
      then (if lh_markers_json h = [] then answer_404 else res_json (lh_markers_json h) http_out_default)
      else if tail = ''init.mp4'' then media_out (load_init (lh_cache h))
      else if starts_with tail ''segments/''
      then (case segment_number (drop 9 tail) of None \<Rightarrow> answer_404 | Some n \<Rightarrow> media_out (cache_load (lh_cache h) n))
      else answer_404)"

definition handle_events :: "http_in \<Rightarrow> lan_hub \<Rightarrow> http_out" where
  "handle_events req h =
     (if \<not> check_auth h req then unauthorized
      else let rest = drop 8 (hr_path req);
               event_id = takeWhile (\<lambda>c. c \<noteq> CHR ''/'') rest;
               tail = drop (length event_id + 1) rest
           in if CHR ''/'' \<notin> set rest then answer_404
              else if event_id = [] \<or> event_id \<noteq> lh_event_id h then answer_404
              else event_file tail h)"

definition handle_live :: "http_in \<Rightarrow> lan_hub \<Rightarrow> http_out" where
  "handle_live req h =
     (if \<not> check_auth h req then unauthorized
      else if lh_live_json h = [] then answer_404 else res_json (lh_live_json h) http_out_default)"

type_synonym cue_callback = "string \<Rightarrow> string \<Rightarrow> lan_hub \<Rightarrow> (bool \<times> string) \<times> lan_hub"

definition handle_cue :: "(string \<Rightarrow> json option) \<Rightarrow> cue_callback option \<Rightarrow> http_in \<Rightarrow> lan_hub \<Rightarrow> http_out \<times> lan_hub" where
  "handle_cue parse cb req h =
     (if \<not> check_auth h req then (unauthorized, h)
      else case cb of
             None \<Rightarrow> (res_text 503 ''cue authoring is not available'' http_out_default, h)
           | Some on_cue \<Rightarrow>
               (case (case parse (hr_body req) of
                        None \<Rightarrow> None
                      | Some j \<Rightarrow> (case (json_value get_string j ''author'' [], json_value get_string j ''label'' []) of
                                     (Inr author, Inr label) \<Rightarrow> Some (author, label) | _ \<Rightarrow> None)) of
                  None \<Rightarrow> (res_text 400 ''malformed cue'' http_out_default, h)
                | Some (author, label) \<Rightarrow>
                    if label = [] then (res_text 400 ''a cue needs a name'' http_out_default, h)
                    else let ((ok, err), h1) = on_cue author label h
                         in if \<not> ok then (res_text 409 (if err = [] then ''the cue was refused'' else err) http_out_default, h1)
                            else (res_json (if lh_markers_json h1 = [] then ''{\"markers\":[]}'' else lh_markers_json h1) http_out_default, h1)))"

text \<open>The routes the constructor registers.\<close>

definition lan_server :: "(string \<Rightarrow> json option) \<Rightarrow> cue_callback option \<Rightarrow> lan_config \<Rightarrow> lan_hub http_server" where
  "lan_server parse cb cfg =
     route ''POST'' ''/api/cue'' (\<lambda>req h. let (r, h1) = handle_cue parse cb req h in (Inr r, h1))
      (route ''GET'' (''/rooms/'' @ lc_room_id cfg @ ''/live.json'') (\<lambda>req h. (Inr (handle_live req h), h))
       (route_prefix ''GET'' ''/events/'' (\<lambda>req h. (Inr (handle_events req h), h))
        \<lparr>hv_routes = [], hv_prefix_routes = [], hv_static_root = [], hv_files = (\<lambda>_. None)\<rparr>))"

text \<open>
  \<^verbatim>\<open>on_event_started\<close> in its two parts: the texts under the lock, and then the cache.
\<close>

definition event_named :: "string \<Rightarrow> string \<Rightarrow> lan_hub \<Rightarrow> lan_hub" where
  "event_named event_id event_json h = h\<lparr>lh_event_id := event_id, lh_event_json := event_json, lh_manifest_json := [], lh_markers_json := []\<rparr>"

definition event_opened :: "bool \<Rightarrow> string \<Rightarrow> bytes \<Rightarrow> lan_hub \<Rightarrow> lan_hub" where
  "event_opened disk_ok event_id init_bytes h = h\<lparr>lh_cache := fst (store_init disk_ok init_bytes (set_event event_id (lh_cache h)))\<rparr>"

definition on_event_started :: "bool \<Rightarrow> string \<Rightarrow> string \<Rightarrow> bytes \<Rightarrow> lan_hub \<Rightarrow> lan_hub" where
  "on_event_started disk_ok event_id event_json init_bytes h = event_opened disk_ok event_id init_bytes (event_named event_id event_json h)"

definition on_segment_confirmed :: "(bytes \<Rightarrow> string) \<Rightarrow> bool \<Rightarrow> u64 \<Rightarrow> bytes \<Rightarrow> lan_hub \<Rightarrow> lan_hub" where
  "on_segment_confirmed sha256_hex disk_ok seq bytes h =
     (let c = fst (cache_store sha256_hex disk_ok seq bytes [] (lh_cache h)); limit = lc_max_cached_segments (lh_cfg h)
      in h\<lparr>lh_cache := (if int (cache_count c) > limit
                         then fst (prune_below ((lowest_seq c + nat (int (cache_count c) - limit)) mod 2 ^ 64) c) else c)\<rparr>)"

definition on_manifest_published :: "string \<Rightarrow> lan_hub \<Rightarrow> lan_hub" where
  "on_manifest_published js h = h\<lparr>lh_manifest_json := js\<rparr>"

definition on_live_published :: "string \<Rightarrow> lan_hub \<Rightarrow> lan_hub" where
  "on_live_published js h = h\<lparr>lh_live_json := js\<rparr>"

definition on_markers_published :: "string \<Rightarrow> lan_hub \<Rightarrow> lan_hub" where
  "on_markers_published js h = h\<lparr>lh_markers_json := js\<rparr>"


section \<open>The transport of a satellite\<close>

record lan_transport_config =
  lt_host :: string
  lt_port :: int
  lt_auth_token :: string

definition lan_url_for :: "lan_transport_config \<Rightarrow> string \<Rightarrow> string" where
  "lan_url_for cfg key = ''http://'' @ lt_host cfg @ '':'' @ int_str (lt_port cfg) @ ''/'' @ key"

definition lan_request_headers :: "lan_transport_config \<Rightarrow> string list" where
  "lan_request_headers cfg = (if lt_auth_token cfg \<noteq> [] then [''Authorization: Bearer '' @ lt_auth_token cfg] else [])"

text \<open>The result of \<^verbatim>\<open>get\<close>, and whether the server was reached.\<close>

fun lan_get_answer :: "bytes http_answer \<Rightarrow> get_result \<times> bool" where
  "lan_get_answer (Not_performed e b) = (get_result_default\<lparr>gr_error := e, gr_body := Bytes b\<rparr>, False)"
| "lan_get_answer (Answered code b) =
     ((if status_ok code then get_result_default\<lparr>gr_success := True, gr_http_status := code, gr_body := Bytes b\<rparr>
       else get_result_default\<lparr>gr_http_status := code, gr_retryable := status_retryable code, gr_error := status_error code, gr_body := Bytes b\<rparr>), True)"

definition cue_payload :: "string \<Rightarrow> string \<Rightarrow> json" where
  "cue_payload author label = JObj [(''author'', JStr author), (''label'', JStr label)]"

text \<open>\<^verbatim>\<open>publish_cue\<close>: the merged list or the error, and whether the server was reached.\<close>

fun cue_answer :: "string http_answer \<Rightarrow> (string + string) \<times> bool" where
  "cue_answer (Not_performed e b) = (Inl e, False)"
| "cue_answer (Answered code resp) =
     (if status_ok code then Inr resp else Inl (status_error code @ (if resp \<noteq> [] then '': '' @ resp else [])), True)"


section \<open>Reading through the server\<close>

lemma events_routed:
  assumes "hr_method req = ''GET''" "hr_path req = ''/events/'' @ rest"
  shows "answer_of (lan_server parse cb cfg) req h = (handle_events req h, h)"
  using assms by (simp add: answer_of_def find_handler_def lan_server_def route_def route_prefix_def)

lemma segment_number_seq_name: "n < 10 ^ 15 \<Longrightarrow> segment_number (seq_name n @ ''.m4s'') = Some n"
proof -
  assume n: "n < 10 ^ 15"
  have "list_all is_digit (seq_name n)"
    using nat_str_digits [of _ n] by (auto simp: seq_name_eq [OF n] pad8_def list_all_iff is_digit_code)
  moreover have "seq_name n \<noteq> []" by (simp add: seq_name_eq [OF n] pad8_def)
  moreover have "n \<le> u64_max" using n by (simp add: u64_max_def)
  ultimately show ?thesis by (simp add: segment_number_def ends_with_def read_seq_name [OF n] Let_def)
qed

lemma path_parts:
  assumes "CHR ''/'' \<notin> set ev" "hr_path req = ''/'' @ event_prefix_for ev @ tail"
  shows "drop 8 (hr_path req) = ev @ CHR ''/'' # tail" "takeWhile (\<lambda>c. c \<noteq> CHR ''/'') (drop 8 (hr_path req)) = ev"
    "drop (length ev + 1) (drop 8 (hr_path req)) = tail"
  using assms by (simp_all add: event_prefix_for_def takeWhile_until)

text \<open>What a satellite that may read gets for an object of an event, as the server answers it.\<close>

lemma event_answer:
  assumes "check_auth h req" "hr_method req = ''GET''" "hr_path req = ''/'' @ event_prefix_for ev @ tail" "CHR ''/'' \<notin> set ev" "ev \<noteq> []"
  shows "answer_of (lan_server parse cb cfg) req h = (if ev = lh_event_id h then event_file tail h else answer_404, h)"
proof -
  note q = path_parts [OF assms(4,3)]
  have m: "CHR ''/'' \<in> set (drop 8 (hr_path req))" unfolding q(1) by simp
  have "handle_events req h = (if ev = lh_event_id h then event_file tail h else answer_404)"
    unfolding handle_events_def Let_def q(2,3) using assms(1,5) m by simp
  moreover have r: "hr_path req = ''/events/'' @ ev @ ''/'' @ tail" using assms(3) by (simp add: event_prefix_for_def)
  ultimately show ?thesis using events_routed [OF assms(2) r] by (simp only:)
qed

lemma segment_answer:
  assumes "check_auth h req" "hr_method req = ''GET''" "hr_path req = ''/'' @ segment_key_for ev n" "CHR ''/'' \<notin> set ev" "ev \<noteq> []" "n < 10 ^ 15"
  shows "answer_of (lan_server parse cb cfg) req h = (if ev = lh_event_id h then media_out (cache_load (lh_cache h) n) else answer_404, h)"
proof -
  have p: "hr_path req = ''/'' @ event_prefix_for ev @ ''segments/'' @ seq_name n @ ''.m4s''"
    using assms(3) unfolding segment_key_for_def by (simp only: append_assoc)
  have "event_file (''segments/'' @ seq_name n @ ''.m4s'') h = media_out (cache_load (lh_cache h) n)"
    using segment_number_seq_name [OF assms(6)] by (simp add: event_file_def starts_with_def)
  then show ?thesis using event_answer [OF assms(1,2) p assms(4,5)] by simp
qed

lemma media_out_ok: "ho_status (media_out m) = 200 \<longleftrightarrow> m \<noteq> None" "m = Some b \<Longrightarrow> ho_body (media_out m) = chars_of b"
  by (auto simp: media_out_def answer_404_def res_text_def http_out_default_def split: option.split)

lemma raw_chars [simp]: "raw_bytes (chars_of bs) = bs"
proof -
  have "word_of_nat (of_char (char_of (unat b) :: char)) = b" for b :: "8 word"
  proof -
    have "unat b < 2 ^ LENGTH(8)" by (rule unsigned_less)
    then have "unat b < 256" by simp
    then show ?thesis by simp
  qed
  then show ?thesis by (simp add: raw_bytes_def chars_of_def comp_def map_idI)
qed


section \<open>Every history of the hub\<close>

datatype hub_op =
    Hub_Started bool string string bytes
  | Hub_Confirmed bool u64 bytes
  | Hub_Manifest string
  | Hub_Live string
  | Hub_Markers string

fun hub_apply :: "(bytes \<Rightarrow> string) \<Rightarrow> hub_op \<Rightarrow> lan_hub \<Rightarrow> lan_hub" where
  "hub_apply sha (Hub_Started w ev js ini) h = on_event_started w ev js ini h"
| "hub_apply sha (Hub_Confirmed w n b) h = on_segment_confirmed sha w n b h"
| "hub_apply sha (Hub_Manifest js) h = on_manifest_published js h"
| "hub_apply sha (Hub_Live js) h = on_live_published js h"
| "hub_apply sha (Hub_Markers js) h = on_markers_published js h"

definition hub_run :: "(bytes \<Rightarrow> string) \<Rightarrow> lan_config \<Rightarrow> (string, cache_folder) dir \<Rightarrow> hub_op list \<Rightarrow> lan_hub" where
  "hub_run sha cfg rt ops = fold (hub_apply sha) ops (lan_hub_new cfg rt)"

lemma hub_run_snoc [simp]: "hub_run sha cfg rt (ops @ [x]) = hub_apply sha x (hub_run sha cfg rt ops)"
  by (simp add: hub_run_def)

text \<open>Segment \<open>n\<close> was confirmed with these bytes while \<open>ev\<close> was the event of the cache.\<close>

definition confirmed_in :: "(bytes \<Rightarrow> string) \<Rightarrow> lan_config \<Rightarrow> (string, cache_folder) dir \<Rightarrow> hub_op list \<Rightarrow> string \<Rightarrow> u64 \<Rightarrow> bytes \<Rightarrow> bool" where
  "confirmed_in sha cfg rt ops ev n b = (\<exists>pre w post. ops = pre @ Hub_Confirmed w n b # post \<and> ca_event_id (lh_cache (hub_run sha cfg rt pre)) = ev)"

lemma confirmed_snoc: "confirmed_in sha cfg rt ops ev n b \<Longrightarrow> confirmed_in sha cfg rt (ops @ [x]) ev n b"
  unfolding confirmed_in_def by (metis append_Cons append_assoc)

lemma cache_events [simp]:
  "ca_event_id (set_event e c) = e" "ca_event_id (fst (store_init w b c)) = ca_event_id c"
  "ca_event_id (fst (cache_store sha w n b ck c)) = ca_event_id c" "ca_event_id (fst (prune_below k c)) = ca_event_id c"
  by (auto simp: set_event_def build_index_def ensure_dir_def sweep_orphans_def store_init_def write_folder_def cache_store_def
      prune_below_def Let_def split: option.split)

lemma hub_run_inv:
  "cache_ok (lh_cache (hub_run sha cfg rt ops)) \<and> lh_cfg (hub_run sha cfg rt ops) = cfg \<and>
   (lh_event_id (hub_run sha cfg rt ops) \<noteq> [] \<longrightarrow> ca_event_id (lh_cache (hub_run sha cfg rt ops)) = lh_event_id (hub_run sha cfg rt ops))"
proof (induction ops rule: rev_induct)
  case Nil
  show ?case by (simp add: hub_run_def lan_hub_new_def cache_open_ok)
next
  case (snoc x ops)
  then show ?case
    by (cases x) (auto simp: on_event_started_def event_opened_def event_named_def on_segment_confirmed_def on_manifest_published_def
        on_live_published_def on_markers_published_def Let_def cache_store.put_good cache_store.prune_get store_init_ok set_event_ok)
qed

lemma hub_run_on_disk: "on_disk (ca_root (lh_cache (hub_run sha cfg rt ops))) d n b \<Longrightarrow>
   on_disk rt d n b \<or> confirmed_in sha cfg rt ops d n b"
proof (induction ops arbitrary: d n b rule: rev_induct)
  case Nil
  then show ?case by (simp add: hub_run_def lan_hub_new_def cache_open_def)
next
  case (snoc x ops)
  let ?h = "hub_run sha cfg rt ops"
  have new: "confirmed_in sha cfg rt (ops @ [Hub_Confirmed w m y]) (ca_event_id (lh_cache ?h)) m y" for w m y
    unfolding confirmed_in_def by blast
  have "on_disk (ca_root (lh_cache ?h)) d n b \<or> confirmed_in sha cfg rt (ops @ [x]) d n b"
    using snoc.prems new
    by (cases x) (auto simp: on_event_started_def event_opened_def event_named_def on_segment_confirmed_def on_manifest_published_def
        on_live_published_def on_markers_published_def Let_def split: if_splits
        dest!: on_disk_store on_disk_prune on_disk_set_event on_disk_store_init)
  then show ?case using snoc.IH confirmed_snoc by blast
qed


section \<open>What a satellite is told\<close>

lemma cache_load_on_disk: "cache_load c n = Some b \<Longrightarrow> on_disk (ca_root c) (ca_event_id c) n b"
  by (auto simp: cache_load_def event_folder_def on_disk_def split: option.splits)

lemma not_ok_answers [simp]: "ho_status unauthorized = 401" "ho_status answer_404 = 404"
  by (simp_all add: unauthorized_def answer_404_def res_text_def http_out_default_def)

lemma events_refused:
  assumes "hr_method req = ''GET''" "hr_path req = ''/events/'' @ rest" "\<not> check_auth h req"
  shows "answer_of (lan_server parse cb cfg) req h = (unauthorized, h)"
  using events_routed [OF assms(1,2)] assms(3) by (simp add: handle_events_def)

lemma nameless_event:
  assumes "hr_method req = ''GET''" "hr_path req = ''/events/'' @ CHR ''/'' # rest" "check_auth h req"
  shows "answer_of (lan_server parse cb cfg) req h = (answer_404, h)"
  using events_routed [OF assms(1,2)] assms(2,3) by (simp add: handle_events_def)

lemma segment_path: "hr_path req = ''/'' @ segment_key_for ev n \<Longrightarrow> hr_path req = ''/events/'' @ ev @ CHR ''/'' # ''segments/'' @ seq_name n @ ''.m4s''"
  by (simp add: segment_key_for_def event_prefix_for_def)

lemma segment_served:
  assumes "hr_method req = ''GET''" "hr_path req = ''/'' @ segment_key_for ev n" "CHR ''/'' \<notin> set ev" "n < 10 ^ 15"
    and "answer_of (lan_server parse cb cfg) req h = (res, h1)" "ho_status res = 200"
  shows "check_auth h req \<and> ev = lh_event_id h \<and> ev \<noteq> [] \<and> h1 = h \<and> (\<exists>b. cache_load (lh_cache h) n = Some b \<and> ho_body res = chars_of b)"
proof -
  note p = segment_path [OF assms(2)]
  have au: "check_auth h req" using events_refused [OF assms(1) p, of h parse cb cfg] assms(5,6) by (cases "check_auth h req") auto
  have ne: "ev \<noteq> []"
  proof
    assume "ev = []"
    then have "hr_path req = ''/events/'' @ CHR ''/'' # ''segments/'' @ seq_name n @ ''.m4s''" using p by simp
    from nameless_event [OF assms(1) this au, of parse cb cfg] show False using assms(5,6) by simp
  qed
  have r: "(res, h1) = (if ev = lh_event_id h then media_out (cache_load (lh_cache h) n) else answer_404, h)"
    using segment_answer [OF au assms(1,2,3) ne assms(4), of parse cb cfg] assms(5) by simp
  have ev: "ev = lh_event_id h" using r assms(6) by (auto split: if_splits)
  then have "res = media_out (cache_load (lh_cache h) n)" "h1 = h" using r by simp_all
  then show ?thesis using au ne ev assms(6) media_out_ok by auto
qed

definition ex_lan :: lan_config where
  "ex_lan = \<lparr>lc_room_id = ''hall'', lc_auth_token = ''t'', lc_max_cached_segments = 2\<rparr>"

definition ex_ask :: "string \<Rightarrow> string \<Rightarrow> http_in" where
  "ex_ask key token = \<lparr>hr_method = ''GET'', hr_path = CHR ''/'' # key, hr_query = [], hr_headers = [(''authorization'', ''Bearer '' @ token)], hr_body = []\<rparr>"

definition ex_hub_ops :: "hub_op list" where
  "ex_hub_ops = [Hub_Started True ''e'' ''{}'' [1], Hub_Confirmed True 1 [7], Hub_Confirmed True 2 [8, 9]]"

lemma ex_hub_answer:
  "answer_of (lan_server (\<lambda>_. None) None ex_lan) (ex_ask (segment_key_for ''e'' 2) ''t'') (hub_run (\<lambda>_. []) ex_lan [] ex_hub_ops) =
    (media_out (Some [8, 9]), hub_run (\<lambda>_. []) ex_lan [] ex_hub_ops)"
proof -
  let ?h = "hub_run (\<lambda>_. []) ex_lan [] ex_hub_ops"
  have h: "lh_cfg ?h = ex_lan" "lh_event_id ?h = ''e''" "cache_load (lh_cache ?h) 2 = Some [8, 9]" by code_simp+
  have au: "check_auth ?h (ex_ask (segment_key_for ''e'' 2) ''t'')" unfolding check_auth_def h(1) by (simp add: ex_ask_def ex_lan_def)
  have q: "hr_method (ex_ask (segment_key_for ''e'' 2) ''t'') = ''GET''"
    "hr_path (ex_ask (segment_key_for ''e'' 2) ''t'') = ''/'' @ segment_key_for ''e'' 2" by (simp_all add: ex_ask_def)
  have "CHR ''/'' \<notin> set ''e''" "''e'' \<noteq> []" "(2 :: nat) < 10 ^ 15" by simp_all
  from segment_answer [OF au q this] show ?thesis by (simp only: h refl if_True)
qed




section \<open>The newest segment\<close>

lemma sorted_span: "sorted xs \<Longrightarrow> distinct xs \<Longrightarrow> xs \<noteq> [] \<Longrightarrow> list_all (\<lambda>s. s \<le> n) xs \<Longrightarrow> hd xs + length xs \<le> Suc n"
proof (induction xs)
  case (Cons x xs)
  show ?case
  proof (cases xs)
    case Nil
    then show ?thesis using Cons.prems by simp
  next
    case (Cons y ys)
    then have "x < y" using Cons.prems by auto
    then show ?thesis using Cons.IH Cons.prems Cons by simp
  qed
qed simp

lemma newest_kept:
  assumes "cache_ok (lh_cache h)" "list_all (\<lambda>s. s \<le> n) (cached_seqs (lh_cache h))" "n \<le> u64_max" "1 \<le> lc_max_cached_segments (lh_cfg h)"
  shows "cache_load (lh_cache (on_segment_confirmed sha True n b h)) n = Some b"
proof -
  let ?c = "fst (cache_store sha True n b [] (lh_cache h))" and ?m = "lc_max_cached_segments (lh_cfg h)"
  let ?k = "(lowest_seq ?c + nat (int (cache_count ?c) - ?m)) mod 2 ^ 64"
  obtain c' ok where c: "cache_store sha True n b [] (lh_cache h) = (c', ok)" by (cases "cache_store sha True n b [] (lh_cache h)")
  then have "ok" by (simp add: cache_store_def Let_def split: if_splits)
  note st = cache_store_load [OF c [unfolded this(1) [THEN eqTrueI]] assms(1)]
  have ix: "sorted (cached_seqs c')" "distinct (cached_seqs c')" using st(2) by (auto simp: cache_ok_def cached_seqs_def)
  have le: "list_all (\<lambda>s. s \<le> n) (cached_seqs c')" "cached_seqs c' \<noteq> []"
    using st(1,2) assms(1,2) by (auto simp: cache_ok_def cached_seqs_def list_all_iff split: if_splits)
  have "int (cache_count c') > ?m \<Longrightarrow> lowest_seq c' + nat (int (cache_count c') - ?m) \<le> n"
    using sorted_span [OF ix le(2,1)] le(2) assms(4) by (simp add: lowest_seq_def cache_count_def cached_seqs_def)
  moreover have "x mod 2 ^ 64 \<le> x" for x :: nat by (rule mod_less_eq_dividend)
  ultimately have "\<not> n < ?k" if "int (cache_count c') > ?m" using that c by (metis fst_conv leD le_trans)
  then show ?thesis
    using st(1,2) c by (simp add: on_segment_confirmed_def Let_def prune_below_load)
qed

text \<open>
  C29: A satellite that follows the live edge is never behind the hub: once a segment at least as new as all the hub holds is
  confirmed and written, it is answered, byte for byte, however few segments the hub may keep; making room never takes it.
\<close>

theorem lan_offers_newest:
  assumes "check_auth (hub_run sha cfg rt ops) req" "hr_method req = ''GET''" "hr_path req = ''/'' @ segment_key_for (lh_event_id (hub_run sha cfg rt ops)) n"
    and "CHR ''/'' \<notin> set (lh_event_id (hub_run sha cfg rt ops))" "lh_event_id (hub_run sha cfg rt ops) \<noteq> []"
    and "n < 10 ^ 15" "1 \<le> lc_max_cached_segments cfg" "list_all (\<lambda>s. s \<le> n) (cached_seqs (lh_cache (hub_run sha cfg rt ops)))"
  shows "fst (answer_of (lan_server parse cb cfg) req (on_segment_confirmed sha True n b (hub_run sha cfg rt ops))) = media_out (Some b)"
proof -
  let ?h = "hub_run sha cfg rt ops"
  have eq: "lh_event_id (on_segment_confirmed sha True n b ?h) = lh_event_id ?h" "lh_cfg (on_segment_confirmed sha True n b ?h) = lh_cfg ?h"
    by (simp_all add: on_segment_confirmed_def Let_def)
  have au: "check_auth (on_segment_confirmed sha True n b ?h) req" using assms(1) by (simp add: check_auth_def eq)
  have "n \<le> u64_max" using assms(6) by (simp add: u64_max_def)
  then have "cache_load (lh_cache (on_segment_confirmed sha True n b ?h)) n = Some b"
    using hub_run_inv [of sha cfg rt ops] assms(7,8) by (intro newest_kept) simp_all
  then show ?thesis using segment_answer [OF au assms(2,3,4,5,6)] by (simp add: eq)
qed

theorem lan_offers_newest_witness:
  "fst (answer_of (lan_server (\<lambda>_. None) None ex_lan) (ex_ask (segment_key_for ''e'' 9) ''t'')
      (on_segment_confirmed (\<lambda>_. []) True 9 [5] (hub_run (\<lambda>_. []) ex_lan [] ex_hub_ops))) = media_out (Some [5])"
proof -
  let ?h = "hub_run (\<lambda>_. []) ex_lan [] ex_hub_ops"
  have h: "lh_cfg ?h = ex_lan" "lh_event_id ?h = ''e''" "cached_seqs (lh_cache ?h) = [1, 2]" by code_simp+
  have au: "check_auth ?h (ex_ask (segment_key_for ''e'' 9) ''t'')" unfolding check_auth_def h(1) by (simp add: ex_ask_def ex_lan_def)
  have q: "hr_method (ex_ask (segment_key_for ''e'' 9) ''t'') = ''GET''"
    "hr_path (ex_ask (segment_key_for ''e'' 9) ''t'') = ''/'' @ segment_key_for (lh_event_id ?h) 9" unfolding h by (simp_all add: ex_ask_def)
  have "CHR ''/'' \<notin> set (lh_event_id ?h)" "lh_event_id ?h \<noteq> []" "(9 :: nat) < 10 ^ 15" "1 \<le> lc_max_cached_segments ex_lan"
    "list_all (\<lambda>s. s \<le> 9) (cached_seqs (lh_cache ?h))" unfolding h by (simp_all add: ex_lan_def)
  from lan_offers_newest [OF au q this] show ?thesis .
qed


section \<open>Without the token\<close>

lemma best_prefix_registered: "best_prefix key path k best prs = Some f \<Longrightarrow> best = Some f \<or> f \<in> snd ` set prs"
  by (induction prs arbitrary: k best) (auto simp: Let_def split: if_splits)

lemma find_handler_registered: "find_handler srv req = Some f \<Longrightarrow> f \<in> snd ` set (hv_routes srv) \<union> snd ` set (hv_prefix_routes srv)"
  by (auto simp: find_handler_def dest: map_of_SomeD best_prefix_registered split: option.splits intro: rev_image_eqI)

text \<open>
  C28: Nothing of the event leaves the hub without its token: a request that does not carry it is answered with one of the
  three refusals, the same whatever the hub holds, and never reaches the encoder.
\<close>

theorem lan_needs_token:
  assumes "lc_auth_token (lh_cfg h) \<noteq> []" "map_of (hr_headers req) ''authorization'' \<noteq> Some (''Bearer '' @ lc_auth_token (lh_cfg h))"
  shows "answer_of (lan_server parse cb cfg) req h \<in>
    {(unauthorized, h), (answer_404, h), (res_text 405 ''method not allowed'' http_out_default, h)}"
proof -
  have na: "\<not> check_auth h req" using assms by (simp add: check_auth_def)
  have s: "serve_static (lan_server parse cb cfg) req = None"
    by (simp add: serve_static_def lan_server_def route_def route_prefix_def Let_def)
  have "hv_routes (lan_server parse cb cfg) =
      [(''GET /rooms/'' @ lc_room_id cfg @ ''/live.json'', \<lambda>req h. (Inr (handle_live req h), h)),
       (''POST /api/cue'', \<lambda>req h. let (r, h1) = handle_cue parse cb req h in (Inr r, h1))]"
    "hv_prefix_routes (lan_server parse cb cfg) = [(''GET /events/'', \<lambda>req h. (Inr (handle_events req h), h))]"
    by (simp_all add: lan_server_def route_def route_prefix_def)
  note routes = this
  have f: "f req h = (Inr unauthorized, h)" if "find_handler (lan_server parse cb cfg) req = Some f" for f
    using find_handler_registered [OF that] na unfolding routes
    by (auto simp: handle_cue_def handle_live_def handle_events_def)
  show ?thesis
    by (cases "find_handler (lan_server parse cb cfg) req") (simp_all add: answer_of_def s f answer_404_def)
qed

theorem lan_needs_token_witness:
  "answer_of (lan_server (\<lambda>_. None) None ex_lan) (ex_ask (segment_key_for ''e'' 2) ''guess'') (hub_run (\<lambda>_. []) ex_lan [] ex_hub_ops) \<in>
    {(unauthorized, hub_run (\<lambda>_. []) ex_lan [] ex_hub_ops), (answer_404, hub_run (\<lambda>_. []) ex_lan [] ex_hub_ops),
     (res_text 405 ''method not allowed'' http_out_default, hub_run (\<lambda>_. []) ex_lan [] ex_hub_ops)}"
proof -
  let ?h = "hub_run (\<lambda>_. []) ex_lan [] ex_hub_ops"
  have h: "lh_cfg ?h = ex_lan" by code_simp
  have "lc_auth_token (lh_cfg ?h) \<noteq> []"
    "map_of (hr_headers (ex_ask (segment_key_for ''e'' 2) ''guess'')) ''authorization'' \<noteq> Some (''Bearer '' @ lc_auth_token (lh_cfg ?h))"
    unfolding h by (simp_all add: ex_lan_def ex_ask_def)
  from lan_needs_token [OF this] show ?thesis .
qed

text \<open>
  Between the two halves of \<^verbatim>\<open>on_event_started\<close> the hub already answers for the new event and the cache is still the old
  one's: a segment of the event that ended is answered as a segment of the one that begins.
\<close>

lemma old_segment_under_new_event:
  assumes "check_auth h req" "hr_method req = ''GET''" "hr_path req = ''/'' @ segment_key_for new n" "CHR ''/'' \<notin> set new" "new \<noteq> []"
    "n < 10 ^ 15" "cache_load (lh_cache h) n = Some b"
  shows "fst (answer_of (lan_server parse cb cfg) req (event_named new js h)) = media_out (Some b)"
proof -
  have "check_auth (event_named new js h) req" using assms(1) by (simp add: check_auth_def event_named_def)
  then show ?thesis using segment_answer [OF _ assms(2-6), of "event_named new js h"] assms(7) by (simp add: event_named_def)
qed

text \<open>A plus sign in a path is decoded to a space, so a room named with one never finds its live pointer on the hub.\<close>

lemma url_decode_plain: "CHR ''%'' \<notin> set s \<Longrightarrow> url_decode s = map (\<lambda>c. if c = CHR ''+'' then CHR '' '' else c) s"
proof (induction s)
  case (Cons c s)
  have "url_decode (c # s) = (if c = CHR ''+'' then CHR '' '' else c) # url_decode s"
    using Cons.prems unfolding url_decode.simps(2) [of c s] by (auto simp del: url_decode.simps split: list.split)
  then show ?case using Cons by (simp del: url_decode.simps)
qed simp

lemma plus_room_not_found:
  assumes "CHR ''+'' \<in> set room" "CHR ''%'' \<notin> set room"
  shows "url_decode (''/rooms/'' @ room @ ''/live.json'') \<noteq> ''/rooms/'' @ room @ ''/live.json''"
proof
  assume e: "url_decode (''/rooms/'' @ room @ ''/live.json'') = ''/rooms/'' @ room @ ''/live.json''"
  have "CHR ''+'' \<notin> set (url_decode (''/rooms/'' @ room @ ''/live.json''))"
    using assms(2) by (subst url_decode_plain) (auto simp del: url_decode.simps split: if_splits)
  then show False unfolding e using assms(1) by simp
qed

end
